(* ===== verification/Prelude.thy ===== *)
theory Prelude
  imports
    "HOL-Library.Word"
    "HOL-Library.List_Lexorder"
    "HOL-Library.Char_ord"
begin

text \<open>
  Shared vocabulary of the development: the machine types and byte strings of the Go
  code, its errors and panics as values, the lexicographic order behind
  \<open>bytes.Compare\<close>, the slice operations of the \<open>slices\<close> package, and the facts on
  sorted key lists that every storage component uses.
\<close>

section \<open>Types\<close>

type_synonym byte = "8 word"
type_synonym bytes = "byte list"
type_synonym u16 = "16 word"
type_synonym u32 = "32 word"
type_synonym u64 = "64 word"

text \<open>
  Errors. The sentinel errors that callers tell apart with \<open>errors.Is\<close> are constructors
  of their own; the others carry their message. \<open>Panic\<close> is a failed \<open>check\<close> or an
  explicit \<open>panic\<close>, which unwinds instead of returning.
\<close>

datatype err =
    Error string
  | EOF
  | ErrUnexpectedEOF
  | ErrEntryTooLarge
  | ErrBadSum
  | ErrBadEntryOp
  | ErrLogHeaderCorrupt
  | ErrOutOfRange
  | ErrKVClosed
  | ErrTXDone
  | ErrTXConflict
  | Panic string

type_synonym 'a res = "err + 'a"

text \<open>Sequencing of fallible steps: the first error is the result.\<close>

definition rbind :: "'a res \<Rightarrow> ('a \<Rightarrow> 'b res) \<Rightarrow> 'b res" where
  "rbind m f = (case m of Inl e \<Rightarrow> Inl e | Inr x \<Rightarrow> f x)"

lemma rbind_simps [simp]:
  "rbind (Inl e) f = Inl e"
  "rbind (Inr x) f = f x"
  by (simp_all add: rbind_def)

lemma rbind_Inr_iff:
  "rbind m f = Inr y \<longleftrightarrow> (\<exists>x. m = Inr x \<and> f x = Inr y)"
  by (cases m) simp_all

text \<open>Sequencing of steps that thread a state: the state survives an error.\<close>

definition sbind :: "'s \<times> 'a res \<Rightarrow> ('s \<Rightarrow> 'a \<Rightarrow> 's \<times> 'b res) \<Rightarrow> 's \<times> 'b res" where
  "sbind m k = (case m of (s, Inl e) \<Rightarrow> (s, Inl e) | (s, Inr x) \<Rightarrow> k s x)"

lemma sbind_simps [simp]:
  "sbind (s, Inl e) k = (s, Inl e)"
  "sbind (s, Inr x) k = k s x"
  by (simp_all add: sbind_def)

lemma sbind_Inr_iff:
  "sbind m k = (s', Inr y) \<longleftrightarrow> (\<exists>s x. m = (s, Inr x) \<and> k s x = (s', Inr y))"
  by (cases m; cases "snd m") auto

lemma sbind_cases:
  assumes "sbind m k = (s', r)"
  obtains (err) e where "m = (s', Inl e)" "r = Inl e"
    | (ok) s x where "m = (s, Inr x)" "k s x = (s', r)"
  using assms by (cases m; cases "snd m") auto

section \<open>Collections of facts\<close>

named_theorems codec_simps \<open>round-trip and length facts of the byte encodings\<close>
named_theorems sorted_simps \<open>facts on strictly sorted key lists\<close>

section \<open>Byte strings\<close>

text \<open>\<open>bytes.Compare\<close>: \<open>-1\<close>, \<open>0\<close> or \<open>1\<close>; the order is lexicographic on unsigned bytes.\<close>

definition bytes_Compare :: "bytes \<Rightarrow> bytes \<Rightarrow> int" where
  "bytes_Compare a b = (if a < b then -1 else if a = b then 0 else 1)"

lemma bytes_Compare_simps [simp]:
  "bytes_Compare a b < 0 \<longleftrightarrow> a < b"
  "bytes_Compare a b = 0 \<longleftrightarrow> a = b"
  "0 < bytes_Compare a b \<longleftrightarrow> b < a"
  "bytes_Compare a b \<le> 0 \<longleftrightarrow> a \<le> b"
  "0 \<le> bytes_Compare a b \<longleftrightarrow> b \<le> a"
  by (auto simp: bytes_Compare_def)

text \<open>The bytes of a Go string constant.\<close>

definition str_bytes :: "string \<Rightarrow> bytes" where
  "str_bytes s = map of_char s"

text \<open>A common prefix does not matter to the order; a proper extension is larger.\<close>

lemma append_less_append [simp]: "(xs :: 'a::linorder list) @ ys < xs @ zs \<longleftrightarrow> ys < zs"
  by (induction xs) auto

lemma append_le_append [simp]: "(xs :: 'a::linorder list) @ ys \<le> xs @ zs \<longleftrightarrow> ys \<le> zs"
  by (induction xs) auto

lemma le_append_self [simp]: "(xs :: 'a::linorder list) \<le> xs @ ys"
  using append_le_append[of xs "[]" ys] by (simp del: append_le_append)

lemma less_append_self [simp]: "(xs :: 'a::linorder list) < xs @ y # ys"
  using append_less_append[of xs "[]" "y # ys"] by (simp del: append_less_append)

text \<open>Two strings of the same length that differ are ordered by their difference alone.\<close>

lemma append_less_same_length:
  "length xs = length ys \<Longrightarrow>
    (xs :: 'a::linorder list) @ us < ys @ vs \<longleftrightarrow> xs < ys \<or> xs = ys \<and> us < vs"
  by (induction xs ys rule: list_induct2) auto

text \<open>Words as numbers.\<close>

lemma unat_byte_less [simp]: "unat (b :: byte) < 256"
  using unsigned_less[of b] by simp

lemma unat_u16_less [simp]: "unat (w :: u16) < 65536"
  using unsigned_less[of w] by simp

lemma unat_u32_less [simp]: "unat (w :: u32) < 4294967296"
  using unsigned_less[of w] by simp

lemma unat_u64_less [simp]: "unat (w :: u64) < 18446744073709551616"
  using unsigned_less[of w] by simp

lemma unat_word_of_nat_less:
  "n < 2 ^ LENGTH('a::len) \<Longrightarrow> unat (word_of_nat n :: 'a word) = n"
  by (simp add: unat_of_nat)

lemma unat_word_of_nat_byte: "unat (word_of_nat n :: byte) = n mod 256"
  by (simp only: unat_of_nat) simp

section \<open>Slices\<close>

lemma drop_take_split: "drop a xs = take n (drop a xs) @ drop (a + n) xs"
  by (metis append_take_drop_id drop_drop add.commute)

text \<open>\<open>slices.Insert\<close> at an index within bounds, \<open>slices.Delete\<close> of one element.\<close>

definition slices_Insert :: "'a list \<Rightarrow> nat \<Rightarrow> 'a \<Rightarrow> 'a list" where
  "slices_Insert xs i x = take i xs @ x # drop i xs"

definition slices_Delete1 :: "'a list \<Rightarrow> nat \<Rightarrow> 'a list" where
  "slices_Delete1 xs i = take i xs @ drop (Suc i) xs"

lemma length_slices_Insert [simp]: "length (slices_Insert xs i x) = Suc (length xs)"
  by (simp add: slices_Insert_def)

lemma set_slices_Insert [simp]: "set (slices_Insert xs i x) = insert x (set xs)"
proof -
  have "set xs = set (take i xs) \<union> set (drop i xs)" by (metis append_take_drop_id set_append)
  then show ?thesis by (auto simp: slices_Insert_def)
qed

lemma map_slices_Insert: "map f (slices_Insert xs i x) = slices_Insert (map f xs) i (f x)"
  by (simp add: slices_Insert_def take_map drop_map)

text \<open>\<open>slices.IndexFunc\<close>: the first index whose element satisfies the predicate.\<close>

fun slices_IndexFunc :: "('a \<Rightarrow> bool) \<Rightarrow> 'a list \<Rightarrow> nat option" where
  "slices_IndexFunc p [] = None"
| "slices_IndexFunc p (x # xs) =
     (if p x then Some 0 else map_option Suc (slices_IndexFunc p xs))"

lemma slices_IndexFunc_SomeD:
  "slices_IndexFunc p xs = Some i \<Longrightarrow> i < length xs \<and> p (xs ! i) \<and> (\<forall>j < i. \<not> p (xs ! j))"
proof (induction xs arbitrary: i)
  case (Cons x xs)
  show ?case
  proof (cases "p x")
    case False
    with Cons.prems obtain k where "slices_IndexFunc p xs = Some k" "i = Suc k" by auto
    with Cons.IH[of k] False show ?thesis by (auto simp: less_Suc_eq_0_disj)
  qed (use Cons.prems in simp)
qed simp

lemma slices_IndexFunc_None_iff: "slices_IndexFunc p xs = None \<longleftrightarrow> (\<forall>x \<in> set xs. \<not> p x)"
  by (induction xs) auto

section \<open>Strictly sorted key lists\<close>

abbreviation ssorted :: "'a::linorder list \<Rightarrow> bool" where
  "ssorted \<equiv> sorted_wrt (<)"

text \<open>The position where a key belongs: the number of smaller keys.\<close>

definition lower_bound :: "'a::linorder list \<Rightarrow> 'a \<Rightarrow> nat" where
  "lower_bound ks k = length (takeWhile (\<lambda>x. x < k) ks)"

lemma lower_bound_le [simp]: "lower_bound ks k \<le> length ks"
  by (simp add: lower_bound_def length_takeWhile_le)

lemma lower_bound_nth_less: "i < lower_bound ks k \<Longrightarrow> ks ! i < k"
  unfolding lower_bound_def by (metis nth_mem set_takeWhileD takeWhile_nth)

lemma lower_bound_nth_ge:
  assumes "sorted ks" and "lower_bound ks k \<le> i" and "i < length ks"
  shows "k \<le> ks ! i"
proof -
  have "k \<le> ks ! lower_bound ks k"
    using assms nth_length_takeWhile[of "\<lambda>x. x < k" ks] by (auto simp: lower_bound_def)
  also have "\<dots> \<le> ks ! i" using assms by (intro sorted_nth_mono)
  finally show ?thesis .
qed

lemma lower_bound_unique:
  assumes "sorted ks" and "n \<le> length ks"
    and "\<And>i. i < n \<Longrightarrow> ks ! i < k" and "\<And>i. n \<le> i \<Longrightarrow> i < length ks \<Longrightarrow> k \<le> ks ! i"
  shows "lower_bound ks k = n"
proof (rule antisym)
  show "lower_bound ks k \<le> n"
  proof (rule ccontr)
    assume "\<not> lower_bound ks k \<le> n"
    then have "n < lower_bound ks k" by simp
    then have "ks ! n < k" and "n < length ks"
      using lower_bound_nth_less[of n ks k] lower_bound_le[of ks k] by linarith+
    with assms(4)[of n] show False by simp
  qed
  show "n \<le> lower_bound ks k"
  proof (rule ccontr)
    assume "\<not> n \<le> lower_bound ks k"
    then have "lower_bound ks k < n" by simp
    with assms(1,2) lower_bound_nth_ge[of ks k "lower_bound ks k"] assms(3)[of "lower_bound ks k"]
    show False by simp
  qed
qed

lemma take_lower_bound: "take (lower_bound ks k) ks = takeWhile (\<lambda>x. x < k) ks"
  unfolding lower_bound_def by (rule takeWhile_eq_take[symmetric])

lemma drop_lower_bound: "drop (lower_bound ks k) ks = dropWhile (\<lambda>x. x < k) ks"
  unfolding lower_bound_def by (rule dropWhile_eq_drop[symmetric])

lemma ssorted_imp_sorted [sorted_simps]: "ssorted ks \<Longrightarrow> sorted ks"
  by (simp add: strict_sorted_iff)

lemma ssorted_distinct [sorted_simps]: "ssorted ks \<Longrightarrow> distinct ks"
  by (simp add: strict_sorted_iff)

lemma ssorted_nth_less_iff:
  "ssorted ks \<Longrightarrow> i < length ks \<Longrightarrow> j < length ks \<Longrightarrow> ks ! i < ks ! j \<longleftrightarrow> i < j"
  by (metis linorder_neqE_nat order_less_asym order_less_irrefl sorted_wrt_iff_nth_less)

lemma ssorted_filter: "ssorted ks \<Longrightarrow> ssorted (filter P ks)"
  by (rule sorted_wrt_filter)

text \<open>Two strictly sorted lists with the same elements are the same list.\<close>

lemma ssorted_set_unique: "ssorted xs \<Longrightarrow> ssorted ys \<Longrightarrow> set xs = set ys \<Longrightarrow> xs = ys"
  by (simp add: strict_sorted_equal)

lemma lower_bound_mem_iff:
  assumes "sorted ks"
  shows "k \<in> set ks \<longleftrightarrow> lower_bound ks k < length ks \<and> ks ! lower_bound ks k = k"
proof
  assume "k \<in> set ks"
  then obtain i where i: "i < length ks" "ks ! i = k" by (auto simp: in_set_conv_nth)
  have "\<not> i < lower_bound ks k" using lower_bound_nth_less[of i ks k] i by auto
  then have lt: "lower_bound ks k < length ks" using i by simp
  have "k \<le> ks ! lower_bound ks k" using assms lt by (intro lower_bound_nth_ge) auto
  moreover have "ks ! lower_bound ks k \<le> ks ! i"
    using assms i \<open>\<not> i < lower_bound ks k\<close> by (intro sorted_nth_mono) auto
  ultimately show "lower_bound ks k < length ks \<and> ks ! lower_bound ks k = k"
    using i lt by auto
qed (auto simp: in_set_conv_nth)

end
