(* ===== verification/Binary.thy ===== *)
theory Binary
  imports Prelude
begin

text \<open>
  What the code uses of \<open>encoding/binary\<close> and \<open>hash/crc32\<close>: fixed-width little- and
  big-endian integers, unsigned varints, and the two reflected CRC-32 checksums.  The
  facts are the round trips, that big-endian strings are ordered like the numbers they
  encode, and that a varint is read back from the front of any longer string.
\<close>

section \<open>Fixed-width integers\<close>

fun le_bytes :: "nat \<Rightarrow> nat \<Rightarrow> bytes" where
  "le_bytes 0 x = []"
| "le_bytes (Suc n) x = word_of_nat x # le_bytes n (x div 256)"

fun le_nat :: "bytes \<Rightarrow> nat" where
  "le_nat [] = 0"
| "le_nat (b # bs) = unat b + 256 * le_nat bs"

definition be_bytes :: "nat \<Rightarrow> nat \<Rightarrow> bytes" where
  "be_bytes n x = rev (le_bytes n x)"

definition be_nat :: "bytes \<Rightarrow> nat" where
  "be_nat bs = le_nat (rev bs)"

text \<open>
  \<open>binary.LittleEndian.PutUint16/32/64\<close> and their \<open>Append\<close> forms produce these bytes,
  \<open>Uint16/32/64\<close> read them; \<open>BigEndian\<close> likewise.
\<close>

definition PutUint16 :: "u16 \<Rightarrow> bytes" where "PutUint16 w = le_bytes 2 (unat w)"
definition PutUint32 :: "u32 \<Rightarrow> bytes" where "PutUint32 w = le_bytes 4 (unat w)"
definition PutUint64 :: "u64 \<Rightarrow> bytes" where "PutUint64 w = le_bytes 8 (unat w)"
definition Uint16 :: "bytes \<Rightarrow> u16" where "Uint16 bs = word_of_nat (le_nat (take 2 bs))"
definition Uint32 :: "bytes \<Rightarrow> u32" where "Uint32 bs = word_of_nat (le_nat (take 4 bs))"
definition Uint64 :: "bytes \<Rightarrow> u64" where "Uint64 bs = word_of_nat (le_nat (take 8 bs))"
definition BigPutUint64 :: "u64 \<Rightarrow> bytes" where "BigPutUint64 w = be_bytes 8 (unat w)"
definition BigUint64 :: "bytes \<Rightarrow> u64" where "BigUint64 bs = word_of_nat (be_nat (take 8 bs))"

lemma length_le_bytes [simp]: "length (le_bytes n x) = n"
  by (induction n arbitrary: x) auto

lemma length_be_bytes [simp]: "length (be_bytes n x) = n"
  by (simp add: be_bytes_def)

lemma le_nat_le_bytes: "le_nat (le_bytes n x) = x mod 256 ^ n"
proof (induction n arbitrary: x)
  case (Suc n)
  have "le_nat (le_bytes (Suc n) x) = x mod 256 + 256 * (x div 256 mod 256 ^ n)"
    by (simp add: Suc.IH unat_of_nat)
  also have "\<dots> = x mod 256 ^ Suc n"
    by (simp add: mod_mult2_eq)
  finally show ?case .
qed simp

lemma le_nat_bound: "le_nat bs < 256 ^ length bs"
proof (induction bs)
  case (Cons b bs)
  have "unat b < 256" by simp
  then have "unat b + 256 * le_nat bs < 256 * (le_nat bs + 1)" by simp
  also have "\<dots> \<le> 256 * 256 ^ length bs" using Cons.IH by (intro mult_le_mono) auto
  finally show ?case by simp
qed simp

lemma le_bytes_le_nat: "length bs = n \<Longrightarrow> le_bytes n (le_nat bs) = bs"
proof (induction bs arbitrary: n)
  case (Cons b bs)
  have b: "unat b < 256" by simp
  have "word_of_nat (unat b + 256 * le_nat bs) = b"
  proof (rule word_unat_eq_iff[THEN iffD2])
    show "unat (word_of_nat (unat b + 256 * le_nat bs) :: byte) = unat b"
      using b by (simp only: unat_word_of_nat_byte) simp
  qed
  moreover have "(unat b + 256 * le_nat bs) div 256 = le_nat bs" using b by simp
  ultimately show ?case using Cons by auto
qed simp

lemma be_nat_be_bytes: "be_nat (be_bytes n x) = x mod 256 ^ n"
  by (simp add: be_nat_def be_bytes_def le_nat_le_bytes)

lemma be_bytes_be_nat: "length bs = n \<Longrightarrow> be_bytes n (be_nat bs) = bs"
  by (simp add: be_nat_def be_bytes_def le_bytes_le_nat)

lemma Uint_PutUint [simp, codec_simps]:
  "Uint16 (PutUint16 a @ rest) = a"
  "Uint32 (PutUint32 b @ rest) = b"
  "Uint64 (PutUint64 c @ rest) = c"
  "BigUint64 (BigPutUint64 c @ rest) = c"
  using unat_u16_less[of a] unat_u32_less[of b] unat_u64_less[of c]
  by (simp_all add: Uint16_def PutUint16_def Uint32_def PutUint32_def Uint64_def PutUint64_def
      BigUint64_def BigPutUint64_def le_nat_le_bytes be_nat_be_bytes)

lemma Uint_PutUint0 [simp, codec_simps]:
  "Uint16 (PutUint16 a) = a"
  "Uint32 (PutUint32 b) = b"
  "Uint64 (PutUint64 c) = c"
  "BigUint64 (BigPutUint64 c) = c"
  using Uint_PutUint[where rest = "[]"] by simp_all

lemma length_PutUint [simp, codec_simps]:
  "length (PutUint16 a) = 2" "length (PutUint32 b) = 4" "length (PutUint64 c) = 8"
  "length (BigPutUint64 c) = 8"
  by (simp_all add: PutUint16_def PutUint32_def PutUint64_def BigPutUint64_def)

lemma PutUint_Uint:
  "length bs = 4 \<Longrightarrow> PutUint32 (Uint32 bs) = bs"
  "length bs = 8 \<Longrightarrow> PutUint64 (Uint64 bs) = bs"
  "length bs = 8 \<Longrightarrow> BigPutUint64 (BigUint64 bs) = bs"
  using le_nat_bound[of bs] le_nat_bound[of "rev bs"]
  by (simp_all add: PutUint32_def Uint32_def PutUint64_def Uint64_def BigPutUint64_def
      BigUint64_def unat_of_nat le_bytes_le_nat be_nat_def be_bytes_def)

lemma nat_less_div_mod:
  "(x :: nat) < y \<longleftrightarrow> x div c < y div c \<or> x div c = y div c \<and> x mod c < y mod c"
proof -
  consider "x div c < y div c" | "x div c = y div c" | "y div c < x div c" by linarith
  then show ?thesis
  proof cases
    case 1
    then have "\<not> y \<le> x" using div_le_mono[of y x c] by linarith
    with 1 show ?thesis by simp
  next
    case 2
    have "x = y div c * c + x mod c" using 2 by (metis div_mult_mod_eq)
    moreover have "y = y div c * c + y mod c" by simp
    ultimately have "x < y \<longleftrightarrow> x mod c < y mod c" by (metis nat_add_left_cancel_less)
    with 2 show ?thesis by simp
  next
    case 3
    then have "\<not> x \<le> y" using div_le_mono[of x y c] by linarith
    with 3 show ?thesis by simp
  qed
qed

text \<open>Big-endian encoding is monotone: the reason it is used in keys.\<close>

lemma be_bytes_Suc: "be_bytes (Suc n) x = be_bytes n (x div 256) @ [word_of_nat x]"
  by (simp add: be_bytes_def)

lemma be_bytes_less_iff:
  assumes "x < 256 ^ n" and "y < 256 ^ n"
  shows "be_bytes n x < be_bytes n y \<longleftrightarrow> x < y"
  using assms
proof (induction n arbitrary: x y)
  case (Suc n)
  let ?w = "\<lambda>z. word_of_nat z :: byte"
  have bnd: "x div 256 < 256 ^ n" "y div 256 < 256 ^ n"
    using Suc.prems by (simp_all add: less_mult_imp_div_less mult.commute)
  have eq: "be_bytes n (x div 256) = be_bytes n (y div 256) \<longleftrightarrow> x div 256 = y div 256"
    using bnd by (metis be_nat_be_bytes mod_less)
  have lst: "?w x < ?w y \<longleftrightarrow> x mod 256 < y mod 256"
    by (simp add: word_less_nat_alt unat_of_nat)
  have "be_bytes (Suc n) x < be_bytes (Suc n) y \<longleftrightarrow>
      x div 256 < y div 256 \<or> x div 256 = y div 256 \<and> x mod 256 < y mod 256"
    using Suc.IH[OF bnd] eq lst by (auto simp: be_bytes_Suc append_less_same_length)
  also have "\<dots> \<longleftrightarrow> x < y" by (rule nat_less_div_mod[symmetric])
  finally show ?case .
qed (simp add: be_bytes_def)

lemma BigPutUint64_less_iff: "BigPutUint64 a < BigPutUint64 b \<longleftrightarrow> a < b"
  using unat_u64_less[of a] unat_u64_less[of b]
  by (simp add: BigPutUint64_def be_bytes_less_iff word_less_nat_alt)

lemma BigPutUint64_inj [simp]: "BigPutUint64 a = BigPutUint64 b \<longleftrightarrow> a = b"
  by (metis Uint_PutUint0(4))

section \<open>Varints\<close>

text \<open>\<open>binary.AppendUvarint\<close> and \<open>binary.Uvarint\<close>; the latter returns the value and the
  number of bytes read, \<open>0\<close> when the buffer is too small, negative on overflow.\<close>

fun uvarint :: "nat \<Rightarrow> bytes" where
  "uvarint x = (if x < 128 then [word_of_nat x]
     else word_of_nat (x mod 128 + 128) # uvarint (x div 128))"

declare uvarint.simps [simp del]

definition AppendUvarint :: "bytes \<Rightarrow> u64 \<Rightarrow> bytes" where
  "AppendUvarint buf x = buf @ uvarint (unat x)"

fun uvarint_loop :: "nat \<Rightarrow> nat \<Rightarrow> nat \<Rightarrow> bytes \<Rightarrow> nat \<times> int" where
  "uvarint_loop i x s [] = (0, 0)"
| "uvarint_loop i x s (b # bs) =
     (if i = 10 then (0, - (int i + 1))
      else if b < 0x80 then
        (if i = 9 \<and> 1 < b then (0, - (int i + 1)) else (x + unat b * 2 ^ s, int i + 1))
      else uvarint_loop (Suc i) (x + unat b mod 128 * 2 ^ s) (s + 7) bs)"

definition Uvarint :: "bytes \<Rightarrow> u64 \<times> int" where
  "Uvarint buf = (let (x, n) = uvarint_loop 0 0 0 buf in (word_of_nat x, n))"

lemma uvarint_neq_Nil [simp]: "uvarint x \<noteq> []"
  by (subst uvarint.simps) simp

lemma uvarint_loop_uvarint:
  assumes "y * 2 ^ (7 * i) < 2 ^ 64" and "y = 0 \<longrightarrow> i = 0"
  shows "uvarint_loop i x (7 * i) (uvarint y @ rest) =
    (x + y * 2 ^ (7 * i), int (i + length (uvarint y)))"
  using assms
proof (induction y arbitrary: i x rule: uvarint.induct)
  case (1 y)
  have i9: "i \<le> 9"
  proof (rule ccontr)
    assume "\<not> i \<le> 9"
    then have "(2::nat) ^ 70 \<le> 2 ^ (7 * i)" by (intro power_increasing) auto
    moreover have "y \<noteq> 0" using "1.prems" \<open>\<not> i \<le> 9\<close> by auto
    ultimately have "2 ^ 70 \<le> y * 2 ^ (7 * i)"
      by (metis One_nat_def Suc_leI mult_1 mult_le_mono neq0_conv)
    with "1.prems" show False by simp
  qed
  show ?case
  proof (cases "y < 128")
    case True
    have small: "i = 9 \<longrightarrow> y \<le> 1" using "1.prems"(1) by auto
    have w: "unat (word_of_nat y :: byte) = y" using True by (simp add: unat_of_nat)
    have lt: "(word_of_nat y :: byte) < 0x80" using True w by (simp add: word_less_nat_alt)
    have "\<not> (i = 9 \<and> 1 < (word_of_nat y :: byte))" using small w by (auto simp: word_less_nat_alt)
    then show ?thesis using True i9 lt w by (simp add: uvarint.simps[of y])
  next
    case False
    have w: "unat (word_of_nat (y mod 128 + 128) :: byte) = y mod 128 + 128"
      by (rule unat_word_of_nat_less) (use mod_less_divisor[of 128 y] in simp)
    have ge: "\<not> (word_of_nat (y mod 128 + 128) :: byte) < 0x80"
      using w by (simp add: word_less_nat_alt)
    have step: "y div 128 * 2 ^ (7 * Suc i) \<le> y * 2 ^ (7 * i)"
    proof -
      have "y div 128 * 2 ^ (7 * Suc i) = (y div 128 * 128) * 2 ^ (7 * i)"
        by (simp add: power_add)
      also have "\<dots> \<le> y * 2 ^ (7 * i)" by (intro mult_le_mono1) simp
      finally show ?thesis .
    qed
    have IH: "uvarint_loop (Suc i) (x + y mod 128 * 2 ^ (7 * i)) (7 * Suc i)
        (uvarint (y div 128) @ rest) =
        (x + y mod 128 * 2 ^ (7 * i) + y div 128 * 2 ^ (7 * Suc i),
          int (Suc i + length (uvarint (y div 128))))"
      using False "1.prems" step by (intro "1.IH") auto
    have sum: "y mod 128 * 2 ^ (7 * i) + y div 128 * 2 ^ (7 * Suc i) = y * 2 ^ (7 * i)"
    proof -
      have "y div 128 * 2 ^ (7 * Suc i) = 128 * (y div 128) * 2 ^ (7 * i)"
        by (simp add: power_add)
      then have "y mod 128 * 2 ^ (7 * i) + y div 128 * 2 ^ (7 * Suc i) =
          (y mod 128 + 128 * (y div 128)) * 2 ^ (7 * i)"
        by (simp only: add_mult_distrib)
      then show ?thesis by (simp only: mod_mult_div_eq)
    qed
    have m: "(y mod 128 + 128) mod 128 = y mod 128" by simp
    have uv: "uvarint y = word_of_nat (y mod 128 + 128) # uvarint (y div 128)"
      using False by (subst uvarint.simps) simp
    have "uvarint_loop i x (7 * i) (uvarint y @ rest) =
        uvarint_loop (Suc i) (x + y mod 128 * 2 ^ (7 * i)) (7 * i + 7) (uvarint (y div 128) @ rest)"
      using i9 ge by (simp only: uv append_Cons uvarint_loop.simps w m) simp
    also have "\<dots> = (x + y mod 128 * 2 ^ (7 * i) + y div 128 * 2 ^ (7 * Suc i),
          int (Suc i + length (uvarint (y div 128))))"
      using IH by (simp only: mult_Suc_right add.commute[of 7])
    also have "\<dots> = (x + y * 2 ^ (7 * i), int (i + length (uvarint y)))"
      by (simp only: add.assoc sum) (simp add: uv)
    finally show ?thesis .
  qed
qed

lemma Uvarint_AppendUvarint [codec_simps]:
  "Uvarint (uvarint (unat x) @ rest) = (x, int (length (uvarint (unat x))))"
  using uvarint_loop_uvarint[of "unat x" 0 0 rest] unat_u64_less[of x]
  by (simp add: Uvarint_def)

section \<open>CRC-32\<close>

text \<open>
  The reflected CRC-32 with initial value and final complement \<open>0xFFFFFFFF\<close>: the IEEE
  polynomial (\<open>crc32.ChecksumIEEE\<close>) and Castagnoli (\<open>crc32.MakeTable(crc32.Castagnoli)\<close>).
  The register is an integer below \<open>2^32\<close>.
\<close>

definition crc32_step :: "int \<Rightarrow> int \<Rightarrow> int" where
  "crc32_step poly c = (if c mod 2 = 1 then xor (c div 2) poly else c div 2)"

definition crc32_byte :: "int \<Rightarrow> int \<Rightarrow> byte \<Rightarrow> int" where
  "crc32_byte poly c b = (crc32_step poly ^^ 8) (xor c (uint b))"

definition crc32_update :: "int \<Rightarrow> bytes \<Rightarrow> u32" where
  "crc32_update poly bs = word_of_int (xor (foldl (crc32_byte poly) 0xFFFFFFFF bs) 0xFFFFFFFF)"

definition crc32_ieee :: "bytes \<Rightarrow> u32" where
  "crc32_ieee = crc32_update 0xEDB88320"

definition crc32_castagnoli :: "bytes \<Rightarrow> u32" where
  "crc32_castagnoli = crc32_update 0x82F63B78"

lemma crc32_step8:
  "(crc32_step p ^^ 8) c = crc32_step p (crc32_step p (crc32_step p (crc32_step p
     (crc32_step p (crc32_step p (crc32_step p (crc32_step p c)))))))"
  by (simp add: eval_nat_numeral)


text \<open>The check values of the two polynomials, on the ASCII digits 1 to 9.\<close>

lemmas crc32_eval = crc32_ieee_def crc32_castagnoli_def crc32_update_def crc32_byte_def
  crc32_step8 crc32_step_def

lemma crc32_ieee_check:
  "crc32_ieee [0x31, 0x32, 0x33, 0x34, 0x35, 0x36, 0x37, 0x38, 0x39] = 0xCBF43926"
  by (simp add: crc32_eval cong: if_weak_cong)

lemma crc32_castagnoli_check:
  "crc32_castagnoli [0x31, 0x32, 0x33, 0x34, 0x35, 0x36, 0x37, 0x38, 0x39] = 0xE3069283"
  by (simp add: crc32_eval cong: if_weak_cong)

end
