(* ===== verification/Cell.thy ===== *)
theory Cell
  imports Binary
begin

text \<open>
  \<open>src/db/cell.go\<close>: typed cells and their two encodings.  The value encoding is a plain
  length-prefixed one; the key encoding is order-preserving and self-delimiting, so that
  concatenated cells sort like the tuples they encode.  Both directions of the round trip
  are shown, and the order theorem that index range scans rest on.
\<close>

unbundle bit_operations_syntax

section \<open>Cells\<close>

abbreviation TypeI64 :: byte where "TypeI64 \<equiv> 1"
abbreviation TypeStr :: byte where "TypeStr \<equiv> 2"

record cell =
  cell_Type :: byte
  cell_I64 :: u64
  cell_Str :: bytes

definition Cell_of_type :: "byte \<Rightarrow> cell" where
  "Cell_of_type t = \<lparr>cell_Type = t, cell_I64 = 0, cell_Str = []\<rparr>"

definition cell_int :: "u64 \<Rightarrow> cell" where
  "cell_int i = \<lparr>cell_Type = TypeI64, cell_I64 = i, cell_Str = []\<rparr>"

definition cell_str :: "bytes \<Rightarrow> cell" where
  "cell_str s = \<lparr>cell_Type = TypeStr, cell_I64 = 0, cell_Str = s\<rparr>"

text \<open>The cells the code builds: a known type, and only the field of that type set.\<close>

definition cell_wf :: "cell \<Rightarrow> bool" where
  "cell_wf c \<longleftrightarrow> (cell_Type c = TypeI64 \<and> cell_Str c = []) \<or> (cell_Type c = TypeStr \<and> cell_I64 c = 0)"

lemma cell_wf_cases:
  assumes "cell_wf c"
  obtains (I64) i where "c = cell_int i" | (Str) s where "c = cell_str s"
  using assms by (cases c) (auto simp: cell_wf_def cell_int_def cell_str_def)

lemma cell_sel [simp]:
  "cell_Type (cell_int i) = TypeI64" "cell_I64 (cell_int i) = i"
  "cell_Type (cell_str s) = TypeStr" "cell_Str (cell_str s) = s"
  "cell_Type (Cell_of_type t) = t"
  by (simp_all add: cell_int_def cell_str_def Cell_of_type_def)

lemma cell_wf_mk [simp]: "cell_wf (cell_int i)" "cell_wf (cell_str s)"
  by (simp_all add: cell_wf_def cell_int_def cell_str_def)

lemma cell_mk_inject [simp]:
  "cell_int i = cell_int j \<longleftrightarrow> i = j" "cell_str s = cell_str t \<longleftrightarrow> s = t"
  by (simp_all add: cell_int_def cell_str_def)

section \<open>Value encoding\<close>

definition Cell_EncodeVal :: "cell \<Rightarrow> bytes \<Rightarrow> bytes res" where
  "Cell_EncodeVal c toAppend =
     (if cell_Type c = TypeI64 then Inr (toAppend @ PutUint64 (cell_I64 c))
      else if cell_Type c = TypeStr then
        Inr (toAppend @ PutUint32 (word_of_nat (length (cell_Str c))) @ cell_Str c)
      else Inl (Panic ''unreachable''))"

definition Cell_DecodeVal :: "cell \<Rightarrow> bytes \<Rightarrow> (cell \<times> bytes) res" where
  "Cell_DecodeVal c data =
     (if cell_Type c = TypeI64 then
        (if length data < 8 then Inl (Error ''expect more data'')
         else Inr (c\<lparr>cell_I64 := Uint64 (take 8 data)\<rparr>, drop 8 data))
      else if cell_Type c = TypeStr then
        (if length data < 4 then Inl (Error ''expect more data'')
         else let size = unat (Uint32 (take 4 data)) in
           if length data < 4 + size then Inl (Error ''expect more data'')
           else Inr (c\<lparr>cell_Str := take size (drop 4 data)\<rparr>, drop (4 + size) data))
      else Inl (Panic ''unreachable''))"

section \<open>Key encoding\<close>

fun encodeStrKey :: "bytes \<Rightarrow> bytes \<Rightarrow> bytes" where
  "encodeStrKey toAppend [] = toAppend @ [0x00]"
| "encodeStrKey toAppend (ch # input) =
     (if ch = 0x00 \<or> ch = 0x01 then encodeStrKey (toAppend @ [0x01, ch + 1]) input
      else encodeStrKey (toAppend @ [ch]) input)"

fun decodeStrKey_loop :: "bytes \<Rightarrow> bool \<Rightarrow> bytes \<Rightarrow> (bytes \<times> bytes) res" where
  "decodeStrKey_loop out escape [] = Inl (Error ''string is not ended'')"
| "decodeStrKey_loop out escape (ch # data) =
     (if escape then
        (if ch \<noteq> 0x01 \<and> ch \<noteq> 0x02 then Inl (Error ''bad escape'')
         else decodeStrKey_loop (out @ [ch - 1]) False data)
      else if ch = 0x00 then Inr (out, data)
      else if ch = 0x01 then decodeStrKey_loop out True data
      else decodeStrKey_loop (out @ [ch]) False data)"

definition decodeStrKey :: "bytes \<Rightarrow> (bytes \<times> bytes) res" where
  "decodeStrKey data = decodeStrKey_loop [] False data"

definition Cell_EncodeKey :: "cell \<Rightarrow> bytes \<Rightarrow> bytes res" where
  "Cell_EncodeKey c toAppend =
     (if cell_Type c = TypeI64 then Inr (toAppend @ BigPutUint64 (cell_I64 c XOR push_bit 63 1))
      else if cell_Type c = TypeStr then Inr (encodeStrKey toAppend (cell_Str c))
      else Inl (Panic ''unreachable''))"

definition Cell_DecodeKey :: "cell \<Rightarrow> bytes \<Rightarrow> (cell \<times> bytes) res" where
  "Cell_DecodeKey c data =
     (if cell_Type c = TypeI64 then
        (if length data < 8 then Inl (Error ''expect more data'')
         else Inr (c\<lparr>cell_I64 := BigUint64 (take 8 data) XOR push_bit 63 1\<rparr>, drop 8 data))
      else if cell_Type c = TypeStr then
        (case decodeStrKey data of
           Inl e \<Rightarrow> Inl e
         | Inr (s, rest) \<Rightarrow> Inr (c\<lparr>cell_Str := s\<rparr>, rest))
      else Inl (Panic ''unreachable''))"

section \<open>The escaped string\<close>

text \<open>The encoding without its accumulator, and the facts on it.\<close>

fun str_key :: "bytes \<Rightarrow> bytes" where
  "str_key [] = [0]"
| "str_key (ch # input) = (if ch < 2 then 1 # (ch + 1) # str_key input else ch # str_key input)"

lemma byte_lt_2: "(ch :: byte) < 2 \<longleftrightarrow> ch = 0 \<or> ch = 1"
proof
  assume "ch < 2"
  then have "unat ch < 2" by (simp add: word_less_nat_alt)
  then have "unat ch = 0 \<or> unat ch = 1" by linarith
  then show "ch = 0 \<or> ch = 1" by (metis unat_0 unat_1 word_unat_eq_iff)
qed auto

lemma encodeStrKey_eq [codec_simps]: "encodeStrKey toAppend input = toAppend @ str_key input"
  by (induction toAppend input rule: encodeStrKey.induct) (auto simp: byte_lt_2)

lemma decodeStrKey_loop_str_key:
  "decodeStrKey_loop out False (str_key s @ rest) = Inr (out @ s, rest)"
proof (induction s arbitrary: out)
  case (Cons ch s)
  consider "ch = 0" | "ch = 1" | "\<not> ch < 2" by (auto simp: byte_lt_2)
  then show ?case by cases (auto simp: Cons byte_lt_2)
qed simp

lemma decodeStrKey_str_key [simp, codec_simps]: "decodeStrKey (str_key s @ rest) = Inr (s, rest)"
  by (simp add: decodeStrKey_def decodeStrKey_loop_str_key)

text \<open>Decoding accepts nothing but the canonical encoding.\<close>

lemma decodeStrKey_loop_sound:
  "decodeStrKey_loop out escape data = Inr (s, rest) \<Longrightarrow>
    \<exists>t. s = out @ t \<and> (if escape then 1 # data else data) = str_key t @ rest"
proof (induction out escape data rule: decodeStrKey_loop.induct)
  case (2 out escape ch data)
  consider (esc) "escape" | (stop) "\<not> escape" "ch = 0" | (one) "\<not> escape" "ch = 1"
    | (plain) "\<not> escape" "ch \<noteq> 0" "ch \<noteq> 1" by blast
  then show ?case
  proof cases
    case esc
    with "2.prems" have ch: "ch = 1 \<or> ch = 2"
      and rec: "decodeStrKey_loop (out @ [ch - 1]) False data = Inr (s, rest)"
      by (auto split: if_splits)
    from ch have n: "\<not> (ch \<noteq> 1 \<and> ch \<noteq> 2)" by blast
    from "2.IH"(1)[OF esc n rec] obtain t
      where t: "s = (out @ [ch - 1]) @ t" "data = str_key t @ rest" by auto
    have "1 # ch # data = str_key ((ch - 1) # t) @ rest" using ch t by (auto simp: byte_lt_2)
    with t esc show ?thesis by (metis append.assoc append_Cons append_Nil)
  next
    case stop
    with "2.prems" show ?thesis by (intro exI[of _ "[]"]) auto
  next
    case one
    with "2.prems" have "decodeStrKey_loop out True data = Inr (s, rest)" by simp
    from "2.IH"(2)[OF one(1) _ one(2) this] one show ?thesis by auto
  next
    case plain
    with "2.prems" have "decodeStrKey_loop (out @ [ch]) False data = Inr (s, rest)" by simp
    from "2.IH"(3)[OF plain this] obtain t where t: "s = (out @ [ch]) @ t" "data = str_key t @ rest"
      by auto
    then have "ch # data = str_key (ch # t) @ rest" using plain by (auto simp: byte_lt_2)
    with t plain show ?thesis by (metis append.assoc append_Cons append_Nil)
  qed
qed simp

lemma decodeStrKey_sound: "decodeStrKey data = Inr (s, rest) \<Longrightarrow> data = str_key s @ rest"
  unfolding decodeStrKey_def by (drule decodeStrKey_loop_sound) simp

text \<open>Escaping keeps the order, and no encoding is a prefix of another.\<close>

lemma byte_pos: "(0 :: byte) < ch \<longleftrightarrow> ch \<noteq> 0"
  by (simp add: word_neq_0_conv)

lemma str_key_less_iff:
  "str_key a @ r < str_key b @ r' \<longleftrightarrow> a < b \<or> a = b \<and> r < r'"
proof (induction a arbitrary: b)
  case Nil
  show ?case by (cases b) (auto simp: byte_pos byte_lt_2)
next
  case (Cons x a)
  show ?case
  proof (cases b)
    case Nil
    then show ?thesis by (auto simp: byte_lt_2 byte_pos)
  next
    case (Cons y b')
    have ge2: "\<not> z < 2 \<Longrightarrow> 1 < z" for z :: byte
      by (simp add: word_less_nat_alt)
    consider (both) "x < 2" "y < 2" | (left) "x < 2" "\<not> y < 2" | (right) "\<not> x < 2" "y < 2"
      | (none) "\<not> x < 2" "\<not> y < 2" by blast
    then show ?thesis
    proof cases
      case both
      then consider "x = 0" "y = 0" | "x = 0" "y = 1" | "x = 1" "y = 0" | "x = 1" "y = 1"
        by (auto simp: byte_lt_2)
      then show ?thesis by cases (simp_all add: Cons Cons.IH)
    next
      case left
      then have "x < y" "1 < y" using ge2[of y] by auto
      with left Cons show ?thesis by simp
    next
      case right
      then have "y < x" "1 < x" using ge2[of x] by auto
      then have "\<not> x < y" "x \<noteq> y" "\<not> x < 1" "x \<noteq> 1" by auto
      with right Cons show ?thesis by simp
    next
      case none
      with Cons Cons.IH[of b'] show ?thesis by auto
    qed
  qed
qed

section \<open>Cells as keys\<close>

text \<open>The order a key must reproduce: signed on integers, lexicographic on strings.\<close>

definition cell_less :: "cell \<Rightarrow> cell \<Rightarrow> bool" where
  "cell_less a b = (if cell_Type a = TypeI64 then sint (cell_I64 a) < sint (cell_I64 b)
     else cell_Str a < cell_Str b)"

definition cell_key :: "cell \<Rightarrow> bytes" where
  "cell_key c = (if cell_Type c = TypeI64 then BigPutUint64 (cell_I64 c XOR push_bit 63 1)
     else str_key (cell_Str c))"

lemma flip_top_bit_clear: "\<not> bit x 63 \<Longrightarrow> (x :: u64) XOR 2 ^ 63 = x + 2 ^ 63"
  by (metis and_exp_eq_0_iff_not_bit disjunctive_add_eq_or disjunctive_xor_eq_or)

lemma flip_top_bit: "(x :: u64) XOR 2 ^ 63 = x + 2 ^ 63"
proof (cases "bit x 63")
  case True
  let ?y = "x XOR 2 ^ 63"
  have "\<not> bit ?y 63" using True by (simp add: bit_simps)
  then have "?y XOR 2 ^ 63 = ?y + 2 ^ 63" by (rule flip_top_bit_clear)
  moreover have "?y XOR 2 ^ 63 = x" by (simp add: xor.assoc)
  ultimately have "x + 2 ^ 63 = ?y + (2 ^ 63 + 2 ^ 63)" by (simp add: algebra_simps)
  moreover have "(2 ^ 63 + 2 ^ 63 :: u64) = 0" by simp
  ultimately show ?thesis by (simp only: add_0_right)
qed (rule flip_top_bit_clear)

lemma uint_flip_top_bit: "uint ((x :: u64) XOR push_bit 63 1) = sint x + 2 ^ 63"
proof -
  have range: "- (2 ^ 63) \<le> sint x" "sint x < 2 ^ 63" using sint_ge[of x] sint_lt[of x] by simp_all
  have "uint x = sint x mod 2 ^ 64"
    using uint_word_of_int[of "sint x", where 'a = 64] by simp
  then have "(uint x + 2 ^ 63) mod 2 ^ 64 = (sint x + 2 ^ 63) mod 2 ^ 64"
    by (simp only: mod_add_left_eq)
  moreover have "uint (x + 2 ^ 63) = (uint x + 2 ^ 63) mod 2 ^ 64" by (simp add: uint_word_ariths)
  moreover have "push_bit 63 (1 :: u64) = 2 ^ 63" by simp
  ultimately show ?thesis using range by (simp only: flip_top_bit) simp
qed

lemma flip_flip: "((x :: u64) XOR push_bit 63 1) XOR push_bit 63 1 = x"
  by (simp add: xor.assoc)

lemma flip_less_iff: "(x :: u64) XOR push_bit 63 1 < y XOR push_bit 63 1 \<longleftrightarrow> sint x < sint y"
  by (simp only: word_less_def uint_flip_top_bit) simp

lemma Cell_EncodeKey_eq [codec_simps]:
  "cell_wf c \<Longrightarrow> Cell_EncodeKey c toAppend = Inr (toAppend @ cell_key c)"
  by (auto simp: cell_wf_def Cell_EncodeKey_def cell_key_def encodeStrKey_eq)

lemma cell_key_less_iff:
  assumes "cell_wf a" and "cell_wf b" and "cell_Type a = cell_Type b"
  shows "cell_key a @ r < cell_key b @ r' \<longleftrightarrow> cell_less a b \<or> a = b \<and> r < r'"
  using assms(1)
proof (cases rule: cell_wf_cases)
  case (I64 i)
  with assms obtain j where b: "b = cell_int j" by (auto elim: cell_wf_cases)
  have eq: "i XOR push_bit 63 1 = j XOR push_bit 63 1 \<longleftrightarrow> i = j"
    using flip_flip by metis
  show ?thesis
    unfolding I64 b
    by (simp only: cell_key_def cell_sel if_True cell_less_def cell_mk_inject
        append_less_same_length length_PutUint BigPutUint64_less_iff flip_less_iff
        BigPutUint64_inj eq simp_thms)
next
  case (Str s)
  with assms obtain t where b: "b = cell_str t" by (auto elim: cell_wf_cases)
  show ?thesis unfolding Str b by (simp add: cell_key_def cell_less_def str_key_less_iff)
qed

lemma Cell_DecodeKey_key [codec_simps]:
  assumes "cell_wf c"
  shows "Cell_DecodeKey (Cell_of_type (cell_Type c)) (cell_key c @ rest) = Inr (c, rest)"
  using assms
proof (cases rule: cell_wf_cases)
  case (I64 i)
  then show ?thesis
    by (simp add: Cell_DecodeKey_def cell_key_def xor.assoc cell_int_def Cell_of_type_def)
next
  case (Str s)
  then show ?thesis
    by (simp add: Cell_DecodeKey_def cell_key_def cell_str_def Cell_of_type_def)
qed

text \<open>A decoded key cell is well-formed, and its encoding is exactly what was consumed.\<close>

lemma Cell_DecodeKey_sound:
  assumes "Cell_DecodeKey (Cell_of_type t) data = Inr (c, rest)"
  shows "cell_wf c \<and> cell_Type c = t \<and> data = cell_key c @ rest"
proof (cases "t = TypeI64")
  case True
  with assms have len: "8 \<le> length data" and rest: "rest = drop 8 data"
    and c: "c = cell_int (BigUint64 (take 8 data) XOR push_bit 63 1)"
    by (auto simp: Cell_DecodeKey_def Cell_of_type_def cell_int_def split: if_splits)
  have "cell_key c = take 8 data"
    using len PutUint_Uint(3)[of "take 8 data"] by (simp add: c cell_key_def xor.assoc)
  with True rest c show ?thesis by simp
next
  case False
  with assms have t: "t = TypeStr" by (auto simp: Cell_DecodeKey_def split: if_splits)
  with assms obtain s where s: "decodeStrKey data = Inr (s, rest)" and c: "c = cell_str s"
    by (auto simp: Cell_DecodeKey_def Cell_of_type_def cell_str_def split: sum.splits prod.splits)
  from decodeStrKey_sound[OF s] c t show ?thesis by (simp add: cell_key_def)
qed

section \<open>Cells as values\<close>

definition cell_val :: "cell \<Rightarrow> bytes" where
  "cell_val c = (if cell_Type c = TypeI64 then PutUint64 (cell_I64 c)
     else PutUint32 (word_of_nat (length (cell_Str c))) @ cell_Str c)"

lemma Cell_EncodeVal_eq [codec_simps]:
  "cell_wf c \<Longrightarrow> Cell_EncodeVal c toAppend = Inr (toAppend @ cell_val c)"
  by (auto simp: cell_wf_def Cell_EncodeVal_def cell_val_def)

lemma Cell_DecodeVal_val [codec_simps]:
  assumes "cell_wf c" and "length (cell_Str c) < 2 ^ 32"
  shows "Cell_DecodeVal (Cell_of_type (cell_Type c)) (cell_val c @ rest) = Inr (c, rest)"
  using assms(1)
proof (cases rule: cell_wf_cases)
  case (I64 i)
  then show ?thesis by (simp add: Cell_DecodeVal_def cell_val_def cell_int_def Cell_of_type_def)
next
  case (Str s)
  have "unat (word_of_nat (length s) :: u32) = length s"
    using assms(2) Str by (intro unat_word_of_nat_less) simp
  then show ?thesis
    using Str by (simp add: Cell_DecodeVal_def cell_val_def cell_str_def Cell_of_type_def)
qed

section \<open>Properties\<close>

text \<open>
  C19: decoding a key cell is exactly the inverse of encoding it.  A byte string
  decodes to a well-formed cell of the requested type and a rest if and only if it is the
  encoding of that cell followed by that rest; so the encoding is self-delimiting and every
  accepted key is canonical.
\<close>

theorem Cell_key_roundtrip:
  "Cell_DecodeKey (Cell_of_type t) data = Inr (c, rest) \<longleftrightarrow>
     cell_wf c \<and> cell_Type c = t \<and> (\<exists>k. Cell_EncodeKey c [] = Inr k \<and> data = k @ rest)"
  using Cell_DecodeKey_sound[of t data c rest] Cell_DecodeKey_key[of c rest]
  by (auto simp: Cell_EncodeKey_eq)

text \<open>
  C18: the key encoding preserves order and is prefix-free.  Whatever follows the
  encodings of two cells of one type, the byte strings compare like the cells (signed order on
  integers, byte order on strings), and only equal cells leave the decision to what follows.
\<close>

theorem Cell_key_order:
  assumes "cell_wf a" and "cell_wf b" and "cell_Type a = cell_Type b"
    and "Cell_EncodeKey a [] = Inr ka" and "Cell_EncodeKey b [] = Inr kb"
  shows "bytes_Compare (ka @ r) (kb @ r') < 0 \<longleftrightarrow>
    cell_less a b \<or> a = b \<and> bytes_Compare r r' < 0"
  using assms cell_key_less_iff[of a b r r'] by (simp add: Cell_EncodeKey_eq bytes_Compare_simps)

theorem Cell_key_order_witness:
  "bytes_Compare (BigPutUint64 ((- 1) XOR push_bit 63 1) @ [9]) (BigPutUint64 (0 XOR push_bit 63 1) @ [1]) < 0"
  using Cell_key_order[of "cell_int (- 1)" "cell_int 0"
      "BigPutUint64 ((- 1) XOR push_bit 63 1)" "BigPutUint64 (0 XOR push_bit 63 1)" "[9]" "[1]"]
  by (simp add: Cell_EncodeKey_def cell_less_def)

end
