(* ===== verification/Files.thy ===== *)
theory Files
  imports Prelude
begin

text \<open>
  The files under the storage engine: what \<open>src/db/log.go\<close> calls \<open>fileLike\<close>
  (\<open>ReadAt\<close>, \<open>WriteAt\<close>, \<open>Sync\<close>, \<open>Truncate\<close>, \<open>Stat\<close>) over a byte string.  A file
  remembers the content of its last successful \<open>Sync\<close> and the operations issued since, so
  that a crash can be stated: any of those operations may have reached the disk, in whole,
  in part, or not at all.  Every operation consumes one entry of a list of injected faults,
  so that every error return of the code is a branch of the model.
\<close>

section \<open>Content\<close>

definition write_at :: "bytes \<Rightarrow> nat \<Rightarrow> bytes \<Rightarrow> bytes" where
  "write_at d off bs = (if bs = [] then d
     else take off (d @ replicate (off - length d) 0) @ bs @ drop (off + length bs) d)"

definition truncate_to :: "bytes \<Rightarrow> nat \<Rightarrow> bytes" where
  "truncate_to d n = take n (d @ replicate (n - length d) 0)"

datatype fop = PWrite nat bytes | PTrunc nat

fun apply_fop :: "fop \<Rightarrow> bytes \<Rightarrow> bytes" where
  "apply_fop (PWrite off bs) d = write_at d off bs"
| "apply_fop (PTrunc n) d = truncate_to d n"

section \<open>Files\<close>

text \<open>\<open>Fault k\<close> makes an operation fail; a failing write still writes its first \<open>k\<close> bytes.\<close>

datatype fault = NoFault | Fault nat

record fileLike =
  f_data :: bytes
  f_synced :: bytes
  f_pending :: "fop list"
  f_faults :: "fault list"

definition io_error :: err where
  "io_error = Error ''input/output error''"

definition file_empty :: fileLike where
  "file_empty = \<lparr>f_data = [], f_synced = [], f_pending = [], f_faults = []\<rparr>"

fun pop_fault :: "fileLike \<Rightarrow> fault \<times> fileLike" where
  "pop_fault f = (case f_faults f of [] \<Rightarrow> (NoFault, f) | x # xs \<Rightarrow> (x, f\<lparr>f_faults := xs\<rparr>))"

definition do_fop :: "fop \<Rightarrow> fileLike \<Rightarrow> fileLike" where
  "do_fop p f = f\<lparr>f_data := apply_fop p (f_data f), f_pending := f_pending f @ [p]\<rparr>"

definition WriteAt :: "fileLike \<Rightarrow> bytes \<Rightarrow> nat \<Rightarrow> fileLike \<times> unit res" where
  "WriteAt f bs off = (case pop_fault f of
     (NoFault, f') \<Rightarrow> (do_fop (PWrite off bs) f', Inr ())
   | (Fault k, f') \<Rightarrow> (do_fop (PWrite off (take k bs)) f', Inl io_error))"

definition Truncate :: "fileLike \<Rightarrow> nat \<Rightarrow> fileLike \<times> unit res" where
  "Truncate f n = (case pop_fault f of
     (NoFault, f') \<Rightarrow> (do_fop (PTrunc n) f', Inr ())
   | (Fault k, f') \<Rightarrow> (f', Inl io_error))"

definition Sync :: "fileLike \<Rightarrow> fileLike \<times> unit res" where
  "Sync f = (case pop_fault f of
     (NoFault, f') \<Rightarrow> (f'\<lparr>f_synced := f_data f', f_pending := []\<rparr>, Inr ())
   | (Fault k, f') \<Rightarrow> (f', Inl io_error))"

text \<open>Closing releases the descriptor even when it reports an error.\<close>

definition fp_Close :: "fileLike \<Rightarrow> unit res" where
  "fp_Close f = (case pop_fault f of (NoFault, _) \<Rightarrow> Inr () | (Fault k, _) \<Rightarrow> Inl io_error)"

definition Stat_Size :: "fileLike \<Rightarrow> fileLike \<times> nat res" where
  "Stat_Size f = (case pop_fault f of
     (NoFault, f') \<Rightarrow> (f', Inr (length (f_data f')))
   | (Fault k, f') \<Rightarrow> (f', Inl io_error))"

text \<open>\<open>ReadAt\<close> of up to \<open>n\<close> bytes: fewer only at the end of the file, where Go adds \<open>io.EOF\<close>.\<close>

definition ReadAt :: "fileLike \<Rightarrow> nat \<Rightarrow> nat \<Rightarrow> fileLike \<times> bytes res" where
  "ReadAt f n off = (case pop_fault f of
     (NoFault, f') \<Rightarrow> (f', Inr (take n (drop off (f_data f'))))
   | (Fault k, f') \<Rightarrow> (f', Inl io_error))"

text \<open>
  \<open>io.ReadFull\<close> over the \<open>OffsetReader\<close> of \<open>log.go\<close>: it reads again after a short read, and
  the second read is at the end of the file.  An empty buffer reads nothing.
\<close>

definition ReadFull :: "fileLike \<Rightarrow> nat \<Rightarrow> nat \<Rightarrow> fileLike \<times> (bytes \<times> nat) res" where
  "ReadFull f off n = (if n = 0 then (f, Inr ([], off)) else
     (case ReadAt f n off of
        (f1, Inl e) \<Rightarrow> (f1, Inl e)
      | (f1, Inr bs) \<Rightarrow>
          if length bs = n then (f1, Inr (bs, off + n))
          else if bs = [] then (f1, Inl EOF)
          else (case ReadAt f1 (n - length bs) (off + length bs) of
              (f2, Inl e) \<Rightarrow> (f2, Inl e)
            | (f2, Inr _) \<Rightarrow> (f2, Inl ErrUnexpectedEOF))))"

lemmas file_op_defs = WriteAt_def Truncate_def Sync_def Stat_Size_def ReadAt_def

section \<open>Crashes\<close>

text \<open>
  What can be left of one pending operation: nothing, all of it, or for a write any bytes
  inside the range it was writing (a torn write).
\<close>

inductive torn :: "fop \<Rightarrow> fop \<Rightarrow> bool" where
  torn_all: "torn p p"
| torn_write: "length bs' \<le> length bs \<Longrightarrow> torn (PWrite off bs) (PWrite off bs')"

inductive crash_content :: "bytes \<Rightarrow> fop list \<Rightarrow> bytes \<Rightarrow> bool" where
  crash_done: "crash_content d [] d"
| crash_drop: "crash_content d ps d' \<Longrightarrow> crash_content d (p # ps) d'"
| crash_apply: "torn p p' \<Longrightarrow> crash_content (apply_fop p' d) ps d' \<Longrightarrow> crash_content d (p # ps) d'"

definition crashes_to :: "fileLike \<Rightarrow> bytes \<Rightarrow> bool" where
  "crashes_to f d \<longleftrightarrow> crash_content (f_synced f) (f_pending f) d"

text \<open>A file's content is what the operations since the last sync made of the synced bytes.\<close>

definition file_wf :: "fileLike \<Rightarrow> bool" where
  "file_wf f \<longleftrightarrow> f_data f = fold apply_fop (f_pending f) (f_synced f)"

lemma file_wf_ops:
  assumes "file_wf f"
  shows "file_wf (fst (WriteAt f bs off))" and "file_wf (fst (Truncate f n))"
    and "file_wf (fst (Sync f))" and "file_wf (fst (Stat_Size f))" and "file_wf (fst (ReadAt f n off))"
  using assms
  by (auto simp: file_wf_def file_op_defs do_fop_def split: list.splits fault.splits)

section \<open>Facts on content\<close>

lemma length_write_at: "bs \<noteq> [] \<Longrightarrow> length (write_at d off bs) = max (length d) (off + length bs)"
  by (auto simp: write_at_def)

lemma take_write_at [simp]: "n \<le> off \<Longrightarrow> n \<le> length d \<Longrightarrow> take n (write_at d off bs) = take n d"
  by (auto simp: write_at_def)

lemma take_truncate_to [simp]: "n \<le> m \<Longrightarrow> n \<le> length d \<Longrightarrow> take n (truncate_to d m) = take n d"
  by (auto simp: truncate_to_def min_def)

lemma write_at_end: "off \<le> length d \<Longrightarrow> length d \<le> off + length bs \<Longrightarrow>
    write_at d off bs = take off d @ bs"
  by (auto simp: write_at_def)

lemma write_at_split: "off \<le> length d \<Longrightarrow>
    write_at d off bs = take off d @ bs @ drop (off + length bs) d"
  by (auto simp: write_at_def)

fun fop_from :: "nat \<Rightarrow> fop \<Rightarrow> bool" where
  "fop_from n (PWrite off bs) \<longleftrightarrow> n \<le> off"
| "fop_from n (PTrunc m) \<longleftrightarrow> n \<le> m"

lemma torn_fop_from: "torn p p' \<Longrightarrow> fop_from n p \<Longrightarrow> fop_from n p'"
  by (auto elim!: torn.cases)

lemma take_apply_fop: "fop_from n p \<Longrightarrow> n \<le> length d \<Longrightarrow> take n (apply_fop p d) = take n d"
  by (cases p) auto

lemma length_apply_fop: "fop_from n p \<Longrightarrow> n \<le> length d \<Longrightarrow> n \<le> length (apply_fop p d)"
  by (metis take_apply_fop length_take min.absorb2 min.cobounded1)

text \<open>A crash cannot touch the bytes that no pending operation covers.\<close>

lemma crash_content_prefix:
  assumes "crash_content d ps d'" and "\<forall>p \<in> set ps. fop_from n p" and "n \<le> length d"
  shows "take n d' = take n d \<and> n \<le> length d'"
  using assms
proof (induction rule: crash_content.induct)
  case (crash_apply p p' d ps d')
  then have "fop_from n p'" by (auto intro: torn_fop_from)
  with crash_apply show ?case using take_apply_fop length_apply_fop by simp
qed auto

section \<open>What an operation leaves\<close>

lemma WriteAt_facts:
  assumes "WriteAt f bs off = (f', r)"
  obtains bs' where "f_synced f' = f_synced f" "f_pending f' = f_pending f @ [PWrite off bs']"
    "f_data f' = write_at (f_data f) off bs'" "r = Inr () \<longrightarrow> bs' = bs"
    "(\<exists>e. r = Inl e) \<or> r = Inr ()"
  using assms by (auto simp: WriteAt_def do_fop_def split: list.splits fault.splits)

lemma WriteAt_okE: "WriteAt f bs off = (f', Inr ()) \<Longrightarrow>
    (f_data f' = write_at (f_data f) off bs \<Longrightarrow> P) \<Longrightarrow> P"
  by (auto simp: WriteAt_def do_fop_def split: list.splits fault.splits)

lemma Sync_facts:
  assumes "Sync f = (f', r)"
  shows "f_data f' = f_data f"
    and "r = Inr () \<Longrightarrow> f_synced f' = f_data f \<and> f_pending f' = []"
    and "r \<noteq> Inr () \<Longrightarrow> f_synced f' = f_synced f \<and> f_pending f' = f_pending f"
  using assms by (auto simp: Sync_def split: list.splits fault.splits)

lemma WriteAt_nofault: "WriteAt f bs off = (f', r) \<Longrightarrow> f_faults f = [] \<longrightarrow> r = Inr () \<and> f_faults f' = []"
  by (auto simp: WriteAt_def do_fop_def)

text \<open>A file as a restart finds it: all its content on stable storage.\<close>

definition clean :: "bytes \<Rightarrow> fileLike" where
  "clean d = \<lparr>f_data = d, f_synced = d, f_pending = [], f_faults = []\<rparr>"

lemma clean_sel [simp]: "f_data (clean d) = d" "f_faults (clean d) = []" "f_synced (clean d) = d"
    "f_pending (clean d) = []" "file_wf (clean d)"
  by (simp_all add: clean_def file_wf_def)

lemma Sync_clean [simp]: "Sync (clean d) = (clean d, Inr ())"
  by (simp add: Sync_def clean_def)

end
