(* ===== verification/Entry.thy ===== *)
theory Entry
  imports Binary Files
begin

text \<open>
  \<open>src/db/kv_entry.go\<close>: the records of the write-ahead log.  A record is a checksummed
  header and payload; encoding and decoding enforce the same size limit.
\<close>

section \<open>Records\<close>

abbreviation EntryAdd :: byte where "EntryAdd \<equiv> 0"
abbreviation EntryDel :: byte where "EntryDel \<equiv> 1"
abbreviation EntryCommit :: byte where "EntryCommit \<equiv> 2"

record entry =
  e_key :: bytes
  e_val :: bytes
  e_seq :: u64
  e_op :: byte

definition MaxEntrySize :: nat where
  "MaxEntrySize = 64 * 2 ^ 20"

definition entryHeaderSize :: nat where
  "entryHeaderSize = 4 + 8 + 4 + 4 + 1"

text \<open>The checksummed region: everything after the checksum itself.\<close>

definition entry_body :: "entry \<Rightarrow> bytes" where
  "entry_body e = PutUint64 (e_seq e) @ PutUint32 (word_of_nat (length (e_key e))) @
     PutUint32 (word_of_nat (length (e_val e))) @ [e_op e] @ e_key e @ e_val e"

definition Entry_Encode :: "entry \<Rightarrow> bytes res" where
  "Entry_Encode e =
     (let size = length (e_key e) + length (e_val e) in
      if MaxEntrySize < size then Inl ErrEntryTooLarge
      else let data = entry_body e in Inr (PutUint32 (crc32_ieee data) @ data))"

definition Entry_Decode :: "fileLike \<Rightarrow> nat \<Rightarrow> fileLike \<times> (entry \<times> nat) res" where
  "Entry_Decode r off =
     (case ReadFull r off entryHeaderSize of
        (r1, Inl err) \<Rightarrow> (r1, Inl err)
      | (r1, Inr (header, off1)) \<Rightarrow>
          let sq = Uint64 (take 8 (drop 4 header));
              klen = unat (Uint32 (take 4 (drop 12 header)));
              vlen = unat (Uint32 (take 4 (drop 16 header)));
              op = header ! 20
          in if MaxEntrySize < klen + vlen then (r1, Inl ErrEntryTooLarge)
             else (case ReadFull r1 off1 (klen + vlen) of
                 (r2, Inl err) \<Rightarrow> (r2, Inl err)
               | (r2, Inr (data, off2)) \<Rightarrow>
                   if crc32_ieee (drop 4 header @ data) \<noteq> Uint32 (take 4 header) then (r2, Inl ErrBadSum)
                   else if op \<noteq> EntryAdd \<and> op \<noteq> EntryDel \<and> op \<noteq> EntryCommit then (r2, Inl ErrBadEntryOp)
                   else (r2, Inr (\<lparr>e_key = take klen data, e_val = drop klen data, e_seq = sq, e_op = op\<rparr>, off2))))"

definition entry_op_ok :: "entry \<Rightarrow> bool" where
  "entry_op_ok e \<longleftrightarrow> e_op e = EntryAdd \<or> e_op e = EntryDel \<or> e_op e = EntryCommit"

definition entry_fits :: "entry \<Rightarrow> bool" where
  "entry_fits e \<longleftrightarrow> length (e_key e) + length (e_val e) \<le> MaxEntrySize"

text \<open>The bytes of a record that fits.\<close>

definition entry_bytes :: "entry \<Rightarrow> bytes" where
  "entry_bytes e = PutUint32 (crc32_ieee (entry_body e)) @ entry_body e"

section \<open>Facts\<close>

lemma length_entry_body: "length (entry_body e) = 17 + length (e_key e) + length (e_val e)"
  by (simp add: entry_body_def)

lemma length_entry_bytes: "length (entry_bytes e) = 21 + length (e_key e) + length (e_val e)"
  by (simp add: entry_bytes_def length_entry_body)

lemma entry_bytes_neq_Nil [simp]: "entry_bytes e \<noteq> []"
  by (metis length_entry_bytes list.size(3) add_is_0 zero_neq_numeral)

lemma Entry_Encode_eq: "Entry_Encode e = (if entry_fits e then Inr (entry_bytes e) else Inl ErrEntryTooLarge)"
  by (simp add: Entry_Encode_def entry_fits_def entry_bytes_def Let_def)

lemma ReadFull_ok:
  assumes "f_faults f = []" and "n \<le> length (drop off (f_data f))"
  shows "ReadFull f off n = (f, Inr (take n (drop off (f_data f)), off + n))"
  using assms by (auto simp: ReadFull_def ReadAt_def)

lemma ReadFull_short:
  assumes "f_faults f = []" and "length (drop off (f_data f)) < n"
  shows "ReadFull f off n =
    (f, Inl (if length (f_data f) \<le> off then EOF else ErrUnexpectedEOF))"
  using assms by (auto simp: ReadFull_def ReadAt_def)

text \<open>A record that fits is read back from wherever it lies, whatever follows it.\<close>

lemma Entry_Decode_bytes [codec_simps]:
  assumes nf: "f_faults f = []" and at: "drop off (f_data f) = entry_bytes e @ rest"
    and fits: "entry_fits e" and op: "entry_op_ok e"
  shows "Entry_Decode f off = (f, Inr (e, off + length (entry_bytes e)))"
proof -
  let ?k = "length (e_key e)" and ?v = "length (e_val e)"
  let ?hdr = "PutUint32 (crc32_ieee (entry_body e)) @ PutUint64 (e_seq e) @
    PutUint32 (word_of_nat ?k) @ PutUint32 (word_of_nat ?v) @ [e_op e]"
  have bytes: "entry_bytes e = ?hdr @ e_key e @ e_val e"
    by (simp add: entry_bytes_def entry_body_def)
  have lens: "unat (word_of_nat ?k :: u32) = ?k" "unat (word_of_nat ?v :: u32) = ?v"
    using fits by (auto simp: entry_fits_def MaxEntrySize_def intro!: unat_word_of_nat_less)
  have h: "ReadFull f off entryHeaderSize = (f, Inr (?hdr, off + 21))"
    using nf at by (subst ReadFull_ok) (simp_all add: entryHeaderSize_def bytes)
  have at': "drop (off + 21) (f_data f) = e_key e @ e_val e @ rest"
  proof -
    have "drop (off + 21) (f_data f) = drop 21 (drop off (f_data f))" by (simp add: add.commute)
    then show ?thesis by (simp add: at bytes)
  qed
  have p: "ReadFull f (off + 21) (?k + ?v) = (f, Inr (e_key e @ e_val e, off + 21 + (?k + ?v)))"
    using nf at' by (subst ReadFull_ok) simp_all
  have body: "drop 4 ?hdr @ e_key e @ e_val e = entry_body e" by (simp add: entry_body_def)
  have nth: "?hdr ! 20 = e_op e" by (simp add: nth_append)
  show ?thesis
    unfolding Entry_Decode_def h
    using fits op p lens body nth
    by (simp add: Let_def entry_fits_def entry_op_ok_def length_entry_bytes)
qed

text \<open>
  Whatever decodes re-encodes to the very bytes it was decoded from: no two byte strings are
  read as the same record, and the decoder never accepts what the encoder refuses to write.
\<close>

lemma Entry_Decode_sound:
  assumes nf: "f_faults f = []" and dec: "Entry_Decode f off = (f', Inr (e, off'))"
  shows "f' = f \<and> entry_fits e \<and> entry_op_ok e \<and> off' = off + length (entry_bytes e) \<and>
    (\<exists>rest. drop off (f_data f) = entry_bytes e @ rest)"
proof -
  let ?d = "drop off (f_data f)"
  have len: "21 \<le> length ?d"
  proof (rule ccontr)
    assume "\<not> 21 \<le> length ?d"
    with dec show False
      by (simp add: Entry_Decode_def ReadFull_short[OF nf] entryHeaderSize_def split: if_splits)
  qed
  define h where "h = take 21 ?d"
  define k where "k = unat (Uint32 (take 4 (drop 12 h)))"
  define v where "v = unat (Uint32 (take 4 (drop 16 h)))"
  have lh: "length h = 21" using len by (simp add: h_def)
  have r1: "ReadFull f off entryHeaderSize = (f, Inr (h, off + 21))"
    using nf len by (subst ReadFull_ok) (simp_all add: entryHeaderSize_def h_def)
  have small: "k + v \<le> MaxEntrySize"
    using dec r1 by (auto simp: Entry_Decode_def Let_def k_def v_def split: if_splits)
  have len2: "k + v \<le> length (drop (off + 21) (f_data f))"
  proof (rule ccontr)
    assume "\<not> k + v \<le> length (drop (off + 21) (f_data f))"
    then have "length (drop (off + 21) (f_data f)) < k + v" by simp
    from dec small r1 ReadFull_short[OF nf this] show False
      by (simp add: Entry_Decode_def Let_def k_def v_def split: if_splits)
  qed
  define p where "p = take (k + v) (drop (off + 21) (f_data f))"
  have lp: "length p = k + v" using len2 by (simp add: p_def)
  have r2: "ReadFull f (off + 21) (k + v) = (f, Inr (p, off + 21 + (k + v)))"
    using nf len2 by (subst ReadFull_ok) (simp_all add: p_def)
  from dec r1 r2 small
  have crc: "crc32_ieee (drop 4 h @ p) = Uint32 (take 4 h)"
    and e: "e = \<lparr>e_key = take k p, e_val = drop k p, e_seq = Uint64 (take 8 (drop 4 h)), e_op = h ! 20\<rparr>"
    and ops: "entry_op_ok e" and off': "off' = off + 21 + (k + v)" and f': "f' = f"
    by (auto simp: Entry_Decode_def Let_def k_def v_def entry_op_ok_def split: if_splits)
  have "drop 20 h = [h ! 20]"
    using lh Cons_nth_drop_Suc[of 20 h] by simp
  then have split: "drop 4 h = take 8 (drop 4 h) @ take 4 (drop 12 h) @ take 4 (drop 16 h) @ [h ! 20]"
    using drop_take_split[of 4 h 8] drop_take_split[of 12 h 4] drop_take_split[of 16 h 4] by simp
  have body: "entry_body e = drop 4 h @ p"
    using lh lp by (subst split) (simp add: entry_body_def e k_def v_def PutUint_Uint)
  have bytes: "entry_bytes e = h @ p"
    using lh by (simp add: entry_bytes_def body crc PutUint_Uint)
  have "?d = h @ p @ drop (off + 21 + (k + v)) (f_data f)"
    using drop_take_split[of off "f_data f" 21] drop_take_split[of "off + 21" "f_data f" "k + v"]
    by (simp only: h_def p_def)
  moreover have "entry_fits e" using small lp by (simp add: entry_fits_def e)
  ultimately show ?thesis
    using f' ops off' lp lh by (simp add: bytes)
qed

section \<open>Properties\<close>

text \<open>
  C17: on a file without I/O errors, decoding a record at an offset succeeds exactly when
  the bytes there are the encoding of a record with a known operation, whatever follows; it
  then returns that record and moves past exactly its bytes.
\<close>

theorem Entry_codec:
  assumes "f_faults f = []"
  shows "Entry_Decode f off = (f, Inr (e, off')) \<longleftrightarrow>
    entry_op_ok e \<and> (\<exists>bs rest. Entry_Encode e = Inr bs \<and> drop off (f_data f) = bs @ rest \<and>
      off' = off + length bs)"
  using Entry_Decode_sound[OF assms, of off f e off'] Entry_Decode_bytes[OF assms, of off e]
  by (auto simp: Entry_Encode_eq split: if_splits)

theorem Entry_codec_witness:
  "let e = \<lparr>e_key = [107], e_val = [118], e_seq = 7, e_op = EntryAdd\<rparr>;
       bs = PutUint32 (crc32_ieee (entry_body e)) @ entry_body e;
       f = \<lparr>f_data = [1, 2, 3] @ bs @ [4], f_synced = [], f_pending = [], f_faults = []\<rparr>
   in Entry_Decode f 3 = (f, Inr (e, 26))"
  unfolding Let_def
  by (subst Entry_codec)
    (simp_all add: entry_op_ok_def Entry_Encode_def MaxEntrySize_def length_entry_body Let_def)

end
