(* ===== verification/WAL.thy ===== *)
theory WAL
  imports Entry "HOL-Library.Sublist"
begin

text \<open>
  \<open>src/db/log.go\<close>: the write-ahead log.  A log is a header that holds the sequence floor,
  followed by records; a transaction is the run of records up to a commit record.  The
  invariant \<open>log_inv\<close> holds under any pattern of I/O faults, and says what a crash can leave
  behind; the theorems are that replay recovers every committed transaction, that it never
  accepts a record of an older generation, and that it terminates.
\<close>

section \<open>The log\<close>

record Log =
  l_fp :: "fileLike option"
  l_reader :: nat
  l_epoch :: u64
  l_seq :: u64
  l_offset :: nat
  l_committed :: nat

definition logHeaderSize :: nat where
  "logHeaderSize = 8 + 8 + 4"

definition logMagic :: bytes where
  "logMagic = [0x50, 0x44, 0x42, 0x57, 0x41, 0x4C, 0x31, 0x0A]"

text \<open>A call through \<open>log.fp\<close>; a nil interface panics.\<close>

definition with_fp :: "Log \<Rightarrow> (fileLike \<Rightarrow> fileLike \<times> 'a res) \<Rightarrow> Log \<times> 'a res" where
  "with_fp log op = (case l_fp log of
     None \<Rightarrow> (log, Inl (Panic ''nil pointer dereference''))
   | Some f \<Rightarrow> (let (f', r) = op f in (log\<lparr>l_fp := Some f'\<rparr>, r)))"

definition log_header :: "u64 \<Rightarrow> bytes" where
  "log_header epoch = (let h = logMagic @ PutUint64 epoch in h @ PutUint32 (crc32_ieee h))"

definition Log_writeHeader :: "Log \<Rightarrow> u64 \<Rightarrow> Log \<times> unit res" where
  "Log_writeHeader log epoch =
     sbind (with_fp log (\<lambda>f. WriteAt f (log_header epoch) 0)) (\<lambda>log _.
     sbind (with_fp log Sync) (\<lambda>log _.
     (log\<lparr>l_epoch := epoch\<rparr>, Inr ())))"

definition Log_openHeader :: "Log \<Rightarrow> Log \<times> unit res" where
  "Log_openHeader log =
     sbind (with_fp log (\<lambda>f. ReadAt f logHeaderSize 0)) (\<lambda>log buf.
     if length buf < logHeaderSize then Log_writeHeader log 0
     else if take 8 buf \<noteq> logMagic then (log, Inl ErrLogHeaderCorrupt)
     else if Uint32 (take 4 (drop 16 buf)) \<noteq> crc32_ieee (take 16 buf) then
       (log, Inl ErrLogHeaderCorrupt)
     else (log\<lparr>l_epoch := Uint64 (take 8 (drop 8 buf))\<rparr>, Inr ()))"

definition Log_Open :: "fileLike \<Rightarrow> Log \<times> unit res" where
  "Log_Open fp =
     (case Log_openHeader \<lparr>l_fp = Some fp, l_reader = 0, l_epoch = 0, l_seq = 0,
         l_offset = 0, l_committed = 0\<rparr> of
        (log, Inl e) \<Rightarrow> (log\<lparr>l_fp := None\<rparr>, Inl e)
      | (log, Inr _) \<Rightarrow>
          (log\<lparr>l_reader := logHeaderSize, l_offset := logHeaderSize, l_committed := logHeaderSize,
             l_seq := l_epoch log\<rparr>, Inr ()))"

definition Log_Close :: "Log \<Rightarrow> Log \<times> unit res" where
  "Log_Close log = (case l_fp log of None \<Rightarrow> (log, Inr ())
     | Some f \<Rightarrow> (log\<lparr>l_fp := None\<rparr>, fp_Close f))"

definition Log_Write :: "Log \<Rightarrow> entry \<Rightarrow> Log \<times> unit res" where
  "Log_Write log ent =
     (let ent = ent\<lparr>e_seq := l_seq log + 1\<rparr> in
      case Entry_Encode ent of
        Inl e \<Rightarrow> (log, Inl e)
      | Inr data \<Rightarrow>
          sbind (with_fp log (\<lambda>f. WriteAt f data (l_offset log))) (\<lambda>log _.
          (log\<lparr>l_offset := l_offset log + length data, l_seq := e_seq ent\<rparr>, Inr ())))"

definition commit_entry :: entry where
  "commit_entry = \<lparr>e_key = [], e_val = [], e_seq = 0, e_op = EntryCommit\<rparr>"

definition Log_Commit :: "Log \<Rightarrow> Log \<times> unit res" where
  "Log_Commit log =
     sbind (Log_Write log commit_entry) (\<lambda>log _.
     sbind (with_fp log Sync) (\<lambda>log _.
     (log\<lparr>l_committed := l_offset log\<rparr>, Inr ())))"

definition Log_ResetTX :: "Log \<Rightarrow> Log" where
  "Log_ResetTX log = log\<lparr>l_offset := l_committed log\<rparr>"

definition Log_endReplay :: "Log \<Rightarrow> Log \<times> unit res" where
  "Log_endReplay log =
     sbind (with_fp log Stat_Size) (\<lambda>log size.
     if size = l_committed log then (log, Inr ())
     else sbind (with_fp log (\<lambda>f. Truncate f (l_committed log))) (\<lambda>log _.
       with_fp log Sync))"

text \<open>Errors that mean \<open>the current generation of the log ends here\<close>.\<close>

definition replay_end_error :: "err \<Rightarrow> bool" where
  "replay_end_error e \<longleftrightarrow> e = EOF \<or> e = ErrUnexpectedEOF \<or> e = ErrBadSum \<or>
     e = ErrEntryTooLarge \<or> e = ErrBadEntryOp"

text \<open>\<open>Log.Read\<close>: \<open>None\<close> is \<open>eof = true\<close>, \<open>Some ent\<close> the next record.\<close>

definition Log_Read :: "Log \<Rightarrow> Log \<times> entry option res" where
  "Log_Read log =
     (case with_fp log (\<lambda>f. Entry_Decode f (l_reader log)) of
        (log, Inl err) \<Rightarrow>
          if replay_end_error err then
            sbind (Log_endReplay log) (\<lambda>log _. (log, Inr None))
          else (log, Inl err)
      | (log, Inr (ent, off)) \<Rightarrow>
          let log = log\<lparr>l_reader := off\<rparr> in
          if e_seq ent \<le> l_seq log then
            sbind (Log_endReplay log) (\<lambda>log _. (log, Inr None))
          else let log = log\<lparr>l_seq := e_seq ent\<rparr> in
            if e_op ent = EntryCommit then
              (log\<lparr>l_offset := off, l_committed := off\<rparr>, Inr (Some ent))
            else (log, Inr (Some ent)))"

definition Log_Truncate :: "Log \<Rightarrow> Log \<times> unit res" where
  "Log_Truncate log =
     sbind (Log_writeHeader log (l_seq log)) (\<lambda>log _.
     let log = log\<lparr>l_offset := logHeaderSize, l_committed := logHeaderSize\<rparr> in
     sbind (with_fp log (\<lambda>f. Truncate f logHeaderSize)) (\<lambda>log _.
     with_fp log Sync))"

text \<open>
  The loop of \<open>KV.updateLog\<close> and \<open>KV.rewriteLog\<close> (\<open>src/db/kv.go\<close>) that writes one
  transaction's records, and the whole of \<open>updateLog\<close>: its deferred \<open>ResetTX\<close> runs on every
  return.
\<close>

fun Log_writeAll :: "Log \<Rightarrow> entry list \<Rightarrow> Log \<times> unit res" where
  "Log_writeAll log [] = (log, Inr ())"
| "Log_writeAll log (ent # ents) = sbind (Log_Write log ent) (\<lambda>log _. Log_writeAll log ents)"

definition Log_tx :: "Log \<Rightarrow> entry list \<Rightarrow> Log \<times> unit res" where
  "Log_tx log ents =
     (case sbind (Log_writeAll log ents) (\<lambda>log _. Log_Commit log) of
        (log, r) \<Rightarrow> (Log_ResetTX log, r))"

text \<open>
  The replay loop of \<open>KV.openLog\<close> (\<open>src/db/kv.go\<close>): it collects the data records and
  remembers how many of them precede the last commit.  The loop runs on fuel;
  \<open>openLog_loop_returns\<close> says how much is enough.
\<close>

fun openLog_loop :: "nat \<Rightarrow> Log \<Rightarrow> entry list \<Rightarrow> nat \<Rightarrow> (Log \<times> entry list res) option" where
  "openLog_loop 0 log entries committed = None"
| "openLog_loop (Suc fuel) log entries committed =
     (case Log_Read log of
        (log, Inl err) \<Rightarrow> Some (log, Inl err)
      | (log, Inr None) \<Rightarrow> Some (log, Inr (take committed entries))
      | (log, Inr (Some ent)) \<Rightarrow>
          if e_op ent = EntryAdd \<or> e_op ent = EntryDel then
            openLog_loop fuel log (entries @ [ent]) committed
          else if e_op ent = EntryCommit then
            openLog_loop fuel log entries (length entries)
          else Some (log, Inl (Error ''invalid log entry op'')))"

section \<open>Facts on the file operations\<close>

lemma with_fp_Some [simp]:
  "l_fp log = Some f \<Longrightarrow> with_fp log op = (log\<lparr>l_fp := Some (fst (op f))\<rparr>, snd (op f))"
  by (simp add: with_fp_def case_prod_beta)

lemma length_log_header [simp]: "length (log_header e) = 20"
  by (simp add: log_header_def logMagic_def Let_def)

lemma log_header_neq_Nil [simp]: "log_header e \<noteq> []"
  by (metis length_log_header list.size(3) zero_neq_numeral)

definition recs_bytes :: "entry list \<Rightarrow> bytes" where
  "recs_bytes rs = concat (map entry_bytes rs)"

lemma recs_bytes_simps [simp]:
  "recs_bytes [] = []" "recs_bytes (r # rs) = entry_bytes r @ recs_bytes rs"
  "recs_bytes (rs @ rs') = recs_bytes rs @ recs_bytes rs'"
  by (simp_all add: recs_bytes_def)

text \<open>Records as a generation holds them: above the floor, in increasing sequence.\<close>

fun recs_ok :: "u64 \<Rightarrow> entry list \<Rightarrow> bool" where
  "recs_ok floor [] \<longleftrightarrow> True"
| "recs_ok floor (r # rs) \<longleftrightarrow> floor < e_seq r \<and> entry_fits r \<and> entry_op_ok r \<and> recs_ok (e_seq r) rs"

definition last_seq :: "u64 \<Rightarrow> entry list \<Rightarrow> u64" where
  "last_seq floor rs = (if rs = [] then floor else e_seq (last rs))"

lemma last_seq_simps [simp]:
  "last_seq floor [] = floor" "last_seq floor (r # rs) = last_seq (e_seq r) rs"
  "last_seq floor (rs @ [r]) = e_seq r"
  by (simp_all add: last_seq_def)

lemma last_seq_append [simp]: "last_seq floor (rs @ rs') = last_seq (last_seq floor rs) rs'"
  by (simp add: last_seq_def)

lemma recs_ok_append [simp]:
  "recs_ok floor (rs @ rs') \<longleftrightarrow> recs_ok floor rs \<and> recs_ok (last_seq floor rs) rs'"
  by (induction rs arbitrary: floor) auto

lemma recs_ok_floor_le: "recs_ok floor rs \<Longrightarrow> floor \<le> last_seq floor rs"
  by (induction rs arbitrary: floor) fastforce+

section \<open>The invariant\<close>

text \<open>
  \<open>recs\<close> are the records up to the last commit, \<open>pend\<close> those written since.  The committed
  prefix is on stable storage, and every operation issued since lies behind it.
\<close>

definition committed_list :: "entry list \<Rightarrow> bool" where
  "committed_list rs \<longleftrightarrow> rs = [] \<or> e_op (last rs) = EntryCommit"

definition log_inv :: "Log \<Rightarrow> entry list \<Rightarrow> entry list \<Rightarrow> bool" where
  "log_inv log recs pend \<longleftrightarrow>
     (\<exists>f. l_fp log = Some f \<and> file_wf f \<and>
       take (l_committed log) (f_synced f) = log_header (l_epoch log) @ recs_bytes recs \<and>
       l_committed log = 20 + length (recs_bytes recs) \<and>
       (\<forall>p \<in> set (f_pending f). fop_from (l_committed log) p) \<and>
       take (l_offset log) (f_data f) = log_header (l_epoch log) @ recs_bytes (recs @ pend) \<and>
       l_offset log = 20 + length (recs_bytes (recs @ pend))) \<and>
     recs_ok (l_epoch log) (recs @ pend) \<and> last_seq (l_epoch log) (recs @ pend) \<le> l_seq log \<and>
     committed_list recs"

lemma take_eq_length: "take n xs = ys \<Longrightarrow> length ys = n \<Longrightarrow> n \<le> length xs"
  by (metis length_take min.cobounded1)

lemma log_invE:
  assumes "log_inv log recs pend"
  obtains f where "l_fp log = Some f" "file_wf f"
    "take (l_committed log) (f_synced f) = log_header (l_epoch log) @ recs_bytes recs"
    "l_committed log = 20 + length (recs_bytes recs)"
    "\<forall>p \<in> set (f_pending f). fop_from (l_committed log) p"
    "take (l_offset log) (f_data f) = log_header (l_epoch log) @ recs_bytes (recs @ pend)"
    "l_offset log = 20 + length (recs_bytes (recs @ pend))"
    "l_offset log \<le> length (f_data f)" "l_committed log \<le> length (f_synced f)"
    "l_committed log \<le> l_offset log"
    "recs_ok (l_epoch log) (recs @ pend)" "last_seq (l_epoch log) (recs @ pend) \<le> l_seq log"
    "committed_list recs"
proof -
  from assms obtain f where f: "l_fp log = Some f" "file_wf f"
    "take (l_committed log) (f_synced f) = log_header (l_epoch log) @ recs_bytes recs"
    "l_committed log = 20 + length (recs_bytes recs)"
    "\<forall>p \<in> set (f_pending f). fop_from (l_committed log) p"
    "take (l_offset log) (f_data f) = log_header (l_epoch log) @ recs_bytes (recs @ pend)"
    "l_offset log = 20 + length (recs_bytes (recs @ pend))"
    unfolding log_inv_def by blast
  moreover have "l_offset log \<le> length (f_data f)"
    using take_eq_length[OF f(6)] f(7) by simp
  moreover have "l_committed log \<le> length (f_synced f)"
    using take_eq_length[OF f(3)] f(4) by simp
  moreover have "l_committed log \<le> l_offset log" using f(4,7) by simp
  ultimately show thesis using that assms unfolding log_inv_def by blast
qed

text \<open>A write, whether it succeeds or fails part-way, stays behind the committed prefix.\<close>

lemma Log_Write_inv:
  assumes inv: "log_inv log recs pend" and wr: "Log_Write log ent = (log', r)"
    and op: "entry_op_ok ent" and room: "l_seq log < l_seq log + 1"
  shows "l_epoch log' = l_epoch log \<and> l_committed log' = l_committed log \<and>
    (if r = Inr () then entry_fits ent \<and> log_inv log' recs (pend @ [ent\<lparr>e_seq := l_seq log + 1\<rparr>]) \<and> l_seq log' = l_seq log + 1
     else log_inv log' recs pend \<and> l_seq log' = l_seq log)"
proof -
  let ?e = "ent\<lparr>e_seq := l_seq log + 1\<rparr>"
  from inv obtain f where f: "l_fp log = Some f" "file_wf f"
    "take (l_committed log) (f_synced f) = log_header (l_epoch log) @ recs_bytes recs"
    "l_committed log = 20 + length (recs_bytes recs)"
    "\<forall>p \<in> set (f_pending f). fop_from (l_committed log) p"
    "take (l_offset log) (f_data f) = log_header (l_epoch log) @ recs_bytes (recs @ pend)"
    "l_offset log = 20 + length (recs_bytes (recs @ pend))"
    "l_offset log \<le> length (f_data f)" "l_committed log \<le> length (f_synced f)"
    "l_committed log \<le> l_offset log"
    "recs_ok (l_epoch log) (recs @ pend)" "last_seq (l_epoch log) (recs @ pend) \<le> l_seq log"
    "committed_list recs" by (rule log_invE)
  show ?thesis
  proof (cases "entry_fits ent")
    case False
    then have "\<not> entry_fits ?e" by (simp add: entry_fits_def)
    with wr inv show ?thesis by (auto simp: Log_Write_def Entry_Encode_eq Let_def)
  next
    case True
    then have fits: "entry_fits ?e" by (simp add: entry_fits_def)
    obtain f' r' where w: "WriteAt f (entry_bytes ?e) (l_offset log) = (f', r')" by fastforce
    from w obtain bs' where f': "f_synced f' = f_synced f"
      "f_pending f' = f_pending f @ [PWrite (l_offset log) bs']"
      "f_data f' = write_at (f_data f) (l_offset log) bs'" "r' = Inr () \<longrightarrow> bs' = entry_bytes ?e"
      "(\<exists>e. r' = Inl e) \<or> r' = Inr ()" by (rule WriteAt_facts)
    have wf': "file_wf f'" using file_wf_ops(1)[OF f(2)] w by (metis fst_conv)
    have pend': "\<forall>p \<in> set (f_pending f'). fop_from (l_committed log) p"
      using f(5,10) f' by auto
    show ?thesis
    proof (cases "r' = Inr ()")
      case True
      then have log': "log' = log\<lparr>l_fp := Some f', l_offset := l_offset log + length (entry_bytes ?e),
          l_seq := l_seq log + 1\<rparr>" and r: "r = Inr ()"
        using wr w fits f(1) by (simp_all add: Log_Write_def Entry_Encode_eq Let_def)
      have data: "take (l_offset log + length (entry_bytes ?e)) (f_data f') =
          log_header (l_epoch log) @ recs_bytes (recs @ pend) @ entry_bytes ?e"
        using f'(3,4) True f(6,7,8) by (simp add: write_at_split)
      have "entry_op_ok ?e" using op by (simp add: entry_op_ok_def)
      moreover have "last_seq (l_epoch log) (recs @ pend) < l_seq log + 1" using f(12) room by simp
      ultimately have "recs_ok (l_epoch log) ((recs @ pend) @ [?e])"
        using f(11) fits by (simp del: append_assoc)
      then show ?thesis
        using r \<open>entry_fits ent\<close> wf' f f'(1) pend' data unfolding log_inv_def log' by simp
    next
      case False
      with f'(5) obtain e where r': "r' = Inl e" by auto
      then have log': "log' = log\<lparr>l_fp := Some f'\<rparr>" and r: "r = Inl e"
        using wr w fits f(1) by (simp_all add: Log_Write_def Entry_Encode_eq Let_def)
      have "take (l_offset log) (f_data f') = take (l_offset log) (f_data f)"
        using f(8) f'(3) by simp
      then show ?thesis using r f f'(1) wf' pend' unfolding log_inv_def log' by simp
    qed
  qed
qed

lemma Log_ResetTX_inv: "log_inv log recs pend \<Longrightarrow> log_inv (Log_ResetTX log) recs []"
proof (erule log_invE)
  fix f assume f: "l_fp log = Some f" "file_wf f"
    "take (l_committed log) (f_synced f) = log_header (l_epoch log) @ recs_bytes recs"
    "l_committed log = 20 + length (recs_bytes recs)"
    "\<forall>p \<in> set (f_pending f). fop_from (l_committed log) p"
    "take (l_offset log) (f_data f) = log_header (l_epoch log) @ recs_bytes (recs @ pend)"
    "l_committed log \<le> l_offset log"
    "recs_ok (l_epoch log) (recs @ pend)" "last_seq (l_epoch log) (recs @ pend) \<le> l_seq log"
    "committed_list recs"
  have "take (l_committed log) (f_data f) = take (l_committed log) (take (l_offset log) (f_data f))"
    using f(7) by (simp add: min_absorb1)
  also have "\<dots> = log_header (l_epoch log) @ recs_bytes recs" by (simp add: f(4,6))
  finally have "take (l_committed log) (f_data f) = log_header (l_epoch log) @ recs_bytes recs" .
  moreover have "last_seq (l_epoch log) recs \<le> last_seq (l_epoch log) (recs @ pend)"
    using f(8) recs_ok_floor_le by simp
  ultimately show "log_inv (Log_ResetTX log) recs []"
    using f unfolding log_inv_def Log_ResetTX_def by auto
qed

lemma committed_list_snoc [simp]: "committed_list (rs @ [e]) \<longleftrightarrow> e_op e = EntryCommit"
  by (simp add: committed_list_def)

text \<open>A commit that returns makes its transaction part of the durable prefix.\<close>

lemma Log_Commit_inv:
  assumes inv: "log_inv log recs pend" and cm: "Log_Commit log = (log', r)"
    and room: "l_seq log < l_seq log + 1"
  shows "if r = Inr () then log_inv log' (recs @ pend @ [commit_entry\<lparr>e_seq := l_seq log + 1\<rparr>]) [] \<and> l_epoch log' = l_epoch log
    \<and> l_seq log' = l_seq log + 1
    else \<exists>pend'. log_inv log' recs pend' \<and> l_epoch log' = l_epoch log \<and> l_seq log \<le> l_seq log'"
proof -
  let ?c = "commit_entry\<lparr>e_seq := l_seq log + 1\<rparr>"
  have op: "entry_op_ok commit_entry" by (simp add: entry_op_ok_def commit_entry_def)
  obtain log1 r1 where w: "Log_Write log commit_entry = (log1, r1)" by fastforce
  note W = Log_Write_inv[OF inv w op room]
  show ?thesis
  proof (cases "r1 = Inr ()")
    case False
    then obtain e where "r1 = Inl e" by (cases r1) auto
    then have "log' = log1" "r = Inl e" using cm w by (simp_all add: Log_Commit_def)
    then show ?thesis using W False by auto
  next
    case True
    with W have inv1: "log_inv log1 recs (pend @ [?c])" and s1: "l_seq log1 = l_seq log + 1" "l_epoch log1 = l_epoch log" by auto
    from inv1 obtain f where f: "l_fp log1 = Some f" "file_wf f"
      "take (l_offset log1) (f_data f) = log_header (l_epoch log1) @ recs_bytes (recs @ pend @ [?c])"
      "l_offset log1 = 20 + length (recs_bytes (recs @ pend @ [?c]))"
      "recs_ok (l_epoch log1) (recs @ pend @ [?c])"
      "last_seq (l_epoch log1) (recs @ pend @ [?c]) \<le> l_seq log1" by (rule log_invE) simp
    obtain f' r' where s: "Sync f = (f', r')" by fastforce
    have wf': "file_wf f'" using file_wf_ops(3)[OF f(2)] s by (metis fst_conv)
    show ?thesis
    proof (cases "r' = Inr ()")
      case True
      then have "log' = log1\<lparr>l_fp := Some f', l_committed := l_offset log1\<rparr>" and r: "r = Inr ()"
        using cm w s f(1) \<open>r1 = Inr ()\<close> by (simp_all add: Log_Commit_def)
      moreover have "committed_list (recs @ pend @ [?c])"
        by (metis append_assoc committed_list_snoc commit_entry_def entry.simps(4,8,9))
      ultimately show ?thesis
        using f wf' Sync_facts[OF s] True s1 unfolding log_inv_def by auto
    next
      case False
      then obtain e where "r' = Inl e" by (cases r') auto
      then have log': "log' = log1\<lparr>l_fp := Some f'\<rparr>" and r: "r = Inl e"
        using cm w s f(1) \<open>r1 = Inr ()\<close> by (simp_all add: Log_Commit_def)
      have "log_inv log' recs (pend @ [?c])"
        using inv1 f(1) Sync_facts(1,3)[OF s] False wf' unfolding log' log_inv_def by auto
      then show ?thesis using r s1 room log' by auto
    qed
  qed
qed

section \<open>Replay\<close>

text \<open>The data records of a run, and the run up to its last commit.\<close>

definition data_entries :: "entry list \<Rightarrow> entry list" where
  "data_entries rs = filter (\<lambda>e. e_op e \<noteq> EntryCommit) rs"

definition upto_commit :: "entry list \<Rightarrow> entry list" where
  "upto_commit rs = rev (dropWhile (\<lambda>e. e_op e \<noteq> EntryCommit) (rev rs))"

lemma data_entries_simps [simp]:
  "data_entries [] = []" "data_entries (rs @ rs') = data_entries rs @ data_entries rs'"
  "data_entries [e] = (if e_op e = EntryCommit then [] else [e])"
  by (simp_all add: data_entries_def)

lemma upto_commit_simps [simp]:
  "upto_commit [] = []"
  "upto_commit (rs @ [e]) = (if e_op e = EntryCommit then rs @ [e] else upto_commit rs)"
  by (simp_all add: upto_commit_def)

lemma upto_commit_split: "\<exists>tail. rs = upto_commit rs @ tail"
proof (induction rs rule: rev_induct)
  case (snoc x xs)
  then obtain tail where "xs = upto_commit xs @ tail" by blast
  then have "xs @ [x] = upto_commit xs @ tail @ [x]" by (metis append_assoc)
  then show ?case by (metis upto_commit_simps(2) append_Nil2)
qed simp

lemma committed_upto_commit [simp]: "committed_list (upto_commit rs)"
  by (induction rs rule: rev_induct) (auto simp: committed_list_def)

lemma upto_commit_committed: "committed_list rs \<Longrightarrow> upto_commit rs = rs"
  by (cases rs rule: rev_cases) (auto simp: committed_list_def)

lemma upto_commit_append:
  assumes "committed_list rs"
  shows "\<exists>ext. upto_commit (rs @ rs') = rs @ ext"
proof (induction rs' rule: rev_induct)
  case (snoc x xs)
  then show ?case using upto_commit_simps(2)[of "rs @ xs" x] by (auto split: if_splits)
qed (simp add: assms upto_commit_committed)

lemma take_data_entries [simp]:
  "take (length (data_entries (upto_commit rs))) (data_entries rs) = data_entries (upto_commit rs)"
  by (metis upto_commit_split data_entries_simps(2) append_eq_conv_conj)

text \<open>Replay in progress: \<open>acc\<close> are the records accepted so far.\<close>

definition reading :: "Log \<Rightarrow> entry list \<Rightarrow> bytes \<Rightarrow> bool" where
  "reading log acc d \<longleftrightarrow> l_fp log = Some (clean d) \<and>
     take (l_reader log) d = log_header (l_epoch log) @ recs_bytes acc \<and>
     l_reader log = 20 + length (recs_bytes acc) \<and>
     recs_ok (l_epoch log) acc \<and> l_seq log = last_seq (l_epoch log) acc \<and>
     l_committed log = 20 + length (recs_bytes (upto_commit acc)) \<and> l_offset log = l_committed log"

lemma ReadFull_nofault:
  assumes "f_faults f = []" and "ReadFull f off n = (f', r)"
  shows "f' = f \<and> (\<forall>e. r = Inl e \<longrightarrow> replay_end_error e)"
  using assms by (auto simp: ReadFull_def ReadAt_def replay_end_error_def split: if_splits)

lemma Entry_Decode_nofault:
  assumes "f_faults f = []" and "Entry_Decode f off = (f', r)"
  shows "f' = f \<and> (\<forall>e. r = Inl e \<longrightarrow> replay_end_error e)"
proof -
  have "replay_end_error ErrEntryTooLarge" "replay_end_error ErrBadSum" "replay_end_error ErrBadEntryOp"
    by (simp_all add: replay_end_error_def)
  with assms(2) show ?thesis
    unfolding Entry_Decode_def Let_def
    by (auto dest!: ReadFull_nofault[OF assms(1)] split: prod.splits sum.splits if_splits)
qed

lemma reading_prefix:
  assumes "reading log acc d"
  obtains rest where "d = log_header (l_epoch log) @ recs_bytes acc @ rest"
    "drop (l_reader log) d = rest"
  using assms unfolding reading_def by (metis append_assoc append_take_drop_id)

lemma Log_endReplay_reading:
  assumes rd: "reading log acc d"
  shows "\<exists>log'. Log_endReplay (log\<lparr>l_reader := off\<rparr>) = (log', Inr ()) \<and> log_inv log' (upto_commit acc) [] \<and>
    l_epoch log' = l_epoch log \<and> l_seq log' = l_seq log"
proof -
  let ?c = "l_committed log"
  from rd obtain rest where d: "d = log_header (l_epoch log) @ recs_bytes acc @ rest"
    by (rule reading_prefix)
  obtain tail where acc: "acc = upto_commit acc @ tail" using upto_commit_split by blast
  have c: "?c = 20 + length (recs_bytes (upto_commit acc))" and fp: "l_fp log = Some (clean d)"
    and ok: "recs_ok (l_epoch log) acc" and sq: "l_seq log = last_seq (l_epoch log) acc"
    and off: "l_offset log = ?c"
    using rd by (auto simp: reading_def)
  have "recs_bytes acc = recs_bytes (upto_commit acc) @ recs_bytes tail"
    by (subst acc) simp
  then have tk: "take ?c d = log_header (l_epoch log) @ recs_bytes (upto_commit acc)"
    by (simp add: d c)
  have ok': "recs_ok (l_epoch log) (upto_commit acc)" "last_seq (l_epoch log) (upto_commit acc) \<le> l_seq log"
    using ok acc recs_ok_append recs_ok_floor_le last_seq_append sq by (metis)+
  have le: "?c \<le> length d" using take_eq_length[OF tk] c by simp
  define log' where "log' = (if length d = ?c then log\<lparr>l_reader := off\<rparr> else log\<lparr>l_reader := off, l_fp := Some (clean (take ?c d))\<rparr>)"
  have "Log_endReplay (log\<lparr>l_reader := off\<rparr>) = (log', Inr ())"
    using le by (auto simp: fp log'_def Log_endReplay_def Stat_Size_def Truncate_def do_fop_def Sync_def truncate_to_def clean_def)
  moreover have "log_inv log' (upto_commit acc) []"
    using tk ok' c off fp le by (auto simp: log_inv_def log'_def)
  moreover have "l_epoch log' = l_epoch log" "l_seq log' = l_seq log" by (simp_all add: log'_def)
  ultimately show ?thesis by blast
qed

text \<open>
  Where the run of a generation ends: what follows is no record, or one whose sequence number
  is not above the last accepted one.
\<close>

definition run_ends :: "u64 \<Rightarrow> bytes \<Rightarrow> bool" where
  "run_ends sq rest \<longleftrightarrow>
     (\<forall>e tail. rest = entry_bytes e @ tail \<longrightarrow> entry_fits e \<longrightarrow> entry_op_ok e \<longrightarrow> e_seq e \<le> sq)"

lemma Log_Read_next:
  assumes rd: "reading log acc d" and at: "drop (l_reader log) d = entry_bytes e @ tail"
    and e: "entry_fits e" "entry_op_ok e" "l_seq log < e_seq e"
  obtains log' where "Log_Read log = (log', Inr (Some e))" "reading log' (acc @ [e]) d"
    "l_epoch log' = l_epoch log"
proof -
  from rd have r: "l_fp log = Some (clean d)" "take (l_reader log) d = log_header (l_epoch log) @ recs_bytes acc"
    "l_reader log = 20 + length (recs_bytes acc)" "recs_ok (l_epoch log) acc"
    "l_seq log = last_seq (l_epoch log) acc"
    "l_committed log = 20 + length (recs_bytes (upto_commit acc))" "l_offset log = l_committed log"
    unfolding reading_def by blast+
  have d: "d = log_header (l_epoch log) @ recs_bytes acc @ entry_bytes e @ tail"
    by (metis append_assoc append_take_drop_id at r(2))
  let ?off = "l_reader log + length (entry_bytes e)"
  have dec: "Entry_Decode (clean d) (l_reader log) = (clean d, Inr (e, ?off))"
    using Entry_Decode_bytes[of "clean d" "l_reader log" e tail] at e by simp
  define log' where "log' = (if e_op e = EntryCommit
      then log\<lparr>l_reader := ?off, l_seq := e_seq e, l_offset := ?off, l_committed := ?off\<rparr>
      else log\<lparr>l_reader := ?off, l_seq := e_seq e\<rparr>)"
  have upd: "log\<lparr>l_fp := Some (clean d)\<rparr> = log" using r(1) by simp
  have "\<not> e_seq e \<le> l_seq log" using e by (simp add: not_le)
  then have "Log_Read log = (log', Inr (Some e))"
    using e r(1) by (simp add: Log_Read_def dec log'_def Let_def upd)
  moreover have "take ?off d = log_header (l_epoch log) @ recs_bytes (acc @ [e])"
    by (simp add: d r(3))
  then have "reading log' (acc @ [e]) d"
    using r e by (auto simp: reading_def log'_def)
  moreover have "l_epoch log' = l_epoch log" by (simp add: log'_def)
  ultimately show thesis by (rule that)
qed

lemma Log_Read_ends:
  assumes rd: "reading log acc d" and ends: "run_ends (l_seq log) (drop (l_reader log) d)"
  obtains log' where "Log_Read log = (log', Inr None)" "log_inv log' (upto_commit acc) []"
    "l_epoch log' = l_epoch log" "l_seq log' = l_seq log"
proof -
  have fp: "l_fp log = Some (clean d)" using rd by (simp add: reading_def)
  obtain r where dec: "Entry_Decode (clean d) (l_reader log) = (clean d, r)"
    and err: "\<forall>e. r = Inl e \<longrightarrow> replay_end_error e"
    using Entry_Decode_nofault[of "clean d"] by (metis clean_sel(2) surj_pair)
  have upd: "log\<lparr>l_fp := Some (clean d)\<rparr> = log" using fp by simp
  show thesis
  proof (cases r)
    case (Inl e)
    from Log_endReplay_reading[OF rd, of "l_reader log"] obtain log'
      where "Log_endReplay log = (log', Inr ())" "log_inv log' (upto_commit acc) []"
        "l_epoch log' = l_epoch log" "l_seq log' = l_seq log" by auto
    then show thesis using that err Inl fp by (simp add: Log_Read_def dec upd)
  next
    case (Inr x)
    then obtain e off where x: "r = Inr (e, off)" by (cases x) auto
    from Entry_Decode_sound[of "clean d" "l_reader log" "clean d" e off] dec x ends
    have "e_seq e \<le> l_seq log" by (auto simp: run_ends_def)
    moreover from Log_endReplay_reading[OF rd, of off] obtain log'
      where "Log_endReplay (log\<lparr>l_reader := off\<rparr>) = (log', Inr ())" "log_inv log' (upto_commit acc) []"
        "l_epoch log' = l_epoch log" "l_seq log' = l_seq log" by auto
    ultimately show thesis using that x fp by (simp add: Log_Read_def dec upd Let_def)
  qed
qed

text \<open>Records that continue the run are all accepted.\<close>

lemma openLog_loop_accepts:
  assumes "reading log acc d" and "drop (l_reader log) d = recs_bytes ext @ rest"
    and "recs_ok (l_seq log) ext"
  shows "\<exists>log'. reading log' (acc @ ext) d \<and> l_epoch log' = l_epoch log \<and>
    openLog_loop (length ext + fuel) log (data_entries acc) (length (data_entries (upto_commit acc))) =
    openLog_loop fuel log' (data_entries (acc @ ext)) (length (data_entries (upto_commit (acc @ ext))))"
  using assms
proof (induction ext arbitrary: log acc)
  case (Cons e ext)
  then have e: "entry_fits e" "entry_op_ok e" "l_seq log < e_seq e" by simp_all
  have at: "drop (l_reader log) d = entry_bytes e @ recs_bytes ext @ rest" using Cons.prems by simp
  from Log_Read_next[OF Cons.prems(1) at e] obtain log1 where
    r1: "Log_Read log = (log1, Inr (Some e))" "reading log1 (acc @ [e]) d" "l_epoch log1 = l_epoch log" .
  have l1: "l_reader log1 = l_reader log + length (entry_bytes e)" "l_seq log1 = e_seq e"
    using r1(2) Cons.prems(1) by (auto simp: reading_def)
  have "drop (l_reader log1) d = drop (length (entry_bytes e)) (drop (l_reader log) d)"
    by (simp add: l1 add.commute)
  then have "drop (l_reader log1) d = recs_bytes ext @ rest" using at by simp
  from Cons.IH[OF r1(2) this] Cons.prems(3) obtain log' where
    "reading log' ((acc @ [e]) @ ext) d" "l_epoch log' = l_epoch log1"
    "openLog_loop (length ext + fuel) log1 (data_entries (acc @ [e])) (length (data_entries (upto_commit (acc @ [e])))) =
     openLog_loop fuel log' (data_entries ((acc @ [e]) @ ext)) (length (data_entries (upto_commit ((acc @ [e]) @ ext))))"
    using l1 by auto
  then show ?case using r1 e(2) by (auto simp: entry_op_ok_def)
qed auto

lemma reading_cases:
  assumes "reading log acc d"
  obtains (ends) "run_ends (l_seq log) (drop (l_reader log) d)"
  | (cont) e tail where "drop (l_reader log) d = entry_bytes e @ tail" "entry_fits e" "entry_op_ok e"
      "l_seq log < e_seq e"
  by (auto simp: run_ends_def not_le) (metis not_le)

lemma reading_reader_le: "reading log acc d \<Longrightarrow> l_reader log \<le> length d"
  by (auto simp: reading_def dest: take_eq_length)

lemma openLog_loop_returns:
  assumes "reading log acc d" and "length d - l_reader log < fuel"
  shows "\<exists>log' ext rest. openLog_loop fuel log (data_entries acc) (length (data_entries (upto_commit acc))) =
      Some (log', Inr (data_entries (upto_commit (acc @ ext)))) \<and>
    log_inv log' (upto_commit (acc @ ext)) [] \<and> l_epoch log' = l_epoch log \<and>
    d = log_header (l_epoch log) @ recs_bytes (acc @ ext) @ rest \<and>
    recs_ok (l_epoch log) (acc @ ext) \<and> run_ends (last_seq (l_epoch log) (acc @ ext)) rest \<and>
    l_seq log' = last_seq (l_epoch log) (acc @ ext)"
  using assms
proof (induction fuel arbitrary: log acc)
  case (Suc fuel)
  from Suc.prems(1) show ?case
  proof (cases rule: reading_cases)
    case ends
    from Log_Read_ends[OF Suc.prems(1) ends] obtain log' where
      "Log_Read log = (log', Inr None)" "log_inv log' (upto_commit acc) []"
      "l_epoch log' = l_epoch log" "l_seq log' = l_seq log" .
    moreover from Suc.prems(1) obtain rest where
      "d = log_header (l_epoch log) @ recs_bytes acc @ rest" "drop (l_reader log) d = rest"
      by (rule reading_prefix)
    moreover have "l_seq log = last_seq (l_epoch log) acc" "recs_ok (l_epoch log) acc"
      using Suc.prems(1) by (simp_all add: reading_def)
    ultimately show ?thesis using ends by (intro exI[of _ log'] exI[of _ "[]"] exI[of _ rest]) simp
  next
    case (cont e tail)
    from Log_Read_next[OF Suc.prems(1) cont] obtain log1 where
      r1: "Log_Read log = (log1, Inr (Some e))" "reading log1 (acc @ [e]) d" "l_epoch log1 = l_epoch log" .
    have "l_reader log1 = l_reader log + length (entry_bytes e)"
      using r1(2) Suc.prems(1) by (auto simp: reading_def)
    then have "length d - l_reader log1 < fuel"
      using Suc.prems(2) reading_reader_le[OF r1(2)] length_entry_bytes[of e] by linarith
    from Suc.IH[OF r1(2) this] obtain log' ext' rest where
      "openLog_loop fuel log1 (data_entries (acc @ [e])) (length (data_entries (upto_commit (acc @ [e])))) =
        Some (log', Inr (data_entries (upto_commit ((acc @ [e]) @ ext'))))"
      "log_inv log' (upto_commit ((acc @ [e]) @ ext')) []" "l_epoch log' = l_epoch log"
      "d = log_header (l_epoch log) @ recs_bytes ((acc @ [e]) @ ext') @ rest"
      "recs_ok (l_epoch log) ((acc @ [e]) @ ext')"
      "run_ends (last_seq (l_epoch log) ((acc @ [e]) @ ext')) rest"
      "l_seq log' = last_seq (l_epoch log) ((acc @ [e]) @ ext')"
      using r1(3) by metis
    then show ?thesis using r1(1) cont(3)
      by (intro exI[of _ log'] exI[of _ "e # ext'"] exI[of _ rest]) (auto simp: entry_op_ok_def)
  qed
qed simp

text \<open>Opening a log and replaying it, as \<open>KV.openLog\<close> does, with the file's size as fuel.\<close>

definition Log_reopen :: "fileLike \<Rightarrow> (Log \<times> entry list res) option" where
  "Log_reopen fp = (case Log_Open fp of
     (log, Inl err) \<Rightarrow> Some (log, Inl err)
   | (log, Inr _) \<Rightarrow> openLog_loop (Suc (length (f_data fp))) log [] 0)"

lemma Log_Open_clean:
  "\<exists>log. Log_Open (clean (log_header ep @ rest)) = (log, Inr ()) \<and> l_epoch log = ep \<and>
     reading log [] (log_header ep @ rest)"
proof -
  let ?h = "logMagic @ PutUint64 ep"
  have len: "length ?h = 16" by (simp add: logMagic_def)
  have hdr: "take 8 (log_header ep) = logMagic" "take 16 (log_header ep) = ?h"
    "take 4 (drop 16 (log_header ep)) = PutUint32 (crc32_ieee ?h)"
    "take 8 (drop 8 (log_header ep)) = PutUint64 ep"
    by (simp_all add: log_header_def Let_def logMagic_def)
  define log where "log = \<lparr>l_fp = Some (clean (log_header ep @ rest)), l_reader = 20, l_epoch = ep,
     l_seq = ep, l_offset = 20, l_committed = 20\<rparr>"
  have "Log_Open (clean (log_header ep @ rest)) = (log, Inr ())"
    by (simp add: Log_Open_def Log_openHeader_def ReadAt_def logHeaderSize_def hdr log_def)
  moreover have "reading log [] (log_header ep @ rest)"
    by (simp add: reading_def log_def)
  ultimately show ?thesis by (auto simp: log_def)
qed

text \<open>Reopening returns the committed part of the longest run, and re-establishes the invariant.\<close>

lemma Log_reopen_run:
  assumes d: "d = log_header ep @ recs_bytes acc @ rest" and ok: "recs_ok ep acc"
  shows "\<exists>log ext rest'. Log_reopen (clean d) = Some (log, Inr (data_entries (upto_commit (acc @ ext)))) \<and>
    log_inv log (upto_commit (acc @ ext)) [] \<and> l_epoch log = ep \<and>
    rest = recs_bytes ext @ rest' \<and> recs_ok ep (acc @ ext) \<and> run_ends (last_seq ep (acc @ ext)) rest'"
proof -
  from Log_Open_clean[of ep "recs_bytes acc @ rest"] obtain log0 where
    o: "Log_Open (clean d) = (log0, Inr ())" "l_epoch log0 = ep" "reading log0 [] d"
    unfolding d by blast
  have r0: "l_reader log0 = 20" "l_seq log0 = ep" using o(2,3) by (simp_all add: reading_def)
  have at0: "drop (l_reader log0) d = recs_bytes acc @ rest" by (simp add: d r0)
  have ok0: "recs_ok (l_seq log0) acc" using ok r0 by simp
  have long: "length acc \<le> length (recs_bytes acc)"
    by (induction acc) (simp_all add: length_entry_bytes)
  obtain fuel where fuel: "Suc (length d) = length acc + fuel" "length d - length (recs_bytes acc) < fuel"
    using that[of "Suc (length d) - length acc"] long by (auto simp: d)
  from openLog_loop_accepts[OF o(3) at0 ok0, of fuel] obtain log1 where
    l1: "reading log1 acc d" "l_epoch log1 = ep"
    "openLog_loop (length acc + fuel) log0 [] 0 =
      openLog_loop fuel log1 (data_entries acc) (length (data_entries (upto_commit acc)))"
    using o(2) by auto
  have "length d - l_reader log1 < fuel" using fuel l1(1) by (simp add: reading_def)
  from openLog_loop_returns[OF l1(1) this] obtain log' ext rest' where
    "openLog_loop fuel log1 (data_entries acc) (length (data_entries (upto_commit acc))) =
      Some (log', Inr (data_entries (upto_commit (acc @ ext))))"
    "log_inv log' (upto_commit (acc @ ext)) []" "l_epoch log' = ep"
    "d = log_header ep @ recs_bytes (acc @ ext) @ rest'"
    "recs_ok ep (acc @ ext)" "run_ends (last_seq ep (acc @ ext)) rest'"
    using l1(2) by metis
  then show ?thesis using d l1(3) fuel(1) o(1)
    by (intro exI[of _ log'] exI[of _ ext] exI[of _ rest']) (simp add: Log_reopen_def)
qed

section \<open>Runs of a log\<close>

text \<open>
  What a client does with a log: it opens a fresh file, commits transactions (with any
  outcome), truncates, and survives crashes.  I/O faults may be injected at any moment.
  \<open>acked\<close> are the payloads a replay owes the client: those of the transactions reported
  committed since the last truncation, after those the last recovery returned.  A truncation
  that fails before its header is durable ends the run (see \<open>Log_Truncate_fault\<close>).
  Sequence numbers are 64-bit; \<open>room\<close> says they are not exhausted.
\<close>

definition payload :: "entry \<Rightarrow> bytes \<times> bytes \<times> byte" where
  "payload e = (e_key e, e_val e, e_op e)"

definition inject :: "Log \<Rightarrow> fault list \<Rightarrow> Log" where
  "inject log fs = log\<lparr>l_fp := map_option (\<lambda>f. f\<lparr>f_faults := fs\<rparr>) (l_fp log)\<rparr>"

definition room :: "Log \<Rightarrow> nat \<Rightarrow> bool" where
  "room log n \<longleftrightarrow> unat (l_seq log) + n < 2 ^ 64"

definition data_op :: "entry \<Rightarrow> bool" where
  "data_op e \<longleftrightarrow> e_op e = EntryAdd \<or> e_op e = EntryDel"

inductive wal_run :: "Log \<Rightarrow> (bytes \<times> bytes \<times> byte) list \<Rightarrow> bool" where
  run_open: "Log_Open (clean []) = (log, Inr ()) \<Longrightarrow> wal_run log []"
| run_tx: "wal_run log acked \<Longrightarrow> room log (Suc (length ents)) \<Longrightarrow> list_all data_op ents \<Longrightarrow>
    Log_tx log ents = (log', r) \<Longrightarrow>
    wal_run log' (if r = Inr () then acked @ map payload ents else acked)"
| run_truncate: "wal_run log acked \<Longrightarrow> Log_Truncate log = (log', r) \<Longrightarrow>
    r = Inr () \<or> l_epoch log' \<noteq> l_epoch log \<Longrightarrow> wal_run log' []"
| run_fault: "wal_run log acked \<Longrightarrow> wal_run (inject log fs) acked"
| run_crash: "wal_run log acked \<Longrightarrow> l_fp log = Some f \<Longrightarrow> crashes_to f d \<Longrightarrow>
    Log_reopen (clean d) = Some (log', Inr es) \<Longrightarrow> wal_run log' (map payload es)"

lemma room_Suc: "room log (Suc n) \<Longrightarrow> l_seq log < l_seq log + 1 \<and> unat (l_seq log + 1) = Suc (unat (l_seq log))"
  by (simp add: room_def word_less_nat_alt unat_word_ariths)

lemma inject_inv: "log_inv log recs pend \<Longrightarrow> log_inv (inject log fs) recs pend"
  by (auto simp: log_inv_def inject_def file_wf_def)

lemma Log_writeAll_inv:
  assumes "log_inv log recs pend" and "Log_writeAll log ents = (log', r)"
    and "list_all data_op ents" and "room log (n + length ents)"
  shows "\<exists>pend'. log_inv log' recs (pend @ pend') \<and>
    (r = Inr () \<longrightarrow> map payload pend' = map payload ents \<and> list_all data_op pend' \<and> room log' n)"
  using assms
proof (induction ents arbitrary: log pend n)
  case Nil
  then show ?case by (intro exI[of _ "[]"]) auto
next
  case (Cons ent ents)
  obtain log1 r1 where w: "Log_Write log ent = (log1, r1)" by fastforce
  have rm: "room log (Suc (n + length ents))" using Cons.prems(4) by simp
  have op: "entry_op_ok ent" using Cons.prems(3) by (auto simp: data_op_def entry_op_ok_def)
  note W = Log_Write_inv[OF Cons.prems(1) w op] room_Suc[OF rm]
  show ?case
  proof (cases "r1 = Inr ()")
    case False
    then obtain e where "r1 = Inl e" by (cases r1) auto
    then show ?thesis using Cons.prems(2) w W False by (intro exI[of _ "[]"]) auto
  next
    case True
    let ?e = "ent\<lparr>e_seq := l_seq log + 1\<rparr>"
    have "log_inv log1 recs (pend @ [?e])" "l_seq log1 = l_seq log + 1" using W True by auto
    moreover from this have "room log1 (n + length ents)" using rm W by (simp add: room_def)
    ultimately obtain pend' where "log_inv log' recs ((pend @ [?e]) @ pend')"
      "r = Inr () \<longrightarrow> map payload pend' = map payload ents \<and> list_all data_op pend' \<and> room log' n"
      using Cons.IH[of log1 "pend @ [?e]" n] Cons.prems(2,3) w True by auto
    moreover have "payload ?e = payload ent" "data_op ?e" using Cons.prems(3) by (simp_all add: payload_def data_op_def)
    ultimately show ?thesis by (intro exI[of _ "?e # pend'"]) auto
  qed
qed

lemma data_entries_data: "list_all data_op es \<Longrightarrow> data_entries es = es"
  by (auto simp: data_entries_def data_op_def list_all_iff intro!: filter_True)

lemma Log_tx_inv:
  assumes inv: "log_inv log recs []" and tx: "Log_tx log ents = (log', r)"
    and ops: "list_all data_op ents" and rm: "room log (Suc (length ents))"
  shows "\<exists>recs'. log_inv log' recs' [] \<and> map payload (data_entries recs') =
    map payload (data_entries recs) @ (if r = Inr () then map payload ents else [])"
proof -
  obtain log1 r1 where w: "Log_writeAll log ents = (log1, r1)" by fastforce
  from Log_writeAll_inv[OF inv w ops, of 1] rm obtain pend where
    p: "log_inv log1 recs pend"
    "r1 = Inr () \<longrightarrow> map payload pend = map payload ents \<and> list_all data_op pend \<and> room log1 1"
    by auto
  show ?thesis
  proof (cases "r1 = Inr ()")
    case False
    then obtain e where "r1 = Inl e" by (cases r1) auto
    then show ?thesis using tx w p Log_ResetTX_inv by (intro exI[of _ recs]) (auto simp: Log_tx_def)
  next
    case True
    obtain log2 r2 where c: "Log_Commit log1 = (log2, r2)" by fastforce
    have "l_seq log1 < l_seq log1 + 1" using p(2) True room_Suc[of log1 0] by simp
    note C = Log_Commit_inv[OF p(1) c this]
    have log': "log' = Log_ResetTX log2" "r = r2" using tx w c True by (auto simp: Log_tx_def)
    have pend: "data_entries pend = pend" using p(2) True data_entries_data by auto
    let ?c = "commit_entry\<lparr>e_seq := l_seq log1 + 1\<rparr>"
    have com: "data_entries [?c] = []" by (simp add: commit_entry_def)
    show ?thesis
    proof (cases "r2 = Inr ()")
      case True
      then have "log_inv log' (recs @ pend @ [?c]) []" using C Log_ResetTX_inv log' by auto
      moreover have "map payload (data_entries (recs @ pend @ [?c])) =
          map payload (data_entries recs) @ map payload ents"
        using com p(2) \<open>r1 = Inr ()\<close> by (simp only: data_entries_simps pend map_append append_Nil2)
      ultimately show ?thesis using True log'(2) by (intro exI conjI) auto
    next
      case False
      then have "log_inv log' recs []" using C Log_ResetTX_inv log' by auto
      then show ?thesis using False log'(2) by auto
    qed
  qed
qed

lemma Log_Truncate_cases:
  assumes inv: "log_inv log recs []" and tr: "Log_Truncate log = (log', r)"
  shows "(r \<noteq> Inr () \<and> l_epoch log' = l_epoch log \<and> l_offset log' = l_offset log) \<or>
    (log_inv log' [] [] \<and> l_epoch log' = l_seq log \<and> l_seq log' = l_seq log \<and>
      (\<exists>f rest. l_fp log' = Some f \<and>
        (f_synced f = log_header (l_seq log) @ recs_bytes recs @ rest \<and> set (f_pending f) \<subseteq> {PTrunc 20}
          \<or> f_synced f = log_header (l_seq log) \<and> f_pending f = [])))"
proof -
  from inv obtain f where f: "l_fp log = Some f" "file_wf f"
    "take (l_offset log) (f_data f) = log_header (l_epoch log) @ recs_bytes recs"
    "l_offset log = 20 + length (recs_bytes recs)" "l_offset log \<le> length (f_data f)"
    by (rule log_invE) simp
  obtain rest where data: "f_data f = log_header (l_epoch log) @ recs_bytes recs @ rest"
    using f(3) by (metis append_assoc append_take_drop_id)
  obtain f1 r1 where w: "WriteAt f (log_header (l_seq log)) 0 = (f1, r1)" by fastforce
  obtain f2 r2 where s: "Sync f1 = (f2, r2)" by fastforce
  obtain f3 r3 where t: "Truncate f2 20 = (f3, r3)" by fastforce
  obtain f4 r4 where s2: "Sync f3 = (f4, r4)" by fastforce
  note defs = Log_Truncate_def Log_writeHeader_def f(1) w s t s2 logHeaderSize_def Let_def
  show ?thesis
  proof (cases "r1 = Inr () \<and> r2 = Inr ()")
    case False
    then show ?thesis using tr by (cases r1; cases r2) (auto simp: defs)
  next
    case True
    from w True have "f_data f1 = write_at (f_data f) 0 (log_header (l_seq log))"
      by (auto elim: WriteAt_facts)
    then have d1: "f_data f1 = log_header (l_seq log) @ recs_bytes recs @ rest"
      by (simp add: data write_at_split)
    have f2: "f_synced f2 = log_header (l_seq log) @ recs_bytes recs @ rest" "f_pending f2 = []"
      "f_data f2 = log_header (l_seq log) @ recs_bytes recs @ rest"
      using Sync_facts[OF s] True d1 by auto
    have f3: "r3 = Inr () \<and> f_data f3 = log_header (l_seq log) \<and> f_synced f3 = f_synced f2 \<and> f_pending f3 = [PTrunc 20]
      \<or> r3 = Inl io_error \<and> f_data f3 = f_data f2 \<and> f_synced f3 = f_synced f2 \<and> f_pending f3 = []"
      using t f2 by (auto simp: Truncate_def do_fop_def truncate_to_def split: list.splits fault.splits)
    let ?g = "if r3 = Inr () then f4 else f3"
    have log': "log' = log\<lparr>l_fp := Some ?g, l_epoch := l_seq log, l_offset := 20, l_committed := 20\<rparr>"
      using tr True f3 by (auto simp: defs)
    have wf: "file_wf f3" "file_wf f4"
    proof -
      show "file_wf f3" using f2 f3 by (auto simp: file_wf_def truncate_to_def)
      then show "file_wf f4" using file_wf_ops(3) s2 by (metis fst_conv)
    qed
    have f4: "f_data f4 = f_data f3 \<and> (f_synced f4 = f_data f3 \<and> f_pending f4 = [] \<or>
        f_synced f4 = f_synced f3 \<and> f_pending f4 = f_pending f3)"
      using Sync_facts[OF s2] by blast
    have g: "(f_synced ?g = log_header (l_seq log) @ recs_bytes recs @ rest \<and> set (f_pending ?g) \<subseteq> {PTrunc 20}
          \<or> f_synced ?g = log_header (l_seq log) \<and> f_pending ?g = [])"
      "take 20 (f_data ?g) = log_header (l_seq log)" "take 20 (f_synced ?g) = log_header (l_seq log)"
      "\<forall>p\<in>set (f_pending ?g). fop_from 20 p" "file_wf ?g"
      using f2 f3 f4 wf by (auto split: if_splits)
    have "log_inv log' [] []"
      using g by (simp add: log_inv_def log' committed_list_def)
    then show ?thesis using g(1) by (auto simp: log')
  qed
qed

lemma upto_commit_parts:
  assumes "committed_list rs"
  obtains ext tail where "rs' = ext @ tail" "upto_commit (rs @ rs') = rs @ ext"
    "ext = [] \<or> e_op (last ext) = EntryCommit" "list_all (\<lambda>e. e_op e \<noteq> EntryCommit) tail"
proof -
  have "\<exists>ext tail. rs' = ext @ tail \<and> upto_commit (rs @ rs') = rs @ ext \<and>
    (ext = [] \<or> e_op (last ext) = EntryCommit) \<and> list_all (\<lambda>e. e_op e \<noteq> EntryCommit) tail"
  proof (induction rs' rule: rev_induct)
    case Nil
    then show ?case using upto_commit_committed[OF assms] by simp
  next
    case (snoc x xs)
    show ?case
    proof (cases "e_op x = EntryCommit")
      case True
      then have "upto_commit (rs @ xs @ [x]) = rs @ xs @ [x]"
        using upto_commit_simps(2)[of "rs @ xs" x] by simp
      then show ?thesis using True by (intro exI[of _ "xs @ [x]"] exI[of _ "[]"]) simp
    next
      case False
      then have "upto_commit (rs @ xs @ [x]) = upto_commit (rs @ xs)"
        using upto_commit_simps(2)[of "rs @ xs" x] by simp
      moreover from snoc obtain ext tail where "xs = ext @ tail" "upto_commit (rs @ xs) = rs @ ext"
        "ext = [] \<or> e_op (last ext) = EntryCommit" "list_all (\<lambda>e. e_op e \<noteq> EntryCommit) tail" by blast
      ultimately show ?thesis using False by (intro exI[of _ ext] exI[of _ "tail @ [x]"]) simp
    qed
  qed
  then show thesis using that by blast
qed

lemma crash_reopen_run:
  assumes inv: "log_inv log recs pend" and f: "l_fp log = Some f" and cr: "crashes_to f d"
  shows "\<exists>log' ext tail rest. Log_reopen (clean d) = Some (log', Inr (data_entries (recs @ ext))) \<and>
    log_inv log' (recs @ ext) [] \<and> l_epoch log' = l_epoch log \<and>
    d = log_header (l_epoch log) @ recs_bytes (recs @ ext @ tail) @ rest \<and>
    recs_ok (l_epoch log) (recs @ ext @ tail) \<and>
    run_ends (last_seq (l_epoch log) (recs @ ext @ tail)) rest \<and>
    (ext = [] \<or> e_op (last ext) = EntryCommit) \<and> list_all (\<lambda>e. e_op e \<noteq> EntryCommit) tail"
proof -
  from inv f have l: "take (l_committed log) (f_synced f) = log_header (l_epoch log) @ recs_bytes recs"
    "\<forall>p \<in> set (f_pending f). fop_from (l_committed log) p" "l_committed log \<le> length (f_synced f)"
    "recs_ok (l_epoch log) recs" "committed_list recs"
    by (auto elim!: log_invE)
  have "take (l_committed log) d = log_header (l_epoch log) @ recs_bytes recs"
    using crash_content_prefix[OF cr[unfolded crashes_to_def] l(2,3)] l(1) by simp
  then have d: "d = log_header (l_epoch log) @ recs_bytes recs @ drop (l_committed log) d"
    by (metis append_assoc append_take_drop_id)
  from Log_reopen_run[OF d l(4)] obtain log' more rest where
    m: "Log_reopen (clean d) = Some (log', Inr (data_entries (upto_commit (recs @ more))))"
    "log_inv log' (upto_commit (recs @ more)) []" "l_epoch log' = l_epoch log"
    "drop (l_committed log) d = recs_bytes more @ rest" "recs_ok (l_epoch log) (recs @ more)"
    "run_ends (last_seq (l_epoch log) (recs @ more)) rest" by blast
  from upto_commit_parts[OF l(5), of more] obtain ext tail where
    e: "more = ext @ tail" "upto_commit (recs @ more) = recs @ ext"
    "ext = [] \<or> e_op (last ext) = EntryCommit" "list_all (\<lambda>e. e_op e \<noteq> EntryCommit) tail" .
  show ?thesis
    using m d e by (intro exI[of _ log'] exI[of _ ext] exI[of _ tail] exI[of _ rest]) (simp add: e(1,2))
qed

lemma crash_reopen:
  assumes "log_inv log recs pend" and "l_fp log = Some f" and "crashes_to f d"
  shows "\<exists>log' ext. Log_reopen (clean d) = Some (log', Inr (data_entries (recs @ ext))) \<and>
    log_inv log' (recs @ ext) [] \<and> l_epoch log' = l_epoch log"
  using crash_reopen_run[OF assms] by blast

lemma Log_Open_empty:
  assumes "Log_Open (clean []) = (log, r)"
  shows "log_inv log [] [] \<and> r = Inr ()"
  using assms
  by (auto simp: Log_Open_def Log_openHeader_def Log_writeHeader_def clean_def ReadAt_def WriteAt_def
      Sync_def do_fop_def write_at_def logHeaderSize_def log_inv_def file_wf_def committed_list_def)

lemma wal_run_inv: "wal_run log acked \<Longrightarrow>
    \<exists>recs. log_inv log recs [] \<and> map payload (data_entries recs) = acked"
proof (induction rule: wal_run.induct)
  case (run_open log)
  then show ?case using Log_Open_empty by (intro exI[of _ "[]"]) auto
next
  case (run_tx log acked ents log' r)
  then show ?case using Log_tx_inv by fastforce
next
  case (run_truncate log acked log' r)
  then show ?case using Log_Truncate_cases by (intro exI[of _ "[]"]) fastforce
next
  case (run_fault log acked fs)
  then show ?case using inject_inv by blast
next
  case (run_crash log acked f d log' es)
  then show ?case using crash_reopen by (metis option.inject prod.inject sum.inject(2))
qed

section \<open>Where replay stops\<close>

text \<open>The end of a run, computed: decoding fails, or yields a stale record.\<close>

definition stops :: "u64 \<Rightarrow> bytes \<Rightarrow> bool" where
  "stops sq rest = (case snd (Entry_Decode (clean rest) 0) of
     Inl _ \<Rightarrow> True | Inr (e, _) \<Rightarrow> e_seq e \<le> sq)"

lemma entry_bytes_unique:
  assumes "entry_bytes e @ r = entry_bytes e' @ r'" and "entry_fits e" "entry_op_ok e" "entry_fits e'" "entry_op_ok e'"
  shows "e = e' \<and> r = r'"
proof -
  have "Entry_Decode (clean (entry_bytes e @ r)) 0 = (clean (entry_bytes e @ r), Inr (e, length (entry_bytes e)))"
    using assms(2,3) by (subst Entry_Decode_bytes) auto
  moreover have "Entry_Decode (clean (entry_bytes e @ r)) 0 = (clean (entry_bytes e @ r), Inr (e', length (entry_bytes e')))"
    unfolding assms(1) using assms(4,5) by (subst Entry_Decode_bytes) auto
  ultimately show ?thesis using assms(1) by auto
qed

lemma stops_run_ends: "stops sq rest \<longleftrightarrow> run_ends sq rest"
proof (cases "snd (Entry_Decode (clean rest) 0)")
  case (Inl err)
  then have "entry_fits e \<Longrightarrow> entry_op_ok e \<Longrightarrow> rest \<noteq> entry_bytes e @ tail" for e tail
    by (auto simp: Entry_Decode_bytes)
  then show ?thesis using Inl by (auto simp: stops_def run_ends_def)
next
  case (Inr x)
  then obtain e off where x: "Entry_Decode (clean rest) 0 = (fst (Entry_Decode (clean rest) 0), Inr (e, off))"
    by (metis prod.collapse)
  from Entry_Decode_sound[OF _ x] obtain tail where
    "rest = entry_bytes e @ tail" "entry_fits e" "entry_op_ok e" by auto
  moreover have "stops sq rest \<longleftrightarrow> e_seq e \<le> sq" by (subst stops_def, subst x) simp
  ultimately show ?thesis unfolding run_ends_def by (metis entry_bytes_unique)
qed

lemma stops_Nil [simp]: "stops sq []"
  by (simp add: stops_run_ends run_ends_def)

lemma stops_stale: "entry_fits e \<Longrightarrow> entry_op_ok e \<Longrightarrow> e_seq e \<le> sq \<Longrightarrow> stops sq (entry_bytes e @ tail)"
  unfolding stops_run_ends run_ends_def by (metis entry_bytes_unique)

text \<open>A proper prefix of a record is not a record: the length fields come before the payload.\<close>

lemma entry_bytes_length_field:
  assumes "take 20 (entry_bytes e) = take 20 (entry_bytes e')" "entry_fits e" "entry_fits e'"
  shows "length (entry_bytes e) = length (entry_bytes e')"
proof -
  have len: "unat (Uint32 (take 4 (drop 12 (take 20 (entry_bytes e))))) = length (e_key e) \<and>
    unat (Uint32 (take 4 (drop 16 (take 20 (entry_bytes e))))) = length (e_val e)" if "entry_fits e" for e
  proof -
    have "unat (word_of_nat (length (e_key e)) :: u32) = length (e_key e)"
      "unat (word_of_nat (length (e_val e)) :: u32) = length (e_val e)"
      using that by (auto simp: entry_fits_def MaxEntrySize_def intro!: unat_word_of_nat_less)
    then show ?thesis by (simp add: entry_bytes_def entry_body_def)
  qed
  show ?thesis using len[OF assms(2)] len[OF assms(3)] assms(1) by (simp add: length_entry_bytes)
qed

lemma stops_partial:
  assumes "entry_fits e" and "k < length (entry_bytes e)"
  shows "stops sq (take k (entry_bytes e))"
proof -
  have False if eq: "take k (entry_bytes e) = entry_bytes e' @ tail" and "entry_fits e'" for e' tail
  proof -
    have "20 \<le> k" using arg_cong[OF eq, of length] assms(2) by (simp add: length_entry_bytes)
    then have "take 20 (entry_bytes e) = take 20 (entry_bytes e')"
      using arg_cong[OF eq, of "take 20"] by (simp add: min_absorb1 length_entry_bytes)
    then have "length (entry_bytes e) = length (entry_bytes e')"
      using entry_bytes_length_field assms(1) that(2) by blast
    then show False using arg_cong[OF eq, of length] assms(2) by simp
  qed
  then show ?thesis by (auto simp: stops_run_ends run_ends_def)
qed

lemma take_recs_bytes:
  assumes "k < length (recs_bytes rs)"
  shows "\<exists>pre e post j. rs = pre @ e # post \<and> j < length (entry_bytes e) \<and>
    take k (recs_bytes rs) = recs_bytes pre @ take j (entry_bytes e)"
  using assms
proof (induction rs arbitrary: k)
  case (Cons r rs)
  show ?case
  proof (cases "k < length (entry_bytes r)")
    case True
    then show ?thesis by (intro exI[of _ "[]"] exI[of _ r] exI[of _ rs] exI[of _ k]) simp
  next
    case False
    then have "k - length (entry_bytes r) < length (recs_bytes rs)" using Cons.prems by auto
    from Cons.IH[OF this] obtain pre e post j where "rs = pre @ e # post" "j < length (entry_bytes e)"
      "take (k - length (entry_bytes r)) (recs_bytes rs) = recs_bytes pre @ take j (entry_bytes e)"
      by blast
    then show ?thesis using False
      by (intro exI[of _ "r # pre"] exI[of _ e] exI[of _ post] exI[of _ j]) simp
  qed
qed simp

lemma Log_reopen_exact:
  assumes "recs_ok ep acc" and "stops (last_seq ep acc) rest"
  shows "\<exists>log. Log_reopen (clean (log_header ep @ recs_bytes acc @ rest)) =
      Some (log, Inr (data_entries (upto_commit acc))) \<and>
    log_inv log (upto_commit acc) [] \<and> l_epoch log = ep"
proof -
  from Log_reopen_run[OF refl assms(1), of rest] obtain log ext rest' where
    r: "Log_reopen (clean (log_header ep @ recs_bytes acc @ rest)) = Some (log, Inr (data_entries (upto_commit (acc @ ext))))"
      "log_inv log (upto_commit (acc @ ext)) []" "l_epoch log = ep" "rest = recs_bytes ext @ rest'" "recs_ok ep (acc @ ext)"
    by blast
  have "ext = []"
  proof (cases ext)
    case (Cons e ext')
    then have "e_seq e \<le> last_seq ep acc"
      using assms(2) r(4,5) by (auto simp: stops_run_ends run_ends_def)
    then show ?thesis using r(5) Cons by (simp add: leD)
  qed simp
  then show ?thesis using r by auto
qed

text \<open>After a new header, the records of the old generation are where replay stops.\<close>

lemma Log_reopen_stale:
  assumes "recs \<noteq> []" and "recs_ok ep recs" and "last_seq ep recs \<le> ep'"
  shows "\<exists>log. Log_reopen (clean (log_header ep' @ recs_bytes recs @ rest)) = Some (log, Inr [])"
proof -
  from assms(1) obtain r rs where recs: "recs = r # rs" by (cases recs) auto
  then have r: "entry_fits r" "entry_op_ok r" "e_seq r \<le> ep'"
    using assms(2,3) recs_ok_floor_le[of "e_seq r" rs] by auto
  then have "stops ep' (recs_bytes recs @ rest)" using stops_stale by (simp add: recs)
  then show ?thesis using Log_reopen_exact[of ep' "[]" "recs_bytes recs @ rest"] by auto
qed

text \<open>Transactions without I/O faults, and the part of the file they leave alone.\<close>

lemma Log_Write_nofault:
  assumes "l_fp log = Some f" and "f_faults f = []" and "entry_fits ent"
    and "n \<le> l_offset log" and "n \<le> length (f_data f)"
  obtains log' f' where "Log_Write log ent = (log', Inr ())" "l_fp log' = Some f'" "f_faults f' = []"
    "n \<le> l_offset log'" "n \<le> length (f_data f')" "take n (f_data f') = take n (f_data f)"
proof -
  let ?e = "ent\<lparr>e_seq := l_seq log + 1\<rparr>"
  have fits: "entry_fits ?e" using assms(3) by (simp add: entry_fits_def)
  define f' where "f' = do_fop (PWrite (l_offset log) (entry_bytes ?e)) f"
  have "Log_Write log ent = (log\<lparr>l_fp := Some f', l_offset := l_offset log + length (entry_bytes ?e),
      l_seq := l_seq log + 1\<rparr>, Inr ())"
    using assms(1,2) fits by (simp add: Log_Write_def Entry_Encode_eq WriteAt_def Let_def f'_def)
  moreover have "n \<le> length (f_data f')" "take n (f_data f') = take n (f_data f)" "f_faults f' = []"
    using assms by (auto simp: f'_def do_fop_def length_write_at)
  ultimately show thesis using assms(4)
    by (intro that[of "log\<lparr>l_fp := Some f', l_offset := l_offset log + length (entry_bytes ?e),
      l_seq := l_seq log + 1\<rparr>" f']) simp_all
qed

lemma Log_writeAll_nofault:
  assumes "l_fp log = Some f" and "f_faults f = []" and "list_all entry_fits ents"
    and "n \<le> l_offset log" and "n \<le> length (f_data f)"
  shows "\<exists>log' f'. Log_writeAll log ents = (log', Inr ()) \<and> l_fp log' = Some f' \<and> f_faults f' = [] \<and>
    n \<le> l_offset log' \<and> n \<le> length (f_data f') \<and> take n (f_data f') = take n (f_data f)"
  using assms
proof (induction ents arbitrary: log f)
  case (Cons ent ents)
  from Cons.prems have fits: "entry_fits ent" by simp
  from Log_Write_nofault[OF Cons.prems(1,2) fits Cons.prems(4,5)] obtain log1 f1 where
    "Log_Write log ent = (log1, Inr ())" "l_fp log1 = Some f1" "f_faults f1 = []"
    "n \<le> l_offset log1" "n \<le> length (f_data f1)" "take n (f_data f1) = take n (f_data f)" .
  then show ?case using Cons.IH[of log1 f1] Cons.prems(3) by auto
qed auto

lemma Log_tx_nofault:
  assumes f: "l_fp log = Some f" "f_faults f = []" and fits: "list_all entry_fits ents"
    and n: "n \<le> l_offset log" "n \<le> length (f_data f)"
  shows "\<exists>log' f'. Log_tx log ents = (log', Inr ()) \<and> l_fp log' = Some f' \<and>
    take n (f_data f') = take n (f_data f)"
proof -
  from Log_writeAll_nofault[OF assms] obtain log1 f1 where
    1: "Log_writeAll log ents = (log1, Inr ())" "l_fp log1 = Some f1" "f_faults f1 = []"
    "n \<le> l_offset log1" "n \<le> length (f_data f1)" "take n (f_data f1) = take n (f_data f)" by blast
  have "entry_fits commit_entry" by (simp add: entry_fits_def commit_entry_def)
  from Log_Write_nofault[OF 1(2,3) this 1(4,5)] obtain log2 f2 where
    2: "Log_Write log1 commit_entry = (log2, Inr ())" "l_fp log2 = Some f2" "f_faults f2 = []"
    "take n (f_data f2) = take n (f_data f1)" by blast
  have "Sync f2 = (f2\<lparr>f_synced := f_data f2, f_pending := []\<rparr>, Inr ())" using 2(3) by (simp add: Sync_def)
  then show ?thesis using 1 2 by (simp add: Log_tx_def Log_Commit_def Log_ResetTX_def)
qed

lemma crash_trunc:
  assumes "crash_content d ps d'" and "set ps \<subseteq> {PTrunc n}" and "n \<le> length d"
  shows "d' = d \<or> d' = take n d"
  using assms
proof (induction rule: crash_content.induct)
  case (crash_apply p p' d ps d')
  then have "p' = PTrunc n" by (auto elim: torn.cases)
  then show ?case using crash_apply by (auto simp: truncate_to_def)
qed auto

section \<open>Replay always ends\<close>

lemma ReadAt_data: "f_data (fst (ReadAt f n off)) = f_data f"
  by (auto simp: ReadAt_def split: list.splits fault.splits)

lemma take_drop_bound:
  assumes "take (length bs) (drop off d) = bs" and "bs \<noteq> []"
  shows "off + length bs \<le> length d"
proof -
  have "min (length d - off) (length bs) = length bs" using arg_cong[OF assms(1), of length] by simp
  then show ?thesis using assms(2) by (cases "off \<le> length d") (auto simp: min_def split: if_splits)
qed

lemma ReadFull_progress:
  "ReadFull f off n = (f', Inr (bs, off')) \<Longrightarrow>
    f_data f' = f_data f \<and> off' = off + n \<and> (0 < n \<longrightarrow> off' \<le> length (f_data f))"
  by (auto simp: ReadFull_def ReadAt_def dest: take_drop_bound
      split: prod.splits sum.splits if_splits list.splits fault.splits)

lemma Entry_Decode_progress:
  assumes "Entry_Decode f off = (f', Inr (e, off'))"
  shows "f_data f' = f_data f \<and> off < off' \<and> off' \<le> length (f_data f)"
proof -
  from assms obtain f1 hdr off1 m data where
    1: "ReadFull f off entryHeaderSize = (f1, Inr (hdr, off1))" and
    2: "ReadFull f1 off1 m = (f', Inr (data, off'))"
    by (auto simp: Entry_Decode_def Let_def split: prod.splits sum.splits if_splits)
  show ?thesis using ReadFull_progress[OF 1] ReadFull_progress[OF 2] by (auto simp: entryHeaderSize_def)
qed

lemma Log_Read_progress:
  assumes "Log_Read log = (log', Inr (Some e))"
  obtains f f' where "l_fp log = Some f" "l_fp log' = Some f'" "f_data f' = f_data f"
    "l_reader log < l_reader log'" "l_reader log' \<le> length (f_data f)"
proof (cases "l_fp log")
  case None
  then show thesis using assms by (simp add: Log_Read_def with_fp_def replay_end_error_def)
next
  case (Some f)
  obtain f' r where d: "Entry_Decode f (l_reader log) = (f', r)" by fastforce
  have ends: "sbind (Log_endReplay l) (\<lambda>log _. (log, Inr None)) \<noteq> (log', Inr (Some e))" for l
    by (cases "Log_endReplay l"; cases "snd (Log_endReplay l)") (auto simp: sbind_def)
  show thesis
  proof (cases r)
    case (Inl err)
    then show thesis using assms d Some ends by (simp add: Log_Read_def split: if_splits)
  next
    case (Inr x)
    then obtain ent off where r: "r = Inr (ent, off)" by (cases x) auto
    have "l_fp log' = Some f'" "l_reader log' = off"
      using assms d Some r ends by (auto simp: Log_Read_def Let_def split: if_splits)
    then show thesis using that Some Entry_Decode_progress[of f "l_reader log" f' ent off] d r by auto
  qed
qed

lemma openLog_loop_terminates:
  assumes "case l_fp log of None \<Rightarrow> 0 < fuel | Some f \<Rightarrow> length (f_data f) - l_reader log < fuel"
  shows "openLog_loop fuel log es n \<noteq> None"
  using assms
proof (induction fuel arbitrary: log es n)
  case 0
  then show ?case by (auto split: option.splits)
next
  case (Suc fuel)
  obtain log' r where r: "Log_Read log = (log', r)" by fastforce
  consider (err) e where "r = Inl e" | (eof) "r = Inr None" | (cont) ent where "r = Inr (Some ent)"
    by (metis old.sum.exhaust option.exhaust)
  then show ?case
  proof cases
    case cont
    from Log_Read_progress[OF r[unfolded cont]] obtain f f' where
      "l_fp log = Some f" "l_fp log' = Some f'" "f_data f' = f_data f"
      "l_reader log < l_reader log'" "l_reader log' \<le> length (f_data f)" .
    then have "case l_fp log' of None \<Rightarrow> 0 < fuel | Some f \<Rightarrow> length (f_data f) - l_reader log' < fuel"
      using Suc.prems by auto
    from Suc.IH[OF this] show ?thesis using r cont by simp
  qed (simp_all add: r)
qed

lemma Log_Open_fp:
  assumes "Log_Open fp = (log, Inr ())"
  shows "\<exists>f. l_fp log = Some f \<and> l_reader log = 20 \<and> length (f_data f) \<le> max (length (f_data fp)) 20"
proof -
  have wr: "length (f_data (fst (WriteAt f (log_header e) 0))) \<le> max (length (f_data f)) 20" for f e
    by (cases "WriteAt f (log_header e) 0")
      (auto simp: WriteAt_def do_fop_def write_at_def split: list.splits fault.splits)
  have sy: "f_data (fst (Sync f)) = f_data f" for f
    using Sync_facts(1) by (metis prod.collapse)
  let ?r = "ReadAt fp 20 0" and ?w = "\<lambda>f. WriteAt f (log_header 0) 0"
  consider (data) "l_fp log = Some (fst ?r)" "l_reader log = 20"
    | (new) "l_fp log = Some (fst (Sync (fst (?w (fst ?r)))))" "l_reader log = 20"
    using assms
    by (auto simp: Log_Open_def Log_openHeader_def Log_writeHeader_def logHeaderSize_def sbind_def
        split: prod.splits sum.splits if_splits)
  then show ?thesis
  proof cases
    case new
    then show ?thesis using wr[of "fst ?r" 0] by (auto simp: sy ReadAt_data)
  qed (auto simp: ReadAt_data)
qed

section \<open>Properties\<close>

text \<open>
  C3: durability of the write-ahead log.  After any run of transactions,
  truncations, I/O faults and earlier crashes, a crash (which may drop, tear or keep each
  write that was not yet synced) leaves a file that reopens, without error and within the
  file's size in replay steps.  The file then starts with the header of the current
  generation and a run of well-formed records whose sequence numbers increase strictly from
  the generation's epoch; the run is the longest one (what follows is no record, or one whose
  sequence number does not increase).  The replay returns the data records of that run up to
  its last commit record, and nothing else: first those of every transaction that was
  reported committed, in order, then those of the commit-terminated records \<open>ext\<close> that the
  crash left behind them.  A run does not include a truncation that fails before its header
  is durable.
\<close>

theorem wal_durability:
  assumes "wal_run log acked" and "l_fp log = Some f" and "crashes_to f d"
  shows "\<exists>log' recs ext tail rest.
    Log_reopen (clean d) = Some (log', Inr (data_entries (recs @ ext))) \<and>
    map payload (data_entries recs) = acked \<and>
    d = log_header (l_epoch log) @ recs_bytes (recs @ ext @ tail) @ rest \<and>
    recs_ok (l_epoch log) (recs @ ext @ tail) \<and>
    stops (last_seq (l_epoch log) (recs @ ext @ tail)) rest \<and>
    (ext = [] \<or> e_op (last ext) = EntryCommit) \<and> list_all (\<lambda>e. e_op e \<noteq> EntryCommit) tail"
proof -
  from wal_run_inv[OF assms(1)] obtain recs where
    "log_inv log recs []" "map payload (data_entries recs) = acked" by blast
  then show ?thesis using crash_reopen_run[OF _ assms(2,3)] by (metis stops_run_ends)
qed

text \<open>
  C4: atomicity of recovery.  A log whose last transaction was cut off at any byte,
  inside a record or between records, replays to exactly the transactions before it.
\<close>

theorem wal_atomicity:
  assumes "recs_ok ep (recs @ pend @ [c])" and "committed_list recs"
    and "list_all data_op pend" and "k < length (recs_bytes (pend @ [c]))"
  shows "\<exists>log. Log_reopen (clean (log_header ep @ recs_bytes recs @ take k (recs_bytes (pend @ [c])))) =
    Some (log, Inr (data_entries recs))"
proof -
  from take_recs_bytes[OF assms(4)] obtain pre e post j where
    p: "pend @ [c] = pre @ e # post" "j < length (entry_bytes e)"
      "take k (recs_bytes (pend @ [c])) = recs_bytes pre @ take j (entry_bytes e)" by blast
  have "recs_ok ep (recs @ pre @ e # post)" using assms(1) p(1) by metis
  then have ok: "recs_ok ep (recs @ pre)" "entry_fits e" by auto
  have "list_all data_op pre"
    using assms(3) p(1) by (metis append_butlast_last_id butlast_append butlast_snoc list.distinct(1) list_all_append)
  then have "upto_commit (recs @ pre) = recs"
  proof (induction pre rule: rev_induct)
    case (snoc x xs)
    then show ?case using upto_commit_simps(2)[of "recs @ xs" x] by (auto simp: data_op_def)
  qed (simp add: assms(2) upto_commit_committed)
  then show ?thesis
    using Log_reopen_exact[OF ok(1) stops_partial[OF ok(2) p(2)]] unfolding p(3) by auto
qed

text \<open>
  C5: no resurrection.  Once a truncation has made its header durable, even if it
  then fails or the file truncation never reaches the disk, a crash leaves a log that replays
  to nothing.
\<close>

theorem wal_truncate_forgets:
  assumes "wal_run log acked" and "acked \<noteq> []" and "Log_Truncate log = (log', r)"
    and "r = Inr () \<or> l_epoch log' \<noteq> l_epoch log"
    and "l_fp log' = Some f" and "crashes_to f d"
  shows "\<exists>log''. Log_reopen (clean d) = Some (log'', Inr [])"
proof -
  from wal_run_inv[OF assms(1)] obtain recs where
    inv: "log_inv log recs []" and recs: "map payload (data_entries recs) = acked" by blast
  have ok: "recs_ok (l_epoch log) recs" "last_seq (l_epoch log) recs \<le> l_seq log" "recs \<noteq> []"
    using inv recs assms(2) by (auto elim: log_invE)
  from Log_Truncate_cases[OF inv assms(3)] assms(4,5) obtain rest where
    "f_synced f = log_header (l_seq log) @ recs_bytes recs @ rest \<and> set (f_pending f) \<subseteq> {PTrunc 20}
          \<or> f_synced f = log_header (l_seq log) \<and> f_pending f = []" by auto
  then have "d = log_header (l_seq log) @ recs_bytes recs @ rest \<or> d = log_header (l_seq log)"
    using assms(6) crash_trunc[of "f_synced f" "f_pending f" d 20]
    by (auto simp: crashes_to_def elim: crash_content.cases)
  then show ?thesis
    using Log_reopen_stale[OF ok(3,1,2), of rest] Log_reopen_exact[of "l_seq log" "[]" "[]"] by auto
qed

text \<open>
  C11: a transient sync failure during truncation loses later commits.  If the sync of
  the new header fails once, \<open>Truncate\<close> reports the error but leaves the write cursor behind
  the old records; a transaction committed afterwards is acknowledged, and a later reopening
  of the very file returns nothing at all.
\<close>

theorem Log_Truncate_fault:
  assumes "wal_run log acked" and "acked \<noteq> []" and "l_fp log = Some f"
    and "f_faults f = [NoFault, Fault k]" and "Log_Truncate log = (log1, r1)"
    and "list_all entry_fits ents" and "Log_tx log1 ents = (log2, r2)"
  shows "r1 = Inl io_error \<and> r2 = Inr () \<and>
    (\<exists>f2 log3. l_fp log2 = Some f2 \<and> Log_reopen (clean (f_data f2)) = Some (log3, Inr []))"
proof -
  from wal_run_inv[OF assms(1)] obtain recs where
    inv: "log_inv log recs []" and recs: "map payload (data_entries recs) = acked" by blast
  have ok: "recs_ok (l_epoch log) recs" "last_seq (l_epoch log) recs \<le> l_seq log" "recs \<noteq> []"
    and off: "l_offset log = 20 + length (recs_bytes recs)"
    and data: "take (l_offset log) (f_data f) = log_header (l_epoch log) @ recs_bytes recs"
    using inv recs assms(2,3) by (auto elim: log_invE)
  obtain rest where d: "f_data f = log_header (l_epoch log) @ recs_bytes recs @ rest"
    using data by (metis append_assoc append_take_drop_id)
  define f1 where "f1 = f\<lparr>f_faults := [], f_data := write_at (f_data f) 0 (log_header (l_seq log)),
      f_pending := f_pending f @ [PWrite 0 (log_header (l_seq log))]\<rparr>"
  have 1: "log1 = log\<lparr>l_fp := Some f1\<rparr>" "r1 = Inl io_error"
    using assms(3,4,5) by (auto simp: Log_Truncate_def Log_writeHeader_def WriteAt_def Sync_def do_fop_def f1_def)
  have d1: "f_data f1 = log_header (l_seq log) @ recs_bytes recs @ rest"
    by (simp add: f1_def d write_at_split)
  have "\<exists>log' f'. Log_tx log1 ents = (log', Inr ()) \<and> l_fp log' = Some f' \<and>
      take (20 + length (recs_bytes recs)) (f_data f') = take (20 + length (recs_bytes recs)) (f_data f1)"
    using assms(6) off d1 by (intro Log_tx_nofault) (auto simp: 1 f1_def)
  then obtain f2 where 2: "r2 = Inr ()" "l_fp log2 = Some f2"
    "take (20 + length (recs_bytes recs)) (f_data f2) = log_header (l_seq log) @ recs_bytes recs"
    using assms(7) d1 by auto
  then have "f_data f2 = log_header (l_seq log) @ recs_bytes recs @ drop (20 + length (recs_bytes recs)) (f_data f2)"
    by (metis append_assoc append_take_drop_id)
  then show ?thesis using 1(2) 2(1,2) Log_reopen_stale[OF ok(3,1,2)] by metis
qed

text \<open>
  C12: recovery always returns.  Whatever bytes the log file holds, and whatever I/O
  faults occur while it is opened and replayed, the replay loop ends within one step more than
  the file has bytes.
\<close>

theorem wal_replay_terminates: "\<exists>log r. Log_reopen fp = Some (log, r)"
proof -
  obtain log r where o: "Log_Open fp = (log, r)" by fastforce
  show ?thesis
  proof (cases r)
    case (Inr u)
    then have "Log_Open fp = (log, Inr ())" using o by simp
    from Log_Open_fp[OF this] have
      "case l_fp log of None \<Rightarrow> 0 < Suc (length (f_data fp))
        | Some f \<Rightarrow> length (f_data f) - l_reader log < Suc (length (f_data fp))" by auto
    from openLog_loop_terminates[OF this, of "[]" 0] show ?thesis
      using o Inr by (auto simp: Log_reopen_def)
  qed (simp add: Log_reopen_def o)
qed

section \<open>Witnesses\<close>

text \<open>A log with one committed transaction.\<close>

definition demo_entry :: "byte \<Rightarrow> entry" where
  "demo_entry k = \<lparr>e_key = [k], e_val = [118], e_seq = 0, e_op = EntryAdd\<rparr>"

definition demo_log :: Log where
  "demo_log = fst (Log_tx (fst (Log_Open (clean []))) [demo_entry 107])"

lemma Log_Open_demo: "Log_Open (clean []) = (fst (Log_Open (clean [])), Inr ())"
  using Log_Open_empty by (metis prod.collapse)

lemma Log_Open_demo_sel:
  "l_seq (fst (Log_Open (clean []))) = 0"
  "\<exists>f. l_fp (fst (Log_Open (clean []))) = Some f \<and> f_faults f = [] \<and> length (f_data f) = 20"
  "l_offset (fst (Log_Open (clean []))) = 20"
  by (simp_all add: Log_Open_def Log_openHeader_def Log_writeHeader_def clean_def ReadAt_def WriteAt_def
      Sync_def do_fop_def write_at_def logHeaderSize_def)

lemma demo_run: "wal_run demo_log [([107], [118], EntryAdd)]" and demo_fp: "\<exists>f. l_fp demo_log = Some f"
proof -
  from Log_Open_demo_sel(2) obtain f where f: "l_fp (fst (Log_Open (clean []))) = Some f"
    "f_faults f = []" by blast
  have fits: "list_all entry_fits [demo_entry 107]" by (simp add: demo_entry_def entry_fits_def MaxEntrySize_def)
  from Log_tx_nofault[OF f fits, of 0] obtain f' where
    tx: "Log_tx (fst (Log_Open (clean []))) [demo_entry 107] = (demo_log, Inr ())" "l_fp demo_log = Some f'"
    by (auto simp: demo_log_def)
  have "room (fst (Log_Open (clean []))) (Suc (length [demo_entry 107]))"
    by (simp add: room_def Log_Open_demo_sel)
  from run_tx[OF run_open[OF Log_Open_demo] this _ tx(1)]
  show "wal_run demo_log [([107], [118], EntryAdd)]" by (simp add: demo_entry_def data_op_def payload_def)
  show "\<exists>f. l_fp demo_log = Some f" using tx(2) by blast
qed

theorem wal_durability_witness:
  "\<exists>log' recs ext tail rest. let d = f_synced (the (l_fp demo_log)) in
    Log_reopen (clean d) = Some (log', Inr (data_entries (recs @ ext))) \<and>
    map payload (data_entries recs) = [([107], [118], EntryAdd)] \<and>
    d = log_header (l_epoch demo_log) @ recs_bytes (recs @ ext @ tail) @ rest \<and>
    recs_ok (l_epoch demo_log) (recs @ ext @ tail)"
proof -
  obtain f where f: "l_fp demo_log = Some f" using demo_fp by blast
  have "crash_content d ps d" for d and ps :: "fop list"
    by (induction ps) (auto intro: crash_content.intros)
  then have "crashes_to f (f_synced f)" by (simp add: crashes_to_def)
  from wal_durability[OF demo_run f this] show ?thesis
    unfolding f Let_def option.sel by (elim exE conjE) (intro exI conjI, assumption+)
qed

theorem wal_atomicity_witness:
  "let e = (demo_entry 107)\<lparr>e_seq := 1\<rparr>; c = commit_entry\<lparr>e_seq := 2\<rparr>;
       e' = (demo_entry 108)\<lparr>e_seq := 3\<rparr>; c' = commit_entry\<lparr>e_seq := 4\<rparr> in
   \<exists>log. Log_reopen (clean (log_header 0 @ recs_bytes [e, c] @ take 30 (recs_bytes ([e'] @ [c'])))) =
     Some (log, Inr (data_entries [e, c]))"
  unfolding Let_def
  by (rule wal_atomicity)
    (simp_all add: demo_entry_def commit_entry_def entry_fits_def MaxEntrySize_def entry_op_ok_def
      committed_list_def data_op_def length_entry_bytes)

text \<open>The demonstration log, truncated with every operation succeeding.\<close>

lemma demo_faults:
  obtains f where "l_fp (inject demo_log fs) = Some f" "f_faults f = fs" "wal_run (inject demo_log fs) [([107], [118], EntryAdd)]"
proof -
  obtain f where "l_fp demo_log = Some f" using demo_fp by blast
  then show thesis using that[of "f\<lparr>f_faults := fs\<rparr>"] run_fault[OF demo_run, of fs] by (simp add: inject_def)
qed

lemma Log_Truncate_nofault:
  assumes "l_fp log = Some f" and "f_faults f = []"
  shows "\<exists>log' f'. Log_Truncate log = (log', Inr ()) \<and> l_fp log' = Some f' \<and> crashes_to f' (f_synced f')"
  using assms
  by (simp add: Log_Truncate_def Log_writeHeader_def WriteAt_def Sync_def Truncate_def do_fop_def Let_def
      crashes_to_def crash_done)

theorem wal_truncate_forgets_witness:
  "\<exists>log''. Log_reopen (clean (f_synced (the (l_fp (fst (Log_Truncate (inject demo_log []))))))) = Some (log'', Inr [])"
proof -
  obtain f where f: "l_fp (inject demo_log []) = Some f" "f_faults f = []"
    and run: "wal_run (inject demo_log []) [([107], [118], EntryAdd)]" by (rule demo_faults)
  from Log_Truncate_nofault[OF f] obtain log' f' where
    t: "Log_Truncate (inject demo_log []) = (log', Inr ())" "l_fp log' = Some f'" "crashes_to f' (f_synced f')" by blast
  have "\<exists>log''. Log_reopen (clean (f_synced f')) = Some (log'', Inr [])"
    by (rule wal_truncate_forgets[OF run _ t(1) _ t(2,3)]) simp_all
  then show ?thesis using t by simp
qed

theorem Log_Truncate_fault_witness:
  "let (log1, r1) = Log_Truncate (inject demo_log [NoFault, Fault 0]);
       (log2, r2) = Log_tx log1 [demo_entry 108]
   in r1 = Inl io_error \<and> r2 = Inr () \<and>
     (\<exists>f2 log3. l_fp log2 = Some f2 \<and> Log_reopen (clean (f_data f2)) = Some (log3, Inr []))"
proof -
  obtain f where f: "l_fp (inject demo_log [NoFault, Fault 0]) = Some f" "f_faults f = [NoFault, Fault 0]"
    and run: "wal_run (inject demo_log [NoFault, Fault 0]) [([107], [118], EntryAdd)]" by (rule demo_faults)
  obtain log1 r1 where 1: "Log_Truncate (inject demo_log [NoFault, Fault 0]) = (log1, r1)" by fastforce
  obtain log2 r2 where 2: "Log_tx log1 [demo_entry 108] = (log2, r2)" by fastforce
  have "r1 = Inl io_error \<and> r2 = Inr () \<and>
     (\<exists>f2 log3. l_fp log2 = Some f2 \<and> Log_reopen (clean (f_data f2)) = Some (log3, Inr []))"
    by (rule Log_Truncate_fault[OF run _ f 1 _ 2]) (simp_all add: demo_entry_def entry_fits_def MaxEntrySize_def)
  then show ?thesis by (simp add: 1 2)
qed

end
