(* ===== verification/Cursor.thy ===== *)
theory Cursor
  imports Prelude
begin

text \<open>
  The interface between the parts of the storage engine: \<open>SortedKVIter\<close> of
  \<open>src/db/sorted_file.go\<close>, a cursor that walks sorted entries in both directions.  An interface
  value is its methods and its state, so the code that is generic in iterators takes a record
  of operations.  The locale \<open>kv_iter\<close> states what an implementation promises: it is a position
  in a strictly sorted entry list, from one before the first entry to one past the last.
\<close>

section \<open>Entries\<close>

text \<open>An entry: its key, and its value with the tombstone flag.\<close>

type_synonym kvd = "bytes \<times> bytes \<times> bool"
type_synonym kvmap = "bytes \<rightharpoonup> bytes \<times> bool"

abbreviation keys_of :: "kvd list \<Rightarrow> bytes list" where
  "keys_of es \<equiv> map fst es"

definition live :: "kvmap \<Rightarrow> bytes \<rightharpoonup> bytes" where
  "live m k = (case m k of Some (v, False) \<Rightarrow> Some v | _ \<Rightarrow> None)"

text \<open>The entries of a finite map in key order.\<close>

definition sorted_entries :: "('k::linorder \<rightharpoonup> 'v) \<Rightarrow> ('k \<times> 'v) list" where
  "sorted_entries m = map (\<lambda>k. (k, the (m k))) (sorted_list_of_set (dom m))"

lemma map_of_map_pair: "map_of (map (\<lambda>k. (k, f k)) ks) = (\<lambda>k. if k \<in> set ks then Some (f k) else None)"
  by (induction ks) auto

lemma keys_sorted_entries [simp]: "map fst (sorted_entries m) = sorted_list_of_set (dom m)"
  by (simp add: sorted_entries_def comp_def)

lemma map_of_sorted_entries [simp]: "finite (dom m) \<Longrightarrow> map_of (sorted_entries m) = m"
  by (rule ext) (auto simp: sorted_entries_def map_of_map_pair domIff split: option.splits)

lemma ssorted_sorted_list_of_set [simp]: "ssorted (sorted_list_of_set A)"
  by (simp add: strict_sorted_list_of_set)

text \<open>A strictly sorted entry list is determined by its map.\<close>

lemma sorted_entries_map_of:
  assumes "ssorted (map fst es)"
  shows "sorted_entries (map_of es) = es"
proof -
  have d: "distinct (map fst es)" using assms by (simp add: strict_sorted_iff)
  have "sorted_list_of_set (dom (map_of es)) = map fst es"
    using assms by (simp add: dom_map_of_conv_image_fst sorted_list_of_set_unique flip: set_map)
      (metis List.finite_set assms list.set_map ssorted_set_unique set_sorted_list_of_set ssorted_sorted_list_of_set)
  moreover have "(fst x, the (map_of es (fst x))) = x" if "x \<in> set es" for x
    using that d by (metis map_of_is_SomeI option.sel prod.collapse)
  ultimately show ?thesis by (simp add: sorted_entries_def comp_def map_idI)
qed

lemma ssorted_entries_unique:
  "ssorted (map fst es) \<Longrightarrow> ssorted (map fst es') \<Longrightarrow> map_of es = map_of es' \<Longrightarrow> es = es'"
  by (metis sorted_entries_map_of)

section \<open>Positions in a sorted list\<close>

definition upper_bound :: "'a::linorder list \<Rightarrow> 'a \<Rightarrow> nat" where
  "upper_bound ks k = length (takeWhile (\<lambda>x. x \<le> k) ks)"

lemma upper_bound_le [simp]: "upper_bound ks k \<le> length ks"
  by (simp add: upper_bound_def length_takeWhile_le)

lemma lower_less_iff: "sorted ks \<Longrightarrow> i < length ks \<Longrightarrow> i < lower_bound ks k \<longleftrightarrow> ks ! i < k"
  using lower_bound_nth_less lower_bound_nth_ge by (metis leD leI)

lemma upper_less_iff:
  assumes "sorted ks" and "i < length ks"
  shows "i < upper_bound ks k \<longleftrightarrow> ks ! i \<le> k"
proof
  assume "i < upper_bound ks k"
  then show "ks ! i \<le> k" unfolding upper_bound_def by (metis nth_mem set_takeWhileD takeWhile_nth)
next
  assume le: "ks ! i \<le> k"
  show "i < upper_bound ks k"
  proof (rule ccontr)
    assume "\<not> i < upper_bound ks k"
    then have ub: "upper_bound ks k \<le> i" by simp
    then have "\<not> ks ! upper_bound ks k \<le> k"
      using nth_length_takeWhile[of "\<lambda>x. x \<le> k" ks] assms(2) by (auto simp: upper_bound_def)
    moreover have "ks ! upper_bound ks k \<le> ks ! i" using assms ub by (intro sorted_nth_mono) auto
    ultimately show False using le by simp
  qed
qed

lemma upper_eq_lower: "(\<And>x. x \<in> set ks \<Longrightarrow> x \<le> c \<longleftrightarrow> x < c') \<Longrightarrow> upper_bound ks c = lower_bound ks c'"
  unfolding upper_bound_def lower_bound_def by (metis (mono_tags, lifting) takeWhile_cong)

lemma upper_eq_length: "(\<And>x. x \<in> set ks \<Longrightarrow> x \<le> c) \<Longrightarrow> upper_bound ks c = length ks"
  unfolding upper_bound_def by (metis (mono_tags, lifting) takeWhile_eq_all_conv)

lemma lower_eq_length: "(\<And>x. x \<in> set ks \<Longrightarrow> x < c) \<Longrightarrow> lower_bound ks c = length ks"
  unfolding lower_bound_def by (metis (mono_tags, lifting) takeWhile_eq_all_conv)

lemma lower_eq_0: "(\<And>x. x \<in> set ks \<Longrightarrow> c \<le> x) \<Longrightarrow> lower_bound ks c = 0"
  unfolding lower_bound_def by (cases ks) (auto simp: not_less)

lemma lower_cong: "(\<And>x. x \<in> set ks \<Longrightarrow> x < c \<longleftrightarrow> x < c') \<Longrightarrow> lower_bound ks c = lower_bound ks c'"
  unfolding lower_bound_def by (metis (mono_tags, lifting) takeWhile_cong)

lemma lower_nth [simp]: "ssorted ks \<Longrightarrow> i < length ks \<Longrightarrow> lower_bound ks (ks ! i) = i"
  by (intro lower_bound_unique) (auto simp: ssorted_nth_less_iff sorted_simps intro: sorted_nth_mono)

lemma upper_Suc_lower:
  assumes "ssorted ks"
  shows "upper_bound ks c = (if c \<in> set ks then Suc (lower_bound ks c) else lower_bound ks c)"
proof (cases "c \<in> set ks")
  case False
  then have "upper_bound ks c = lower_bound ks c" by (intro upper_eq_lower) (auto simp: order_less_le)
  with False show ?thesis by simp
next
  case True
  then obtain i where i: "i < length ks" "ks ! i = c" by (auto simp: in_set_conv_nth)
  have s: "sorted ks" using assms by (rule ssorted_imp_sorted)
  have "upper_bound ks c = Suc i"
  proof (rule antisym)
    show "Suc i \<le> upper_bound ks c" using upper_less_iff[OF s i(1), of c] i by simp
    show "upper_bound ks c \<le> Suc i"
    proof (rule ccontr)
      assume "\<not> upper_bound ks c \<le> Suc i"
      then have lt: "Suc i < upper_bound ks c" by simp
      then have len: "Suc i < length ks" using upper_bound_le[of ks c] by linarith
      then have "ks ! Suc i \<le> c" using upper_less_iff[OF s len, of c] lt by simp
      then show False using len ssorted_nth_less_iff[OF assms i(1), of "Suc i"] i(2) by auto
    qed
  qed
  then show ?thesis using True i assms by auto
qed

section \<open>Iterators\<close>

record 'i iter_ops =
  i_Valid :: "'i \<Rightarrow> bool"
  i_Key :: "'i \<Rightarrow> bytes res"
  i_Val :: "'i \<Rightarrow> bytes res"
  i_Deleted :: "'i \<Rightarrow> bool res"
  i_Next :: "'i \<Rightarrow> 'i res"
  i_Prev :: "'i \<Rightarrow> 'i res"

text \<open>
  \<open>fwd_iter\<close> is the part of the contract a forward walk needs; \<open>kv_iter\<close> adds the way back.
\<close>

locale fwd_iter =
  fixes ops :: "'i iter_ops" and rep :: "'i \<Rightarrow> kvd list \<Rightarrow> int \<Rightarrow> bool"
  assumes rep_sorted: "rep it es p \<Longrightarrow> ssorted (keys_of es)"
    and rep_range: "rep it es p \<Longrightarrow> - 1 \<le> p \<and> p \<le> int (length es)"
    and Valid_iff: "rep it es p \<Longrightarrow> i_Valid ops it \<longleftrightarrow> 0 \<le> p \<and> p < int (length es)"
    and Key_nth: "rep it es p \<Longrightarrow> 0 \<le> p \<Longrightarrow> p < int (length es) \<Longrightarrow> i_Key ops it = Inr (fst (es ! nat p))"
    and Val_nth: "rep it es p \<Longrightarrow> 0 \<le> p \<Longrightarrow> p < int (length es) \<Longrightarrow> i_Val ops it = Inr (fst (snd (es ! nat p)))"
    and Deleted_nth: "rep it es p \<Longrightarrow> 0 \<le> p \<Longrightarrow> p < int (length es) \<Longrightarrow> i_Deleted ops it = Inr (snd (snd (es ! nat p)))"
    and Next_step: "rep it es p \<Longrightarrow> \<exists>it'. i_Next ops it = Inr it' \<and> rep it' es (min (int (length es)) (p + 1))"

locale kv_iter = fwd_iter ops rep for ops :: "'i iter_ops" and rep :: "'i \<Rightarrow> kvd list \<Rightarrow> int \<Rightarrow> bool" +
  assumes Prev_step: "rep it es p \<Longrightarrow> \<exists>it'. i_Prev ops it = Inr it' \<and> rep it' es (max (- 1) (p - 1))"

text \<open>
  \<open>SortedKV\<close>: what a level offers.  \<open>getExact\<close> is the optional interface
  \<open>sortedKVExactGetter\<close> of \<open>src/db/merge.go\<close>; its result is \<open>None\<close> when the key is not found.
\<close>

record ('l, 'i) kv_ops =
  k_EstimatedSize :: "'l \<Rightarrow> nat"
  k_Iter :: "'l \<Rightarrow> 'i res"
  k_Seek :: "'l \<Rightarrow> bytes \<Rightarrow> 'i res"
  k_SeekToLast :: "'l \<Rightarrow> 'i res"
  k_getExact :: "('l \<Rightarrow> bytes \<Rightarrow> (bytes \<times> bool) option res) option"

locale fwd_source = fwd_iter ops rep
  for ops :: "'i iter_ops" and rep :: "'i \<Rightarrow> kvd list \<Rightarrow> int \<Rightarrow> bool" +
  fixes kops :: "('l, 'i) kv_ops" and src :: "'l \<Rightarrow> kvd list \<Rightarrow> bool"
  assumes src_sorted: "src l es \<Longrightarrow> ssorted (keys_of es)"
    and Size_ge: "src l es \<Longrightarrow> length es \<le> k_EstimatedSize kops l"
    and Iter_rep: "src l es \<Longrightarrow> \<exists>it. k_Iter kops l = Inr it \<and> rep it es 0"

locale kv_source = kv_iter ops rep + fwd_source ops rep kops src
  for ops :: "'i iter_ops" and rep :: "'i \<Rightarrow> kvd list \<Rightarrow> int \<Rightarrow> bool"
    and kops :: "('l, 'i) kv_ops" and src :: "'l \<Rightarrow> kvd list \<Rightarrow> bool" +
  assumes Seek_rep: "src l es \<Longrightarrow> \<exists>it. k_Seek kops l k = Inr it \<and> rep it es (int (lower_bound (keys_of es) k))"
    and SeekToLast_rep: "src l es \<Longrightarrow> \<exists>it. k_SeekToLast kops l = Inr it \<and> rep it es (int (length es) - 1)"
    and getExact_map: "src l es \<Longrightarrow> k_getExact kops = Some g \<Longrightarrow> g l k = Inr (map_of es k)"

section \<open>Walking an iterator\<close>

text \<open>
  The loop \<open>for ; err == nil && iter.Valid(); err = iter.Next()\<close> that reads every entry.  It
  runs on fuel; a walk over a list of entries needs one step more than there are entries.
\<close>

fun walk :: "nat \<Rightarrow> 'i iter_ops \<Rightarrow> 'i \<Rightarrow> kvd list res" where
  "walk fuel ops it =
     (if \<not> i_Valid ops it then Inr []
      else case fuel of 0 \<Rightarrow> Inl (Panic ''does not return'') | Suc fuel \<Rightarrow>
        rbind (i_Key ops it) (\<lambda>k. rbind (i_Val ops it) (\<lambda>v. rbind (i_Deleted ops it) (\<lambda>d.
        rbind (i_Next ops it) (\<lambda>it. rbind (walk fuel ops it) (\<lambda>es. Inr ((k, v, d) # es)))))))"

declare walk.simps [simp del]

context fwd_iter begin

lemma walk_drop:
  "rep it es (int p) \<Longrightarrow> length es - p \<le> fuel \<Longrightarrow> walk fuel ops it = Inr (drop p es)"
proof (induction fuel arbitrary: it p)
  case 0
  then have "p = length es" using rep_range[OF 0(1)] by simp
  then show ?case using Valid_iff[OF 0(1)] by (simp add: walk.simps)
next
  case (Suc fuel)
  show ?case
  proof (cases "p < length es")
    case False
    then show ?thesis using Valid_iff[OF Suc.prems(1)] by (simp add: walk.simps)
  next
    case True
    have "min (int (length es)) (int p + 1) = int (Suc p)" using True by simp
    then obtain it1 where it1: "i_Next ops it = Inr it1" "rep it1 es (int (Suc p))"
      using Next_step[OF Suc.prems(1)] by auto
    have "walk fuel ops it1 = Inr (drop (Suc p) es)" using Suc.IH[OF it1(2)] Suc.prems(2) by simp
    then show ?thesis
      using True it1(1) Valid_iff[OF Suc.prems(1)] Key_nth[OF Suc.prems(1)] Val_nth[OF Suc.prems(1)]
        Deleted_nth[OF Suc.prems(1)]
      by (simp add: walk.simps[of "Suc fuel"] flip: Cons_nth_drop_Suc)
  qed
qed

end

context fwd_source begin

lemma walk_source:
  assumes "src l es"
  shows "rbind (k_Iter kops l) (walk (k_EstimatedSize kops l) ops) = Inr es"
proof -
  obtain it where it: "k_Iter kops l = Inr it" "rep it es (int 0)" using Iter_rep[OF assms] by auto
  then show ?thesis using walk_drop[OF it(2)] Size_ge[OF assms] by simp
qed

end

end
