(* ===== verification/SortedArray.thy ===== *)
theory SortedArray
  imports Cursor
begin

text \<open>
  \<open>src/db/sorted_array.go\<close>: the memtable, three parallel slices sorted by key.  Point
  operations use a binary search; the array refines a finite map from keys to values with
  tombstones, and its iterator satisfies the contract of \<open>kv_iter\<close>.
\<close>

section \<open>Binary search\<close>

text \<open>\<open>slices.BinarySearchFunc\<close> with \<open>bytes.Compare\<close>: the leftmost position not below the target.\<close>

function binsearch_loop :: "bytes list \<Rightarrow> bytes \<Rightarrow> nat \<Rightarrow> nat \<Rightarrow> nat" where
  "binsearch_loop x target i j =
     (if i < j then
        let h = (i + j) div 2 in
        if bytes_Compare (x ! h) target < 0 then binsearch_loop x target (h + 1) j
        else binsearch_loop x target i h
      else i)"
  by pat_completeness auto
termination
  by (relation "measure (\<lambda>(x, target, i, j). j - i)") (auto simp: Let_def)

declare binsearch_loop.simps [simp del]

definition BinarySearchFunc :: "bytes list \<Rightarrow> bytes \<Rightarrow> nat \<times> bool" where
  "BinarySearchFunc x target =
     (let i = binsearch_loop x target 0 (length x)
      in (i, i < length x \<and> bytes_Compare (x ! i) target = 0))"

lemma binsearch_loop_lower_bound:
  "sorted x \<Longrightarrow> i \<le> lower_bound x target \<Longrightarrow> lower_bound x target \<le> j \<Longrightarrow> j \<le> length x \<Longrightarrow>
    binsearch_loop x target i j = lower_bound x target"
proof (induction x target i j rule: binsearch_loop.induct)
  case (1 x target i j)
  show ?case
  proof (cases "i < j")
    case False
    then show ?thesis using 1 by (simp add: binsearch_loop.simps)
  next
    case True
    let ?h = "(i + j) div 2"
    have h: "?h < length x" using True 1 by auto
    have "x ! ?h < target \<longleftrightarrow> ?h < lower_bound x target"
      using lower_less_iff[of x ?h target] h 1 by auto
    then show ?thesis using 1 True by (simp add: binsearch_loop.simps[of x target i j] Let_def)
  qed
qed

lemma BinarySearchFunc_eq:
  "sorted x \<Longrightarrow> BinarySearchFunc x target = (lower_bound x target, target \<in> set x)"
  by (simp add: BinarySearchFunc_def binsearch_loop_lower_bound lower_bound_mem_iff Let_def)

section \<open>The array\<close>

record SortedArray =
  a_keys :: "bytes list"
  a_vals :: "bytes list"
  a_deleted :: "bool list"

definition empty_array :: SortedArray where
  "empty_array = \<lparr>a_keys = [], a_vals = [], a_deleted = []\<rparr>"

definition Array_Size :: "SortedArray \<Rightarrow> nat" where
  "Array_Size arr = length (a_keys arr)"

definition Array_EstimatedSize :: "SortedArray \<Rightarrow> nat" where
  "Array_EstimatedSize arr = length (a_keys arr)"

definition Array_getExact :: "SortedArray \<Rightarrow> bytes \<Rightarrow> (bytes \<times> bool) option" where
  "Array_getExact arr key =
     (let (idx, ok) = BinarySearchFunc (a_keys arr) key in
      if \<not> ok then None else Some (a_vals arr ! idx, a_deleted arr ! idx))"

definition Array_Clear :: "SortedArray \<Rightarrow> SortedArray" where
  "Array_Clear arr = arr\<lparr>a_keys := [], a_vals := [], a_deleted := []\<rparr>"

definition Array_Push :: "SortedArray \<Rightarrow> bytes \<Rightarrow> bytes \<Rightarrow> bool \<Rightarrow> SortedArray" where
  "Array_Push arr key val deleted =
     arr\<lparr>a_keys := a_keys arr @ [key], a_vals := a_vals arr @ [val],
       a_deleted := a_deleted arr @ [deleted]\<rparr>"

definition Array_Pop :: "SortedArray \<Rightarrow> SortedArray res" where
  "Array_Pop arr =
     (let n = Array_Size arr
      in if n = 0 then Inl (Panic ''slice bounds out of range'')
         else Inr (arr\<lparr>a_keys := take (n - 1) (a_keys arr), a_vals := take (n - 1) (a_vals arr),
           a_deleted := take (n - 1) (a_deleted arr)\<rparr>))"

definition Array_Set :: "SortedArray \<Rightarrow> bytes \<Rightarrow> bytes \<Rightarrow> SortedArray \<times> bool" where
  "Array_Set arr key val =
     (let (idx, ok) = BinarySearchFunc (a_keys arr) key;
          updated = (\<not> ok \<or> a_deleted arr ! idx \<or> val \<noteq> a_vals arr ! idx)
      in (if updated then
            if ok then arr\<lparr>a_vals := (a_vals arr)[idx := val], a_deleted := (a_deleted arr)[idx := False]\<rparr>
            else \<lparr>a_keys = slices_Insert (a_keys arr) idx key, a_vals = slices_Insert (a_vals arr) idx val,
                   a_deleted = slices_Insert (a_deleted arr) idx False\<rparr>
          else arr, updated))"

definition Array_Del :: "SortedArray \<Rightarrow> bytes \<Rightarrow> SortedArray \<times> bool" where
  "Array_Del arr key =
     (let (idx, ok) = BinarySearchFunc (a_keys arr) key in
      if ok \<and> \<not> a_deleted arr ! idx then
        (arr\<lparr>a_vals := (a_vals arr)[idx := []], a_deleted := (a_deleted arr)[idx := True]\<rparr>, True)
      else
        (\<lparr>a_keys = slices_Insert (a_keys arr) idx key, a_vals = slices_Insert (a_vals arr) idx [],
           a_deleted = slices_Insert (a_deleted arr) idx True\<rparr>, False))"

section \<open>The iterator\<close>

record SortedArrayIter =
  ai_arr :: SortedArray
  ai_pos :: int

definition ArrayIter_Valid :: "SortedArrayIter \<Rightarrow> bool" where
  "ArrayIter_Valid it \<longleftrightarrow> 0 \<le> ai_pos it \<and> ai_pos it < int (length (a_keys (ai_arr it)))"

definition ArrayIter_Key :: "SortedArrayIter \<Rightarrow> bytes res" where
  "ArrayIter_Key it = (if ArrayIter_Valid it then Inr (a_keys (ai_arr it) ! nat (ai_pos it))
     else Inl (Panic ''check''))"

definition ArrayIter_Val :: "SortedArrayIter \<Rightarrow> bytes res" where
  "ArrayIter_Val it = (if ArrayIter_Valid it then Inr (a_vals (ai_arr it) ! nat (ai_pos it))
     else Inl (Panic ''check''))"

definition ArrayIter_Deleted :: "SortedArrayIter \<Rightarrow> bool res" where
  "ArrayIter_Deleted it = (if ArrayIter_Valid it then Inr (a_deleted (ai_arr it) ! nat (ai_pos it))
     else Inl (Panic ''check''))"

definition ArrayIter_Next :: "SortedArrayIter \<Rightarrow> SortedArrayIter res" where
  "ArrayIter_Next it = Inr (if ai_pos it < int (length (a_keys (ai_arr it)))
     then it\<lparr>ai_pos := ai_pos it + 1\<rparr> else it)"

definition ArrayIter_Prev :: "SortedArrayIter \<Rightarrow> SortedArrayIter res" where
  "ArrayIter_Prev it = Inr (if ai_pos it \<ge> 0 then it\<lparr>ai_pos := ai_pos it - 1\<rparr> else it)"

definition array_ops :: "SortedArrayIter iter_ops" where
  "array_ops = \<lparr>i_Valid = ArrayIter_Valid, i_Key = ArrayIter_Key, i_Val = ArrayIter_Val,
     i_Deleted = ArrayIter_Deleted, i_Next = ArrayIter_Next, i_Prev = ArrayIter_Prev\<rparr>"

definition Array_Iter :: "SortedArray \<Rightarrow> SortedArrayIter" where
  "Array_Iter arr = \<lparr>ai_arr = arr, ai_pos = 0\<rparr>"

definition Array_Seek :: "SortedArray \<Rightarrow> bytes \<Rightarrow> SortedArrayIter" where
  "Array_Seek arr key = (let (pos, _) = BinarySearchFunc (a_keys arr) key in \<lparr>ai_arr = arr, ai_pos = int pos\<rparr>)"

definition Array_SeekToLast :: "SortedArray \<Rightarrow> SortedArrayIter" where
  "Array_SeekToLast arr = \<lparr>ai_arr = arr, ai_pos = int (length (a_keys arr)) - 1\<rparr>"

section \<open>The invariant, and the array as a map\<close>

definition arr_shape :: "SortedArray \<Rightarrow> bool" where
  "arr_shape arr \<longleftrightarrow> length (a_vals arr) = length (a_keys arr) \<and> length (a_deleted arr) = length (a_keys arr)"

definition arr_wf :: "SortedArray \<Rightarrow> bool" where
  "arr_wf arr \<longleftrightarrow> arr_shape arr \<and> ssorted (a_keys arr)"

definition arr_entries :: "SortedArray \<Rightarrow> kvd list" where
  "arr_entries arr = zip (a_keys arr) (zip (a_vals arr) (a_deleted arr))"

definition arr_map :: "SortedArray \<Rightarrow> kvmap" where
  "arr_map arr = map_of (arr_entries arr)"

lemma arr_entries_simps [simp]:
  assumes "arr_shape arr"
  shows "keys_of (arr_entries arr) = a_keys arr" "length (arr_entries arr) = length (a_keys arr)"
    "i < length (a_keys arr) \<Longrightarrow> arr_entries arr ! i = (a_keys arr ! i, a_vals arr ! i, a_deleted arr ! i)"
  using assms by (simp_all add: arr_entries_def arr_shape_def)

lemma arr_wfD [simp]: "arr_wf arr \<Longrightarrow> arr_shape arr" "arr_wf arr \<Longrightarrow> ssorted (a_keys arr)"
  "arr_wf arr \<Longrightarrow> sorted (a_keys arr)"
  by (simp_all add: arr_wf_def strict_sorted_iff)

lemma arr_wf_empty [simp]: "arr_wf empty_array" "arr_map empty_array = Map.empty" "arr_entries empty_array = []"
  by (simp_all add: arr_wf_def arr_shape_def empty_array_def arr_map_def arr_entries_def)

lemma dom_arr_map: "arr_shape arr \<Longrightarrow> dom (arr_map arr) = set (a_keys arr)"
  by (simp add: arr_map_def dom_map_of_conv_image_fst flip: set_map)

lemma arr_map_nth:
  assumes "arr_wf arr" and "i < length (a_keys arr)"
  shows "arr_map arr (a_keys arr ! i) = Some (a_vals arr ! i, a_deleted arr ! i)"
proof -
  have "(a_keys arr ! i, a_vals arr ! i, a_deleted arr ! i) \<in> set (arr_entries arr)"
    using assms by (metis arr_entries_simps(2,3) arr_wfD(1) nth_mem)
  then show ?thesis unfolding arr_map_def using assms by (intro map_of_is_SomeI) (auto simp: sorted_simps)
qed

lemma arr_map_lower:
  assumes "arr_wf arr" and "k \<in> set (a_keys arr)"
  shows "lower_bound (a_keys arr) k < length (a_keys arr)" "a_keys arr ! lower_bound (a_keys arr) k = k"
    "arr_map arr k = Some (a_vals arr ! lower_bound (a_keys arr) k, a_deleted arr ! lower_bound (a_keys arr) k)"
  using assms lower_bound_mem_iff[of "a_keys arr" k] arr_map_nth[OF assms(1), of "lower_bound (a_keys arr) k"]
  by auto

lemma arr_map_None: "arr_shape arr \<Longrightarrow> arr_map arr k = None \<longleftrightarrow> k \<notin> set (a_keys arr)"
  using dom_arr_map[of arr] by (metis domIff)

lemma Array_getExact_map: "arr_wf arr \<Longrightarrow> Array_getExact arr k = arr_map arr k"
  using arr_map_lower[of arr k] arr_map_None[of arr k]
  by (auto simp: Array_getExact_def BinarySearchFunc_eq)

text \<open>Two arrays with the same map are the same: the array is canonical.\<close>

lemma arr_entries_sorted: "arr_wf arr \<Longrightarrow> ssorted (keys_of (arr_entries arr))"
  by simp

lemma arr_entries_eq: "arr_wf arr \<Longrightarrow> arr_entries arr = sorted_entries (arr_map arr)"
  unfolding arr_map_def by (simp add: sorted_entries_map_of)

lemma ssorted_insert:
  assumes "ssorted ks" and "k \<notin> set ks"
  shows "ssorted (slices_Insert ks (lower_bound ks k) k)"
proof -
  let ?n = "lower_bound ks k"
  have s: "sorted ks" using assms(1) by (rule ssorted_imp_sorted)
  have "x < k" if "x \<in> set (take ?n ks)" for x
    using that by (auto simp: take_lower_bound dest: set_takeWhileD)
  moreover have "k < x" if "x \<in> set (drop ?n ks)" for x
  proof -
    from that obtain i where "i < length ks - ?n" "x = ks ! (?n + i)"
      by (auto simp: in_set_conv_nth)
    then have "?n + i < length ks" "x = ks ! (?n + i)" by auto
    then have "k \<le> x" "x \<in> set ks" using lower_bound_nth_ge[OF s, of k "?n + i"] by auto
    then show ?thesis using assms(2) by (metis order_le_less)
  qed
  moreover have "ssorted (take ?n ks @ drop ?n ks)" using assms(1) by simp
  ultimately show ?thesis unfolding slices_Insert_def sorted_wrt_append
    by (fastforce intro: order_less_trans)
qed

lemma map_of_slices_Insert:
  assumes "fst e \<notin> set (map fst es)"
  shows "map_of (slices_Insert es i e) = (map_of es)(fst e \<mapsto> snd e)"
proof -
  have "map_of es = map_of (take i es @ drop i es)" by simp
  also have "\<dots> = map_of (drop i es) ++ map_of (take i es)" by (simp only: map_of_append)
  finally have split: "map_of es = map_of (drop i es) ++ map_of (take i es)" .
  have "map_of (take i es) (fst e) = None"
    using assms by (metis image_set map_of_eq_None_iff set_take_subset image_mono subsetD)
  then show ?thesis
    by (auto simp: slices_Insert_def split map_add_def fun_eq_iff split: option.splits)
qed

lemma slices_Insert_zip:
  assumes "length xs = length ys"
  shows "zip (slices_Insert xs i x) (slices_Insert ys i y) = slices_Insert (zip xs ys) i (x, y)"
  using assms by (simp add: slices_Insert_def zip_append take_zip drop_zip)

definition arr_insert :: "SortedArray \<Rightarrow> bytes \<Rightarrow> bytes \<Rightarrow> bool \<Rightarrow> SortedArray" where
  "arr_insert arr k v d = (let i = lower_bound (a_keys arr) k in
     \<lparr>a_keys = slices_Insert (a_keys arr) i k, a_vals = slices_Insert (a_vals arr) i v,
      a_deleted = slices_Insert (a_deleted arr) i d\<rparr>)"

definition arr_replace :: "SortedArray \<Rightarrow> bytes \<Rightarrow> bytes \<Rightarrow> bool \<Rightarrow> SortedArray" where
  "arr_replace arr k v d = (let i = lower_bound (a_keys arr) k in
     arr\<lparr>a_vals := (a_vals arr)[i := v], a_deleted := (a_deleted arr)[i := d]\<rparr>)"

lemma arr_insert_wf:
  assumes "arr_wf arr" and "k \<notin> set (a_keys arr)"
  shows "arr_wf (arr_insert arr k v d)" and "arr_map (arr_insert arr k v d) = (arr_map arr)(k \<mapsto> (v, d))"
proof -
  have sh: "length (a_vals arr) = length (a_keys arr)" "length (a_deleted arr) = length (a_keys arr)"
    using assms(1) by (simp_all add: arr_wf_def arr_shape_def)
  show "arr_wf (arr_insert arr k v d)"
    using assms sh ssorted_insert[of "a_keys arr" k]
    by (simp add: arr_wf_def arr_shape_def arr_insert_def Let_def)
  have "arr_entries (arr_insert arr k v d) = slices_Insert (arr_entries arr) (lower_bound (a_keys arr) k) (k, v, d)"
    by (simp add: arr_entries_def arr_insert_def Let_def slices_Insert_zip sh)
  then show "arr_map (arr_insert arr k v d) = (arr_map arr)(k \<mapsto> (v, d))"
    using assms by (simp add: arr_map_def map_of_slices_Insert del: set_map)
qed

lemma map_of_insert_at:
  assumes "k \<notin> fst ` set (take i xs)"
  shows "map_of (slices_Insert xs i (k, v)) = (map_of xs)(k \<mapsto> v)"
proof -
  have "map_of (take i xs) k = None" using assms by (simp add: map_of_eq_None_iff)
  then have "map_of (slices_Insert xs i (k, v)) = (map_of (drop i xs) ++ map_of (take i xs))(k \<mapsto> v)"
    by (auto simp: slices_Insert_def map_add_def split: option.splits)
  then show ?thesis by (metis append_take_drop_id map_of_append)
qed

text \<open>Inserted before an equal key, an entry hides it.\<close>

lemma arr_insert_map:
  assumes "arr_wf arr"
  shows "arr_map (arr_insert arr k v d) = (arr_map arr)(k \<mapsto> (v, d))"
proof -
  let ?i = "lower_bound (a_keys arr) k"
  have sh: "length (a_vals arr) = length (a_keys arr)" "length (a_deleted arr) = length (a_keys arr)"
    using assms(1) by (simp_all add: arr_wf_def arr_shape_def)
  have "fst ` set (take ?i (arr_entries arr)) = set (take ?i (a_keys arr))"
    using assms by (simp flip: set_map take_map)
  then have "k \<notin> fst ` set (take ?i (arr_entries arr))"
    by (auto simp: in_set_conv_nth dest: lower_bound_nth_less)
  then show ?thesis
    using sh by (simp add: arr_map_def arr_entries_def arr_insert_def Let_def slices_Insert_zip map_of_insert_at)
qed

lemma arr_replace_wf:
  assumes "arr_wf arr" and "k \<in> set (a_keys arr)"
  shows "arr_wf (arr_replace arr k v d)" and "arr_map (arr_replace arr k v d) = (arr_map arr)(k \<mapsto> (v, d))"
proof -
  let ?i = "lower_bound (a_keys arr) k" and ?arr = "arr_replace arr k v d"
  note low = arr_map_lower[OF assms]
  have wf: "arr_wf ?arr" and ks: "a_keys ?arr = a_keys arr"
    using assms(1) by (simp_all add: arr_wf_def arr_shape_def arr_replace_def Let_def)
  then show "arr_wf ?arr" by simp
  show "arr_map ?arr = (arr_map arr)(k \<mapsto> (v, d))"
  proof
    fix x
    show "arr_map ?arr x = ((arr_map arr)(k \<mapsto> (v, d))) x"
    proof (cases "x \<in> set (a_keys arr)")
      case False
      then have "arr_map ?arr x = None" "arr_map arr x = None" "x \<noteq> k"
        using arr_map_None[of ?arr x] arr_map_None[of arr x] wf ks assms by auto
      then show ?thesis by simp
    next
      case True
      then obtain j where j: "j < length (a_keys arr)" "x = a_keys arr ! j" by (auto simp: in_set_conv_nth)
      have "j = ?i \<longleftrightarrow> x = k" using j low(1,2) assms(1) by (metis arr_wfD(2) lower_nth)
      then show ?thesis
        using arr_map_nth[OF wf, of j] arr_map_nth[OF assms(1) j(1)] j ks assms(1)
        by (auto simp: arr_replace_def Let_def arr_wf_def arr_shape_def)
    qed
  qed
qed

lemma Array_Set_eq:
  assumes "arr_wf arr"
  shows "Array_Set arr k v = (if live (arr_map arr) k = Some v then (arr, False)
    else (if k \<in> set (a_keys arr) then arr_replace arr k v False else arr_insert arr k v False, True))"
  using assms arr_map_lower[OF assms, of k] arr_map_None[of arr k]
  by (auto simp: Array_Set_def BinarySearchFunc_eq arr_replace_def arr_insert_def live_def Let_def
      split: option.splits bool.splits)

lemma Array_Del_eq:
  assumes "arr_wf arr"
  shows "Array_Del arr k = (if live (arr_map arr) k \<noteq> None then (arr_replace arr k [] True, True)
    else (arr_insert arr k [] True, False))"
  using assms arr_map_lower[OF assms, of k] arr_map_None[of arr k]
  by (auto simp: Array_Del_def BinarySearchFunc_eq arr_replace_def arr_insert_def live_def Let_def
      split: option.splits bool.splits)

lemma Array_Set_wf:
  assumes "arr_wf arr"
  shows "arr_wf (fst (Array_Set arr k v))"
    and "arr_map (fst (Array_Set arr k v)) = (arr_map arr)(k \<mapsto> (v, False))"
    and "snd (Array_Set arr k v) \<longleftrightarrow> live (arr_map arr) k \<noteq> Some v"
proof -
  have same: "(arr_map arr)(k \<mapsto> (v, False)) = arr_map arr" if "live (arr_map arr) k = Some v"
    using that by (auto simp: live_def fun_eq_iff split: option.splits bool.splits)
  show "arr_wf (fst (Array_Set arr k v))"
    "arr_map (fst (Array_Set arr k v)) = (arr_map arr)(k \<mapsto> (v, False))"
    "snd (Array_Set arr k v) \<longleftrightarrow> live (arr_map arr) k \<noteq> Some v"
    using assms same by (auto simp: Array_Set_eq arr_replace_wf arr_insert_wf)
qed

lemma live_SomeD: "live m k = Some v \<longleftrightarrow> m k = Some (v, False)"
  by (auto simp: live_def split: option.splits bool.splits)

lemma Array_Del_wf:
  assumes "arr_wf arr" and "\<nexists>v. arr_map arr k = Some (v, True)"
  shows "arr_wf (fst (Array_Del arr k))"
    and "arr_map (fst (Array_Del arr k)) = (arr_map arr)(k \<mapsto> ([], True))"
    and "snd (Array_Del arr k) \<longleftrightarrow> live (arr_map arr) k \<noteq> None"
proof -
  have "k \<in> set (a_keys arr) \<longleftrightarrow> live (arr_map arr) k \<noteq> None"
    using assms arr_map_None[of arr k] by (auto simp: live_def split: option.splits bool.splits)
  then show "arr_wf (fst (Array_Del arr k))"
    "arr_map (fst (Array_Del arr k)) = (arr_map arr)(k \<mapsto> ([], True))"
    "snd (Array_Del arr k) \<longleftrightarrow> live (arr_map arr) k \<noteq> None"
    using assms(1) by (auto simp: Array_Del_eq arr_replace_wf arr_insert_wf)
qed

lemma Array_Push_wf:
  assumes "arr_wf arr" and "a_keys arr = [] \<or> last (a_keys arr) < k"
  shows "arr_wf (Array_Push arr k v d)" and "arr_entries (Array_Push arr k v d) = arr_entries arr @ [(k, v, d)]"
proof -
  have "x < k" if "x \<in> set (a_keys arr)" for x
    using that assms by (cases "a_keys arr" rule: rev_cases) (auto simp: arr_wf_def sorted_wrt_append)
  then show "arr_wf (Array_Push arr k v d)"
    using assms by (auto simp: arr_wf_def arr_shape_def Array_Push_def sorted_wrt_append)
  show "arr_entries (Array_Push arr k v d) = arr_entries arr @ [(k, v, d)]"
    using assms by (simp add: arr_entries_def Array_Push_def arr_wf_def arr_shape_def)
qed

section \<open>The iterator keeps the contract\<close>

definition array_cursor :: "SortedArrayIter \<Rightarrow> kvd list \<Rightarrow> int \<Rightarrow> bool" where
  "array_cursor it es p \<longleftrightarrow> arr_wf (ai_arr it) \<and> es = arr_entries (ai_arr it) \<and> p = ai_pos it \<and>
     - 1 \<le> p \<and> p \<le> int (length es)"

interpretation arr_iter: kv_iter array_ops array_cursor
  by unfold_locales
    (auto simp: array_cursor_def array_ops_def ArrayIter_Valid_def ArrayIter_Key_def ArrayIter_Val_def
      ArrayIter_Deleted_def ArrayIter_Next_def ArrayIter_Prev_def)

lemma Array_Iter_cursor: "arr_wf arr \<Longrightarrow> array_cursor (Array_Iter arr) (arr_entries arr) 0"
  by (simp add: array_cursor_def Array_Iter_def)

lemma Array_Seek_cursor:
  "arr_wf arr \<Longrightarrow> array_cursor (Array_Seek arr k) (arr_entries arr) (int (lower_bound (a_keys arr) k))"
  by (simp add: array_cursor_def Array_Seek_def BinarySearchFunc_eq)

lemma Array_SeekToLast_cursor:
  "arr_wf arr \<Longrightarrow> array_cursor (Array_SeekToLast arr) (arr_entries arr) (int (length (a_keys arr)) - 1)"
  by (simp add: array_cursor_def Array_SeekToLast_def)

definition array_kv_ops :: "(SortedArray, SortedArrayIter) kv_ops" where
  "array_kv_ops = \<lparr>k_EstimatedSize = Array_EstimatedSize, k_Iter = (\<lambda>arr. Inr (Array_Iter arr)),
     k_Seek = (\<lambda>arr k. Inr (Array_Seek arr k)), k_SeekToLast = (\<lambda>arr. Inr (Array_SeekToLast arr)),
     k_getExact = Some (\<lambda>arr k. Inr (Array_getExact arr k))\<rparr>"

definition array_src :: "SortedArray \<Rightarrow> kvd list \<Rightarrow> bool" where
  "array_src arr es \<longleftrightarrow> arr_wf arr \<and> es = arr_entries arr"

interpretation arr_source: kv_source array_ops array_cursor array_kv_ops array_src
  by unfold_locales
    (auto simp: array_src_def array_kv_ops_def Array_EstimatedSize_def Array_Iter_cursor Array_getExact_map
      Array_Seek_cursor Array_SeekToLast_cursor arr_map_def)

section \<open>Properties\<close>

lemma count_list_distinct: "distinct xs \<Longrightarrow> count_list xs x = (if x \<in> set xs then 1 else 0)"
  by (induction xs) auto

lemma Array_Del_twice:
  assumes "arr_wf arr" and "arr_map arr k = Some (w, True)"
  shows "count_list (a_keys (fst (Array_Del arr k))) k = 2" and "\<not> arr_wf (fst (Array_Del arr k))"
proof -
  have mem: "k \<in> set (a_keys arr)" and d: "live (arr_map arr) k = None"
    using assms arr_map_None[of arr k] by (auto simp: live_def)
  have c: "count_list (a_keys arr) k = 1"
    using mem count_list_distinct[OF ssorted_distinct[OF arr_wfD(2)[OF assms(1)]], of k] by simp
  have "count_list (slices_Insert (a_keys arr) i k) k = 2" for i
    using c count_list_append[of "take i (a_keys arr)" "drop i (a_keys arr)" k]
    by (simp add: slices_Insert_def)
  then show two: "count_list (a_keys (fst (Array_Del arr k))) k = 2"
    using assms(1) d by (simp add: Array_Del_eq arr_insert_def Let_def)
  then have "\<not> distinct (a_keys (fst (Array_Del arr k)))"
    using count_list_distinct[of "a_keys (fst (Array_Del arr k))" k] by (auto split: if_splits)
  then show "\<not> arr_wf (fst (Array_Del arr k))" using ssorted_distinct[OF arr_wfD(2)] by blast
qed

lemma Array_Del_map:
  assumes "arr_wf arr"
  shows "arr_map (fst (Array_Del arr k)) = (arr_map arr)(k \<mapsto> ([], True))"
    and "snd (Array_Del arr k) \<longleftrightarrow> live (arr_map arr) k \<noteq> None"
    and "arr_wf (fst (Array_Del arr k)) \<longleftrightarrow> (\<nexists>w. arr_map arr k = Some (w, True))"
proof -
  show "snd (Array_Del arr k) \<longleftrightarrow> live (arr_map arr) k \<noteq> None" using assms by (simp add: Array_Del_eq)
  show "arr_wf (fst (Array_Del arr k)) \<longleftrightarrow> (\<nexists>w. arr_map arr k = Some (w, True))"
    using Array_Del_wf(1)[OF assms] Array_Del_twice(2)[OF assms] by blast
  show "arr_map (fst (Array_Del arr k)) = (arr_map arr)(k \<mapsto> ([], True))"
  proof (cases "\<exists>w. arr_map arr k = Some (w, True)")
    case False
    then show ?thesis using Array_Del_wf(2)[OF assms] by blast
  next
    case True
    then have "fst (Array_Del arr k) = arr_insert arr k [] True" using assms by (auto simp: Array_Del_eq live_def)
    then show ?thesis using arr_insert_map[OF assms] by simp
  qed
qed

text \<open>
  C15: a sorted array is a finite map from keys to values and tombstones.
  \<open>Set\<close> maps the key to the live value, keeps the keys strictly sorted and reports a change
  exactly when the live value was different.  \<open>Del\<close> maps the key to a tombstone and reports
  whether there was a live value, on every branch; it keeps the keys strictly sorted exactly
  when the key had no tombstone before.  \<open>getExact\<close> reads the map.
\<close>

theorem Array_refines_map:
  assumes "arr_wf arr"
  shows "arr_wf (fst (Array_Set arr k v)) \<and>
      arr_map (fst (Array_Set arr k v)) = (arr_map arr)(k \<mapsto> (v, False)) \<and>
      (snd (Array_Set arr k v) \<longleftrightarrow> live (arr_map arr) k \<noteq> Some v) \<and>
      arr_map (fst (Array_Del arr k)) = (arr_map arr)(k \<mapsto> ([], True)) \<and>
      (snd (Array_Del arr k) \<longleftrightarrow> live (arr_map arr) k \<noteq> None) \<and>
      (arr_wf (fst (Array_Del arr k)) \<longleftrightarrow> (\<nexists>w. arr_map arr k = Some (w, True))) \<and>
      Array_getExact arr k = arr_map arr k"
  using assms by (simp add: Array_Set_wf Array_Del_map Array_getExact_map)

definition demo_array :: SortedArray where
  "demo_array = \<lparr>a_keys = [[1], [3]], a_vals = [[10], []], a_deleted = [False, True]\<rparr>"

lemma demo_array_wf: "arr_wf demo_array" by (simp add: demo_array_def arr_wf_def arr_shape_def)

theorem Array_refines_map_witness:
  "arr_map (fst (Array_Set demo_array [2] [20])) [2] = Some ([20], False) \<and>
   arr_map (fst (Array_Del demo_array [1])) [1] = Some ([], True) \<and> Array_getExact demo_array [3] = Some ([], True)"
  using Array_refines_map[OF demo_array_wf, of "[2]" "[20]"] Array_refines_map[OF demo_array_wf, of "[1]" "[]"]
    Array_refines_map[OF demo_array_wf, of "[3]" "[]"]
  by (simp add: demo_array_def arr_map_def arr_entries_def)

text \<open>
  C16: \<open>Del\<close> of a key that already has a tombstone inserts a second
  tombstone: the key is in the array twice and its keys are no longer strictly sorted.
\<close>

theorem Array_Del_tombstone:
  assumes "arr_wf arr" and "arr_map arr k = Some (w, True)"
  shows "\<not> arr_wf (fst (Array_Del arr k)) \<and> count_list (a_keys (fst (Array_Del arr k))) k = 2"
  using Array_Del_twice[OF assms] by simp

theorem Array_Del_tombstone_witness:
  "a_keys (fst (Array_Del demo_array [3])) = [[1], [3], [3]] \<and> \<not> arr_wf (fst (Array_Del demo_array [3]))"
  using Array_Del_tombstone[OF demo_array_wf, of "[3]" "[]"]
  by (simp add: Array_Del_eq[OF demo_array_wf]) (simp add: demo_array_def arr_map_def arr_entries_def live_def
      arr_insert_def Let_def lower_bound_def slices_Insert_def)

end
