(* ===== verification/Merge.thy ===== *)
theory Merge
  imports Cursor
begin

text \<open>
  \<open>src/db/merge.go\<close>: the merged view of a stack of sorted levels, newest first.  The merged
  iterator keeps one cursor per level and moves those that are behind.  It is shown to be an
  iterator over the entries of the merged map, in both directions and across changes of
  direction, whatever the levels are, as long as each of them is an iterator.
\<close>

section \<open>The merged iterator\<close>

record 'i MergedSortedKVIter =
  mi_levels :: "'i list"
  mi_which :: int

fun levelsLowest_loop :: "'i iter_ops \<Rightarrow> int \<Rightarrow> int \<Rightarrow> bytes \<Rightarrow> 'i list \<Rightarrow> int res" where
  "levelsLowest_loop ops i win winKey [] = Inr win"
| "levelsLowest_loop ops i win winKey (sub # levels) =
     (if i_Valid ops sub then
        rbind (i_Key ops sub) (\<lambda>k.
          if win < 0 \<or> bytes_Compare winKey k > 0 then levelsLowest_loop ops (i + 1) i k levels
          else levelsLowest_loop ops (i + 1) win winKey levels)
      else levelsLowest_loop ops (i + 1) win winKey levels)"

definition levelsLowest :: "'i iter_ops \<Rightarrow> 'i list \<Rightarrow> int res" where
  "levelsLowest ops levels = levelsLowest_loop ops 0 (- 1) [] levels"

fun levelsHighest_loop :: "'i iter_ops \<Rightarrow> int \<Rightarrow> int \<Rightarrow> bytes \<Rightarrow> 'i list \<Rightarrow> int res" where
  "levelsHighest_loop ops i win winKey [] = Inr win"
| "levelsHighest_loop ops i win winKey (sub # levels) =
     (if i_Valid ops sub then
        rbind (i_Key ops sub) (\<lambda>k.
          if win < 0 \<or> bytes_Compare winKey k < 0 then levelsHighest_loop ops (i + 1) i k levels
          else levelsHighest_loop ops (i + 1) win winKey levels)
      else levelsHighest_loop ops (i + 1) win winKey levels)"

definition levelsHighest :: "'i iter_ops \<Rightarrow> 'i list \<Rightarrow> int res" where
  "levelsHighest ops levels = levelsHighest_loop ops 0 (- 1) [] levels"

definition Merged_Valid :: "'i MergedSortedKVIter \<Rightarrow> bool" where
  "Merged_Valid it \<longleftrightarrow> mi_which it \<ge> 0"

text \<open>An index out of range panics, as the slice access of the source does.\<close>

definition mi_sub :: "'i MergedSortedKVIter \<Rightarrow> 'i res" where
  "mi_sub it = (if 0 \<le> mi_which it \<and> mi_which it < int (length (mi_levels it))
     then Inr (mi_levels it ! nat (mi_which it)) else Inl (Panic ''index out of range''))"

definition Merged_Key :: "'i iter_ops \<Rightarrow> 'i MergedSortedKVIter \<Rightarrow> bytes res" where
  "Merged_Key ops it = rbind (mi_sub it) (i_Key ops)"

definition Merged_Val :: "'i iter_ops \<Rightarrow> 'i MergedSortedKVIter \<Rightarrow> bytes res" where
  "Merged_Val ops it = rbind (mi_sub it) (i_Val ops)"

definition Merged_Deleted :: "'i iter_ops \<Rightarrow> 'i MergedSortedKVIter \<Rightarrow> bool res" where
  "Merged_Deleted ops it = rbind (mi_sub it) (i_Deleted ops)"

text \<open>The key the iterator stands on, \<open>nil\<close> when it is not valid.\<close>

definition Merged_cur :: "'i iter_ops \<Rightarrow> 'i MergedSortedKVIter \<Rightarrow> bytes res" where
  "Merged_cur ops it = (if Merged_Valid it then Merged_Key ops it else Inr [])"

fun Merged_next_levels :: "'i iter_ops \<Rightarrow> bytes \<Rightarrow> 'i list \<Rightarrow> 'i list res" where
  "Merged_next_levels ops cur [] = Inr []"
| "Merged_next_levels ops cur (sub # levels) =
     rbind (if \<not> i_Valid ops sub then i_Next ops sub
            else rbind (i_Key ops sub) (\<lambda>k.
              if bytes_Compare cur k \<ge> 0 then i_Next ops sub else Inr sub)) (\<lambda>sub'.
     rbind (Merged_next_levels ops cur levels) (\<lambda>levels'. Inr (sub' # levels')))"

definition Merged_Next :: "'i iter_ops \<Rightarrow> 'i MergedSortedKVIter \<Rightarrow> 'i MergedSortedKVIter res" where
  "Merged_Next ops it =
     rbind (Merged_cur ops it) (\<lambda>cur.
     rbind (Merged_next_levels ops cur (mi_levels it)) (\<lambda>levels.
     rbind (levelsLowest ops levels) (\<lambda>which.
     Inr \<lparr>mi_levels = levels, mi_which = which\<rparr>)))"

fun Merged_prev_levels :: "'i iter_ops \<Rightarrow> bytes \<Rightarrow> 'i list \<Rightarrow> 'i list res" where
  "Merged_prev_levels ops cur [] = Inr []"
| "Merged_prev_levels ops cur (sub # levels) =
     rbind (if \<not> i_Valid ops sub then i_Prev ops sub
            else rbind (i_Key ops sub) (\<lambda>k.
              if bytes_Compare cur k \<le> 0 then i_Prev ops sub else Inr sub)) (\<lambda>sub'.
     rbind (Merged_prev_levels ops cur levels) (\<lambda>levels'. Inr (sub' # levels')))"

definition Merged_Prev :: "'i iter_ops \<Rightarrow> 'i MergedSortedKVIter \<Rightarrow> 'i MergedSortedKVIter res" where
  "Merged_Prev ops it =
     rbind (Merged_cur ops it) (\<lambda>cur.
     rbind (Merged_prev_levels ops cur (mi_levels it)) (\<lambda>levels.
     rbind (levelsHighest ops levels) (\<lambda>which.
     Inr \<lparr>mi_levels = levels, mi_which = which\<rparr>)))"

definition merged_ops :: "'i iter_ops \<Rightarrow> 'i MergedSortedKVIter iter_ops" where
  "merged_ops ops = \<lparr>i_Valid = Merged_Valid, i_Key = Merged_Key ops, i_Val = Merged_Val ops,
     i_Deleted = Merged_Deleted ops, i_Next = Merged_Next ops, i_Prev = Merged_Prev ops\<rparr>"

section \<open>The merged levels\<close>

definition getExactFromSortedKV ::
  "'i iter_ops \<Rightarrow> ('l, 'i) kv_ops \<Rightarrow> 'l \<Rightarrow> bytes \<Rightarrow> (bytes \<times> bool) option res" where
  "getExactFromSortedKV ops kops kv key =
     (case k_getExact kops of
        Some getter \<Rightarrow> getter kv key
      | None \<Rightarrow> rbind (k_Seek kops kv key) (\<lambda>it.
          if \<not> i_Valid ops it then Inr None
          else rbind (i_Key ops it) (\<lambda>k.
            if k \<noteq> key then Inr None
            else rbind (i_Val ops it) (\<lambda>v. rbind (i_Deleted ops it) (\<lambda>d. Inr (Some (v, d)))))))"

fun Merged_EstimatedSize :: "('l, 'i) kv_ops \<Rightarrow> 'l list \<Rightarrow> nat" where
  "Merged_EstimatedSize kops [] = 0"
| "Merged_EstimatedSize kops (sub # m) = k_EstimatedSize kops sub + Merged_EstimatedSize kops m"

fun open_levels :: "('l \<Rightarrow> 'i res) \<Rightarrow> 'l list \<Rightarrow> 'i list res" where
  "open_levels open [] = Inr []"
| "open_levels open (sub # m) =
     rbind (open sub) (\<lambda>it. rbind (open_levels open m) (\<lambda>its. Inr (it # its)))"

definition Merged_Iter :: "'i iter_ops \<Rightarrow> ('l, 'i) kv_ops \<Rightarrow> 'l list \<Rightarrow> 'i MergedSortedKVIter res" where
  "Merged_Iter ops kops m =
     rbind (open_levels (k_Iter kops) m) (\<lambda>levels.
     rbind (levelsLowest ops levels) (\<lambda>which. Inr \<lparr>mi_levels = levels, mi_which = which\<rparr>))"

definition Merged_Seek :: "'i iter_ops \<Rightarrow> ('l, 'i) kv_ops \<Rightarrow> 'l list \<Rightarrow> bytes \<Rightarrow> 'i MergedSortedKVIter res" where
  "Merged_Seek ops kops m key =
     rbind (open_levels (\<lambda>sub. k_Seek kops sub key) m) (\<lambda>levels.
     rbind (levelsLowest ops levels) (\<lambda>which. Inr \<lparr>mi_levels = levels, mi_which = which\<rparr>))"

definition Merged_SeekToLast :: "'i iter_ops \<Rightarrow> ('l, 'i) kv_ops \<Rightarrow> 'l list \<Rightarrow> 'i MergedSortedKVIter res" where
  "Merged_SeekToLast ops kops m =
     rbind (open_levels (k_SeekToLast kops) m) (\<lambda>levels.
     rbind (levelsHighest ops levels) (\<lambda>which. Inr \<lparr>mi_levels = levels, mi_which = which\<rparr>))"

fun Merged_getExact :: "'i iter_ops \<Rightarrow> ('l, 'i) kv_ops \<Rightarrow> 'l list \<Rightarrow> bytes \<Rightarrow> (bytes \<times> bool) option res" where
  "Merged_getExact ops kops [] key = Inr None"
| "Merged_getExact ops kops (sub # m) key =
     (case getExactFromSortedKV ops kops sub key of
        Inl err \<Rightarrow> Inl err
      | Inr (Some x) \<Rightarrow> Inr (Some x)
      | Inr None \<Rightarrow> Merged_getExact ops kops m key)"

definition merged_kv_ops ::
  "'i iter_ops \<Rightarrow> ('l, 'i) kv_ops \<Rightarrow> ('l list, 'i MergedSortedKVIter) kv_ops" where
  "merged_kv_ops ops kops = \<lparr>k_EstimatedSize = Merged_EstimatedSize kops, k_Iter = Merged_Iter ops kops,
     k_Seek = Merged_Seek ops kops, k_SeekToLast = Merged_SeekToLast ops kops,
     k_getExact = Some (Merged_getExact ops kops)\<rparr>"

section \<open>The merged map\<close>

text \<open>Newer levels come first and hide what older ones hold, tombstones included.\<close>

fun levels_map :: "kvd list list \<Rightarrow> kvmap" where
  "levels_map [] = Map.empty"
| "levels_map (es # ess) = levels_map ess ++ map_of es"

definition merged_entries :: "kvd list list \<Rightarrow> kvd list" where
  "merged_entries ess = sorted_entries (levels_map ess)"

lemma dom_levels_map: "dom (levels_map ess) = (\<Union>es\<in>set ess. set (keys_of es))"
  by (induction ess) (auto simp: dom_map_of_conv_image_fst)

lemma finite_levels_map [simp]: "finite (dom (levels_map ess))"
  by (simp add: dom_levels_map)

lemma merged_entries_facts [simp]:
  "ssorted (keys_of (merged_entries ess))"
  "map_of (merged_entries ess) = levels_map ess"
  "set (keys_of (merged_entries ess)) = (\<Union>es\<in>set ess. set (keys_of es))"
proof -
  show "ssorted (keys_of (merged_entries ess))" "map_of (merged_entries ess) = levels_map ess"
    by (simp_all add: merged_entries_def)
  have "set (keys_of (merged_entries ess)) = dom (levels_map ess)"
    unfolding merged_entries_def keys_sorted_entries by simp
  then show "set (keys_of (merged_entries ess)) = (\<Union>es\<in>set ess. set (keys_of es))"
    by (simp only: dom_levels_map)
qed

text \<open>The first level that holds a key is the one that decides.\<close>

definition has_key :: "bytes \<Rightarrow> kvd list \<Rightarrow> bool" where
  "has_key c es \<longleftrightarrow> c \<in> set (keys_of es)"

lemma levels_map_first:
  "slices_IndexFunc (has_key c) ess = Some i \<Longrightarrow> levels_map ess c = map_of (ess ! i) c"
proof (induction ess arbitrary: i)
  case (Cons es ess)
  show ?case
  proof (cases "has_key c es")
    case True
    then obtain v where "map_of es c = Some v"
      by (metis has_key_def map_of_eq_None_iff image_set not_None_eq)
    then show ?thesis using Cons.prems True by (simp add: map_add_def)
  next
    case False
    then have "map_of es c = None" by (simp add: has_key_def map_of_eq_None_iff)
    then show ?thesis using Cons False by (auto simp: map_add_def)
  qed
qed simp

lemma has_key_first:
  assumes "c \<in> (\<Union>es\<in>set ess. set (keys_of es))"
  obtains i where "slices_IndexFunc (has_key c) ess = Some i" "i < length ess" "has_key c (ess ! i)"
  using assms slices_IndexFunc_None_iff[of "has_key c" ess] slices_IndexFunc_SomeD[of "has_key c" ess]
  by (cases "slices_IndexFunc (has_key c) ess") (auto simp: has_key_def)

section \<open>Where the levels stand\<close>

datatype place = Asc bytes | Desc bytes | AtEnd | AtStart

fun place_pos :: "place \<Rightarrow> bytes list \<Rightarrow> int" where
  "place_pos (Asc c) ks = int (lower_bound ks c)"
| "place_pos (Desc c) ks = int (upper_bound ks c) - 1"
| "place_pos AtEnd ks = int (length ks)"
| "place_pos AtStart ks = - 1"

fun place_key :: "place \<Rightarrow> bytes option" where
  "place_key (Asc c) = Some c"
| "place_key (Desc c) = Some c"
| "place_key AtEnd = None"
| "place_key AtStart = None"

definition place_ok :: "place \<Rightarrow> kvd list list \<Rightarrow> bool" where
  "place_ok pl ess \<longleftrightarrow> (case place_key pl of None \<Rightarrow> True
     | Some c \<Rightarrow> c \<in> (\<Union>es\<in>set ess. set (keys_of es)))"

definition place_which :: "place \<Rightarrow> kvd list list \<Rightarrow> int" where
  "place_which pl ess = (case place_key pl of None \<Rightarrow> - 1
     | Some c \<Rightarrow> (case slices_IndexFunc (has_key c) ess of None \<Rightarrow> - 1 | Some i \<Rightarrow> int i))"

definition merged_rep ::
  "('i \<Rightarrow> kvd list \<Rightarrow> int \<Rightarrow> bool) \<Rightarrow> 'i MergedSortedKVIter \<Rightarrow> kvd list list \<Rightarrow> place \<Rightarrow> bool" where
  "merged_rep rep it ess pl \<longleftrightarrow>
     list_all2 (\<lambda>l es. rep l es (place_pos pl (keys_of es))) (mi_levels it) ess \<and>
     place_ok pl ess \<and> mi_which it = place_which pl ess"

definition merged_cursor ::
  "('i \<Rightarrow> kvd list \<Rightarrow> int \<Rightarrow> bool) \<Rightarrow> 'i MergedSortedKVIter \<Rightarrow> kvd list \<Rightarrow> int \<Rightarrow> bool" where
  "merged_cursor rep it es p \<longleftrightarrow>
     (\<exists>ess pl. merged_rep rep it ess pl \<and> es = merged_entries ess \<and> p = place_pos pl (keys_of es))"

text \<open>The place after a step, among all the keys of all levels.\<close>

abbreviation all_keys :: "kvd list list \<Rightarrow> bytes set" where
  "all_keys ess \<equiv> (\<Union>es\<in>set ess. set (keys_of es))"

fun next_place :: "place \<Rightarrow> bytes set \<Rightarrow> place" where
  "next_place AtStart U = (if U = {} then AtEnd else Asc (Min U))"
| "next_place AtEnd U = AtEnd"
| "next_place (Asc c) U = (if \<exists>k\<in>U. c < k then Asc (Min {k \<in> U. c < k}) else AtEnd)"
| "next_place (Desc c) U = (if \<exists>k\<in>U. c < k then Asc (Min {k \<in> U. c < k}) else AtEnd)"

fun prev_place :: "place \<Rightarrow> bytes set \<Rightarrow> place" where
  "prev_place AtEnd U = (if U = {} then AtStart else Desc (Max U))"
| "prev_place AtStart U = AtStart"
| "prev_place (Asc c) U = (if \<exists>k\<in>U. k < c then Desc (Max {k \<in> U. k < c}) else AtStart)"
| "prev_place (Desc c) U = (if \<exists>k\<in>U. k < c then Desc (Max {k \<in> U. k < c}) else AtStart)"

fun next_pos :: "place \<Rightarrow> bytes list \<Rightarrow> int" where
  "next_pos AtStart ks = 0"
| "next_pos AtEnd ks = int (length ks)"
| "next_pos (Asc c) ks = int (upper_bound ks c)"
| "next_pos (Desc c) ks = int (upper_bound ks c)"

fun prev_pos :: "place \<Rightarrow> bytes list \<Rightarrow> int" where
  "prev_pos AtStart ks = - 1"
| "prev_pos AtEnd ks = int (length ks) - 1"
| "prev_pos (Asc c) ks = int (lower_bound ks c) - 1"
| "prev_pos (Desc c) ks = int (lower_bound ks c) - 1"

lemma upper_next:
  assumes "finite U" and "set ks \<subseteq> U"
  shows "\<exists>k\<in>U. c < k \<Longrightarrow> lower_bound ks (Min {k \<in> U. c < k}) = upper_bound ks c"
    and "\<not> (\<exists>k\<in>U. c < k) \<Longrightarrow> upper_bound ks c = length ks"
proof -
  assume ex: "\<exists>k\<in>U. c < k"
  then have "Min {k \<in> U. c < k} \<in> {k \<in> U. c < k}" using assms(1) by (intro Min_in) auto
  moreover have "Min {k \<in> U. c < k} \<le> x" if "x \<in> U" "c < x" for x using that assms(1) by simp
  ultimately have "x \<le> c \<longleftrightarrow> x < Min {k \<in> U. c < k}" if "x \<in> set ks" for x
    using that assms(2) by (metis (mono_tags, lifting) leD leI mem_Collect_eq order_le_less_trans subsetD)
  then show "lower_bound ks (Min {k \<in> U. c < k}) = upper_bound ks c"
    using upper_eq_lower[of ks c "Min {k \<in> U. c < k}"] by simp
next
  assume "\<not> (\<exists>k\<in>U. c < k)"
  then show "upper_bound ks c = length ks" using assms(2) by (intro upper_eq_length) force
qed

lemma lower_prev:
  assumes "finite U" and "set ks \<subseteq> U"
  shows "\<exists>k\<in>U. k < c \<Longrightarrow> upper_bound ks (Max {k \<in> U. k < c}) = lower_bound ks c"
    and "\<not> (\<exists>k\<in>U. k < c) \<Longrightarrow> lower_bound ks c = 0"
proof -
  assume ex: "\<exists>k\<in>U. k < c"
  then have "Max {k \<in> U. k < c} \<in> {k \<in> U. k < c}" using assms(1) by (intro Max_in) auto
  moreover have "x \<le> Max {k \<in> U. k < c}" if "x \<in> U" "x < c" for x using that assms(1) by simp
  ultimately have "x \<le> Max {k \<in> U. k < c} \<longleftrightarrow> x < c" if "x \<in> set ks" for x
    using that assms(2) by (metis (mono_tags, lifting) mem_Collect_eq order_le_less_trans subsetD)
  then show "upper_bound ks (Max {k \<in> U. k < c}) = lower_bound ks c" by (rule upper_eq_lower)
next
  assume "\<not> (\<exists>k\<in>U. k < c)"
  then show "lower_bound ks c = 0" using assms(2) by (intro lower_eq_0) force
qed

lemma next_place_pos:
  assumes "finite U" and "set ks \<subseteq> U"
  shows "place_pos (next_place pl U) ks = next_pos pl ks"
proof (cases pl)
  case AtStart
  have "lower_bound ks (Min U) = 0" if "U \<noteq> {}" using assms by (intro lower_eq_0) auto
  then show ?thesis using AtStart assms(2) by (cases "U = {}") auto
qed (use upper_next[OF assms] in auto)

lemma prev_place_pos:
  assumes "finite U" and "set ks \<subseteq> U"
  shows "place_pos (prev_place pl U) ks = prev_pos pl ks"
proof (cases pl)
  case AtEnd
  have "upper_bound ks (Max U) = length ks" if "U \<noteq> {}" using assms by (intro upper_eq_length) auto
  then show ?thesis using AtEnd assms(2) by (cases "U = {}") auto
qed (use lower_prev[OF assms] in auto)

lemma next_place_key: "finite U \<Longrightarrow> place_key (next_place pl U) = Some c \<Longrightarrow> c \<in> U"
  using Min_in[of "{k \<in> U. d < k}" for d] Min_in[of U]
  by (cases pl; cases "U = {}") (auto split: if_splits)

lemma prev_place_key: "finite U \<Longrightarrow> place_key (prev_place pl U) = Some c \<Longrightarrow> c \<in> U"
  using Max_in[of "{k \<in> U. k < d}" for d] Max_in[of U]
  by (cases pl; cases "U = {}") (auto split: if_splits)

definition seek_place :: "bytes \<Rightarrow> bytes set \<Rightarrow> place" where
  "seek_place k U = (if \<exists>x\<in>U. k \<le> x then Asc (Min {x \<in> U. k \<le> x}) else AtEnd)"

lemma seek_place_pos:
  assumes "finite U" and "set ks \<subseteq> U"
  shows "place_pos (seek_place k U) ks = int (lower_bound ks k)"
proof (cases "\<exists>x\<in>U. k \<le> x")
  case True
  then have "Min {x \<in> U. k \<le> x} \<in> {x \<in> U. k \<le> x}" using assms(1) by (intro Min_in) auto
  moreover have "Min {x \<in> U. k \<le> x} \<le> x" if "x \<in> U" "k \<le> x" for x using that assms(1) by simp
  ultimately have "x < Min {x \<in> U. k \<le> x} \<longleftrightarrow> x < k" if "x \<in> set ks" for x
    using that assms(2) by (metis (mono_tags, lifting) leD leI mem_Collect_eq order_less_le_trans subsetD)
  then show ?thesis using True lower_cong[of ks "Min {x \<in> U. k \<le> x}" k] by (simp add: seek_place_def)
next
  case False
  then have "lower_bound ks k = length ks" using assms(2) by (intro lower_eq_length) force
  with False show ?thesis by (simp add: seek_place_def)
qed

lemma seek_place_key: "finite U \<Longrightarrow> place_key (seek_place k U) = Some c \<Longrightarrow> c \<in> U"
  using Min_in[of "{x \<in> U. k \<le> x}"] by (auto simp: seek_place_def split: if_splits)

lemma seek_place_shape: "\<exists>c. seek_place k U = Asc c \<or> seek_place k U = AtEnd"
  by (simp add: seek_place_def)

lemma next_place_shape: "\<exists>c. next_place pl U = Asc c \<or> next_place pl U = AtEnd"
  by (cases pl) auto

lemma prev_place_shape: "\<exists>c. prev_place pl U = Desc c \<or> prev_place pl U = AtStart"
  by (cases pl) auto

lemma place_okI: "(\<And>c. place_key pl = Some c \<Longrightarrow> c \<in> all_keys ess) \<Longrightarrow> place_ok pl ess"
  unfolding place_ok_def by (simp only: split: option.split) blast

lemma place_okD: "place_ok pl ess \<Longrightarrow> place_key pl = Some c \<Longrightarrow> c \<in> all_keys ess"
  unfolding place_ok_def by (simp only: option.case)

lemma merged_cursorI:
  "merged_rep rep it ess pl \<Longrightarrow> place_pos pl (keys_of (merged_entries ess)) = p \<Longrightarrow>
    merged_cursor rep it (merged_entries ess) p"
  unfolding merged_cursor_def by blast

lemma nth_map_of:
  assumes "ssorted (keys_of es)" and "i < length es"
  shows "map_of es (fst (es ! i)) = Some (snd (es ! i))"
  using assms by (metis map_of_is_SomeI nth_mem prod.collapse ssorted_distinct)

lemma key_pos:
  assumes "ssorted ks" and "c \<in> set ks" and "place_key pl = Some c"
  shows "place_pos pl ks = int (lower_bound ks c)" and "lower_bound ks c < length ks"
    and "ks ! lower_bound ks c = c"
  using assms lower_bound_mem_iff[of ks c] upper_Suc_lower[of ks c]
  by (cases pl; auto simp: sorted_simps)+

context kv_iter begin

text \<open>One level stepping over the current key, upwards and downwards.\<close>

definition step_next :: "bytes \<Rightarrow> 'i \<Rightarrow> 'i res" where
  "step_next cur sub = (if \<not> i_Valid ops sub then i_Next ops sub
     else rbind (i_Key ops sub) (\<lambda>k. if bytes_Compare cur k \<ge> 0 then i_Next ops sub else Inr sub))"

definition step_prev :: "bytes \<Rightarrow> 'i \<Rightarrow> 'i res" where
  "step_prev cur sub = (if \<not> i_Valid ops sub then i_Prev ops sub
     else rbind (i_Key ops sub) (\<lambda>k. if bytes_Compare cur k \<le> 0 then i_Prev ops sub else Inr sub))"

lemma next_levels_all2:
  assumes "list_all2 P ls ess" and "\<And>l es. P l es \<Longrightarrow> \<exists>l'. step_next cur l = Inr l' \<and> Q l' es"
  shows "\<exists>ls'. Merged_next_levels ops cur ls = Inr ls' \<and> list_all2 Q ls' ess"
  using assms(1)
proof (induction rule: list_all2_induct)
  case (Cons l ls es ess)
  then show ?case using assms(2)[of l es] by (auto simp: step_next_def)
qed simp

lemma prev_levels_all2:
  assumes "list_all2 P ls ess" and "\<And>l es. P l es \<Longrightarrow> \<exists>l'. step_prev cur l = Inr l' \<and> Q l' es"
  shows "\<exists>ls'. Merged_prev_levels ops cur ls = Inr ls' \<and> list_all2 Q ls' ess"
  using assms(1)
proof (induction rule: list_all2_induct)
  case (Cons l ls es ess)
  then show ?case using assms(2)[of l es] by (auto simp: step_prev_def)
qed simp

lemma step_next_key:
  assumes r: "rep l es (place_pos pl (keys_of es))" and pl: "place_key pl = Some c"
  shows "\<exists>l'. step_next c l = Inr l' \<and> rep l' es (int (upper_bound (keys_of es) c))"
proof -
  let ?ks = "keys_of es" and ?q = "place_pos pl (keys_of es)"
  have ss: "ssorted ?ks" and s: "sorted ?ks" using rep_sorted[OF r] by (auto simp: sorted_simps)
  have ub: "upper_bound ?ks c \<le> length es" and lb: "lower_bound ?ks c \<le> length es"
    using upper_bound_le[of ?ks c] lower_bound_le[of ?ks c] by simp_all
  note ul = upper_Suc_lower[OF ss, of c]
  obtain l' where l': "i_Next ops l = Inr l'" "rep l' es (min (int (length es)) (?q + 1))"
    using Next_step[OF r] by blast
  show ?thesis
  proof (cases "0 \<le> ?q \<and> ?q < int (length es)")
    case False
    then have "min (int (length es)) (?q + 1) = int (upper_bound ?ks c)"
      using pl ub lb ul by (cases pl) (auto split: if_splits)
    then show ?thesis using l' False Valid_iff[OF r] by (auto simp: step_next_def)
  next
    case True
    then have v: "i_Valid ops l" "i_Key ops l = Inr (?ks ! nat ?q)"
      using Valid_iff[OF r] Key_nth[OF r] by auto
    have le: "?ks ! nat ?q \<le> c \<longleftrightarrow> nat ?q < upper_bound ?ks c"
      using upper_less_iff[OF s, of "nat ?q" c] True by auto
    show ?thesis
    proof (cases "?ks ! nat ?q \<le> c")
      case True
      have "nat ?q < lower_bound ?ks c \<longleftrightarrow> ?ks ! nat ?q < c"
        using lower_less_iff[OF s, of "nat ?q" c] \<open>0 \<le> ?q \<and> ?q < int (length es)\<close> by auto
      then have "min (int (length es)) (?q + 1) = int (upper_bound ?ks c)"
        using pl ub lb ul le True by (cases pl) (auto split: if_splits)
      then show ?thesis using l' v True by (auto simp: step_next_def)
    next
      case False
      then have "?q = int (upper_bound ?ks c)"
        using pl ub lb ul le \<open>0 \<le> ?q \<and> ?q < int (length es)\<close> by (cases pl) (auto split: if_splits)
      then show ?thesis using r v False by (auto simp: step_next_def)
    qed
  qed
qed

lemma step_prev_key:
  assumes r: "rep l es (place_pos pl (keys_of es))" and pl: "place_key pl = Some c"
  shows "\<exists>l'. step_prev c l = Inr l' \<and> rep l' es (int (lower_bound (keys_of es) c) - 1)"
proof -
  let ?ks = "keys_of es" and ?q = "place_pos pl (keys_of es)"
  have ss: "ssorted ?ks" and s: "sorted ?ks" using rep_sorted[OF r] by (auto simp: sorted_simps)
  have ub: "upper_bound ?ks c \<le> length es" and lb: "lower_bound ?ks c \<le> length es"
    using upper_bound_le[of ?ks c] lower_bound_le[of ?ks c] by simp_all
  note ul = upper_Suc_lower[OF ss, of c]
  obtain l' where l': "i_Prev ops l = Inr l'" "rep l' es (max (- 1) (?q - 1))"
    using Prev_step[OF r] by blast
  show ?thesis
  proof (cases "0 \<le> ?q \<and> ?q < int (length es)")
    case False
    then have "max (- 1) (?q - 1) = int (lower_bound ?ks c) - 1"
      using pl ub lb ul by (cases pl) (auto split: if_splits)
    then show ?thesis using l' False Valid_iff[OF r] by (auto simp: step_prev_def)
  next
    case True
    then have v: "i_Valid ops l" "i_Key ops l = Inr (?ks ! nat ?q)"
      using Valid_iff[OF r] Key_nth[OF r] by auto
    have lt: "?ks ! nat ?q < c \<longleftrightarrow> nat ?q < lower_bound ?ks c"
      using lower_less_iff[OF s, of "nat ?q" c] True by auto
    show ?thesis
    proof (cases "?ks ! nat ?q < c")
      case False
      then have "max (- 1) (?q - 1) = int (lower_bound ?ks c) - 1"
        using pl ub lb ul lt True by (cases pl) (auto split: if_splits)
      then show ?thesis using l' v False by (auto simp: step_prev_def)
    next
      case True
      have "nat ?q < upper_bound ?ks c \<longleftrightarrow> ?ks ! nat ?q \<le> c"
        using upper_less_iff[OF s, of "nat ?q" c] \<open>0 \<le> ?q \<and> ?q < int (length es)\<close> by auto
      then have "?q = int (lower_bound ?ks c) - 1"
        using pl ub lb ul lt True by (cases pl) (auto split: if_splits)
      then show ?thesis using r v True by (auto simp: step_prev_def)
    qed
  qed
qed

text \<open>Which level wins.\<close>

lemma levelsLowest_loop_found:
  assumes "list_all2 (\<lambda>l es. rep l es (int (lower_bound (keys_of es) c))) ls ess" and "0 \<le> win"
  shows "levelsLowest_loop ops i win c ls = Inr win"
  using assms(1)
proof (induction arbitrary: i rule: list_all2_induct)
  case (Cons l ls es ess)
  let ?q = "lower_bound (keys_of es) c"
  have s: "sorted (keys_of es)" using rep_sorted[OF Cons(1)] by (simp add: sorted_simps)
  have "?q < length es \<Longrightarrow> c \<le> fst (es ! ?q)" using lower_bound_nth_ge[OF s, of c ?q] by simp
  then show ?case using Cons(3) Valid_iff[OF Cons(1)] Key_nth[OF Cons(1)] assms(2)
    by (auto simp: not_less)
qed simp

lemma levelsLowest_loop_first:
  assumes "list_all2 (\<lambda>l es. rep l es (int (lower_bound (keys_of es) c))) ls ess"
    and "slices_IndexFunc (has_key c) ess = Some j" and "win < 0 \<or> c < winKey" and "0 \<le> i"
  shows "levelsLowest_loop ops i win winKey ls = Inr (i + int j)"
  using assms
proof (induction arbitrary: i j win winKey rule: list_all2_induct)
  case (Cons l ls es ess)
  let ?q = "lower_bound (keys_of es) c"
  have s: "sorted (keys_of es)" using rep_sorted[OF Cons(1)] by (simp add: sorted_simps)
  have ge: "?q < length es \<Longrightarrow> c \<le> fst (es ! ?q)" using lower_bound_nth_ge[OF s, of c ?q] by simp
  have mem: "has_key c es \<longleftrightarrow> ?q < length es \<and> fst (es ! ?q) = c"
    using lower_bound_mem_iff[OF s, of c] by (auto simp: has_key_def)
  show ?case
  proof (cases "has_key c es")
    case True
    then show ?thesis using Cons.prems mem Valid_iff[OF Cons(1)] Key_nth[OF Cons(1)]
        levelsLowest_loop_found[OF Cons(2)] by auto
  next
    case False
    then obtain j' where j': "slices_IndexFunc (has_key c) ess = Some j'" "j = Suc j'"
      using Cons.prems(1) by auto
    have lt: "?q < length es \<Longrightarrow> c < fst (es ! ?q)" using ge mem False by force
    show ?thesis
      using Cons.IH[OF j'(1), of win winKey "i + 1"] Cons.IH[OF j'(1), of i "fst (es ! ?q)" "i + 1"]
        Cons.prems(2,3) j'(2) lt Valid_iff[OF Cons(1)] Key_nth[OF Cons(1)]
      by (auto simp: algebra_simps)
  qed
qed simp

lemma levelsHighest_loop_found:
  assumes "list_all2 (\<lambda>l es. rep l es (int (upper_bound (keys_of es) c) - 1)) ls ess" and "0 \<le> win"
  shows "levelsHighest_loop ops i win c ls = Inr win"
  using assms(1)
proof (induction arbitrary: i rule: list_all2_induct)
  case (Cons l ls es ess)
  let ?q = "upper_bound (keys_of es) c"
  have s: "sorted (keys_of es)" using rep_sorted[OF Cons(1)] by (simp add: sorted_simps)
  have "0 < ?q \<Longrightarrow> fst (es ! (?q - 1)) \<le> c"
    using upper_less_iff[OF s, of "?q - 1" c] upper_bound_le[of "keys_of es" c] by auto
  then show ?case using Cons(3) Valid_iff[OF Cons(1)] Key_nth[OF Cons(1)] assms(2)
      upper_bound_le[of "keys_of es" c]
    by (auto simp: not_less nat_diff_distrib)
qed simp

lemma upper_mem:
  assumes "ssorted (keys_of es)"
  shows "has_key c es \<longleftrightarrow> 0 < upper_bound (keys_of es) c \<and> fst (es ! (upper_bound (keys_of es) c - 1)) = c"
proof
  let ?ub = "upper_bound (keys_of es) c"
  assume "has_key c es"
  then show "0 < ?ub \<and> fst (es ! (?ub - 1)) = c"
    using upper_Suc_lower[OF assms, of c] lower_bound_mem_iff[OF ssorted_imp_sorted[OF assms], of c]
    by (auto simp: has_key_def)
next
  let ?ub = "upper_bound (keys_of es) c"
  assume *: "0 < ?ub \<and> fst (es ! (?ub - 1)) = c"
  then have "?ub - 1 < length es" using upper_bound_le[of "keys_of es" c] by auto
  then show "has_key c es" using * by (metis has_key_def length_map nth_map nth_mem)
qed

lemma levelsHighest_loop_first:
  assumes "list_all2 (\<lambda>l es. rep l es (int (upper_bound (keys_of es) c) - 1)) ls ess"
    and "slices_IndexFunc (has_key c) ess = Some j" and "win < 0 \<or> winKey < c" and "0 \<le> i"
  shows "levelsHighest_loop ops i win winKey ls = Inr (i + int j)"
  using assms
proof (induction arbitrary: i j win winKey rule: list_all2_induct)
  case (Cons l ls es ess)
  let ?q = "upper_bound (keys_of es) c"
  have ss: "ssorted (keys_of es)" and s: "sorted (keys_of es)"
    using rep_sorted[OF Cons(1)] by (auto simp: sorted_simps)
  have ge: "0 < ?q \<Longrightarrow> fst (es ! (?q - 1)) \<le> c" and qn: "?q \<le> length es"
    using upper_less_iff[OF s, of "?q - 1" c] upper_bound_le[of "keys_of es" c] by auto
  note mem = upper_mem[OF ss, of c]
  have vk: "i_Valid ops l \<longleftrightarrow> 0 < ?q" "0 < ?q \<Longrightarrow> i_Key ops l = Inr (fst (es ! (?q - 1)))"
    using Valid_iff[OF Cons(1)] Key_nth[OF Cons(1)] qn by (auto simp: nat_diff_distrib)
  show ?case
  proof (cases "has_key c es")
    case True
    then show ?thesis using Cons.prems mem vk levelsHighest_loop_found[OF Cons(2)] by auto
  next
    case False
    then obtain j' where j': "slices_IndexFunc (has_key c) ess = Some j'" "j = Suc j'"
      using Cons.prems(1) by auto
    have lt: "0 < ?q \<Longrightarrow> fst (es ! (?q - 1)) < c" using ge mem False by force
    show ?thesis
      using Cons.IH[OF j'(1), of win winKey "i + 1"] Cons.IH[OF j'(1), of i "fst (es ! (?q - 1))" "i + 1"]
        Cons.prems(2,3) j'(2) lt vk
      by (auto simp: algebra_simps)
  qed
qed simp

lemma levels_none:
  assumes "list_all2 (\<lambda>l es. rep l es (q es)) ls ess" and "\<And>es. \<not> (0 \<le> q es \<and> q es < int (length es))"
  shows "levelsLowest_loop ops i win wk ls = Inr win" and "levelsHighest_loop ops i win wk ls = Inr win"
proof -
  have inv: "\<not> i_Valid ops l" if "rep l es (q es)" for l es
    using Valid_iff[OF that] assms(2)[of es] by blast
  show "levelsLowest_loop ops i win wk ls = Inr win"
    using assms(1) by (induction arbitrary: i rule: list_all2_induct) (auto simp: inv)
  show "levelsHighest_loop ops i win wk ls = Inr win"
    using assms(1) by (induction arbitrary: i rule: list_all2_induct) (auto simp: inv)
qed

lemma levelsLowest_place:
  assumes "list_all2 (\<lambda>l es. rep l es (place_pos pl (keys_of es))) ls ess" and "place_ok pl ess"
    and "pl = Asc c \<or> pl = AtEnd"
  shows "levelsLowest ops ls = Inr (place_which pl ess)"
proof (cases "pl = AtEnd")
  case True
  then show ?thesis using assms levels_none(1)[of "\<lambda>es. int (length es)" ls ess]
    by (simp add: levelsLowest_def place_which_def)
next
  case False
  then have pl: "pl = Asc c" using assms(3) by simp
  then have "c \<in> (\<Union>es\<in>set ess. set (keys_of es))"
    using assms(2) by (simp only: place_ok_def place_key.simps option.case)
  then obtain j where "slices_IndexFunc (has_key c) ess = Some j" by (rule has_key_first)
  then show ?thesis using levelsLowest_loop_first[of c ls ess j "-1" "[]" 0] assms(1)
    by (simp add: pl levelsLowest_def place_which_def)
qed

lemma levelsHighest_place:
  assumes "list_all2 (\<lambda>l es. rep l es (place_pos pl (keys_of es))) ls ess" and "place_ok pl ess"
    and "pl = Desc c \<or> pl = AtStart"
  shows "levelsHighest ops ls = Inr (place_which pl ess)"
proof (cases "pl = AtStart")
  case True
  then show ?thesis using assms levels_none(2)[of "\<lambda>es. - 1" ls ess]
    by (simp add: levelsHighest_def place_which_def)
next
  case False
  then have pl: "pl = Desc c" using assms(3) by simp
  then have "c \<in> (\<Union>es\<in>set ess. set (keys_of es))"
    using assms(2) by (simp only: place_ok_def place_key.simps option.case)
  then obtain j where "slices_IndexFunc (has_key c) ess = Some j" by (rule has_key_first)
  then show ?thesis using levelsHighest_loop_first[of c ls ess j "-1" "[]" 0] assms(1)
    by (simp add: pl levelsHighest_def place_which_def)
qed

lemma step_next_place:
  assumes r: "rep l es (place_pos pl (keys_of es))"
  shows "\<exists>l'. step_next (case place_key pl of None \<Rightarrow> [] | Some c \<Rightarrow> c) l = Inr l' \<and>
    rep l' es (next_pos pl (keys_of es))"
proof (cases "place_key pl")
  case (Some c)
  then show ?thesis using step_next_key[OF r Some] by (cases pl) auto
next
  case None
  then have "\<not> i_Valid ops l" using Valid_iff[OF r] by (cases pl) auto
  moreover have "min (int (length es)) (place_pos pl (keys_of es) + 1) = next_pos pl (keys_of es)"
    using None by (cases pl) auto
  ultimately show ?thesis using Next_step[OF r] by (auto simp: step_next_def)
qed

lemma step_prev_place:
  assumes r: "rep l es (place_pos pl (keys_of es))"
  shows "\<exists>l'. step_prev (case place_key pl of None \<Rightarrow> [] | Some c \<Rightarrow> c) l = Inr l' \<and>
    rep l' es (prev_pos pl (keys_of es))"
proof (cases "place_key pl")
  case (Some c)
  then show ?thesis using step_prev_key[OF r Some] by (cases pl) auto
next
  case None
  then have "\<not> i_Valid ops l" using Valid_iff[OF r] by (cases pl) auto
  moreover have "max (- 1) (place_pos pl (keys_of es) - 1) = prev_pos pl (keys_of es)"
    using None by (cases pl) auto
  ultimately show ?thesis using Prev_step[OF r] by (auto simp: step_prev_def)
qed

text \<open>What the merged iterator reads: the entry of the merged list.\<close>

lemma merged_at:
  assumes m: "merged_rep rep it ess pl" and pl: "place_key pl = Some c"
  obtains sub es where "mi_sub it = Inr sub" "Merged_Valid it"
    "place_pos pl (keys_of (merged_entries ess)) = int (lower_bound (keys_of (merged_entries ess)) c)"
    "lower_bound (keys_of (merged_entries ess)) c < length (merged_entries ess)"
    "i_Key ops sub = Inr (fst (merged_entries ess ! lower_bound (keys_of (merged_entries ess)) c))"
    "i_Val ops sub = Inr (fst (snd (merged_entries ess ! lower_bound (keys_of (merged_entries ess)) c)))"
    "i_Deleted ops sub = Inr (snd (snd (merged_entries ess ! lower_bound (keys_of (merged_entries ess)) c)))"
    "fst (merged_entries ess ! lower_bound (keys_of (merged_entries ess)) c) = c"
proof -
  let ?es = "merged_entries ess"
  let ?p = "lower_bound (keys_of ?es) c"
  from m have all: "list_all2 (\<lambda>l es. rep l es (place_pos pl (keys_of es))) (mi_levels it) ess"
    and ok: "place_ok pl ess" and wh: "mi_which it = place_which pl ess" by (auto simp: merged_rep_def)
  have c: "c \<in> all_keys ess" using place_okD[OF ok pl] .
  then obtain i where i: "slices_IndexFunc (has_key c) ess = Some i" "i < length ess" "has_key c (ess ! i)"
    by (rule has_key_first)
  have w: "mi_which it = int i" using wh i pl by (simp add: place_which_def)
  have len: "length (mi_levels it) = length ess" using all by (rule list_all2_lengthD)
  let ?sub = "mi_levels it ! i"
  have r: "rep ?sub (ess ! i) (place_pos pl (keys_of (ess ! i)))"
    using all i(2) by (simp add: list_all2_conv_all_nth)
  let ?q = "lower_bound (keys_of (ess ! i)) c"
  have ss: "ssorted (keys_of (ess ! i))" by (rule rep_sorted[OF r])
  have q: "place_pos pl (keys_of (ess ! i)) = int ?q" "?q < length (ess ! i)" "fst (ess ! i ! ?q) = c"
    using key_pos[OF ss _ pl] i(3) by (auto simp: has_key_def)
  have c': "c \<in> set (keys_of ?es)" using c by (simp only: merged_entries_facts)
  have p: "place_pos pl (keys_of ?es) = int ?p" "?p < length ?es" "fst (?es ! ?p) = c"
    using key_pos[OF merged_entries_facts(1) c' pl] by auto
  have "map_of ?es c = map_of (ess ! i) c"
    using levels_map_first[OF i(1)] by simp
  then have "snd (?es ! ?p) = snd (ess ! i ! ?q)"
    using nth_map_of[OF merged_entries_facts(1) p(2)] nth_map_of[OF ss q(2)] p(3) q(3) by simp
  moreover have "mi_sub it = Inr ?sub" using w i len by (simp add: mi_sub_def)
  moreover have "i_Key ops ?sub = Inr c" "i_Val ops ?sub = Inr (fst (snd (ess ! i ! ?q)))"
    "i_Deleted ops ?sub = Inr (snd (snd (ess ! i ! ?q)))"
    using Key_nth[OF r] Val_nth[OF r] Deleted_nth[OF r] q by simp_all
  ultimately show thesis using that[of ?sub] p w by (simp add: Merged_Valid_def)
qed

lemma merged_none:
  assumes "merged_rep rep it ess pl" and "place_key pl = None"
  shows "\<not> Merged_Valid it" and "\<not> (0 \<le> place_pos pl ks \<and> place_pos pl ks < int (length ks))"
  using assms by (auto simp: merged_rep_def Merged_Valid_def place_which_def) (cases pl; auto)+

lemma merged_cur:
  assumes "merged_rep rep it ess pl"
  shows "Merged_cur ops it = Inr (case place_key pl of None \<Rightarrow> [] | Some c \<Rightarrow> c)"
proof (cases "place_key pl")
  case None
  then show ?thesis using merged_none[OF assms] by (simp add: Merged_cur_def)
next
  case (Some c)
  then show ?thesis using assms by (auto elim!: merged_at simp: Merged_cur_def Merged_Key_def)
qed

lemma merged_Next_rep:
  assumes m: "merged_rep rep it ess pl"
  shows "\<exists>it'. Merged_Next ops it = Inr it' \<and> merged_rep rep it' ess (next_place pl (all_keys ess))"
proof -
  let ?pl = "next_place pl (all_keys ess)" and ?cur = "case place_key pl of None \<Rightarrow> [] | Some c \<Rightarrow> c"
  from m have "list_all2 (\<lambda>l es. rep l es (place_pos pl (keys_of es))) (mi_levels it) ess"
    by (simp add: merged_rep_def)
  then have "\<exists>ls. Merged_next_levels ops ?cur (mi_levels it) = Inr ls \<and>
      list_all2 (\<lambda>l es. rep l es (next_pos pl (keys_of es))) ls ess"
    by (rule next_levels_all2) (rule step_next_place)
  then obtain ls where
    ls: "Merged_next_levels ops ?cur (mi_levels it) = Inr ls"
    "list_all2 (\<lambda>l es. rep l es (next_pos pl (keys_of es))) ls ess" by blast
  have "place_pos ?pl (keys_of es) = next_pos pl (keys_of es)" if "es \<in> set ess" for es
    using that by (intro next_place_pos) auto
  then have all: "list_all2 (\<lambda>l es. rep l es (place_pos ?pl (keys_of es))) ls ess"
    using ls(2) by (auto simp: list_all2_conv_all_nth)
  have ok: "place_ok ?pl ess" by (intro place_okI next_place_key) auto
  obtain c where "?pl = Asc c \<or> ?pl = AtEnd" using next_place_shape by blast
  from levelsLowest_place[OF all ok this] show ?thesis
    using ls(1) all ok merged_cur[OF m] by (simp add: Merged_Next_def merged_rep_def)
qed

lemma merged_Prev_rep:
  assumes m: "merged_rep rep it ess pl"
  shows "\<exists>it'. Merged_Prev ops it = Inr it' \<and> merged_rep rep it' ess (prev_place pl (all_keys ess))"
proof -
  let ?pl = "prev_place pl (all_keys ess)" and ?cur = "case place_key pl of None \<Rightarrow> [] | Some c \<Rightarrow> c"
  from m have "list_all2 (\<lambda>l es. rep l es (place_pos pl (keys_of es))) (mi_levels it) ess"
    by (simp add: merged_rep_def)
  then have "\<exists>ls. Merged_prev_levels ops ?cur (mi_levels it) = Inr ls \<and>
      list_all2 (\<lambda>l es. rep l es (prev_pos pl (keys_of es))) ls ess"
    by (rule prev_levels_all2) (rule step_prev_place)
  then obtain ls where
    ls: "Merged_prev_levels ops ?cur (mi_levels it) = Inr ls"
    "list_all2 (\<lambda>l es. rep l es (prev_pos pl (keys_of es))) ls ess" by blast
  have "place_pos ?pl (keys_of es) = prev_pos pl (keys_of es)" if "es \<in> set ess" for es
    using that by (intro prev_place_pos) auto
  then have all: "list_all2 (\<lambda>l es. rep l es (place_pos ?pl (keys_of es))) ls ess"
    using ls(2) by (auto simp: list_all2_conv_all_nth)
  have ok: "place_ok ?pl ess" by (intro place_okI prev_place_key) auto
  obtain c where "?pl = Desc c \<or> ?pl = AtStart" using prev_place_shape by blast
  from levelsHighest_place[OF all ok this] show ?thesis
    using ls(1) all ok merged_cur[OF m] by (simp add: Merged_Prev_def merged_rep_def)
qed

text \<open>The merged iterator keeps the contract of its levels.\<close>

lemma merged_laws: "kv_iter (merged_ops ops) (merged_cursor rep)"
proof
  fix it es p assume "merged_cursor rep it es p"
  then obtain ess pl where m: "merged_rep rep it ess pl" and es: "es = merged_entries ess"
    and p: "p = place_pos pl (keys_of es)" by (auto simp: merged_cursor_def)
  have ss: "ssorted (keys_of es)" by (simp add: es)
  have ks: "set (keys_of es) = all_keys ess" unfolding es by (rule merged_entries_facts)
  show "ssorted (keys_of es)" by (rule ss)
  have pos: "(\<exists>c. place_key pl = Some c \<and> c \<in> set (keys_of es)) \<or> place_key pl = None"
    using m place_okD ks by (cases "place_key pl") (auto simp: merged_rep_def)
  have key: "0 \<le> p \<and> p < int (length es)" if "place_key pl = Some c" for c
    using merged_at[OF m that] unfolding p es by (metis of_nat_0_le_iff of_nat_less_iff)
  have nokey: "\<not> (0 \<le> p \<and> p < int (length es))" if "place_key pl = None"
    using merged_none(2)[OF m that, of "keys_of es"] p by simp
  show "- 1 \<le> p \<and> p \<le> int (length es)"
    using key p by (cases "place_key pl"; cases pl) auto
  show "i_Valid (merged_ops ops) it \<longleftrightarrow> 0 \<le> p \<and> p < int (length es)"
  proof (cases "place_key pl")
    case None
    then show ?thesis using merged_none[OF m None] nokey by (simp add: merged_ops_def)
  next
    case (Some c)
    then show ?thesis using key merged_at[OF m Some] by (auto simp: merged_ops_def)
  qed
  show "i_Key (merged_ops ops) it = Inr (fst (es ! nat p))"
    "i_Val (merged_ops ops) it = Inr (fst (snd (es ! nat p)))"
    "i_Deleted (merged_ops ops) it = Inr (snd (snd (es ! nat p)))" if "0 \<le> p" "p < int (length es)"
    using that nokey unfolding p es
    by (cases "place_key pl"; auto elim!: merged_at[OF m] simp: merged_ops_def Merged_Key_def Merged_Val_def Merged_Deleted_def)+
  have up: "next_pos pl (keys_of es) = min (int (length es)) (p + 1)"
  proof (cases "place_key pl")
    case (Some c)
    then have "c \<in> set (keys_of es)" using pos by simp
    then show ?thesis using Some p upper_bound_le[of "keys_of es" c] upper_Suc_lower[OF ss, of c]
      by (cases pl) (auto simp del: set_map)
  qed (use p in \<open>cases pl; simp\<close>)
  have down: "prev_pos pl (keys_of es) = max (- 1) (p - 1)"
  proof (cases "place_key pl")
    case (Some c)
    then have "c \<in> set (keys_of es)" using pos by simp
    then show ?thesis using Some p upper_Suc_lower[OF ss, of c] by (cases pl) (auto simp del: set_map)
  qed (use p in \<open>cases pl; simp\<close>)
  show "\<exists>it'. i_Next (merged_ops ops) it = Inr it' \<and> merged_cursor rep it' es (min (int (length es)) (p + 1))"
  proof -
    have "place_pos (next_place pl (all_keys ess)) (keys_of es) = next_pos pl (keys_of es)"
      by (rule next_place_pos) (simp_all only: ks, auto)
    then show ?thesis using merged_Next_rep[OF m] up merged_cursorI unfolding es
      by (metis iter_ops.select_convs(5) merged_ops_def)
  qed
  show "\<exists>it'. i_Prev (merged_ops ops) it = Inr it' \<and> merged_cursor rep it' es (max (- 1) (p - 1))"
  proof -
    have "place_pos (prev_place pl (all_keys ess)) (keys_of es) = prev_pos pl (keys_of es)"
      by (rule prev_place_pos) (simp_all only: ks, auto)
    then show ?thesis using merged_Prev_rep[OF m] down merged_cursorI unfolding es
      by (metis iter_ops.select_convs(6) merged_ops_def)
  qed
qed

end

section \<open>A stack of sources is a source\<close>

definition merged_src :: "('l \<Rightarrow> kvd list \<Rightarrow> bool) \<Rightarrow> 'l list \<Rightarrow> kvd list \<Rightarrow> bool" where
  "merged_src src m es \<longleftrightarrow> (\<exists>ess. list_all2 src m ess \<and> es = merged_entries ess)"

lemma length_merged_entries: "length (merged_entries ess) \<le> sum_list (map length ess)"
proof -
  have "length (merged_entries ess) = card (dom (levels_map ess))"
    by (simp add: merged_entries_def sorted_entries_def)
  also have "\<dots> \<le> sum_list (map length ess)"
  proof (induction ess)
    case (Cons es ess)
    have "card (dom (levels_map (es # ess))) \<le> card (dom (levels_map ess)) + card (set (keys_of es))"
      by (simp add: dom_map_add dom_map_of_conv_image_fst card_Un_le add.commute)
        (metis Un_commute add.commute card_Un_le)
    also have "card (set (keys_of es)) \<le> length es" by (metis card_length length_map)
    finally show ?case using Cons by simp
  qed simp
  finally show ?thesis .
qed

lemma open_levels_all2:
  assumes "list_all2 P m ess" and "\<And>l es. P l es \<Longrightarrow> \<exists>it. f l = Inr it \<and> Q it es"
  shows "\<exists>its. open_levels f m = Inr its \<and> list_all2 Q its ess"
  using assms(1)
proof (induction rule: list_all2_induct)
  case (Cons l m es ess)
  then show ?case using assms(2)[of l es] by auto
qed simp

context kv_source begin

lemma getExact_source: "src l es \<Longrightarrow> getExactFromSortedKV ops kops l k = Inr (map_of es k)"
proof (cases "k_getExact kops")
  case None
  assume s: "src l es"
  let ?p = "lower_bound (keys_of es) k"
  from Seek_rep[OF s] obtain it where it: "k_Seek kops l k = Inr it" "rep it es (int ?p)" by blast
  have srt: "sorted (keys_of es)" using src_sorted[OF s] by (rule ssorted_imp_sorted)
  have mem: "k \<in> set (keys_of es) \<longleftrightarrow> ?p < length es \<and> fst (es ! ?p) = k"
    using lower_bound_mem_iff[OF srt, of k] by auto
  have "k \<in> set (keys_of es) \<longleftrightarrow> map_of es k \<noteq> None" by (simp add: map_of_eq_None_iff)
  then have "map_of es k = (if k \<in> set (keys_of es) then Some (snd (es ! ?p)) else None)"
    using nth_map_of[OF src_sorted[OF s], of ?p] mem by (auto simp del: set_map)
  then show ?thesis
    using None it mem Valid_iff[OF it(2)] Key_nth[OF it(2)] Val_nth[OF it(2)] Deleted_nth[OF it(2)]
    by (auto simp: getExactFromSortedKV_def)
qed (auto simp: getExactFromSortedKV_def getExact_map)

lemma Merged_getExact_map:
  "list_all2 src m ess \<Longrightarrow> Merged_getExact ops kops m k = Inr (levels_map ess k)"
  by (induction rule: list_all2_induct) (auto simp: getExact_source map_add_def split: option.splits)

lemma Merged_open:
  assumes all: "list_all2 src m ess"
    and op: "\<forall>l es. src l es \<longrightarrow> (\<exists>it. f l = Inr it \<and> rep it es (q (keys_of es)))"
    and q: "\<forall>ks. set ks \<subseteq> all_keys ess \<longrightarrow> place_pos pl ks = q ks"
    and ok: "place_ok pl ess"
  obtains its where "open_levels f m = Inr its"
    "merged_rep rep \<lparr>mi_levels = its, mi_which = place_which pl ess\<rparr> ess pl"
proof -
  have ex: "\<exists>its. open_levels f m = Inr its \<and> list_all2 (\<lambda>l es. rep l es (q (keys_of es))) its ess"
    using all by (rule open_levels_all2) (use op in blast)
  then obtain its where its: "open_levels f m = Inr its" "list_all2 (\<lambda>l es. rep l es (q (keys_of es))) its ess"
    by blast
  have "list_all2 (\<lambda>l es. rep l es (place_pos pl (keys_of es))) its ess"
    unfolding list_all2_conv_all_nth
  proof (intro conjI allI impI)
    show "length its = length ess" using its(2) by (rule list_all2_lengthD)
    fix i assume i: "i < length its"
    then have r: "rep (its ! i) (ess ! i) (q (keys_of (ess ! i)))" and m: "ess ! i \<in> set ess"
      using its(2) by (auto simp: list_all2_conv_all_nth)
    have "set (keys_of (ess ! i)) \<subseteq> all_keys ess" using m by blast
    then show "rep (its ! i) (ess ! i) (place_pos pl (keys_of (ess ! i)))"
      using r q by (simp del: set_map)
  qed
  then show thesis using that its(1) ok by (simp add: merged_rep_def)
qed

lemma finite_all_keys [simp]: "finite (all_keys ess)"
  by simp

lemma Merged_open_lowest:
  assumes all: "list_all2 src m ess"
    and op: "\<forall>l es. src l es \<longrightarrow> (\<exists>it. f l = Inr it \<and> rep it es (q (keys_of es)))"
    and q: "\<forall>ks. set ks \<subseteq> all_keys ess \<longrightarrow> place_pos pl ks = q ks"
    and ok: "place_ok pl ess" and pl: "pl = Asc c \<or> pl = AtEnd"
  shows "\<exists>it. rbind (open_levels f m) (\<lambda>levels. rbind (levelsLowest ops levels)
      (\<lambda>which. Inr \<lparr>mi_levels = levels, mi_which = which\<rparr>)) = Inr it \<and>
    merged_cursor rep it (merged_entries ess) (q (keys_of (merged_entries ess)))"
proof -
  obtain its where its: "open_levels f m = Inr its"
    "merged_rep rep \<lparr>mi_levels = its, mi_which = place_which pl ess\<rparr> ess pl"
    using Merged_open[OF all op q ok] by blast
  have "levelsLowest ops its = Inr (place_which pl ess)"
    using its(2) pl ok by (intro levelsLowest_place) (auto simp: merged_rep_def)
  moreover have "place_pos pl (keys_of (merged_entries ess)) = q (keys_of (merged_entries ess))"
    using q merged_entries_facts(3)[of ess] by blast
  ultimately show ?thesis using its merged_cursorI[OF its(2)] by auto
qed

lemma Merged_open_highest:
  assumes all: "list_all2 src m ess"
    and op: "\<forall>l es. src l es \<longrightarrow> (\<exists>it. f l = Inr it \<and> rep it es (q (keys_of es)))"
    and q: "\<forall>ks. set ks \<subseteq> all_keys ess \<longrightarrow> place_pos pl ks = q ks"
    and ok: "place_ok pl ess" and pl: "pl = Desc c \<or> pl = AtStart"
  shows "\<exists>it. rbind (open_levels f m) (\<lambda>levels. rbind (levelsHighest ops levels)
      (\<lambda>which. Inr \<lparr>mi_levels = levels, mi_which = which\<rparr>)) = Inr it \<and>
    merged_cursor rep it (merged_entries ess) (q (keys_of (merged_entries ess)))"
proof -
  obtain its where its: "open_levels f m = Inr its"
    "merged_rep rep \<lparr>mi_levels = its, mi_which = place_which pl ess\<rparr> ess pl"
    using Merged_open[OF all op q ok] by blast
  have "levelsHighest ops its = Inr (place_which pl ess)"
    using its(2) pl ok by (intro levelsHighest_place) (auto simp: merged_rep_def)
  moreover have "place_pos pl (keys_of (merged_entries ess)) = q (keys_of (merged_entries ess))"
    using q merged_entries_facts(3)[of ess] by blast
  ultimately show ?thesis using its merged_cursorI[OF its(2)] by auto
qed

lemma Merged_Iter_cursor:
  assumes "list_all2 src m ess"
  shows "\<exists>it. Merged_Iter ops kops m = Inr it \<and> merged_cursor rep it (merged_entries ess) 0"
proof -
  let ?pl = "next_place AtStart (all_keys ess)"
  obtain c where pl: "?pl = Asc c \<or> ?pl = AtEnd" using next_place_shape by blast
  have q: "\<forall>ks. set ks \<subseteq> all_keys ess \<longrightarrow> place_pos ?pl ks = 0"
    using next_place_pos[OF finite_all_keys, of _ ess AtStart] by (auto simp del: next_place.simps)
  have ok: "place_ok ?pl ess" by (rule place_okI) (rule next_place_key[OF finite_all_keys])
  show ?thesis unfolding Merged_Iter_def
    by (rule Merged_open_lowest[OF assms _ q ok pl]) (use Iter_rep in blast)
qed

lemma Merged_Seek_cursor:
  assumes "list_all2 src m ess"
  shows "\<exists>it. Merged_Seek ops kops m k = Inr it \<and>
    merged_cursor rep it (merged_entries ess) (int (lower_bound (keys_of (merged_entries ess)) k))"
proof -
  let ?pl = "seek_place k (all_keys ess)"
  obtain c where pl: "?pl = Asc c \<or> ?pl = AtEnd" using seek_place_shape by blast
  have q: "\<forall>ks. set ks \<subseteq> all_keys ess \<longrightarrow> place_pos ?pl ks = int (lower_bound ks k)"
    using seek_place_pos[OF finite_all_keys] by blast
  have ok: "place_ok ?pl ess" by (rule place_okI) (rule seek_place_key[OF finite_all_keys])
  show ?thesis unfolding Merged_Seek_def
    by (rule Merged_open_lowest[OF assms _ q ok pl]) (use Seek_rep in blast)
qed

lemma Merged_SeekToLast_cursor:
  assumes "list_all2 src m ess"
  shows "\<exists>it. Merged_SeekToLast ops kops m = Inr it \<and>
    merged_cursor rep it (merged_entries ess) (int (length (merged_entries ess)) - 1)"
proof -
  let ?pl = "prev_place AtEnd (all_keys ess)"
  obtain c where pl: "?pl = Desc c \<or> ?pl = AtStart" using prev_place_shape by blast
  have q: "\<forall>ks. set ks \<subseteq> all_keys ess \<longrightarrow> place_pos ?pl ks = int (length ks) - 1"
    using prev_place_pos[OF finite_all_keys, of _ ess AtEnd] by (auto simp del: prev_place.simps)
  have ok: "place_ok ?pl ess" by (rule place_okI) (rule prev_place_key[OF finite_all_keys])
  have op: "\<forall>l es. src l es \<longrightarrow> (\<exists>it. k_SeekToLast kops l = Inr it \<and> rep it es (int (length (keys_of es)) - 1))"
    using SeekToLast_rep by simp
  show ?thesis unfolding Merged_SeekToLast_def
    using Merged_open_highest[OF assms op q ok pl] by simp
qed

lemma Merged_Size:
  "list_all2 src m ess \<Longrightarrow> sum_list (map length ess) \<le> Merged_EstimatedSize kops m"
  by (induction rule: list_all2_induct) (auto dest: Size_ge)

text \<open>A stack of sources is a source.\<close>

lemma merged_source_laws:
  "kv_source (merged_ops ops) (merged_cursor rep) (merged_kv_ops ops kops) (merged_src src)"
proof (intro kv_source.intro fwd_source.intro merged_laws kv_iter.axioms(1)[OF merged_laws]
    fwd_source_axioms.intro kv_source_axioms.intro)
  fix m es assume "merged_src src m es"
  then obtain ess where ess: "list_all2 src m ess" and es: "es = merged_entries ess"
    by (auto simp: merged_src_def)
  show "ssorted (keys_of es)" by (simp add: es)
  show "length es \<le> k_EstimatedSize (merged_kv_ops ops kops) m"
    using Merged_Size[OF ess] length_merged_entries[of ess] by (simp add: merged_kv_ops_def es)
  show "\<exists>it. k_Iter (merged_kv_ops ops kops) m = Inr it \<and> merged_cursor rep it es 0"
    using Merged_Iter_cursor[OF ess] by (simp add: merged_kv_ops_def es)
  show "\<exists>it. k_Seek (merged_kv_ops ops kops) m k = Inr it \<and>
      merged_cursor rep it es (int (lower_bound (keys_of es) k))" for k
    using Merged_Seek_cursor[OF ess] by (simp add: merged_kv_ops_def es)
  show "\<exists>it. k_SeekToLast (merged_kv_ops ops kops) m = Inr it \<and>
      merged_cursor rep it es (int (length es) - 1)"
    using Merged_SeekToLast_cursor[OF ess] by (simp add: merged_kv_ops_def es)
  show "g m k = Inr (map_of es k)" if "k_getExact (merged_kv_ops ops kops) = Some g" for g k
    using that Merged_getExact_map[OF ess] by (auto simp: merged_kv_ops_def es)
qed

end

end
