(* ===== verification/SortedFile.thy ===== *)
theory SortedFile
  imports Merge Entry
begin

text \<open>
  \<open>src/db/sorted_file.go\<close>: SSTables.  A table is a key count, an index of 64-bit offsets, the
  records, and a Bloom filter with a footer.  The Bloom filter package is a parameter; what
  the code relies on is \<open>bloom_ok\<close>.  The theorems: a table that was written reads back as the
  entries it was written from, right away and after it is reopened, and its iterator and point
  lookup keep the contracts of \<open>kv_iter\<close> and \<open>kv_source\<close>.  Reads see the file's content;
  a short read is an error, transient read faults are not modelled.
\<close>

section \<open>The Bloom filter package\<close>

record 'b bloomLib =
  bl_NewWithEstimates :: "nat \<Rightarrow> 'b"
  bl_Add :: "'b \<Rightarrow> bytes \<Rightarrow> 'b"
  bl_Test :: "'b \<Rightarrow> bytes \<Rightarrow> bool"
  bl_MarshalBinary :: "'b \<Rightarrow> bytes res"
  bl_UnmarshalBinary :: "bytes \<Rightarrow> 'b res"

text \<open>No false negatives, and a marshalled filter answers as the original does.\<close>

definition bloom_ok :: "'b bloomLib \<Rightarrow> bool" where
  "bloom_ok bl \<longleftrightarrow>
     (\<forall>b k. bl_Test bl (bl_Add bl b k) k) \<and>
     (\<forall>b k x. bl_Test bl b x \<longrightarrow> bl_Test bl (bl_Add bl b k) x) \<and>
     (\<forall>b d. bl_MarshalBinary bl b = Inr d \<longrightarrow> d \<noteq> [] \<and> length d < 2 ^ 62 \<and>
        (\<exists>b'. bl_UnmarshalBinary bl d = Inr b' \<and> bl_Test bl b' = bl_Test bl b))"

section \<open>Tables\<close>

text \<open>\<open>sf_fp\<close> is the content of the open file; a closed table has none.\<close>

record SortedFile =
  sf_fp :: "bytes option"
  sf_nkeys :: nat
  sf_offsetIndex :: bytes
  sf_bloom :: "(bytes \<Rightarrow> bool) option"

definition maxNKeys :: nat where "maxNKeys = 2 ^ 26"
definition sortedFileBloomFooterSize :: nat where "sortedFileBloomFooterSize = 16"
definition sortedFileMaxOffsetIndexBytes :: nat where "sortedFileMaxOffsetIndexBytes = 64 * 2 ^ 20"

definition sortedFileBloomMagic :: bytes where
  "sortedFileBloomMagic = [0x50, 0x44, 0x42, 0x42, 0x4C, 0x4D, 0x31, 0x0A]"

definition newSortedFileBloom :: "'b bloomLib \<Rightarrow> nat \<Rightarrow> 'b" where
  "newSortedFileBloom bl expectedKeys =
     bl_NewWithEstimates bl (if expectedKeys < 1 then 1 else expectedKeys)"

text \<open>\<open>os.File.ReadAt\<close>: the whole buffer or an error; nothing is read into an empty buffer.\<close>

definition sf_ReadAt :: "SortedFile \<Rightarrow> nat \<Rightarrow> int \<Rightarrow> bytes res" where
  "sf_ReadAt sf n off = (case sf_fp sf of
     None \<Rightarrow> Inl (Error ''invalid argument'')
   | Some d \<Rightarrow>
       if off < 0 then Inl (Error ''negative offset'')
       else if n = 0 then Inr []
       else if nat off + n \<le> length d then Inr (take n (drop (nat off) d))
       else Inl EOF)"

section \<open>Opening\<close>

definition loadOffsetIndex :: "SortedFile \<Rightarrow> SortedFile res" where
  "loadOffsetIndex sf =
     (let nbytes = sf_nkeys sf * 8 in
      if nbytes = 0 then Inr (sf\<lparr>sf_offsetIndex := []\<rparr>)
      else if nbytes > sortedFileMaxOffsetIndexBytes then Inr (sf\<lparr>sf_offsetIndex := []\<rparr>)
      else rbind (sf_ReadAt sf nbytes 8) (\<lambda>idx. Inr (sf\<lparr>sf_offsetIndex := idx\<rparr>)))"

definition loadBloomFilter :: "'b bloomLib \<Rightarrow> SortedFile \<Rightarrow> SortedFile res" where
  "loadBloomFilter bl sf = (case sf_fp sf of
     None \<Rightarrow> Inl (Error ''invalid argument'')
   | Some d \<Rightarrow>
       let size = length d in
       if size < sortedFileBloomFooterSize then Inr sf
       else rbind (sf_ReadAt sf sortedFileBloomFooterSize (int (size - sortedFileBloomFooterSize))) (\<lambda>footer.
         if drop 8 footer \<noteq> sortedFileBloomMagic then Inr sf
         else let bloomLen = unat (Uint64 (take 8 footer)) in
           if bloomLen = 0 \<or> bloomLen > size - sortedFileBloomFooterSize then
             Inl (Error ''corrupted file: bloom filter out of range'')
           else let dataStart = size - sortedFileBloomFooterSize - bloomLen in
             rbind (sf_ReadAt sf bloomLen (int dataStart)) (\<lambda>data.
             rbind (bl_UnmarshalBinary bl data) (\<lambda>filter.
             Inr (sf\<lparr>sf_bloom := Some (bl_Test bl filter)\<rparr>)))))"

definition openExisting :: "'b bloomLib \<Rightarrow> SortedFile \<Rightarrow> SortedFile res" where
  "openExisting bl sf =
     rbind (sf_ReadAt sf 8 0) (\<lambda>buf.
     let nkeys = sint (Uint64 buf) in
     if nkeys < 0 \<or> nkeys > int maxNKeys then Inl (Error ''corrupted file: nkeys out of range'')
     else rbind (loadOffsetIndex (sf\<lparr>sf_nkeys := nat nkeys\<rparr>)) (loadBloomFilter bl))"

text \<open>\<open>SortedFile.Open\<close> of a file with the given content.\<close>

definition SortedFile_Open :: "'b bloomLib \<Rightarrow> bytes \<Rightarrow> SortedFile res" where
  "SortedFile_Open bl content =
     openExisting bl \<lparr>sf_fp = Some content, sf_nkeys = 0, sf_offsetIndex = [], sf_bloom = None\<rparr>"

definition SortedFile_Close :: "SortedFile \<Rightarrow> SortedFile" where
  "SortedFile_Close sf = sf\<lparr>sf_fp := None\<rparr>"

section \<open>Reading\<close>

definition entryOffset :: "SortedFile \<Rightarrow> nat \<Rightarrow> int res" where
  "entryOffset sf pos =
     (if \<not> pos < sf_nkeys sf then Inl (Panic ''check'')
      else rbind
        (if length (sf_offsetIndex sf) \<ge> 8 * (pos + 1)
         then Inr (take 8 (drop (8 * pos) (sf_offsetIndex sf)))
         else sf_ReadAt sf 8 (int (8 + 8 * pos))) (\<lambda>buf.
      let offset = sint (Uint64 buf) in
      if int (8 + 8 * sf_nkeys sf) > offset then Inl (Error ''corrupted file'') else Inr offset))"

text \<open>The nine bytes before a record: the lengths, checked, and the tombstone flag.\<close>

definition sf_header :: "SortedFile \<Rightarrow> int \<Rightarrow> (nat \<times> nat \<times> bool) res" where
  "sf_header sf offset =
     rbind (sf_ReadAt sf 9 offset) (\<lambda>header.
     let klen = unat (Uint32 (take 4 header)); vlen = unat (Uint32 (take 4 (drop 4 header))) in
     if klen + vlen > MaxEntrySize then Inl (Error ''entry too large'')
     else Inr (klen, vlen, header ! 8 \<noteq> 0))"

definition sf_index :: "SortedFile \<Rightarrow> nat \<Rightarrow> kvd res" where
  "sf_index sf pos =
     rbind (entryOffset sf pos) (\<lambda>offset.
     rbind (sf_header sf offset) (\<lambda>(klen, vlen, deleted).
     rbind (sf_ReadAt sf (klen + vlen) (offset + 9)) (\<lambda>data.
     Inr (take klen data, drop klen data, deleted))))"

definition valueAt :: "SortedFile \<Rightarrow> nat \<Rightarrow> (bytes \<times> bool) res" where
  "valueAt sf pos =
     rbind (entryOffset sf pos) (\<lambda>offset.
     rbind (sf_header sf offset) (\<lambda>(klen, vlen, deleted).
     if vlen \<noteq> 0 then rbind (sf_ReadAt sf vlen (offset + 9 + int klen)) (\<lambda>val. Inr (val, deleted))
     else Inr ([], deleted)))"

definition compareKeyAt :: "SortedFile \<Rightarrow> nat \<Rightarrow> bytes \<Rightarrow> int res" where
  "compareKeyAt sf pos target =
     rbind (entryOffset sf pos) (\<lambda>offset.
     rbind (sf_header sf offset) (\<lambda>(klen, vlen, deleted).
     rbind (sf_ReadAt sf klen (offset + 9)) (\<lambda>key. Inr (bytes_Compare target key))))"

function findPosExact_loop :: "SortedFile \<Rightarrow> bytes \<Rightarrow> nat \<Rightarrow> nat \<Rightarrow> (nat \<times> bool) res" where
  "findPosExact_loop sf target lo hi =
     (if lo < hi then
        let mid = lo + (hi - lo) div 2 in
        case compareKeyAt sf mid target of
          Inl err \<Rightarrow> Inl err
        | Inr r \<Rightarrow>
            if r > 0 then findPosExact_loop sf target (mid + 1) hi
            else if r < 0 then findPosExact_loop sf target lo mid
            else Inr (mid, True)
      else Inr (lo, False))"
  by pat_completeness auto
termination
  by (relation "measure (\<lambda>(sf, target, lo, hi). hi - lo)") (auto simp: Let_def)

declare findPosExact_loop.simps [simp del]

definition findPosExact :: "SortedFile \<Rightarrow> bytes \<Rightarrow> (nat \<times> bool) res" where
  "findPosExact sf target = findPosExact_loop sf target 0 (sf_nkeys sf)"

function findPos_loop :: "SortedFile \<Rightarrow> bytes \<Rightarrow> nat \<Rightarrow> nat \<Rightarrow> nat res" where
  "findPos_loop sf target lo hi =
     (if lo < hi then
        let mid = lo + (hi - lo) div 2 in
        case compareKeyAt sf mid target of
          Inl err \<Rightarrow> Inl err
        | Inr r \<Rightarrow>
            if r > 0 then findPos_loop sf target (mid + 1) hi
            else if r < 0 then findPos_loop sf target lo mid
            else Inr mid
      else Inr lo)"
  by pat_completeness auto
termination
  by (relation "measure (\<lambda>(sf, target, lo, hi). hi - lo)") (auto simp: Let_def)

declare findPos_loop.simps [simp del]

definition findPos :: "SortedFile \<Rightarrow> bytes \<Rightarrow> nat res" where
  "findPos sf target = findPos_loop sf target 0 (sf_nkeys sf)"

definition mayContainKey :: "SortedFile \<Rightarrow> bytes \<Rightarrow> bool" where
  "mayContainKey sf key = (case sf_bloom sf of None \<Rightarrow> True | Some test \<Rightarrow> test key)"

definition SortedFile_getExact :: "SortedFile \<Rightarrow> bytes \<Rightarrow> (bytes \<times> bool) option res" where
  "SortedFile_getExact sf key =
     (if \<not> mayContainKey sf key then Inr None
      else rbind (findPosExact sf key) (\<lambda>(pos, found).
        if \<not> found then Inr None
        else rbind (valueAt sf pos) (\<lambda>v. Inr (Some v))))"

section \<open>The iterator\<close>

record SortedFileIter =
  fi_file :: SortedFile
  fi_pos :: int
  fi_key :: bytes
  fi_val :: bytes
  fi_deleted :: bool

definition FileIter_Valid :: "SortedFileIter \<Rightarrow> bool" where
  "FileIter_Valid it \<longleftrightarrow> 0 \<le> fi_pos it \<and> fi_pos it < int (sf_nkeys (fi_file it))"

definition loadCurrent :: "SortedFileIter \<Rightarrow> SortedFileIter res" where
  "loadCurrent it =
     (if FileIter_Valid it then
        rbind (sf_index (fi_file it) (nat (fi_pos it))) (\<lambda>(k, v, d).
        Inr (it\<lparr>fi_key := k, fi_val := v, fi_deleted := d\<rparr>))
      else Inr it)"

definition FileIter_Next :: "SortedFileIter \<Rightarrow> SortedFileIter res" where
  "FileIter_Next it = loadCurrent
     (if fi_pos it < int (sf_nkeys (fi_file it)) then it\<lparr>fi_pos := fi_pos it + 1\<rparr> else it)"

definition FileIter_Prev :: "SortedFileIter \<Rightarrow> SortedFileIter res" where
  "FileIter_Prev it = loadCurrent (if fi_pos it \<ge> 0 then it\<lparr>fi_pos := fi_pos it - 1\<rparr> else it)"

definition file_ops :: "SortedFileIter iter_ops" where
  "file_ops = \<lparr>i_Valid = FileIter_Valid, i_Key = (\<lambda>it. Inr (fi_key it)), i_Val = (\<lambda>it. Inr (fi_val it)),
     i_Deleted = (\<lambda>it. Inr (fi_deleted it)), i_Next = FileIter_Next, i_Prev = FileIter_Prev\<rparr>"

definition FileIter_at :: "SortedFile \<Rightarrow> int \<Rightarrow> SortedFileIter" where
  "FileIter_at sf pos = \<lparr>fi_file = sf, fi_pos = pos, fi_key = [], fi_val = [], fi_deleted = False\<rparr>"

definition SortedFile_Iter :: "SortedFile \<Rightarrow> SortedFileIter res" where
  "SortedFile_Iter sf = loadCurrent (FileIter_at sf 0)"

definition SortedFile_Seek :: "SortedFile \<Rightarrow> bytes \<Rightarrow> SortedFileIter res" where
  "SortedFile_Seek sf key = rbind (findPos sf key) (\<lambda>pos. loadCurrent (FileIter_at sf (int pos)))"

definition SortedFile_SeekToLast :: "SortedFile \<Rightarrow> SortedFileIter res" where
  "SortedFile_SeekToLast sf = loadCurrent (FileIter_at sf (int (sf_nkeys sf) - 1))"

definition file_kv_ops :: "(SortedFile, SortedFileIter) kv_ops" where
  "file_kv_ops = \<lparr>k_EstimatedSize = sf_nkeys, k_Iter = SortedFile_Iter, k_Seek = SortedFile_Seek,
     k_SeekToLast = SortedFile_SeekToLast, k_getExact = Some SortedFile_getExact\<rparr>"

section \<open>Writing\<close>

definition sst_header :: "kvd \<Rightarrow> bytes" where
  "sst_header e = PutUint32 (word_of_nat (length (fst e))) @ PutUint32 (word_of_nat (length (fst (snd e)))) @
     [if snd (snd e) then 1 else 0]"

text \<open>
  The loop of \<open>writeSortedFile\<close>.  It may run \<open>EstimatedSize\<close> times: an iterator with more
  entries fails the \<open>check\<close> that follows the loop, which is what running out of fuel stands for.
\<close>

fun writeSortedFile_loop ::
  "nat \<Rightarrow> 'b bloomLib \<Rightarrow> 'i iter_ops \<Rightarrow> 'i \<Rightarrow> fileLike \<Rightarrow> bytes \<Rightarrow> nat \<Rightarrow> nat \<Rightarrow> 'b \<Rightarrow>
   fileLike \<times> (bytes \<times> nat \<times> nat \<times> 'b) res" where
  "writeSortedFile_loop fuel bl ops it f offsetIndex nkeys offset flt =
     (if \<not> i_Valid ops it then (f, Inr (offsetIndex, nkeys, offset, flt))
      else case fuel of 0 \<Rightarrow> (f, Inl (Panic ''check'')) | Suc fuel \<Rightarrow>
        (case rbind (i_Key ops it) (\<lambda>k. rbind (i_Val ops it) (\<lambda>v. rbind (i_Deleted ops it) (\<lambda>d. Inr (k, v, d)))) of
           Inl err \<Rightarrow> (f, Inl err)
         | Inr (key, val, deleted) \<Rightarrow>
             let buf = PutUint64 (word_of_nat offset);
                 offsetIndex = (if length offsetIndex \<ge> 8 * (nkeys + 1)
                   then take (8 * nkeys) offsetIndex @ buf @ drop (8 * (nkeys + 1)) offsetIndex
                   else offsetIndex)
             in sbind (WriteAt f buf (8 + 8 * nkeys)) (\<lambda>f _.
                sbind (WriteAt f (sst_header (key, val, deleted)) offset) (\<lambda>f _.
                sbind (WriteAt f key (offset + 9)) (\<lambda>f _.
                sbind (WriteAt f val (offset + 9 + length key)) (\<lambda>f _.
                case i_Next ops it of
                  Inl err \<Rightarrow> (f, Inl err)
                | Inr it \<Rightarrow> writeSortedFile_loop fuel bl ops it f offsetIndex (nkeys + 1)
                    (offset + 9 + length key + length val) (bl_Add bl flt key)))))))"

declare writeSortedFile_loop.simps [simp del]

definition writeSortedFile ::
  "'b bloomLib \<Rightarrow> 'i iter_ops \<Rightarrow> ('l, 'i) kv_ops \<Rightarrow> 'l \<Rightarrow> fileLike \<Rightarrow> fileLike \<times> SortedFile res" where
  "writeSortedFile bl ops kops kv f =
     (let est = k_EstimatedSize kops kv;
          flt = newSortedFileBloom bl est;
          offsetIndex = (if 8 * est \<le> sortedFileMaxOffsetIndexBytes then replicate (8 * est) 0 else [])
      in case k_Iter kops kv of
           Inl err \<Rightarrow> (f, Inl err)
         | Inr it \<Rightarrow>
             sbind (writeSortedFile_loop est bl ops it f offsetIndex 0 (8 + 8 * est) flt)
               (\<lambda>f (offsetIndex, nkeys, offset, flt).
             if \<not> nkeys \<le> est then (f, Inl (Panic ''check''))
             else let offsetIndex = (if length offsetIndex \<ge> 8 * nkeys then take (8 * nkeys) offsetIndex else []) in
               sbind (WriteAt f (PutUint64 (word_of_nat nkeys)) 0) (\<lambda>f _.
               case bl_MarshalBinary bl flt of
                 Inl err \<Rightarrow> (f, Inl err)
               | Inr bloomData \<Rightarrow>
                   sbind (WriteAt f bloomData offset) (\<lambda>f _.
                   sbind (WriteAt f (PutUint64 (word_of_nat (length bloomData)) @ sortedFileBloomMagic)
                     (offset + length bloomData)) (\<lambda>f _.
                   sbind (Sync f) (\<lambda>f _.
                   (f, Inr \<lparr>sf_fp = Some (f_data f), sf_nkeys = nkeys, sf_offsetIndex = offsetIndex,
                      sf_bloom = Some (bl_Test bl flt)\<rparr>)))))))"

section \<open>Segments of a file\<close>

definition seg :: "bytes \<Rightarrow> nat \<Rightarrow> bytes \<Rightarrow> bool" where
  "seg d off bs \<longleftrightarrow> off + length bs \<le> length d \<and> (\<forall>i < length bs. d ! (off + i) = bs ! i)"

lemma nth_write_at:
  assumes "bs \<noteq> []" and "i < length (write_at d off bs)"
  shows "write_at d off bs ! i = (if off \<le> i \<and> i < off + length bs then bs ! (i - off)
    else if i < length d then d ! i else 0)"
proof -
  let ?p = "take off (d @ replicate (off - length d) 0)"
  have lp: "length ?p = off" by simp
  have w: "write_at d off bs = ?p @ bs @ drop (off + length bs) d" using assms(1) by (simp add: write_at_def)
  have n: "i < length d \<or> i < off + length bs" using assms length_write_at[OF assms(1), of d off] by auto
  consider "i < off" | "off \<le> i" "i < off + length bs" | "off + length bs \<le> i" by linarith
  then show ?thesis
  proof cases
    case 1
    then have "write_at d off bs ! i = ?p ! i" unfolding w using lp by (simp add: nth_append del: take_append)
    also have "\<dots> = (if i < length d then d ! i else 0)" using 1 by (simp add: nth_append)
    finally show ?thesis using 1 by simp
  next
    case 2
    then have "i - off < length bs" by arith
    then show ?thesis using 2 unfolding w using lp by (simp add: nth_append del: take_append)
  next
    case 3
    then have "\<not> i - off < length bs" by arith
    then show ?thesis using 3 unfolding w using lp n by (simp add: nth_append del: take_append)
  qed
qed

lemma seg_write_same: "bs \<noteq> [] \<Longrightarrow> seg (write_at d off bs) off bs"
  by (auto simp: seg_def nth_write_at length_write_at)

lemma seg_write_other:
  assumes "seg d off bs" and "off + length bs \<le> off' \<or> off' + length bs' \<le> off"
  shows "seg (write_at d off' bs') off bs"
proof (cases "bs' = []")
  case False
  then show ?thesis using assms by (auto simp: seg_def nth_write_at length_write_at)
qed (use assms in \<open>simp add: write_at_def\<close>)

lemma seg_append: "seg d off (a @ b) \<longleftrightarrow> seg d off a \<and> seg d (off + length a) b"
proof
  assume s: "seg d off (a @ b)"
  have "d ! (off + i) = a ! i" if "i < length a" for i
    using s that by (auto simp: seg_def nth_append dest!: spec[of _ i])
  moreover have "d ! (off + length a + i) = b ! i" if "i < length b" for i
    using s that by (auto simp: seg_def nth_append add.assoc dest!: spec[of _ "length a + i"])
  ultimately show "seg d off a \<and> seg d (off + length a) b" using s by (simp add: seg_def)
next
  assume s: "seg d off a \<and> seg d (off + length a) b"
  have "d ! (off + i) = (a @ b) ! i" if "i < length (a @ b)" for i
  proof (cases "i < length a")
    case False
    then have "i - length a < length b" and i: "off + length a + (i - length a) = off + i" using that by auto
    then have "d ! (off + length a + (i - length a)) = b ! (i - length a)" using s unfolding seg_def by blast
    then show ?thesis using False unfolding i by (simp add: nth_append)
  qed (use s in \<open>simp add: seg_def nth_append\<close>)
  then show "seg d off (a @ b)" using s by (simp add: seg_def)
qed

lemma seg_take: "seg d off bs \<Longrightarrow> take (length bs) (drop off d) = bs"
  by (auto simp: seg_def list_eq_iff_nth_eq)

lemma seg_ReadAt:
  assumes "sf_fp sf = Some d" and "seg d off bs" and "n = length bs" and "i = int off"
  shows "sf_ReadAt sf n i = Inr bs"
  using assms seg_take[OF assms(2)] by (auto simp: sf_ReadAt_def seg_def)

section \<open>What a table holds\<close>

definition sst_record :: "kvd \<Rightarrow> bytes" where
  "sst_record e = sst_header e @ fst e @ fst (snd e)"

definition sst_fits :: "kvd \<Rightarrow> bool" where
  "sst_fits e \<longleftrightarrow> length (fst e) + length (fst (snd e)) \<le> MaxEntrySize"

definition sst_layout :: "bytes \<Rightarrow> nat \<Rightarrow> kvd list \<Rightarrow> nat list \<Rightarrow> bool" where
  "sst_layout d est es offs \<longleftrightarrow> length offs = length es \<and>
     (\<forall>i < length es. seg d (8 + 8 * i) (PutUint64 (word_of_nat (offs ! i))) \<and>
        seg d (offs ! i) (sst_record (es ! i)) \<and> 8 + 8 * est \<le> offs ! i \<and> offs ! i < 2 ^ 63 \<and> sst_fits (es ! i))"

definition sst_index :: "nat list \<Rightarrow> bytes" where
  "sst_index offs = concat (map (\<lambda>x. PutUint64 (word_of_nat x)) offs)"

definition sst_holds :: "SortedFile \<Rightarrow> kvd list \<Rightarrow> bool" where
  "sst_holds sf es \<longleftrightarrow> ssorted (keys_of es) \<and> sf_nkeys sf = length es \<and>
     (\<exists>d offs. sf_fp sf = Some d \<and> sst_layout d (length es) es offs \<and>
        (sf_offsetIndex sf = [] \<or> sf_offsetIndex sf = sst_index offs)) \<and>
     (\<forall>k \<in> set (keys_of es). mayContainKey sf k)"

lemma PutUint64_neq_Nil [simp]: "PutUint64 x \<noteq> []"
  by (metis length_PutUint(3) list.size(3) zero_neq_numeral)

lemma length_sst_header [simp]: "length (sst_header e) = 9"
  by (simp add: sst_header_def)

lemma sint_word_of_nat: "n < 2 ^ 63 \<Longrightarrow> sint (word_of_nat n :: u64) = int n"
  using int_word_sint[of "int n", where 'a = 64] by simp

lemma nth_chunk: "i < length offs \<Longrightarrow> take 8 (drop (8 * i) (sst_index offs)) = PutUint64 (word_of_nat (offs ! i))"
proof (induction offs arbitrary: i)
  case (Cons x xs)
  then show ?case by (cases i) (simp_all add: sst_index_def)
qed simp

lemma length_sst_index [simp]: "length (sst_index offs) = 8 * length offs"
  by (induction offs) (simp_all add: sst_index_def)

lemma sst_holdsE:
  assumes "sst_holds sf es" and "i < length es"
  obtains d off where "sf_fp sf = Some d" "entryOffset sf i = Inr (int off)"
    "seg d off (sst_header (es ! i))" "seg d (off + 9) (fst (es ! i))"
    "seg d (off + 9 + length (fst (es ! i))) (fst (snd (es ! i)))" "sst_fits (es ! i)"
proof -
  from assms obtain d offs where d: "sf_fp sf = Some d" and lay: "sst_layout d (length es) es offs"
    and ix: "sf_offsetIndex sf = [] \<or> sf_offsetIndex sf = sst_index offs" and n: "sf_nkeys sf = length es"
    by (auto simp: sst_holds_def)
  from lay assms(2) have l: "length offs = length es" "seg d (8 + 8 * i) (PutUint64 (word_of_nat (offs ! i)))"
    "seg d (offs ! i) (sst_record (es ! i))" "8 + 8 * length es \<le> offs ! i" "offs ! i < 2 ^ 63" "sst_fits (es ! i)"
    by (auto simp: sst_layout_def)
  have rd: "sf_ReadAt sf 8 (int (8 + 8 * i)) = Inr (PutUint64 (word_of_nat (offs ! i)))"
    by (rule seg_ReadAt[OF d l(2)]) simp_all
  have "entryOffset sf i = Inr (int (offs ! i))"
    using ix
  proof
    assume "sf_offsetIndex sf = []"
    then show ?thesis using rd assms(2) n l(4) sint_word_of_nat[OF l(5)]
      by (simp add: entryOffset_def Let_def del: of_nat_add of_nat_Suc)
  next
    assume "sf_offsetIndex sf = sst_index offs"
    then show ?thesis using nth_chunk[of i offs] assms(2) n l(1,4) sint_word_of_nat[OF l(5)]
      by (simp add: entryOffset_def Let_def)
  qed
  then show thesis using that d l(3,6) by (auto simp: sst_record_def seg_append)
qed

lemma sf_header_ok:
  assumes "sf_fp sf = Some d" and "seg d off (sst_header e)" and "sst_fits e"
  shows "sf_header sf (int off) = Inr (length (fst e), length (fst (snd e)), snd (snd e))"
proof -
  have rd: "sf_ReadAt sf 9 (int off) = Inr (sst_header e)" by (rule seg_ReadAt[OF assms(1,2)]) simp_all
  have "unat (word_of_nat (length (fst e)) :: u32) = length (fst e)"
    "unat (word_of_nat (length (fst (snd e))) :: u32) = length (fst (snd e))"
    using assms(3) by (auto simp: sst_fits_def MaxEntrySize_def intro!: unat_word_of_nat_less)
  then show ?thesis using assms(3)
    by (simp add: sf_header_def rd sst_header_def sst_fits_def Let_def nth_append)
qed

lemma sf_index_ok:
  assumes "sst_holds sf es" and "i < length es"
  shows "sf_index sf i = Inr (es ! i)"
proof -
  obtain d off where o: "sf_fp sf = Some d" "entryOffset sf i = Inr (int off)"
    "seg d off (sst_header (es ! i))" "seg d (off + 9) (fst (es ! i))"
    "seg d (off + 9 + length (fst (es ! i))) (fst (snd (es ! i)))" "sst_fits (es ! i)"
    using assms by (rule sst_holdsE)
  have "seg d (off + 9) (fst (es ! i) @ fst (snd (es ! i)))" using o(4,5) by (simp add: seg_append)
  then have "sf_ReadAt sf (length (fst (es ! i)) + length (fst (snd (es ! i)))) (int off + 9) =
      Inr (fst (es ! i) @ fst (snd (es ! i)))"
    by (rule seg_ReadAt[OF o(1)]) simp_all
  then show ?thesis using o(2) sf_header_ok[OF o(1,3,6)] by (simp add: sf_index_def)
qed

lemma valueAt_ok:
  assumes "sst_holds sf es" and "i < length es"
  shows "valueAt sf i = Inr (snd (es ! i))"
proof -
  obtain d off where o: "sf_fp sf = Some d" "entryOffset sf i = Inr (int off)"
    "seg d off (sst_header (es ! i))" "seg d (off + 9) (fst (es ! i))"
    "seg d (off + 9 + length (fst (es ! i))) (fst (snd (es ! i)))" "sst_fits (es ! i)"
    using assms by (rule sst_holdsE)
  have "sf_ReadAt sf (length (fst (snd (es ! i)))) (int off + 9 + int (length (fst (es ! i)))) =
      Inr (fst (snd (es ! i)))"
    by (rule seg_ReadAt[OF o(1,5)]) simp_all
  then show ?thesis using o(2) sf_header_ok[OF o(1,3,6)] by (auto simp: valueAt_def prod_eq_iff)
qed

lemma compareKeyAt_ok:
  assumes "sst_holds sf es" and "i < length es"
  shows "compareKeyAt sf i target = Inr (bytes_Compare target (fst (es ! i)))"
proof -
  obtain d off where o: "sf_fp sf = Some d" "entryOffset sf i = Inr (int off)"
    "seg d off (sst_header (es ! i))" "seg d (off + 9) (fst (es ! i))" "sst_fits (es ! i)"
    using assms by (rule sst_holdsE)
  have "sf_ReadAt sf (length (fst (es ! i))) (int off + 9) = Inr (fst (es ! i))"
    by (rule seg_ReadAt[OF o(1,4)]) simp_all
  then show ?thesis using o(2) sf_header_ok[OF o(1,3,5)] by (simp add: compareKeyAt_def)
qed

text \<open>Both binary searches find the lower bound.\<close>

lemma findPosExact_loop_ok:
  "sst_holds sf es \<Longrightarrow> lo \<le> lower_bound (keys_of es) target \<Longrightarrow> lower_bound (keys_of es) target \<le> hi \<Longrightarrow>
    hi \<le> length es \<Longrightarrow> (target \<in> set (keys_of es) \<longrightarrow> lower_bound (keys_of es) target < hi) \<Longrightarrow>
    findPosExact_loop sf target lo hi = Inr (lower_bound (keys_of es) target, target \<in> set (keys_of es))"
proof (induction sf target lo hi rule: findPosExact_loop.induct)
  case (1 sf target lo hi)
  let ?lb = "lower_bound (keys_of es) target" and ?mid = "lo + (hi - lo) div 2"
  have ss: "ssorted (keys_of es)" using 1(3) by (simp add: sst_holds_def)
  have s: "sorted (keys_of es)" using ss by (rule ssorted_imp_sorted)
  show ?case
  proof (cases "lo < hi")
    case False
    then have "?lb = lo" "target \<notin> set (keys_of es)" using 1 by auto
    then show ?thesis using False by (simp add: findPosExact_loop.simps[of sf] del: set_map)
  next
    case True
    then have mid: "?mid < length es" "?mid < hi" using 1(6) by auto
    note cmp = compareKeyAt_ok[OF 1(3) mid(1), of target]
    have lt: "?mid < ?lb \<longleftrightarrow> fst (es ! ?mid) < target"
      using lower_less_iff[OF s, of ?mid target] mid by simp
    have mem: "target \<in> set (keys_of es) \<Longrightarrow> fst (es ! ?lb) = target"
      using lower_bound_mem_iff[OF s, of target] by auto
    consider (gt) "fst (es ! ?mid) < target" | (eq) "fst (es ! ?mid) = target" | (lt) "target < fst (es ! ?mid)"
      by fastforce
    then show ?thesis
    proof cases
      case gt
      have "findPosExact_loop sf target (?mid + 1) hi = Inr (?lb, target \<in> set (keys_of es))"
        using gt lt by (intro 1(1)[OF True refl cmp _ 1(3)]) (use 1(5-7) in auto)
      then show ?thesis using True gt cmp by (simp add: findPosExact_loop.simps[of sf target lo hi] Let_def del: set_map)
    next
      case eq
      have "?lb = ?mid" using lower_nth[OF ss, of ?mid] eq mid by simp
      moreover have "target \<in> set (keys_of es)" using eq mid by (metis length_map nth_map nth_mem)
      ultimately show ?thesis using True eq cmp
        by (simp add: findPosExact_loop.simps[of sf target lo hi] Let_def del: set_map)
    next
      case lt
      then have le: "?lb \<le> ?mid" using \<open>?mid < ?lb \<longleftrightarrow> fst (es ! ?mid) < target\<close> by (auto simp: not_less)
      moreover have "target \<in> set (keys_of es) \<longrightarrow> ?lb \<noteq> ?mid" using mem lt by (metis order_less_irrefl)
      ultimately have "findPosExact_loop sf target lo ?mid = Inr (?lb, target \<in> set (keys_of es))"
        using lt mid by (intro 1(2)[OF True refl cmp _ _ 1(3,4)]) auto
      then show ?thesis using True lt cmp by (auto simp: findPosExact_loop.simps[of sf target lo hi] Let_def simp del: set_map)
    qed
  qed
qed

lemma findPos_loop_ok:
  "sst_holds sf es \<Longrightarrow> lo \<le> lower_bound (keys_of es) target \<Longrightarrow> lower_bound (keys_of es) target \<le> hi \<Longrightarrow>
    hi \<le> length es \<Longrightarrow> findPos_loop sf target lo hi = Inr (lower_bound (keys_of es) target)"
proof (induction sf target lo hi rule: findPos_loop.induct)
  case (1 sf target lo hi)
  let ?lb = "lower_bound (keys_of es) target" and ?mid = "lo + (hi - lo) div 2"
  have ss: "ssorted (keys_of es)" using 1(3) by (simp add: sst_holds_def)
  have s: "sorted (keys_of es)" using ss by (rule ssorted_imp_sorted)
  show ?case
  proof (cases "lo < hi")
    case False
    then have "?lb = lo" using 1 by auto
    then show ?thesis using False by (simp add: findPos_loop.simps[of sf])
  next
    case True
    then have mid: "?mid < length es" using 1(6) by auto
    note cmp = compareKeyAt_ok[OF 1(3) mid, of target]
    have mlt: "?mid < ?lb \<longleftrightarrow> fst (es ! ?mid) < target"
      using lower_less_iff[OF s, of ?mid target] mid by simp
    consider (gt) "fst (es ! ?mid) < target" | (eq) "fst (es ! ?mid) = target" | (lt) "target < fst (es ! ?mid)"
      by fastforce
    then show ?thesis
    proof cases
      case gt
      have "findPos_loop sf target (?mid + 1) hi = Inr ?lb"
        using gt mlt by (intro 1(1)[OF True refl cmp _ 1(3)]) (use 1(5,6) in auto)
      then show ?thesis using True gt cmp by (simp add: findPos_loop.simps[of sf target lo hi] Let_def)
    next
      case eq
      have "?lb = ?mid" using lower_nth[OF ss, of ?mid] eq mid by simp
      then show ?thesis using True eq cmp by (simp add: findPos_loop.simps[of sf target lo hi] Let_def)
    next
      case lt
      then have le: "?lb \<le> ?mid" using mlt by (auto simp: not_less)
      then have "findPos_loop sf target lo ?mid = Inr ?lb"
        using lt mid by (intro 1(2)[OF True refl cmp _ _ 1(3,4)]) auto
      then show ?thesis using True lt cmp by (auto simp: findPos_loop.simps[of sf target lo hi] Let_def)
    qed
  qed
qed

lemma findPos_ok: "sst_holds sf es \<Longrightarrow> findPos sf k = Inr (lower_bound (keys_of es) k)"
  using lower_bound_le[of "keys_of es" k]
  by (simp add: findPos_def findPos_loop_ok[of sf es] sst_holds_def[of sf es])

lemma findPosExact_ok:
  assumes "sst_holds sf es"
  shows "findPosExact sf k = Inr (lower_bound (keys_of es) k, k \<in> set (keys_of es))"
proof -
  have s: "sorted (keys_of es)" and n: "sf_nkeys sf = length es"
    using assms by (auto simp: sst_holds_def sorted_simps)
  show ?thesis unfolding findPosExact_def n
    using lower_bound_le[of "keys_of es" k] lower_bound_mem_iff[OF s, of k]
    by (intro findPosExact_loop_ok[OF assms]) auto
qed

section \<open>The contracts\<close>

definition file_cursor :: "SortedFileIter \<Rightarrow> kvd list \<Rightarrow> int \<Rightarrow> bool" where
  "file_cursor it es p \<longleftrightarrow> sst_holds (fi_file it) es \<and> p = fi_pos it \<and> - 1 \<le> p \<and> p \<le> int (length es) \<and>
     (0 \<le> p \<and> p < int (length es) \<longrightarrow> (fi_key it, fi_val it, fi_deleted it) = es ! nat p)"

lemma sst_nkeys: "sst_holds sf es \<Longrightarrow> sf_nkeys sf = length es"
  by (simp add: sst_holds_def)

lemma loadCurrent_cursor:
  assumes "sst_holds (fi_file it) es" and "- 1 \<le> fi_pos it" and "fi_pos it \<le> int (length es)"
  shows "\<exists>it'. loadCurrent it = Inr it' \<and> file_cursor it' es (fi_pos it)"
proof (cases "FileIter_Valid it")
  case True
  then have "0 \<le> fi_pos it" "fi_pos it < int (length es)" using sst_nkeys[OF assms(1)] by (auto simp: FileIter_Valid_def)
  then show ?thesis using True assms sf_index_ok[OF assms(1), of "nat (fi_pos it)"]
    by (cases "es ! nat (fi_pos it)") (auto simp: loadCurrent_def file_cursor_def)
next
  case False
  then show ?thesis using assms sst_nkeys[OF assms(1)] by (auto simp: loadCurrent_def file_cursor_def FileIter_Valid_def)
qed

interpretation file_iter: kv_iter file_ops file_cursor
proof
  fix it es p assume c: "file_cursor it es p"
  then have h: "sst_holds (fi_file it) es" and p: "p = fi_pos it" "- 1 \<le> p" "p \<le> int (length es)"
    and cur: "0 \<le> p \<and> p < int (length es) \<longrightarrow> (fi_key it, fi_val it, fi_deleted it) = es ! nat p"
    by (auto simp: file_cursor_def)
  show "ssorted (keys_of es)" using h by (simp add: sst_holds_def)
  show "- 1 \<le> p \<and> p \<le> int (length es)" using p by simp
  show "i_Valid file_ops it \<longleftrightarrow> 0 \<le> p \<and> p < int (length es)"
    using sst_nkeys[OF h] p by (simp add: file_ops_def FileIter_Valid_def)
  show "i_Key file_ops it = Inr (fst (es ! nat p))" "i_Val file_ops it = Inr (fst (snd (es ! nat p)))"
    "i_Deleted file_ops it = Inr (snd (snd (es ! nat p)))" if "0 \<le> p" "p < int (length es)"
    using cur that by (metis file_ops_def fst_conv snd_conv iter_ops.select_convs(2-4))+
  show "\<exists>it'. i_Next file_ops it = Inr it' \<and> file_cursor it' es (min (int (length es)) (p + 1))"
    using h sst_nkeys[OF h] p loadCurrent_cursor[of "if fi_pos it < int (sf_nkeys (fi_file it)) then it\<lparr>fi_pos := fi_pos it + 1\<rparr> else it" es]
    by (auto simp: file_ops_def FileIter_Next_def split: if_splits)
  show "\<exists>it'. i_Prev file_ops it = Inr it' \<and> file_cursor it' es (max (- 1) (p - 1))"
  proof (cases "0 \<le> fi_pos it")
    case True
    then show ?thesis using h p loadCurrent_cursor[of "it\<lparr>fi_pos := fi_pos it - 1\<rparr>" es]
      by (auto simp: file_ops_def FileIter_Prev_def)
  next
    case False
    then have "fi_pos it = - 1" using p by linarith
    then show ?thesis using h p loadCurrent_cursor[of it es] by (auto simp: file_ops_def FileIter_Prev_def)
  qed
qed

interpretation file_source: kv_source file_ops file_cursor file_kv_ops sst_holds
proof
  fix sf es assume h: "sst_holds sf es"
  show "ssorted (keys_of es)" using h by (simp add: sst_holds_def)
  show "length es \<le> k_EstimatedSize file_kv_ops sf" using sst_nkeys[OF h] by (simp add: file_kv_ops_def)
  have at: "\<exists>it. loadCurrent (FileIter_at sf p) = Inr it \<and> file_cursor it es p"
    if "- 1 \<le> p" "p \<le> int (length es)" for p
    using loadCurrent_cursor[of "FileIter_at sf p" es] h that by (simp add: FileIter_at_def)
  show "\<exists>it. k_Iter file_kv_ops sf = Inr it \<and> file_cursor it es 0"
    using at[of 0] by (simp add: file_kv_ops_def SortedFile_Iter_def)
  show "\<exists>it. k_Seek file_kv_ops sf k = Inr it \<and> file_cursor it es (int (lower_bound (keys_of es) k))" for k
    using at[of "int (lower_bound (keys_of es) k)"] lower_bound_le[of "keys_of es" k] findPos_ok[OF h, of k]
    by (simp add: file_kv_ops_def SortedFile_Seek_def)
  show "\<exists>it. k_SeekToLast file_kv_ops sf = Inr it \<and> file_cursor it es (int (length es) - 1)"
    using at[of "int (length es) - 1"] sst_nkeys[OF h] by (simp add: file_kv_ops_def SortedFile_SeekToLast_def)
  show "g sf k = Inr (map_of es k)" if "k_getExact file_kv_ops = Some g" for g k
  proof -
    have g: "g = SortedFile_getExact" using that by (simp add: file_kv_ops_def)
    have ss: "ssorted (keys_of es)" and s: "sorted (keys_of es)" using h by (auto simp: sst_holds_def sorted_simps)
    have bl: "k \<in> set (keys_of es) \<Longrightarrow> mayContainKey sf k" using h by (auto simp: sst_holds_def)
    show ?thesis
    proof (cases "k \<in> set (keys_of es)")
      case False
      then have "map_of es k = None" by (simp add: map_of_eq_None_iff)
      then show ?thesis using False findPosExact_ok[OF h, of k] by (simp add: g SortedFile_getExact_def del: set_map)
    next
      case True
      then have lb: "lower_bound (keys_of es) k < length es" "fst (es ! lower_bound (keys_of es) k) = k"
        using lower_bound_mem_iff[OF s, of k] by auto
      then have "map_of es k = Some (snd (es ! lower_bound (keys_of es) k))"
        using nth_map_of[OF ss, of "lower_bound (keys_of es) k"] by simp
      then show ?thesis using True bl lb findPosExact_ok[OF h, of k] valueAt_ok[OF h]
        by (simp add: g SortedFile_getExact_def del: set_map)
    qed
  qed
qed

section \<open>A written table holds its source\<close>

fun rec_offs :: "nat \<Rightarrow> kvd list \<Rightarrow> nat list" where
  "rec_offs base [] = []"
| "rec_offs base (e # es) = base # rec_offs (base + length (sst_record e)) es"

definition rec_end :: "nat \<Rightarrow> kvd list \<Rightarrow> nat" where
  "rec_end base es = base + length (concat (map sst_record es))"

lemma rec_end_simps [simp]:
  "rec_end base [] = base" "rec_end base (e # es) = rec_end (base + length (sst_record e)) es"
  "rec_end base (es @ [e]) = rec_end base es + length (sst_record e)"
  by (simp_all add: rec_end_def)

lemma length_sst_record: "length (sst_record e) = 9 + length (fst e) + length (fst (snd e))"
  by (simp add: sst_record_def)

lemma length_rec_offs [simp]: "length (rec_offs base es) = length es"
  by (induction es arbitrary: base) auto

lemma rec_offs_snoc [simp]: "rec_offs base (es @ [e]) = rec_offs base es @ [rec_end base es]"
  by (induction es arbitrary: base) auto

lemma rec_offs_range:
  "i < length es \<Longrightarrow> base \<le> rec_offs base es ! i \<and> rec_offs base es ! i + length (sst_record (es ! i)) \<le> rec_end base es"
proof (induction es arbitrary: base i)
  case (Cons e es)
  have "base + length (sst_record e) \<le> rec_end (base + length (sst_record e)) es" by (simp add: rec_end_def)
  then show ?case using Cons.IH[of "i - 1" "base + length (sst_record e)"] Cons.prems
    by (cases i) auto
qed simp

lemma rec_end_ge: "base \<le> rec_end base es"
  by (simp add: rec_end_def)

definition sst_inv :: "bytes \<Rightarrow> nat \<Rightarrow> kvd list \<Rightarrow> bool" where
  "sst_inv d est es \<longleftrightarrow> length d \<le> rec_end (8 + 8 * est) es \<and>
     (\<forall>i < length es. seg d (8 + 8 * i) (PutUint64 (word_of_nat (rec_offs (8 + 8 * est) es ! i))) \<and>
        seg d (rec_offs (8 + 8 * est) es ! i) (sst_record (es ! i)))"

lemma seg_write: "off \<le> length d \<or> bs \<noteq> [] \<Longrightarrow> seg (write_at d off bs) off bs"
  using seg_write_same by (cases "bs = []") (auto simp: seg_def write_at_def)

lemma length_write_at_le: "length d \<le> n \<Longrightarrow> off + length bs \<le> n \<Longrightarrow> length (write_at d off bs) \<le> n"
  by (cases "bs = []") (auto simp: length_write_at write_at_def)

lemma sst_inv_step:
  fixes d e es est
  defines "off \<equiv> rec_end (8 + 8 * est) es" and "k \<equiv> fst e" and "v \<equiv> fst (snd e)"
  assumes inv: "sst_inv d est es" and room: "length es < est"
  shows "sst_inv (write_at (write_at (write_at (write_at d (8 + 8 * length es) (PutUint64 (word_of_nat off)))
      off (sst_header e)) (off + 9) k) (off + 9 + length k) v) est (es @ [e])"
proof -
  let ?d1 = "write_at d (8 + 8 * length es) (PutUint64 (word_of_nat off))"
  let ?d2 = "write_at ?d1 off (sst_header e)"
  let ?d3 = "write_at ?d2 (off + 9) k"
  let ?d4 = "write_at ?d3 (off + 9 + length k) v"
  have base: "8 + 8 * est \<le> off" using rec_end_ge by (simp add: off_def)
  have ix: "8 + 8 * length es + 8 \<le> 8 + 8 * est" using room by simp
  have later3: "seg ?d4 o' bs" if "seg ?d3 o' bs" "o' + length bs \<le> off + 9 + length k" for o' bs
    using that by (intro seg_write_other[of ?d3]) auto
  have later2: "seg ?d4 o' bs" if "seg ?d2 o' bs" "o' + length bs \<le> off + 9" for o' bs
    using that by (intro later3 seg_write_other[of ?d2]) auto
  have later: "seg ?d4 o' bs" if "seg ?d1 o' bs" "o' + length bs \<le> off" for o' bs
    using that by (intro later2 seg_write_other[of ?d1]) auto
  have old: "seg ?d1 o' bs" if "seg d o' bs" "o' + length bs \<le> 8 + 8 * length es \<or> 8 + 8 * est \<le> o'" for o' bs
    using that ix by (intro seg_write_other[of d]) auto
  have ne: "sst_header e \<noteq> []" by (simp add: sst_header_def)
  have l2: "off + 9 \<le> length ?d2" using length_write_at[OF ne, of ?d1 off] by simp
  have l3: "off + 9 + length k \<le> length ?d3"
    using l2 by (cases "k = []") (simp add: write_at_def, simp add: length_write_at)
  have hdr: "seg ?d4 off (sst_header e)"
    using ne by (intro later2 seg_write) auto
  moreover have key: "seg ?d4 (off + 9) k" using l2 by (intro later3 seg_write) auto
  moreover have val: "seg ?d4 (off + 9 + length k) v" using l3 by (intro seg_write) auto
  ultimately have rec: "seg ?d4 off (sst_record e)"
    by (simp add: sst_record_def seg_append k_def v_def add.assoc)
  have idx: "seg ?d4 (8 + 8 * length es) (PutUint64 (word_of_nat off))"
    using ix base by (intro later seg_write) auto
  have len: "length ?d4 \<le> rec_end (8 + 8 * est) (es @ [e])"
    using inv ix base by (intro length_write_at_le) (auto simp: sst_inv_def off_def k_def v_def length_sst_record)
  have rest: "seg ?d4 (8 + 8 * i) (PutUint64 (word_of_nat (rec_offs (8 + 8 * est) es ! i))) \<and>
      seg ?d4 (rec_offs (8 + 8 * est) es ! i) (sst_record (es ! i))" if i: "i < length es" for i
    using inv i rec_offs_range[OF i, of "8 + 8 * est"] base ix
    by (intro conjI later old) (auto simp: sst_inv_def off_def)
  show ?thesis unfolding sst_inv_def
  proof (intro conjI allI impI)
    fix i assume "i < length (es @ [e])"
    then consider "i < length es" | "i = length es" by fastforce
    then show "seg ?d4 (8 + 8 * i) (PutUint64 (word_of_nat (rec_offs (8 + 8 * est) (es @ [e]) ! i)))"
      and "seg ?d4 (rec_offs (8 + 8 * est) (es @ [e]) ! i) (sst_record ((es @ [e]) ! i))"
      using rest[of i] idx rec by (cases; simp add: nth_append off_def)+
  qed (rule len)
qed

text \<open>The in-memory index, while it is filled.\<close>

definition idx_inv :: "bytes \<Rightarrow> nat \<Rightarrow> kvd list \<Rightarrow> bool" where
  "idx_inv idx est es \<longleftrightarrow> idx = [] \<or>
     (length idx = 8 * est \<and> take (8 * length es) idx = sst_index (rec_offs (8 + 8 * est) es))"

lemma sst_index_snoc [simp]: "sst_index (offs @ [x]) = sst_index offs @ PutUint64 (word_of_nat x)"
  by (simp add: sst_index_def)

lemma idx_inv_step:
  assumes "idx_inv idx est es" and "length es < est"
  shows "idx_inv (if length idx \<ge> 8 * (length es + 1)
      then take (8 * length es) idx @ PutUint64 (word_of_nat (rec_end (8 + 8 * est) es)) @ drop (8 * (length es + 1)) idx
      else idx) est (es @ [e])"
  using assms by (auto simp: idx_inv_def min_def)

definition bloom_has :: "'b bloomLib \<Rightarrow> 'b \<Rightarrow> kvd list \<Rightarrow> bool" where
  "bloom_has bl flt es \<longleftrightarrow> (\<forall>k \<in> set (keys_of es). bl_Test bl flt k)"

context fwd_iter begin

lemma writeSortedFile_loop_ok:
  assumes "bloom_ok bl" and "length es \<le> est"
    and "rep it es (int j)" and "sst_inv (f_data f) est (take j es)" and "idx_inv idx est (take j es)"
    and "bloom_has bl flt (take j es)" and "length es - j \<le> fuel"
    and "writeSortedFile_loop fuel bl ops it f idx j (rec_end (8 + 8 * est) (take j es)) flt = (f', r)"
  shows "(\<forall>idx' n off flt'. r = Inr (idx', n, off, flt') \<longrightarrow> n = length es \<and> off = rec_end (8 + 8 * est) es \<and>
      sst_inv (f_data f') est es \<and> idx_inv idx' est es \<and> bloom_has bl flt' es) \<and>
    (f_faults f = [] \<longrightarrow> (\<exists>x. r = Inr x) \<and> f_faults f' = [])"
  using assms(3-)
proof (induction fuel arbitrary: it j f idx flt)
  case (0 it j f idx flt)
  then have "j = length es" using rep_range[OF 0(1)] by simp
  then show ?case using 0 Valid_iff[OF 0(1)] by (auto simp: writeSortedFile_loop.simps)
next
  case (Suc fuel it j f idx flt)
  show ?case
  proof (cases "j < length es")
    case False
    then have "j = length es" using rep_range[OF Suc.prems(1)] by simp
    then show ?thesis using Suc.prems Valid_iff[OF Suc.prems(1)] by (auto simp: writeSortedFile_loop.simps)
  next
    case True
    let ?e = "es ! j" and ?es = "take j es" and ?off = "rec_end (8 + 8 * est) (take j es)"
    obtain k v d where e: "es ! j = (k, v, d)" by (rule prod_cases3)
    have vld: "i_Valid ops it" "i_Key ops it = Inr k" "i_Val ops it = Inr v" "i_Deleted ops it = Inr d"
      using Valid_iff[OF Suc.prems(1)] Key_nth[OF Suc.prems(1)] Val_nth[OF Suc.prems(1)] Deleted_nth[OF Suc.prems(1)] True e by auto
    have "min (int (length es)) (int j + 1) = int (Suc j)" using True by simp
    then obtain it1 where it1: "i_Next ops it = Inr it1" "rep it1 es (int (Suc j))"
      using Next_step[OF Suc.prems(1)] by auto
    have tk: "take (Suc j) es = ?es @ [?e]" and lj: "length ?es = j" using True by (simp_all add: take_Suc_conv_app_nth)
    let ?idx = "if length idx \<ge> 8 * (j + 1) then take (8 * j) idx @ PutUint64 (word_of_nat ?off) @ drop (8 * (j + 1)) idx else idx"
    obtain f1 r1 where w1: "WriteAt f (PutUint64 (word_of_nat ?off)) (8 + 8 * j) = (f1, r1)" by fastforce
    obtain f2 r2 where w2: "WriteAt f1 (sst_header ?e) ?off = (f2, r2)" by fastforce
    obtain f3 r3 where w3: "WriteAt f2 k (?off + 9) = (f3, r3)" by fastforce
    obtain f4 r4 where w4: "WriteAt f3 v (?off + 9 + length k) = (f4, r4)" by fastforce
    have unf: "writeSortedFile_loop (Suc fuel) bl ops it f idx j ?off flt =
        sbind (f1, r1) (\<lambda>_ _. sbind (f2, r2) (\<lambda>_ _. sbind (f3, r3) (\<lambda>_ _. sbind (f4, r4) (\<lambda>_ _.
          writeSortedFile_loop fuel bl ops it1 f4 ?idx (Suc j) (rec_end (8 + 8 * est) (take (Suc j) es)) (bl_Add bl flt k)))))"
      using vld it1(1) w1 e w2 w3 w4
      by (cases r1; cases r2; cases r3; cases r4)
        (simp_all add: writeSortedFile_loop.simps[of "Suc fuel"] Let_def tk e length_sst_record add.assoc)
    show ?thesis
    proof (cases "r1 = Inr () \<and> r2 = Inr () \<and> r3 = Inr () \<and> r4 = Inr ()")
      case True
      have "f_data f4 = write_at (write_at (write_at (write_at (f_data f) (8 + 8 * j) (PutUint64 (word_of_nat ?off)))
          ?off (sst_header ?e)) (?off + 9) k) (?off + 9 + length k) v"
        using w1 w2 w3 w4 True by (auto elim!: WriteAt_okE)
      moreover have "length ?es < est" using \<open>j < length es\<close> assms(2) lj by simp
      ultimately have inv: "sst_inv (f_data f4) est (take (Suc j) es)"
        using sst_inv_step[OF Suc.prems(2), of ?e] lj unfolding tk by (simp add: e)
      have idx: "idx_inv ?idx est (take (Suc j) es)"
        using idx_inv_step[OF Suc.prems(3) \<open>length ?es < est\<close>, of ?e, unfolded lj] unfolding tk .
      have bl: "bloom_has bl (bl_Add bl flt k) (take (Suc j) es)"
        using Suc.prems(4) assms(1) e unfolding tk by (auto simp: bloom_has_def bloom_ok_def)
      have fuel: "length es - Suc j \<le> fuel" using Suc.prems(5) by simp
      have loop: "writeSortedFile_loop fuel bl ops it1 f4 ?idx (Suc j) (rec_end (8 + 8 * est) (take (Suc j) es)) (bl_Add bl flt k) = (f', r)"
        using Suc.prems(6) unf True by simp
      have "f_faults f = [] \<Longrightarrow> f_faults f4 = []"
        using w1 w2 w3 w4 by (auto dest!: WriteAt_nofault)
      then show ?thesis using Suc.IH[OF it1(2) inv idx bl fuel loop] by simp
    next
      case False
      have "f_faults f \<noteq> []" using False w1 w2 w3 w4 by (auto dest!: WriteAt_nofault)
      moreover have "\<exists>e. r = Inl e" using False Suc.prems(6) unf by (cases r1; cases r2; cases r3; cases r4) auto
      ultimately show ?thesis by auto
    qed
  qed
qed

end

text \<open>The content of a finished table.\<close>

definition sst_content :: "'b bloomLib \<Rightarrow> bytes \<Rightarrow> nat \<Rightarrow> kvd list \<Rightarrow> 'b \<Rightarrow> bool" where
  "sst_content bl d est es flt \<longleftrightarrow> (\<exists>bd. bl_MarshalBinary bl flt = Inr bd \<and>
     seg d 0 (PutUint64 (word_of_nat (length es))) \<and>
     (\<forall>i < length es. seg d (8 + 8 * i) (PutUint64 (word_of_nat (rec_offs (8 + 8 * est) es ! i))) \<and>
        seg d (rec_offs (8 + 8 * est) es ! i) (sst_record (es ! i))) \<and>
     seg d (rec_end (8 + 8 * est) es) (bd @ PutUint64 (word_of_nat (length bd)) @ sortedFileBloomMagic) \<and>
     length d = rec_end (8 + 8 * est) es + length bd + 16)"

lemma sst_finish:
  assumes inv: "sst_inv d est es" and est: "length es \<le> est" and bd: "bl_MarshalBinary bl flt = Inr bd"
    and ne: "bd \<noteq> []"
  shows "sst_content bl (write_at (write_at (write_at d 0 (PutUint64 (word_of_nat (length es))))
      (rec_end (8 + 8 * est) es) bd) (rec_end (8 + 8 * est) es + length bd)
      (PutUint64 (word_of_nat (length bd)) @ sortedFileBloomMagic)) est es flt"
proof -
  let ?eor = "rec_end (8 + 8 * est) es" and ?ft = "PutUint64 (word_of_nat (length bd)) @ sortedFileBloomMagic"
  let ?d1 = "write_at d 0 (PutUint64 (word_of_nat (length es)))"
  let ?d2 = "write_at ?d1 ?eor bd"
  let ?d3 = "write_at ?d2 (?eor + length bd) ?ft"
  have base: "8 + 8 * est \<le> ?eor" by (rule rec_end_ge)
  have lft: "length ?ft = 16" "?ft \<noteq> []" by (simp_all add: sortedFileBloomMagic_def)
  have later2: "seg ?d3 o' bs" if "seg ?d2 o' bs" "o' + length bs \<le> ?eor + length bd" for o' bs
    using that by (intro seg_write_other[of ?d2]) auto
  have later1: "seg ?d3 o' bs" if "seg ?d1 o' bs" "o' + length bs \<le> ?eor" for o' bs
    using that by (intro later2 seg_write_other[of ?d1]) auto
  have old: "seg ?d3 o' bs" if "seg d o' bs" "8 \<le> o'" "o' + length bs \<le> ?eor" for o' bs
    using that by (intro later1 seg_write_other[of d]) auto
  have n: "seg ?d3 0 (PutUint64 (word_of_nat (length es)))"
    using base by (intro later1 seg_write) auto
  have segs: "seg ?d3 (8 + 8 * i) (PutUint64 (word_of_nat (rec_offs (8 + 8 * est) es ! i))) \<and>
      seg ?d3 (rec_offs (8 + 8 * est) es ! i) (sst_record (es ! i))" if i: "i < length es" for i
    using inv i rec_offs_range[OF i, of "8 + 8 * est"] base est by (intro conjI old) (auto simp: sst_inv_def)
  have "seg ?d3 ?eor bd" using ne by (intro later2 seg_write) auto
  moreover have "seg ?d3 (?eor + length bd) ?ft" using lft by (intro seg_write) auto
  ultimately have tail: "seg ?d3 ?eor (bd @ ?ft)" by (simp only: seg_append simp_thms)
  have "length ?d1 \<le> ?eor" using inv base by (intro length_write_at_le) (auto simp: sst_inv_def)
  then have "length ?d3 = ?eor + length bd + 16"
    using ne lft by (simp add: length_write_at max_def)
  then show ?thesis using bd n segs tail unfolding sst_content_def by blast
qed

context fwd_source begin

lemma writeSortedFile_ok:
  assumes bl: "bloom_ok bl" and s: "src kv es" and f: "f_data f = []"
    and wr: "writeSortedFile bl ops kops kv f = (f', r)"
  shows "(\<forall>sf. r = Inr sf \<longrightarrow> (\<exists>flt. sf_fp sf = Some (f_data f') \<and> sf_nkeys sf = length es \<and>
      sst_content bl (f_data f') (k_EstimatedSize kops kv) es flt \<and> bloom_has bl flt es \<and>
      (sf_offsetIndex sf = [] \<or> sf_offsetIndex sf = sst_index (rec_offs (8 + 8 * k_EstimatedSize kops kv) es)) \<and>
      sf_bloom sf = Some (bl_Test bl flt) \<and> f_synced f' = f_data f' \<and> f_pending f' = [])) \<and>
    (f_faults f = [] \<longrightarrow> (\<forall>flt. \<exists>d. bl_MarshalBinary bl flt = Inr d) \<longrightarrow> (\<exists>sf. r = Inr sf))"
proof -
  let ?est = "k_EstimatedSize kops kv"
  let ?flt = "newSortedFileBloom bl ?est"
  let ?idx = "if 8 * ?est \<le> sortedFileMaxOffsetIndexBytes then replicate (8 * ?est) 0 else [] :: bytes"
  obtain it where it: "k_Iter kops kv = Inr it" "rep it es (int 0)" using Iter_rep[OF s] by auto
  have est: "length es \<le> ?est" by (rule Size_ge[OF s])
  have inv0: "sst_inv (f_data f) ?est (take 0 es)" by (simp add: sst_inv_def f)
  have idx0: "idx_inv ?idx ?est (take 0 es)" by (simp add: idx_inv_def sst_index_def)
  have bl0: "bloom_has bl ?flt (take 0 es)" by (simp add: bloom_has_def)
  obtain f1 r1 where lp: "writeSortedFile_loop ?est bl ops it f ?idx 0 (rec_end (8 + 8 * ?est) (take 0 es)) ?flt = (f1, r1)"
    by fastforce
  have loop: "\<forall>idx' n off flt'. r1 = Inr (idx', n, off, flt') \<longrightarrow> n = length es \<and> off = rec_end (8 + 8 * ?est) es \<and>
      sst_inv (f_data f1) ?est es \<and> idx_inv idx' ?est es \<and> bloom_has bl flt' es"
    "f_faults f = [] \<longrightarrow> (\<exists>x. r1 = Inr x) \<and> f_faults f1 = []"
    using writeSortedFile_loop_ok[OF bl est it(2) inv0 idx0 bl0 _ lp] est by auto
  show ?thesis
  proof (cases r1)
    case (Inl e)
    then show ?thesis using wr it(1) lp loop(2) by (auto simp: writeSortedFile_def Let_def)
  next
    case (Inr x)
    then obtain idx flt where x: "r1 = Inr (idx, length es, rec_end (8 + 8 * ?est) es, flt)"
      using loop(1) by (cases x) auto
    then have inv: "sst_inv (f_data f1) ?est es" "idx_inv idx ?est es" "bloom_has bl flt es" using loop(1) by auto
    let ?eor = "rec_end (8 + 8 * ?est) es"
    obtain f2 r2 where w2: "WriteAt f1 (PutUint64 (word_of_nat (length es))) 0 = (f2, r2)" by fastforce
    show ?thesis
    proof (cases "bl_MarshalBinary bl flt")
      case (Inl e)
      then have "\<not> (\<forall>flt. \<exists>d. bl_MarshalBinary bl flt = Inr d)" by (metis sum.distinct(1))
      moreover have "\<exists>e. r = Inl e" using wr it(1) lp x est w2 Inl
        by (cases r2) (auto simp: writeSortedFile_def Let_def)
      ultimately show ?thesis by auto
    next
      case (Inr bd)
      let ?ft = "PutUint64 (word_of_nat (length bd)) @ sortedFileBloomMagic"
      let ?ix = "if length idx \<ge> 8 * length es then take (8 * length es) idx else []"
      obtain f3 r3 where w3: "WriteAt f2 bd ?eor = (f3, r3)" by fastforce
      obtain f4 r4 where w4: "WriteAt f3 ?ft (?eor + length bd) = (f4, r4)" by fastforce
      obtain f5 r5 where w5: "Sync f4 = (f5, r5)" by fastforce
      have unf: "(f', r) = sbind (f2, r2) (\<lambda>_ _. sbind (f3, r3) (\<lambda>_ _. sbind (f4, r4) (\<lambda>_ _. sbind (f5, r5) (\<lambda>_ _.
          (f5, Inr \<lparr>sf_fp = Some (f_data f5), sf_nkeys = length es, sf_offsetIndex = ?ix, sf_bloom = Some (bl_Test bl flt)\<rparr>)))))"
        using wr it(1) lp x est w2 w3 w4 w5 Inr
        by (cases r2; cases r3; cases r4; cases r5) (simp_all add: writeSortedFile_def Let_def)
      have ix: "?ix = [] \<or> ?ix = sst_index (rec_offs (8 + 8 * ?est) es)"
        using inv(2) est by (auto simp: idx_inv_def)
      have ne: "bd \<noteq> []" using bl Inr by (auto simp: bloom_ok_def)
      have ok: "sst_content bl (f_data f4) ?est es flt" if "r2 = Inr ()" "r3 = Inr ()" "r4 = Inr ()"
        using sst_finish[OF inv(1) est Inr ne] w2 w3 w4 that by (auto elim!: WriteAt_okE)
      have nf: "r2 = Inr () \<and> r3 = Inr () \<and> r4 = Inr () \<and> r5 = Inr ()" if "f_faults f = []"
        using that loop(2) w2 w3 w4 w5 by (auto dest!: WriteAt_nofault simp: Sync_def)
      show ?thesis
        using unf ok nf ix inv(3) Sync_facts[OF w5]
        by (cases r2; cases r3; cases r4; cases r5) (auto intro!: exI[of _ flt])
    qed
  qed
qed

end

section \<open>A written table reads back\<close>

text \<open>Entries and sizes that the format can hold.\<close>

definition sst_sized :: "nat \<Rightarrow> kvd list \<Rightarrow> bool" where
  "sst_sized est es \<longleftrightarrow> list_all sst_fits es \<and> rec_end (8 + 8 * est) es < 2 ^ 62 \<and> length es \<le> maxNKeys"

lemma sst_content_layout:
  assumes "sst_content bl d est es flt" and "sst_sized est es" and "length es \<le> est"
  shows "sst_layout d (length es) es (rec_offs (8 + 8 * est) es)"
  unfolding sst_layout_def
proof (intro conjI allI impI)
  fix i assume i: "i < length es"
  have r: "8 + 8 * est \<le> rec_offs (8 + 8 * est) es ! i" "rec_offs (8 + 8 * est) es ! i \<le> rec_end (8 + 8 * est) es"
    using rec_offs_range[OF i, of "8 + 8 * est"] by auto
  show "8 + 8 * length es \<le> rec_offs (8 + 8 * est) es ! i" using r(1) assms(3) by simp
  show "rec_offs (8 + 8 * est) es ! i < 2 ^ 63" using r(2) assms(2) by (simp add: sst_sized_def)
  show "sst_fits (es ! i)" using assms(2) i by (simp add: sst_sized_def list_all_length)
qed (use assms(1) in \<open>auto simp: sst_content_def\<close>)

lemma sst_holdsI:
  assumes "sst_content bl d est es flt" and "sst_sized est es" and "length es \<le> est"
    and "ssorted (keys_of es)" and "bloom_has bl flt es"
    and "sf_fp sf = Some d" and "sf_nkeys sf = length es"
    and "sf_offsetIndex sf = [] \<or> sf_offsetIndex sf = sst_index (rec_offs (8 + 8 * est) es)"
    and "sf_bloom sf = Some test" and "\<And>k. test k = bl_Test bl flt k"
  shows "sst_holds sf es"
  using assms sst_content_layout[OF assms(1-3)]
  unfolding sst_holds_def by (auto simp: mayContainKey_def bloom_has_def)

lemma seg_index:
  assumes "\<forall>i < length offs. seg d (base + 8 * i) (PutUint64 (word_of_nat (offs ! i)))" and "base \<le> length d"
  shows "seg d base (sst_index offs)"
  using assms
proof (induction offs arbitrary: base)
  case Nil
  then show ?case by (simp add: seg_def sst_index_def)
next
  case (Cons x xs)
  have hd: "seg d base (PutUint64 (word_of_nat x))" using Cons.prems(1) by force
  have "\<forall>i < length xs. seg d (base + 8 + 8 * i) (PutUint64 (word_of_nat (xs ! i)))"
  proof (intro allI impI)
    fix i assume "i < length xs"
    then show "seg d (base + 8 + 8 * i) (PutUint64 (word_of_nat (xs ! i)))"
      using Cons.prems(1)[rule_format, of "Suc i"] by (simp add: add.assoc)
  qed
  moreover have "base + 8 \<le> length d" using hd by (simp add: seg_def)
  ultimately have "seg d (base + 8) (sst_index xs)" by (rule Cons.IH)
  then have "seg d base (PutUint64 (word_of_nat x) @ sst_index xs)" using hd by (simp add: seg_append)
  then show ?case by (simp add: sst_index_def)
qed

lemma unat_word_of_nat_u64: "n < 2 ^ 63 \<Longrightarrow> unat (word_of_nat n :: u64) = n"
  by (rule unat_word_of_nat_less) simp

lemma loadBloomFilter_ok:
  assumes bl: "bloom_ok bl" and c: "sst_content bl d est es flt" and fp: "sf_fp sf = Some d"
  shows "\<exists>test. loadBloomFilter bl sf = Inr (sf\<lparr>sf_bloom := Some test\<rparr>) \<and> (\<forall>k. test k = bl_Test bl flt k)"
proof -
  let ?eor = "rec_end (8 + 8 * est) es"
  from c obtain bd where bd: "bl_MarshalBinary bl flt = Inr bd"
    and s: "seg d ?eor (bd @ PutUint64 (word_of_nat (length bd)) @ sortedFileBloomMagic)"
    and n: "length d = ?eor + length bd + 16" by (auto simp: sst_content_def)
  let ?ft = "PutUint64 (word_of_nat (length bd)) @ sortedFileBloomMagic"
  have b: "bd \<noteq> []" "length bd < 2 ^ 62" using bl bd by (auto simp: bloom_ok_def)
  obtain b' where b': "bl_UnmarshalBinary bl bd = Inr b'" "bl_Test bl b' = bl_Test bl flt"
    using bl bd unfolding bloom_ok_def by blast
  have s1: "seg d ?eor bd" and s2: "seg d (?eor + length bd) ?ft" using s by (simp_all only: seg_append)
  have m: "length sortedFileBloomMagic = 8" by (simp add: sortedFileBloomMagic_def)
  have r1: "sf_ReadAt sf sortedFileBloomFooterSize (int (length d - sortedFileBloomFooterSize)) = Inr ?ft"
    by (rule seg_ReadAt[OF fp s2]) (simp_all add: m n sortedFileBloomFooterSize_def)
  have "unat (word_of_nat (length bd) :: u64) = length bd" using b(2) by (intro unat_word_of_nat_u64) simp
  moreover have "sf_ReadAt sf (length bd) (int ?eor) = Inr bd" by (rule seg_ReadAt[OF fp s1]) simp_all
  ultimately have "loadBloomFilter bl sf = Inr (sf\<lparr>sf_bloom := Some (bl_Test bl b')\<rparr>)"
    using fp r1 b b' by (simp add: loadBloomFilter_def n Let_def sortedFileBloomFooterSize_def)
  then show ?thesis using b'(2) by (intro exI[of _ "bl_Test bl b'"]) simp
qed

lemma loadOffsetIndex_ok:
  assumes c: "sst_content bl d est es flt" and fp: "sf_fp sf = Some d" and n: "sf_nkeys sf = length es"
  shows "\<exists>idx. loadOffsetIndex sf = Inr (sf\<lparr>sf_offsetIndex := idx\<rparr>) \<and>
    (idx = [] \<or> idx = sst_index (rec_offs (8 + 8 * est) es))"
proof -
  have "8 \<le> length d" using c rec_end_ge[of "8 + 8 * est" es] by (auto simp: sst_content_def)
  then have "seg d 8 (sst_index (rec_offs (8 + 8 * est) es))"
    using c by (intro seg_index) (auto simp: sst_content_def)
  then have "sf_ReadAt sf (length es * 8) 8 = Inr (sst_index (rec_offs (8 + 8 * est) es))"
    by (rule seg_ReadAt[OF fp]) simp_all
  then show ?thesis by (auto simp: loadOffsetIndex_def n Let_def)
qed

lemma SortedFile_Open_ok:
  assumes bl: "bloom_ok bl" and c: "sst_content bl d est es flt" and sz: "sst_sized est es"
    and est: "length es \<le> est" and ss: "ssorted (keys_of es)" and has: "bloom_has bl flt es"
  shows "\<exists>sf. SortedFile_Open bl d = Inr sf \<and> sst_holds sf es"
proof -
  define sf0 where "sf0 = \<lparr>sf_fp = Some d, sf_nkeys = length es, sf_offsetIndex = [], sf_bloom = None\<rparr>"
  have fp: "sf_fp sf0 = Some d" "sf_nkeys sf0 = length es" by (simp_all add: sf0_def)
  obtain idx where idx: "loadOffsetIndex sf0 = Inr (sf0\<lparr>sf_offsetIndex := idx\<rparr>)"
    "idx = [] \<or> idx = sst_index (rec_offs (8 + 8 * est) es)" using loadOffsetIndex_ok[OF c fp] by blast
  have fp1: "sf_fp (sf0\<lparr>sf_offsetIndex := idx\<rparr>) = Some d" by (simp add: fp)
  obtain test where test: "loadBloomFilter bl (sf0\<lparr>sf_offsetIndex := idx\<rparr>) = Inr (sf0\<lparr>sf_offsetIndex := idx, sf_bloom := Some test\<rparr>)"
    "\<forall>k. test k = bl_Test bl flt k" using loadBloomFilter_ok[OF bl c fp1] by auto
  have s0: "seg d 0 (PutUint64 (word_of_nat (length es)))" using c by (auto simp: sst_content_def)
  have "sf_ReadAt \<lparr>sf_fp = Some d, sf_nkeys = 0, sf_offsetIndex = [], sf_bloom = None\<rparr> 8 0 =
      Inr (PutUint64 (word_of_nat (length es)))"
    by (rule seg_ReadAt[OF _ s0]) simp_all
  moreover have "length es \<le> maxNKeys" using sz by (simp add: sst_sized_def)
  moreover from this have "sint (word_of_nat (length es) :: u64) = int (length es)"
    by (intro sint_word_of_nat) (simp add: maxNKeys_def)
  ultimately have "SortedFile_Open bl d = Inr (sf0\<lparr>sf_offsetIndex := idx, sf_bloom := Some test\<rparr>)"
    using idx(1) test(1) by (simp add: SortedFile_Open_def openExisting_def Let_def sf0_def)
  moreover have "sst_holds (sf0\<lparr>sf_offsetIndex := idx, sf_bloom := Some test\<rparr>) es"
    by (rule sst_holdsI[where test = test, OF c sz est ss has]) (use fp idx(2) test(2) in simp_all)
  ultimately show ?thesis by blast
qed

context fwd_source begin

text \<open>
  Writing a source to a fresh file: when it succeeds, the table holds the entries, is durable,
  and reopens to the same entries; without I/O faults it succeeds.
\<close>

lemma writeSortedFile_holds:
  assumes bl: "bloom_ok bl" and s: "src kv es" and f: "f_data f = []"
    and sz: "sst_sized (k_EstimatedSize kops kv) es"
    and wr: "writeSortedFile bl ops kops kv f = (f', Inr sf)"
  shows "sst_holds sf es \<and> f_synced f' = f_data f' \<and> f_pending f' = [] \<and> sf_fp sf = Some (f_data f') \<and>
    (\<exists>sf'. SortedFile_Open bl (f_data f') = Inr sf' \<and> sst_holds sf' es)"
proof -
  from writeSortedFile_ok[OF bl s f wr] obtain flt where
    w: "sf_fp sf = Some (f_data f')" "sf_nkeys sf = length es"
      "sst_content bl (f_data f') (k_EstimatedSize kops kv) es flt" "bloom_has bl flt es"
      "sf_offsetIndex sf = [] \<or> sf_offsetIndex sf = sst_index (rec_offs (8 + 8 * k_EstimatedSize kops kv) es)"
      "sf_bloom sf = Some (bl_Test bl flt)" "f_synced f' = f_data f'" "f_pending f' = []" by auto
  show ?thesis
    using sst_holdsI[OF w(3) sz Size_ge[OF s] src_sorted[OF s] w(4,1,2,5,6)]
      SortedFile_Open_ok[OF bl w(3) sz Size_ge[OF s] src_sorted[OF s] w(4)] w by blast
qed

end

end
