(* ===== verification/Scan.thy ===== *)
theory Scan
  imports Merge
begin

text \<open>
  The scans of \<open>src/db/kv.go\<close>: iterators that step over tombstones (\<open>filterDeleted\<close>,
  \<open>NoDeletedIter\<close>) and range scans in both directions (\<open>RangedKVIter\<close>, \<open>Range\<close>).  Over any
  iterator that keeps its contract, the first is an iterator over the live entries, and a range
  scan visits exactly the live entries between its bounds, in order.
\<close>

section \<open>Stepping over tombstones\<close>

partial_function (option) skip_deleted :: "('i \<Rightarrow> 'i res) \<Rightarrow> 'i iter_ops \<Rightarrow> 'i \<Rightarrow> 'i res option" where
  "skip_deleted step ops it =
     (if i_Valid ops it then
        (case i_Deleted ops it of
           Inl e \<Rightarrow> Some (Inl e)
         | Inr d \<Rightarrow> if d then (case step it of Inl e \<Rightarrow> Some (Inl e) | Inr it' \<Rightarrow> skip_deleted step ops it')
                    else Some (Inr it))
      else Some (Inr it))"

declare skip_deleted.simps [code]

text \<open>A loop that does not return has no result; the theorems below show that it does.\<close>

definition loop_result :: "'a res option \<Rightarrow> 'a res" where
  "loop_result r = (case r of None \<Rightarrow> Inl (Panic ''does not return'') | Some x \<Rightarrow> x)"

definition filterDeleted :: "'i iter_ops \<Rightarrow> 'i \<Rightarrow> 'i res" where
  "filterDeleted ops it = loop_result (skip_deleted (i_Next ops) ops it)"

definition filterDeletedBackward :: "'i iter_ops \<Rightarrow> 'i \<Rightarrow> 'i res" where
  "filterDeletedBackward ops it = loop_result (skip_deleted (i_Prev ops) ops it)"

definition NoDeleted_Next :: "'i iter_ops \<Rightarrow> 'i \<Rightarrow> 'i res" where
  "NoDeleted_Next ops it = rbind (i_Next ops it) (\<lambda>it. loop_result (skip_deleted (i_Next ops) ops it))"

definition NoDeleted_Prev :: "'i iter_ops \<Rightarrow> 'i \<Rightarrow> 'i res" where
  "NoDeleted_Prev ops it = rbind (i_Prev ops it) (\<lambda>it. loop_result (skip_deleted (i_Prev ops) ops it))"

definition nodel_ops :: "'i iter_ops \<Rightarrow> 'i iter_ops" where
  "nodel_ops ops = ops\<lparr>i_Next := NoDeleted_Next ops, i_Prev := NoDeleted_Prev ops\<rparr>"

section \<open>Range scans\<close>

record 'i RangedKVIter =
  r_iter :: 'i
  r_stop :: bytes
  r_desc :: bool

definition Ranged_Valid :: "'i iter_ops \<Rightarrow> 'i RangedKVIter \<Rightarrow> bool res" where
  "Ranged_Valid ops it =
     (if \<not> i_Valid ops (r_iter it) then Inr False
      else rbind (i_Key ops (r_iter it)) (\<lambda>k.
        let r = bytes_Compare k (r_stop it) in
        Inr (if r_desc it \<and> r < 0 then False else if \<not> r_desc it \<and> r > 0 then False else True)))"

definition Ranged_Key :: "'i iter_ops \<Rightarrow> 'i RangedKVIter \<Rightarrow> bytes res" where
  "Ranged_Key ops it = rbind (Ranged_Valid ops it) (\<lambda>v.
     if v then i_Key ops (r_iter it) else Inl (Panic ''check''))"

definition Ranged_Val :: "'i iter_ops \<Rightarrow> 'i RangedKVIter \<Rightarrow> bytes res" where
  "Ranged_Val ops it = rbind (Ranged_Valid ops it) (\<lambda>v.
     if v then i_Val ops (r_iter it) else Inl (Panic ''check''))"

definition Ranged_Next :: "'i iter_ops \<Rightarrow> 'i RangedKVIter \<Rightarrow> 'i RangedKVIter res" where
  "Ranged_Next ops it = rbind (Ranged_Valid ops it) (\<lambda>v.
     if \<not> v then Inr it
     else rbind (if r_desc it then i_Prev ops (r_iter it) else i_Next ops (r_iter it)) (\<lambda>i.
       Inr (it\<lparr>r_iter := i\<rparr>)))"

text \<open>
  \<open>KVTX.Range\<close>, after the \<open>Seek\<close> of its first line: a descending scan steps back from the
  first key not below its start unless it stands on the start itself.
\<close>

definition Range_from :: "'i iter_ops \<Rightarrow> 'i \<Rightarrow> bytes \<Rightarrow> bytes \<Rightarrow> bool \<Rightarrow> 'i RangedKVIter res" where
  "Range_from ops it start stop desc =
     rbind (if \<not> desc then Inr it
            else if \<not> i_Valid ops it then i_Prev ops it
            else rbind (i_Key ops it) (\<lambda>k. if bytes_Compare k start > 0 then i_Prev ops it else Inr it))
       (\<lambda>it. Inr \<lparr>r_iter = it, r_stop = stop, r_desc = desc\<rparr>)"

text \<open>The loop of a client that reads a range to its end.\<close>

fun Ranged_collect :: "nat \<Rightarrow> 'i iter_ops \<Rightarrow> 'i RangedKVIter \<Rightarrow> (bytes \<times> bytes) list res option" where
  "Ranged_collect 0 ops it = None"
| "Ranged_collect (Suc fuel) ops it =
     (case Ranged_Valid ops it of
        Inl e \<Rightarrow> Some (Inl e)
      | Inr False \<Rightarrow> Some (Inr [])
      | Inr True \<Rightarrow>
          (case rbind (Ranged_Key ops it) (\<lambda>k. rbind (Ranged_Val ops it) (\<lambda>v.
              rbind (Ranged_Next ops it) (\<lambda>it'. Inr ((k, v), it')))) of
             Inl e \<Rightarrow> Some (Inl e)
           | Inr (kv, it') \<Rightarrow>
               map_option (\<lambda>r. rbind r (\<lambda>kvs. Inr (kv # kvs))) (Ranged_collect fuel ops it')))"

section \<open>Live entries\<close>

abbreviation is_live :: "kvd \<Rightarrow> bool" where
  "is_live e \<equiv> \<not> snd (snd e)"

definition live_entries :: "kvd list \<Rightarrow> kvd list" where
  "live_entries es = filter is_live es"

abbreviation live_before :: "kvd list \<Rightarrow> nat \<Rightarrow> nat" where
  "live_before es p \<equiv> length (filter is_live (take p es))"

lemma ssorted_live_entries: "ssorted (keys_of es) \<Longrightarrow> ssorted (keys_of (live_entries es))"
  by (induction es) (auto simp: live_entries_def)

lemma map_of_live_entries:
  assumes "ssorted (keys_of es)"
  shows "map_of (live_entries es) k = (case live (map_of es) k of None \<Rightarrow> None | Some v \<Rightarrow> Some (v, False))"
  using assms
proof (induction es)
  case (Cons e es)
  have "map_of es (fst e) = None" using Cons.prems by (auto simp: map_of_eq_None_iff)
  then show ?case using Cons by (cases e) (auto simp: live_entries_def live_def)
qed (simp add: live_entries_def live_def)

lemma live_before_Suc:
  "p < length es \<Longrightarrow> live_before es (Suc p) = live_before es p + (if is_live (es ! p) then 1 else 0)"
  by (simp add: take_Suc_conv_app_nth)

lemma live_before_same:
  assumes "p \<le> r" and "r \<le> length es" and "\<And>i. p \<le> i \<Longrightarrow> i < r \<Longrightarrow> \<not> is_live (es ! i)"
  shows "live_before es r = live_before es p"
  using assms
proof (induction r)
  case (Suc r)
  show ?case
  proof (cases "p \<le> r")
    case True
    then show ?thesis using Suc live_before_Suc[of r es] by simp
  qed (use Suc in \<open>simp add: le_Suc_eq\<close>)
qed simp

lemma live_before_le: "live_before es p \<le> length (live_entries es)"
proof -
  have "live_entries es = filter is_live (take p es) @ filter is_live (drop p es)"
    unfolding live_entries_def by (metis append_take_drop_id filter_append)
  then show ?thesis by simp
qed

lemma live_nth:
  assumes "p < length es" and "is_live (es ! p)"
  shows "live_before es p < length (live_entries es)" and "live_entries es ! live_before es p = es ! p"
proof -
  have es: "es = take p es @ es ! p # drop (Suc p) es" using assms(1) by (rule id_take_nth_drop)
  have "live_entries es = filter is_live (take p es) @ es ! p # filter is_live (drop (Suc p) es)"
    unfolding live_entries_def by (subst es) (simp add: assms(2))
  then show "live_before es p < length (live_entries es)" "live_entries es ! live_before es p = es ! p"
    by simp_all
qed

lemma live_before_all: "live_before es (length es) = length (live_entries es)"
  by (simp add: live_entries_def)

lemma lower_bound_live:
  assumes "sorted (keys_of es)"
  shows "lower_bound (keys_of (live_entries es)) k = live_before es (lower_bound (keys_of es) k)"
  using assms
proof (induction es)
  case (Cons e es)
  have "x \<in> set (live_entries es) \<Longrightarrow> fst e \<le> fst x" for x using Cons.prems by (auto simp: live_entries_def)
  then have "lower_bound (keys_of (live_entries es)) k = 0" if "\<not> fst e < k"
    using that by (intro lower_eq_0) fastforce
  then show ?case using Cons by (auto simp: live_entries_def lower_bound_def)
qed (simp add: live_entries_def lower_bound_def)

definition nodel_cursor :: "('i \<Rightarrow> kvd list \<Rightarrow> int \<Rightarrow> bool) \<Rightarrow> 'i \<Rightarrow> kvd list \<Rightarrow> int \<Rightarrow> bool" where
  "nodel_cursor rep it es' p' \<longleftrightarrow> (\<exists>es p. rep it es p \<and> es' = live_entries es \<and>
     (p = - 1 \<and> p' = - 1 \<or> p = int (length es) \<and> p' = int (length es') \<or>
      0 \<le> p \<and> p < int (length es) \<and> is_live (es ! nat p) \<and> p' = int (live_before es (nat p))))"

section \<open>Ranges of entries\<close>

definition kv_pair :: "kvd \<Rightarrow> bytes \<times> bytes" where
  "kv_pair e = (fst e, fst (snd e))"

definition asc_from :: "kvd list \<Rightarrow> nat \<Rightarrow> bytes \<Rightarrow> kvd list" where
  "asc_from es p stop = takeWhile (\<lambda>e. fst e \<le> stop) (drop p es)"

definition desc_from :: "kvd list \<Rightarrow> nat \<Rightarrow> bytes \<Rightarrow> kvd list" where
  "desc_from es p stop = takeWhile (\<lambda>e. stop \<le> fst e) (rev (take p es))"

lemma asc_from_step: "p < length es \<Longrightarrow>
    asc_from es p stop = (if fst (es ! p) \<le> stop then es ! p # asc_from es (Suc p) stop else [])"
  by (simp add: asc_from_def flip: Cons_nth_drop_Suc)

lemma desc_from_step: "p < length es \<Longrightarrow>
    desc_from es (Suc p) stop = (if stop \<le> fst (es ! p) then es ! p # desc_from es p stop else [])"
  by (simp add: desc_from_def take_Suc_conv_app_nth)

lemma takeWhile_filter_sorted:
  assumes "sorted_wrt R xs" and "\<And>x y. R x y \<Longrightarrow> P y \<Longrightarrow> P x"
  shows "takeWhile P xs = filter P xs"
  using assms(1)
proof (induction xs)
  case (Cons x xs)
  have "\<not> P y" if "\<not> P x" "y \<in> set xs" for y using that Cons.prems assms(2) by auto
  then have "filter P xs = []" if "\<not> P x" using that by (simp add: filter_empty_conv)
  then show ?case using Cons by auto
qed simp

lemma dropWhile_filter_sorted:
  assumes "sorted_wrt R xs" and "\<And>x y. R x y \<Longrightarrow> P y \<Longrightarrow> P x"
  shows "dropWhile P xs = filter (\<lambda>x. \<not> P x) xs"
  using assms(1) by (induction xs) (auto simp: assms(2) intro!: filter_True[symmetric])

lemma keys_sorted_wrt: "sorted (keys_of es) \<longleftrightarrow> sorted_wrt (\<lambda>a b. fst a \<le> fst b) es"
  by (simp add: sorted_wrt_map)

lemma asc_from_filter:
  assumes "sorted (keys_of es)"
  shows "asc_from es (lower_bound (keys_of es) start) stop = filter (\<lambda>e. start \<le> fst e \<and> fst e \<le> stop) es"
proof -
  have s: "sorted_wrt (\<lambda>a b. fst a \<le> fst b) es" using assms by (simp add: keys_sorted_wrt)
  have "drop (lower_bound (keys_of es) start) es = dropWhile (\<lambda>e. fst e < start) es"
    by (simp add: lower_bound_def takeWhile_map comp_def dropWhile_eq_drop)
  also have "\<dots> = filter (\<lambda>e. start \<le> fst e) es"
    using dropWhile_filter_sorted[OF s, of "\<lambda>e. fst e < start"] by (auto simp: not_less)
  finally have d: "drop (lower_bound (keys_of es) start) es = filter (\<lambda>e. start \<le> fst e) es" .
  have "sorted_wrt (\<lambda>a b. fst a \<le> fst b) (filter (\<lambda>e. start \<le> fst e) es)"
    using s by (rule sorted_wrt_filter)
  from takeWhile_filter_sorted[OF this, of "\<lambda>e. fst e \<le> stop"]
  show ?thesis by (auto simp: asc_from_def d intro!: filter_cong)
qed

lemma desc_from_filter:
  assumes "sorted (keys_of es)"
  shows "desc_from es (upper_bound (keys_of es) start) stop =
    rev (filter (\<lambda>e. stop \<le> fst e \<and> fst e \<le> start) es)"
proof -
  have s: "sorted_wrt (\<lambda>a b. fst a \<le> fst b) es" using assms by (simp add: keys_sorted_wrt)
  have "take (upper_bound (keys_of es) start) es = takeWhile (\<lambda>e. fst e \<le> start) es"
    by (simp add: upper_bound_def takeWhile_map comp_def takeWhile_eq_take[symmetric])
  also have "\<dots> = filter (\<lambda>e. fst e \<le> start) es"
    using takeWhile_filter_sorted[OF s, of "\<lambda>e. fst e \<le> start"] by auto
  finally have d: "take (upper_bound (keys_of es) start) es = filter (\<lambda>e. fst e \<le> start) es" .
  have "sorted_wrt (\<lambda>a b. fst b \<le> fst a) (rev (filter (\<lambda>e. fst e \<le> start) es))"
    using s by (simp add: sorted_wrt_rev sorted_wrt_filter)
  from takeWhile_filter_sorted[OF this, of "\<lambda>e. stop \<le> fst e"]
  show ?thesis by (auto simp: desc_from_def d rev_filter intro!: filter_cong arg_cong[of _ _ rev])
qed

context kv_iter begin

lemma skip_next:
  assumes "rep it es (int p)"
  shows "\<exists>it' r. skip_deleted (i_Next ops) ops it = Some (Inr it') \<and> rep it' es (int r) \<and>
    p \<le> r \<and> r \<le> length es \<and> (r < length es \<longrightarrow> is_live (es ! r)) \<and> (\<forall>i. p \<le> i \<longrightarrow> i < r \<longrightarrow> \<not> is_live (es ! i))"
  using assms
proof (induction "length es - p" arbitrary: p it)
  case 0
  then have "p = length es" using rep_range[OF 0(2)] by simp
  then show ?case using 0(2) Valid_iff[OF 0(2)]
    by (intro exI[of _ it] exI[of _ p]) (simp add: skip_deleted.simps)
next
  case (Suc n)
  then have p: "p < length es" by simp
  have v: "i_Valid ops it" "i_Deleted ops it = Inr (snd (snd (es ! p)))"
    using Valid_iff[OF Suc.prems] Deleted_nth[OF Suc.prems] p by auto
  show ?case
  proof (cases "is_live (es ! p)")
    case True
    then show ?thesis using v p Suc.prems by (intro exI[of _ it] exI[of _ p]) (simp add: skip_deleted.simps)
  next
    case False
    have "min (int (length es)) (int p + 1) = int (Suc p)" using p by simp
    then obtain it1 where it1: "i_Next ops it = Inr it1" "rep it1 es (int (Suc p))"
      using Next_step[OF Suc.prems] by auto
    have "n = length es - Suc p" using Suc(2) by simp
    from Suc(1)[OF this it1(2)] obtain it' r where
      "skip_deleted (i_Next ops) ops it1 = Some (Inr it')" "rep it' es (int r)" "Suc p \<le> r" "r \<le> length es"
      "r < length es \<longrightarrow> is_live (es ! r)" "\<forall>i. Suc p \<le> i \<longrightarrow> i < r \<longrightarrow> \<not> is_live (es ! i)" by blast
    moreover from this have "\<forall>i. p \<le> i \<longrightarrow> i < r \<longrightarrow> \<not> is_live (es ! i)"
      using False by (metis Suc_leI le_neq_implies_less)
    ultimately show ?thesis using v False it1(1)
      by (intro exI[of _ it'] exI[of _ r]) (simp add: skip_deleted.simps[of _ _ it])
  qed
qed

lemma skip_prev:
  assumes "rep it es (int p - 1)" and "p \<le> length es"
  shows "\<exists>it' r. skip_deleted (i_Prev ops) ops it = Some (Inr it') \<and> rep it' es (int r - 1) \<and>
    r \<le> p \<and> (0 < r \<longrightarrow> is_live (es ! (r - 1))) \<and> (\<forall>i. r \<le> i \<longrightarrow> i < p \<longrightarrow> \<not> is_live (es ! i))"
  using assms
proof (induction p arbitrary: it)
  case 0
  then show ?case using Valid_iff[OF 0(1)]
    by (intro exI[of _ it] exI[of _ 0]) (simp add: skip_deleted.simps)
next
  case (Suc p)
  have v: "i_Valid ops it" "i_Deleted ops it = Inr (snd (snd (es ! p)))"
    using Valid_iff[OF Suc.prems(1)] Deleted_nth[OF Suc.prems(1)] Suc.prems(2) by auto
  show ?case
  proof (cases "is_live (es ! p)")
    case True
    then show ?thesis using v Suc.prems by (intro exI[of _ it] exI[of _ "Suc p"]) (simp add: skip_deleted.simps)
  next
    case False
    obtain it1 where it1: "i_Prev ops it = Inr it1" "rep it1 es (int p - 1)"
      using Prev_step[OF Suc.prems(1)] by (auto simp: max_def)
    have "p \<le> length es" using Suc.prems(2) by simp
    from Suc.IH[OF it1(2) this] obtain it' r where
      "skip_deleted (i_Prev ops) ops it1 = Some (Inr it')" "rep it' es (int r - 1)" "r \<le> p"
      "0 < r \<longrightarrow> is_live (es ! (r - 1))" "\<forall>i. r \<le> i \<longrightarrow> i < p \<longrightarrow> \<not> is_live (es ! i)" by blast
    then show ?thesis using v False it1(1)
      by (intro exI[of _ it'] exI[of _ r]) (auto simp: skip_deleted.simps[of _ _ it] less_Suc_eq)
  qed
qed

text \<open>Where a skip ends, seen among the live entries.\<close>

lemma skip_next_cursor:
  assumes "rep it es (int p)"
  shows "\<exists>it'. loop_result (skip_deleted (i_Next ops) ops it) = Inr it' \<and>
    nodel_cursor rep it' (live_entries es) (int (live_before es p))"
proof -
  from skip_next[OF assms] obtain it' r where
    r: "skip_deleted (i_Next ops) ops it = Some (Inr it')" "rep it' es (int r)" "p \<le> r" "r \<le> length es"
      "r < length es \<longrightarrow> is_live (es ! r)" "\<forall>i. p \<le> i \<longrightarrow> i < r \<longrightarrow> \<not> is_live (es ! i)" by blast
  have same: "live_before es r = live_before es p" using r(3,4,6) by (intro live_before_same) auto
  have "nodel_cursor rep it' (live_entries es) (int (live_before es p))"
  proof (cases "r < length es")
    case True
    then show ?thesis using r same unfolding nodel_cursor_def by (intro exI[of _ es] exI[of _ "int r"]) simp
  next
    case False
    then have "live_before es p = length (live_entries es)"
      using r(4) same live_before_all[of es] by simp
    then show ?thesis using r False unfolding nodel_cursor_def by (intro exI[of _ es] exI[of _ "int r"]) simp
  qed
  then show ?thesis using r(1) by (simp add: loop_result_def)
qed

lemma skip_prev_cursor:
  assumes "rep it es (int p - 1)" and "p \<le> length es"
  shows "\<exists>it'. loop_result (skip_deleted (i_Prev ops) ops it) = Inr it' \<and>
    nodel_cursor rep it' (live_entries es) (int (live_before es p) - 1)"
proof -
  from skip_prev[OF assms] obtain it' r where
    r: "skip_deleted (i_Prev ops) ops it = Some (Inr it')" "rep it' es (int r - 1)" "r \<le> p"
      "0 < r \<longrightarrow> is_live (es ! (r - 1))" "\<forall>i. r \<le> i \<longrightarrow> i < p \<longrightarrow> \<not> is_live (es ! i)" by blast
  have same: "live_before es p = live_before es r" using r(3,5) assms(2) by (intro live_before_same) auto
  have "nodel_cursor rep it' (live_entries es) (int (live_before es p) - 1)"
  proof (cases r)
    case 0
    then show ?thesis using r same unfolding nodel_cursor_def by (intro exI[of _ es] exI[of _ "-1"]) simp
  next
    case (Suc q)
    then have "live_before es r = Suc (live_before es q)"
      using r(3,4) assms(2) live_before_Suc[of q es] by simp
    then show ?thesis using r Suc same assms(2) unfolding nodel_cursor_def
      by (intro exI[of _ es] exI[of _ "int q"]) simp
  qed
  then show ?thesis using r(1) by (simp add: loop_result_def)
qed

lemma nodel_laws: "kv_iter (nodel_ops ops) (nodel_cursor rep)"
proof
  fix it es' p' assume "nodel_cursor rep it es' p'"
  then obtain es p where r: "rep it es p" and es': "es' = live_entries es"
    and pos: "p = - 1 \<and> p' = - 1 \<or> p = int (length es) \<and> p' = int (length es') \<or>
      0 \<le> p \<and> p < int (length es) \<and> is_live (es ! nat p) \<and> p' = int (live_before es (nat p))"
    by (auto simp: nodel_cursor_def)
  have at: "int (live_before es (nat p)) < int (length es')" "es' ! live_before es (nat p) = es ! nat p"
    if "0 \<le> p" "p < int (length es)" "is_live (es ! nat p)"
    using that live_nth[of "nat p" es] by (auto simp: es')
  show "ssorted (keys_of es')" using rep_sorted[OF r] ssorted_live_entries es' by simp
  show "- 1 \<le> p' \<and> p' \<le> int (length es')" using pos at by auto
  show "i_Valid (nodel_ops ops) it \<longleftrightarrow> 0 \<le> p' \<and> p' < int (length es')"
    using Valid_iff[OF r] pos at by (auto simp: nodel_ops_def)
  show "i_Key (nodel_ops ops) it = Inr (fst (es' ! nat p'))"
    "i_Val (nodel_ops ops) it = Inr (fst (snd (es' ! nat p')))"
    "i_Deleted (nodel_ops ops) it = Inr (snd (snd (es' ! nat p')))" if "0 \<le> p'" "p' < int (length es')"
    using that pos at Key_nth[OF r] Val_nth[OF r] Deleted_nth[OF r] by (auto simp: nodel_ops_def)
  show "\<exists>it'. i_Next (nodel_ops ops) it = Inr it' \<and> nodel_cursor rep it' es' (min (int (length es')) (p' + 1))"
  proof -
    obtain it1 where it1: "i_Next ops it = Inr it1" "rep it1 es (min (int (length es)) (p + 1))"
      using Next_step[OF r] by blast
    define q where "q = nat (min (int (length es)) (p + 1))"
    have q: "int q = min (int (length es)) (p + 1)" using rep_range[OF r] by (simp add: q_def)
    have "int (live_before es q) = min (int (length es')) (p' + 1)"
    proof -
      consider "p = - 1" "p' = - 1" | "p = int (length es)" "p' = int (length es')"
        | "0 \<le> p" "p < int (length es)" "is_live (es ! nat p)" "p' = int (live_before es (nat p))"
        using pos by blast
      then show ?thesis
      proof cases
        case 3
        then have "q = Suc (nat p)" using q by simp
        then show ?thesis using 3 live_before_Suc[of "nat p" es] at(1) by auto
      qed (use q es' live_before_all[of es] in auto)
    qed
    then show ?thesis using skip_next_cursor[of it1 es q] it1 q
      by (auto simp: nodel_ops_def NoDeleted_Next_def es')
  qed
  show "\<exists>it'. i_Prev (nodel_ops ops) it = Inr it' \<and> nodel_cursor rep it' es' (max (- 1) (p' - 1))"
  proof -
    obtain it1 where it1: "i_Prev ops it = Inr it1" "rep it1 es (max (- 1) (p - 1))"
      using Prev_step[OF r] by blast
    define q where "q = nat (max 0 p)"
    have q: "int q - 1 = max (- 1) (p - 1)" "q \<le> length es" using rep_range[OF r] by (auto simp: q_def)
    have "int (live_before es q) - 1 = max (- 1) (p' - 1)"
    proof -
      consider "p = - 1" "p' = - 1" | "p = int (length es)" "p' = int (length es')"
        | "0 \<le> p" "p < int (length es)" "is_live (es ! nat p)" "p' = int (live_before es (nat p))"
        using pos by blast
      then show ?thesis
      proof cases
        case 2
        then have "q = length es" by (simp add: q_def)
        then show ?thesis using 2 live_before_all[of es] es' by simp
      qed (simp_all add: q_def)
    qed
    then show ?thesis using skip_prev_cursor[of it1 es q] it1 q
      by (auto simp: nodel_ops_def NoDeleted_Prev_def es')
  qed
qed

lemma Ranged_collect_asc:
  assumes "rep it es (int p)" and "length es - p < fuel"
  shows "Ranged_collect fuel ops \<lparr>r_iter = it, r_stop = stop, r_desc = False\<rparr> =
    Some (Inr (map kv_pair (asc_from es p stop)))"
  using assms
proof (induction fuel arbitrary: it p)
  case (Suc fuel)
  show ?case
  proof (cases "p < length es")
    case False
    then show ?thesis using Valid_iff[OF Suc.prems(1)] by (simp add: Ranged_Valid_def asc_from_def)
  next
    case True
    have v: "i_Valid ops it" "i_Key ops it = Inr (fst (es ! p))" "i_Val ops it = Inr (fst (snd (es ! p)))"
      using Valid_iff[OF Suc.prems(1)] Key_nth[OF Suc.prems(1)] Val_nth[OF Suc.prems(1)] True by auto
    have "min (int (length es)) (int p + 1) = int (Suc p)" using True by simp
    then obtain it1 where it1: "i_Next ops it = Inr it1" "rep it1 es (int (Suc p))"
      using Next_step[OF Suc.prems(1)] by auto
    have "length es - Suc p < fuel" using Suc.prems(2) True by simp
    from Suc.IH[OF it1(2) this] show ?thesis
      using v it1(1) asc_from_step[OF True, of stop]
      by (auto simp: Ranged_Valid_def Ranged_Key_def Ranged_Val_def Ranged_Next_def kv_pair_def Let_def)
  qed
qed simp

lemma Ranged_collect_desc:
  assumes "rep it es (int p - 1)" and "p \<le> length es" and "p < fuel"
  shows "Ranged_collect fuel ops \<lparr>r_iter = it, r_stop = stop, r_desc = True\<rparr> =
    Some (Inr (map kv_pair (desc_from es p stop)))"
  using assms
proof (induction fuel arbitrary: it p)
  case (Suc fuel)
  show ?case
  proof (cases p)
    case 0
    then show ?thesis using Valid_iff[OF Suc.prems(1)] by (simp add: Ranged_Valid_def desc_from_def)
  next
    case (Suc q)
    have q: "q < length es" using Suc Suc.prems(2) by simp
    have v: "i_Valid ops it" "i_Key ops it = Inr (fst (es ! q))" "i_Val ops it = Inr (fst (snd (es ! q)))"
      using Valid_iff[OF Suc.prems(1)] Key_nth[OF Suc.prems(1)] Val_nth[OF Suc.prems(1)] q Suc by auto
    have "max (- 1) (int p - 1 - 1) = int q - 1" using Suc by simp
    then obtain it1 where it1: "i_Prev ops it = Inr it1" "rep it1 es (int q - 1)"
      using Prev_step[OF Suc.prems(1)] by auto
    from Suc.IH[OF it1(2)] have
      "Ranged_collect fuel ops \<lparr>r_iter = it1, r_stop = stop, r_desc = True\<rparr> = Some (Inr (map kv_pair (desc_from es q stop)))"
      using q Suc Suc.prems(3) by simp
    then show ?thesis
      using v it1(1) desc_from_step[OF q, of stop] Suc
      by (auto simp: Ranged_Valid_def Ranged_Key_def Ranged_Val_def Ranged_Next_def kv_pair_def Let_def)
  qed
qed simp

lemma Range_from_rep:
  assumes r: "rep it es (int (lower_bound (keys_of es) start))"
  shows "\<exists>it'. Range_from ops it start stop desc = Inr \<lparr>r_iter = it', r_stop = stop, r_desc = desc\<rparr> \<and>
    rep it' es (if desc then int (upper_bound (keys_of es) start) - 1 else int (lower_bound (keys_of es) start))"
proof (cases desc)
  case True
  let ?p = "lower_bound (keys_of es) start"
  have ss: "ssorted (keys_of es)" and s: "sorted (keys_of es)" using rep_sorted[OF r] by (auto simp: sorted_simps)
  note ul = upper_Suc_lower[OF ss, of start]
  have mem: "start \<in> set (keys_of es) \<longleftrightarrow> ?p < length es \<and> fst (es ! ?p) = start"
    using lower_bound_mem_iff[OF s, of start] by auto
  have ge: "?p < length es \<Longrightarrow> start \<le> fst (es ! ?p)" using lower_bound_nth_ge[OF s, of start ?p] by simp
  obtain it1 where it1: "i_Prev ops it = Inr it1" "rep it1 es (max (- 1) (int ?p - 1))"
    using Prev_step[OF r] by blast
  show ?thesis
  proof (cases "start \<in> set (keys_of es)")
    case False
    then have "?p < length es \<Longrightarrow> start < fst (es ! ?p)" using ge mem by force
    then show ?thesis using True False it1 ul Valid_iff[OF r] Key_nth[OF r]
      by (auto simp: Range_from_def max_def)
  next
    case True
    then show ?thesis using \<open>desc\<close> mem ul r Valid_iff[OF r] Key_nth[OF r] by (auto simp: Range_from_def)
  qed
qed (use r in \<open>simp add: Range_from_def\<close>)

text \<open>A whole range scan, from a seek to its start.\<close>

lemma Range_collect:
  assumes r: "rep it es (int (lower_bound (keys_of es) start))" and fuel: "length es < fuel"
  shows "\<exists>rit. Range_from ops it start stop desc = Inr rit \<and> Ranged_collect fuel ops rit =
    Some (Inr (map kv_pair (if desc then rev (filter (\<lambda>e. stop \<le> fst e \<and> fst e \<le> start) es)
      else filter (\<lambda>e. start \<le> fst e \<and> fst e \<le> stop) es)))"
proof -
  have s: "sorted (keys_of es)" using rep_sorted[OF r] by (rule ssorted_imp_sorted)
  from Range_from_rep[OF r] obtain it' where
    it': "Range_from ops it start stop desc = Inr \<lparr>r_iter = it', r_stop = stop, r_desc = desc\<rparr>"
    "rep it' es (if desc then int (upper_bound (keys_of es) start) - 1 else int (lower_bound (keys_of es) start))"
    by blast
  have "upper_bound (keys_of es) start \<le> length es" using upper_bound_le[of "keys_of es" start] by simp
  then show ?thesis
    using it' Ranged_collect_asc[of it' es "lower_bound (keys_of es) start" fuel stop]
      Ranged_collect_desc[of it' es "upper_bound (keys_of es) start" fuel stop]
      asc_from_filter[OF s] desc_from_filter[OF s] fuel
    by (cases desc) auto
qed

end

end
