(* ===== verification/Levels.thy ===== *)
theory Levels
  imports SortedArray SortedFile Scan
begin

text \<open>
  The levels of the tree: a level is a memtable or an SSTable, and the code reaches both through
  the \<open>SortedKV\<close> interface.  The sum of two sources is a source; so is a stack of them, and the
  live entries of a stack can be walked by the iterators of \<open>src/db/kv.go\<close>.
\<close>

datatype level = LArr SortedArray | LFile SortedFile
datatype level_iter = IArr SortedArrayIter | IFile SortedFileIter

fun Level_Valid :: "level_iter \<Rightarrow> bool" where
  "Level_Valid (IArr it) = ArrayIter_Valid it"
| "Level_Valid (IFile it) = FileIter_Valid it"

fun Level_Key :: "level_iter \<Rightarrow> bytes res" where
  "Level_Key (IArr it) = ArrayIter_Key it"
| "Level_Key (IFile it) = Inr (fi_key it)"

fun Level_Val :: "level_iter \<Rightarrow> bytes res" where
  "Level_Val (IArr it) = ArrayIter_Val it"
| "Level_Val (IFile it) = Inr (fi_val it)"

fun Level_Deleted :: "level_iter \<Rightarrow> bool res" where
  "Level_Deleted (IArr it) = ArrayIter_Deleted it"
| "Level_Deleted (IFile it) = Inr (fi_deleted it)"

fun Level_Next :: "level_iter \<Rightarrow> level_iter res" where
  "Level_Next (IArr it) = rbind (ArrayIter_Next it) (\<lambda>it. Inr (IArr it))"
| "Level_Next (IFile it) = rbind (FileIter_Next it) (\<lambda>it. Inr (IFile it))"

fun Level_Prev :: "level_iter \<Rightarrow> level_iter res" where
  "Level_Prev (IArr it) = rbind (ArrayIter_Prev it) (\<lambda>it. Inr (IArr it))"
| "Level_Prev (IFile it) = rbind (FileIter_Prev it) (\<lambda>it. Inr (IFile it))"

definition level_ops :: "level_iter iter_ops" where
  "level_ops = \<lparr>i_Valid = Level_Valid, i_Key = Level_Key, i_Val = Level_Val, i_Deleted = Level_Deleted,
     i_Next = Level_Next, i_Prev = Level_Prev\<rparr>"

fun Level_EstimatedSize :: "level \<Rightarrow> nat" where
  "Level_EstimatedSize (LArr arr) = Array_EstimatedSize arr"
| "Level_EstimatedSize (LFile sf) = sf_nkeys sf"

fun Level_Iter :: "level \<Rightarrow> level_iter res" where
  "Level_Iter (LArr arr) = Inr (IArr (Array_Iter arr))"
| "Level_Iter (LFile sf) = rbind (SortedFile_Iter sf) (\<lambda>it. Inr (IFile it))"

fun Level_Seek :: "level \<Rightarrow> bytes \<Rightarrow> level_iter res" where
  "Level_Seek (LArr arr) k = Inr (IArr (Array_Seek arr k))"
| "Level_Seek (LFile sf) k = rbind (SortedFile_Seek sf k) (\<lambda>it. Inr (IFile it))"

fun Level_SeekToLast :: "level \<Rightarrow> level_iter res" where
  "Level_SeekToLast (LArr arr) = Inr (IArr (Array_SeekToLast arr))"
| "Level_SeekToLast (LFile sf) = rbind (SortedFile_SeekToLast sf) (\<lambda>it. Inr (IFile it))"

fun Level_getExact :: "level \<Rightarrow> bytes \<Rightarrow> (bytes \<times> bool) option res" where
  "Level_getExact (LArr arr) k = Inr (Array_getExact arr k)"
| "Level_getExact (LFile sf) k = SortedFile_getExact sf k"

definition level_kv_ops :: "(level, level_iter) kv_ops" where
  "level_kv_ops = \<lparr>k_EstimatedSize = Level_EstimatedSize, k_Iter = Level_Iter, k_Seek = Level_Seek,
     k_SeekToLast = Level_SeekToLast, k_getExact = Some Level_getExact\<rparr>"

fun level_cursor :: "level_iter \<Rightarrow> kvd list \<Rightarrow> int \<Rightarrow> bool" where
  "level_cursor (IArr it) es p = array_cursor it es p"
| "level_cursor (IFile it) es p = file_cursor it es p"

fun level_src :: "level \<Rightarrow> kvd list \<Rightarrow> bool" where
  "level_src (LArr arr) es = array_src arr es"
| "level_src (LFile sf) es = sst_holds sf es"

lemmas array_ops_sel = array_ops_def iter_ops.select_convs
lemmas file_ops_sel = file_ops_def iter_ops.select_convs

lemma level_cursor_laws: "kv_iter level_ops level_cursor"
proof
  fix it es p assume c: "level_cursor it es p"
  show "ssorted (keys_of es)" using c arr_iter.rep_sorted file_iter.rep_sorted by (cases it) auto
  show "- 1 \<le> p \<and> p \<le> int (length es)" using c arr_iter.rep_range file_iter.rep_range by (cases it) auto
  show "i_Valid level_ops it \<longleftrightarrow> 0 \<le> p \<and> p < int (length es)"
    using c arr_iter.Valid_iff[unfolded array_ops_sel] file_iter.Valid_iff[unfolded file_ops_sel]
    by (cases it) (auto simp: level_ops_def)
  show "i_Key level_ops it = Inr (fst (es ! nat p))" if "0 \<le> p" "p < int (length es)"
    using c that arr_iter.Key_nth[unfolded array_ops_sel] file_iter.Key_nth[unfolded file_ops_sel]
    by (cases it) (simp_all add: level_ops_def)
  show "i_Val level_ops it = Inr (fst (snd (es ! nat p)))" if "0 \<le> p" "p < int (length es)"
    using c that arr_iter.Val_nth[unfolded array_ops_sel] file_iter.Val_nth[unfolded file_ops_sel]
    by (cases it) (simp_all add: level_ops_def)
  show "i_Deleted level_ops it = Inr (snd (snd (es ! nat p)))" if "0 \<le> p" "p < int (length es)"
    using c that arr_iter.Deleted_nth[unfolded array_ops_sel] file_iter.Deleted_nth[unfolded file_ops_sel]
    by (cases it) (simp_all add: level_ops_def)
  show "\<exists>it'. i_Next level_ops it = Inr it' \<and> level_cursor it' es (min (int (length es)) (p + 1))"
    using c arr_iter.Next_step[unfolded array_ops_sel] file_iter.Next_step[unfolded file_ops_sel]
    by (cases it) (fastforce simp: level_ops_def)+
  show "\<exists>it'. i_Prev level_ops it = Inr it' \<and> level_cursor it' es (max (- 1) (p - 1))"
    using c arr_iter.Prev_step[unfolded array_ops_sel] file_iter.Prev_step[unfolded file_ops_sel]
    by (cases it) (fastforce simp: level_ops_def)+
qed

lemmas array_kv_sel = array_kv_ops_def kv_ops.select_convs
lemmas file_kv_sel = file_kv_ops_def kv_ops.select_convs

interpretation lv: kv_source level_ops level_cursor level_kv_ops level_src
proof (intro kv_source.intro fwd_source.intro level_cursor_laws kv_iter.axioms(1)[OF level_cursor_laws]
    fwd_source_axioms.intro kv_source_axioms.intro)
  fix l es assume s: "level_src l es"
  show "ssorted (keys_of es)" using s arr_source.src_sorted file_source.src_sorted by (cases l) auto
  show "length es \<le> k_EstimatedSize level_kv_ops l"
    using s arr_source.Size_ge[unfolded array_kv_sel] file_source.Size_ge[unfolded file_kv_sel]
    by (cases l) (auto simp: level_kv_ops_def)
  show "\<exists>it. k_Iter level_kv_ops l = Inr it \<and> level_cursor it es 0"
    using s arr_source.Iter_rep[unfolded array_kv_sel] file_source.Iter_rep[unfolded file_kv_sel]
    by (cases l) (fastforce simp: level_kv_ops_def)+
  show "\<exists>it. k_Seek level_kv_ops l k = Inr it \<and> level_cursor it es (int (lower_bound (keys_of es) k))" for k
    using s arr_source.Seek_rep[unfolded array_kv_sel, of _ _ k] file_source.Seek_rep[unfolded file_kv_sel, of _ _ k]
    by (cases l) (fastforce simp: level_kv_ops_def)+
  show "\<exists>it. k_SeekToLast level_kv_ops l = Inr it \<and> level_cursor it es (int (length es) - 1)"
    using s arr_source.SeekToLast_rep[unfolded array_kv_sel] file_source.SeekToLast_rep[unfolded file_kv_sel]
    by (cases l) (fastforce simp: level_kv_ops_def)+
  show "g l k = Inr (map_of es k)" if "k_getExact level_kv_ops = Some g" for g k
    using s that arr_source.getExact_map[unfolded array_kv_sel, of _ _ _ k] file_source.getExact_map[unfolded file_kv_sel, of _ _ _ k]
    by (cases l) (auto simp: level_kv_ops_def)
qed

text \<open>The stack of levels, and its live entries.\<close>

abbreviation stack_ops :: "level_iter MergedSortedKVIter iter_ops" where
  "stack_ops \<equiv> merged_ops level_ops"

abbreviation stack_kv_ops :: "(level list, level_iter MergedSortedKVIter) kv_ops" where
  "stack_kv_ops \<equiv> merged_kv_ops level_ops level_kv_ops"

interpretation stack: kv_source stack_ops "merged_cursor level_cursor" stack_kv_ops "merged_src level_src"
  by (rule lv.merged_source_laws)

interpretation live: kv_iter "nodel_ops stack_ops" "nodel_cursor (merged_cursor level_cursor)"
  by (rule stack.nodel_laws)

section \<open>Properties\<close>

text \<open>
  C14: over a stack of levels, newest first, a point read returns the first level's
  entry for the key, and a walk from the first entry returns every key of every level once, in
  order, with that entry.
\<close>

theorem stack_reads:
  assumes "list_all2 level_src m ess"
  shows "Merged_getExact level_ops level_kv_ops m k = Inr (levels_map ess k) \<and>
    rbind (Merged_Iter level_ops level_kv_ops m) (walk (Merged_EstimatedSize level_kv_ops m) stack_ops) =
      Inr (sorted_entries (levels_map ess))"
proof -
  have "merged_src level_src m (merged_entries ess)" using assms by (auto simp: merged_src_def)
  from stack.walk_source[OF this] show ?thesis
    using lv.Merged_getExact_map[OF assms] by (simp add: merged_kv_ops_def merged_entries_def)
qed

definition demo_stack :: "level list" where
  "demo_stack = [LArr \<lparr>a_keys = [[1], [3]], a_vals = [[], [30]], a_deleted = [True, False]\<rparr>,
     LArr \<lparr>a_keys = [[1], [2]], a_vals = [[10], [20]], a_deleted = [False, False]\<rparr>]"

definition demo_entries :: "kvd list list" where
  "demo_entries = [[([1], [], True), ([3], [30], False)], [([1], [10], False), ([2], [20], False)]]"

lemma demo_stack_src: "list_all2 level_src demo_stack demo_entries"
  by (simp add: demo_stack_def demo_entries_def array_src_def arr_wf_def arr_shape_def arr_entries_def)

lemma demo_levels_map:
  "levels_map demo_entries = [[1] \<mapsto> ([], True), [2] \<mapsto> ([20], False), [3] \<mapsto> ([30], False)]"
  by (auto simp: demo_entries_def map_add_def fun_eq_iff)

lemma demo_merged_entries:
  "sorted_entries (levels_map demo_entries) = [([1], [], True), ([2], [20], False), ([3], [30], False)]"
  by (rule ssorted_entries_unique) (auto simp: demo_levels_map fun_eq_iff)

theorem stack_reads_witness:
  "Merged_getExact level_ops level_kv_ops demo_stack [1] = Inr (Some ([], True)) \<and>
   rbind (Merged_Iter level_ops level_kv_ops demo_stack) (walk (Merged_EstimatedSize level_kv_ops demo_stack) stack_ops) =
     Inr [([1], [], True), ([2], [20], False), ([3], [30], False)]"
  using stack_reads[OF demo_stack_src, of "[1]"] by (simp add: demo_merged_entries) (simp add: demo_levels_map)

text \<open>
  C13: a stack of levels written to a new table file.  Without an I/O fault the
  write succeeds; when it succeeds, every crash of the file keeps bytes that open to a table whose
  point reads and whole walk are those of the merged levels.
\<close>

theorem flush_roundtrip:
  assumes "bloom_ok bl" and "list_all2 level_src m ess" and "f_data f = []"
    and "sst_sized (Merged_EstimatedSize level_kv_ops m) (sorted_entries (levels_map ess))"
    and "writeSortedFile bl stack_ops stack_kv_ops m f = (f', r)"
  shows "(f_faults f = [] \<longrightarrow> (\<forall>flt. \<exists>d. bl_MarshalBinary bl flt = Inr d) \<longrightarrow> (\<exists>sf. r = Inr sf)) \<and>
    (\<forall>sf d. r = Inr sf \<longrightarrow> crashes_to f' d \<longrightarrow> (\<exists>sf'. SortedFile_Open bl d = Inr sf' \<and>
       (\<forall>k. SortedFile_getExact sf' k = Inr (levels_map ess k)) \<and>
       rbind (SortedFile_Iter sf') (walk (sf_nkeys sf') file_ops) = Inr (sorted_entries (levels_map ess))))"
proof -
  let ?es = "sorted_entries (levels_map ess)"
  have src: "merged_src level_src m ?es" using assms(2) by (auto simp: merged_src_def merged_entries_def)
  have est: "k_EstimatedSize stack_kv_ops m = Merged_EstimatedSize level_kv_ops m" by (simp add: merged_kv_ops_def)
  have reads: "(\<forall>k. SortedFile_getExact sf k = Inr (levels_map ess k)) \<and>
      rbind (SortedFile_Iter sf) (walk (sf_nkeys sf) file_ops) = Inr ?es" if h: "sst_holds sf ?es" for sf
    using file_source.getExact_map[OF h, unfolded file_kv_sel] file_source.walk_source[OF h, unfolded file_kv_sel]
    by (simp add: sst_nkeys)
  have "\<exists>sf'. SortedFile_Open bl d = Inr sf' \<and> sst_holds sf' ?es" if "r = Inr sf" and "crashes_to f' d" for sf d
  proof -
    from stack.writeSortedFile_holds[OF assms(1) src assms(3)] assms(4,5) that(1)
    have w: "f_synced f' = f_data f'" "f_pending f' = []"
      "\<exists>sf'. SortedFile_Open bl (f_data f') = Inr sf' \<and> sst_holds sf' ?es" by (simp_all add: est)
    with that(2) have "d = f_data f'" by (auto simp: crashes_to_def elim: crash_content.cases)
    with w(3) show ?thesis by simp
  qed
  then show ?thesis using stack.writeSortedFile_ok[OF assms(1) src assms(3,5)] reads by blast
qed

text \<open>An eight bit filter that hashes a key to its length.\<close>

definition bloom8 :: "byte bloomLib" where
  "bloom8 = \<lparr>bl_NewWithEstimates = (\<lambda>n. 0), bl_Add = (\<lambda>b k. set_bit (length k mod 8) b),
     bl_Test = (\<lambda>b k. bit b (length k mod 8)), bl_MarshalBinary = (\<lambda>b. Inr [b]),
     bl_UnmarshalBinary = (\<lambda>d. case d of [b] \<Rightarrow> Inr b | _ \<Rightarrow> Inl (Panic ''filter''))\<rparr>"

lemma bloom8_ok: "bloom_ok bloom8"
  by (auto simp: bloom_ok_def bloom8_def bit_set_bit_iff)

theorem flush_roundtrip_witness:
  "\<exists>f' sf sf'. writeSortedFile bloom8 stack_ops stack_kv_ops demo_stack file_empty = (f', Inr sf) \<and>
     SortedFile_Open bloom8 (f_synced f') = Inr sf' \<and> SortedFile_getExact sf' [2] = Inr (Some ([20], False))"
proof -
  obtain f' r where w: "writeSortedFile bloom8 stack_ops stack_kv_ops demo_stack file_empty = (f', r)" by fastforce
  have sz: "sst_sized (Merged_EstimatedSize level_kv_ops demo_stack) (sorted_entries (levels_map demo_entries))"
    by (simp add: demo_merged_entries) (simp add: demo_stack_def level_kv_ops_def Array_EstimatedSize_def Array_Size_def
        sst_sized_def sst_fits_def rec_end_def sst_record_def maxNKeys_def MaxEntrySize_def)
  note rt = flush_roundtrip[OF bloom8_ok demo_stack_src _ sz w]
  have "crash_content d ps d" for d and ps :: "fop list" by (induction ps) (auto intro: crash_content.intros)
  then have c: "crashes_to f' (f_synced f')" by (simp add: crashes_to_def)
  obtain sf where "r = Inr sf" using rt by (auto simp: file_empty_def bloom8_def)
  moreover from this c obtain sf' where "SortedFile_Open bloom8 (f_synced f') = Inr sf'"
    "\<forall>k. SortedFile_getExact sf' k = Inr (levels_map demo_entries k)" using rt by (auto simp: file_empty_def)
  ultimately show ?thesis using w by (simp add: demo_levels_map)
qed

end
