(* ===== verification/Strconv.thy ===== *)
theory Strconv
  imports Prelude
begin

text \<open>
  The parts of Go's \<open>strconv\<close> and \<open>unicode/utf8\<close> that the repository uses: decimal formatting
  and parsing of 64-bit integers, and the UTF-8 encoding of runes.
\<close>

section \<open>Decimal numbers\<close>

definition is_digit :: "byte \<Rightarrow> bool" where
  "is_digit b \<longleftrightarrow> 48 \<le> b \<and> b \<le> 57"

fun FormatUint :: "nat \<Rightarrow> bytes" where
  "FormatUint n = (if n < 10 then [48 + word_of_nat n]
     else FormatUint (n div 10) @ [48 + word_of_nat (n mod 10)])"

declare FormatUint.simps [simp del]

definition FormatInt :: "int \<Rightarrow> bytes" where
  "FormatInt i = (if i < 0 then 45 # FormatUint (nat (- i)) else FormatUint (nat i))"

definition dec_nat :: "bytes \<Rightarrow> nat" where
  "dec_nat = foldl (\<lambda>a b. 10 * a + (unat b - 48)) 0"

definition ParseUint :: "bytes \<Rightarrow> nat res" where
  "ParseUint bs =
     (if bs = [] \<or> \<not> list_all is_digit bs then Inl (Error ''invalid syntax'')
      else if dec_nat bs < 2 ^ 64 then Inr (dec_nat bs)
      else Inl (Error ''value out of range''))"

definition ParseInt :: "bytes \<Rightarrow> int res" where
  "ParseInt bs =
     (let neg = (bs \<noteq> [] \<and> hd bs = 45);
          ds = (if bs \<noteq> [] \<and> (hd bs = 45 \<or> hd bs = 43) then tl bs else bs)
      in if ds = [] \<or> \<not> list_all is_digit ds then Inl (Error ''invalid syntax'')
         else if neg then (if dec_nat ds \<le> 2 ^ 63 then Inr (- int (dec_nat ds)) else Inl (Error ''value out of range''))
         else if dec_nat ds < 2 ^ 63 then Inr (int (dec_nat ds)) else Inl (Error ''value out of range''))"

lemma unat_digit: "d < 10 \<Longrightarrow> unat (48 + word_of_nat d :: byte) = 48 + d"
  by (subst unat_add_lem[THEN iffD1]) (simp_all add: unat_of_nat)

lemma is_digit_iff: "is_digit b \<longleftrightarrow> 48 \<le> unat b \<and> unat b \<le> 57"
  by (simp add: is_digit_def word_le_nat_alt)

lemma is_digit_digit [simp]: "d < 10 \<Longrightarrow> is_digit (48 + word_of_nat d)"
  by (simp add: is_digit_iff unat_digit)

lemma FormatUint_neq_Nil [simp]: "FormatUint n \<noteq> []"
  by (subst FormatUint.simps) simp

lemma FormatUint_digits [simp]: "list_all is_digit (FormatUint n)"
proof (induction n rule: FormatUint.induct)
  case (1 n)
  then show ?case by (subst FormatUint.simps) auto
qed

lemma dec_nat_snoc: "dec_nat (bs @ [b]) = 10 * dec_nat bs + (unat b - 48)"
  by (simp add: dec_nat_def)

lemma dec_nat_FormatUint [simp]: "dec_nat (FormatUint n) = n"
proof (induction n rule: FormatUint.induct)
  case (1 n)
  then show ?case
    by (subst FormatUint.simps) (auto simp: dec_nat_snoc unat_digit, simp add: dec_nat_def unat_digit)
qed

lemma ParseUint_FormatUint [simp]: "n < 2 ^ 64 \<Longrightarrow> ParseUint (FormatUint n) = Inr n"
  by (simp add: ParseUint_def)

lemma FormatUint_hd: "hd (FormatUint n) \<noteq> 45 \<and> hd (FormatUint n) \<noteq> 43"
  using FormatUint_digits[of n] FormatUint_neq_Nil[of n]
  by (cases "FormatUint n") (auto simp: is_digit_iff)

lemma ParseInt_FormatInt [simp]:
  assumes "- (2 ^ 63) \<le> i" and "i < 2 ^ 63"
  shows "ParseInt (FormatInt i) = Inr i"
  using assms FormatUint_hd[of "nat i"] by (auto simp: ParseInt_def FormatInt_def Let_def nat_le_iff nat_less_iff)

lemma FormatUint_inj: "FormatUint m = FormatUint n \<longleftrightarrow> m = n"
  by (metis dec_nat_FormatUint)

section \<open>UTF-8\<close>

definition RuneError :: nat where "RuneError = 0xFFFD"

definition utf8_cont :: "byte \<Rightarrow> bool" where
  "utf8_cont b \<longleftrightarrow> 0x80 \<le> b \<and> b \<le> 0xBF"

text \<open>\<open>EncodeRune\<close>: surrogates and values beyond the last code point become \<open>RuneError\<close>.\<close>

definition EncodeRune :: "nat \<Rightarrow> bytes" where
  "EncodeRune rune =
     (let r = (if 0xD800 \<le> rune \<and> rune \<le> 0xDFFF \<or> 0x10FFFF < rune then RuneError else rune) in
      if r < 0x80 then [word_of_nat r]
      else if r < 0x800 then [word_of_nat (0xC0 + r div 64), word_of_nat (0x80 + r mod 64)]
      else if r < 0x10000 then
        [word_of_nat (0xE0 + r div 4096), word_of_nat (0x80 + r div 64 mod 64), word_of_nat (0x80 + r mod 64)]
      else [word_of_nat (0xF0 + r div 262144), word_of_nat (0x80 + r div 4096 mod 64),
        word_of_nat (0x80 + r div 64 mod 64), word_of_nat (0x80 + r mod 64)])"

text \<open>\<open>DecodeRune\<close>: the first rune and its width; an invalid byte is \<open>RuneError\<close> of width one.\<close>

definition DecodeRune :: "bytes \<Rightarrow> nat \<times> nat" where
  "DecodeRune bs =
     (let b = (\<lambda>i. unat (bs ! i)); ok = (\<lambda>i. i < length bs \<and> utf8_cont (bs ! i)) in
      if bs = [] then (RuneError, 0)
      else if b 0 < 0x80 then (b 0, 1)
      else if 0xC2 \<le> b 0 \<and> b 0 \<le> 0xDF \<and> ok 1 then ((b 0 - 0xC0) * 64 + (b 1 - 0x80), 2)
      else if 0xE0 \<le> b 0 \<and> b 0 \<le> 0xEF \<and> ok 1 \<and> ok 2 \<and>
          (b 0 = 0xE0 \<longrightarrow> 0xA0 \<le> b 1) \<and> (b 0 = 0xED \<longrightarrow> b 1 \<le> 0x9F)
        then ((b 0 - 0xE0) * 4096 + (b 1 - 0x80) * 64 + (b 2 - 0x80), 3)
      else if 0xF0 \<le> b 0 \<and> b 0 \<le> 0xF4 \<and> ok 1 \<and> ok 2 \<and> ok 3 \<and>
          (b 0 = 0xF0 \<longrightarrow> 0x90 \<le> b 1) \<and> (b 0 = 0xF4 \<longrightarrow> b 1 \<le> 0x8F)
        then ((b 0 - 0xF0) * 262144 + (b 1 - 0x80) * 4096 + (b 2 - 0x80) * 64 + (b 3 - 0x80), 4)
      else (RuneError, 1))"

lemma DecodeRune_ascii [simp]: "b < 0x80 \<Longrightarrow> DecodeRune (b # bs) = (unat b, 1)"
  by (simp add: DecodeRune_def Let_def word_less_nat_alt)

lemma EncodeRune_ascii: "r < 0x80 \<Longrightarrow> EncodeRune r = [word_of_nat r]"
  by (simp add: EncodeRune_def Let_def)

lemma DecodeRune_width: "bs \<noteq> [] \<Longrightarrow> 1 \<le> snd (DecodeRune bs) \<and> snd (DecodeRune bs) \<le> 4"
  by (simp add: DecodeRune_def Let_def)

end
