(* ===== verification/Json.thy ===== *)
theory Json
  imports Strconv
begin

text \<open>
  Go's \<open>encoding/json\<close>, as far as the repository relies on it: the syntax of values, the
  unquoting of strings, the matching of object keys to struct fields, and the string form that
  \<open>Marshal\<close> writes.  Decoding into a struct is written out by the theories that have the struct.
\<close>

datatype json = JNull | JBool bool | JNum bytes | JStr bytes | JArr "json list" | JObj "(bytes \<times> json) list"

section \<open>Strings\<close>

definition hex_val :: "byte \<Rightarrow> nat option" where
  "hex_val c = (if 48 \<le> c \<and> c \<le> 57 then Some (unat c - 48)
     else if 97 \<le> c \<and> c \<le> 102 then Some (unat c - 87)
     else if 65 \<le> c \<and> c \<le> 70 then Some (unat c - 55) else None)"

definition hex_digit :: "nat \<Rightarrow> byte" where
  "hex_digit d = (if d < 10 then word_of_nat (48 + d) else word_of_nat (87 + d))"

text \<open>\<open>getu4\<close>: the value of a \<open>\uXXXX\<close> at the start of the input.\<close>

definition getu4 :: "bytes \<Rightarrow> nat option" where
  "getu4 s = (case s of
     b # u # c1 # c2 # c3 # c4 # _ \<Rightarrow>
       if b = 92 \<and> u = 117 then
         (case (hex_val c1, hex_val c2, hex_val c3, hex_val c4) of
            (Some d1, Some d2, Some d3, Some d4) \<Rightarrow> Some (4096 * d1 + 256 * d2 + 16 * d3 + d4)
          | _ \<Rightarrow> None)
       else None
   | _ \<Rightarrow> None)"

definition is_surrogate :: "nat \<Rightarrow> bool" where
  "is_surrogate r \<longleftrightarrow> 0xD800 \<le> r \<and> r \<le> 0xDFFF"

definition utf16_DecodeRune :: "nat \<Rightarrow> nat option \<Rightarrow> nat option" where
  "utf16_DecodeRune r1 r2 = (case r2 of None \<Rightarrow> None
     | Some r2 \<Rightarrow> if 0xD800 \<le> r1 \<and> r1 < 0xDC00 \<and> 0xDC00 \<le> r2 \<and> r2 < 0xE000
         then Some ((r1 - 0xD800) * 1024 + (r2 - 0xDC00) + 0x10000) else None)"

definition simple_escape :: "byte \<Rightarrow> byte option" where
  "simple_escape c = map_of [(34, 34), (92, 92), (47, 47), (98, 8), (102, 12), (110, 10), (114, 13), (116, 9)] c"

text \<open>The rest of a string literal: its unquoted content and the input after the closing quote.\<close>

fun json_string :: "bytes \<Rightarrow> (bytes \<times> bytes) option" where
  "json_string [] = None"
| "json_string (c # cs) =
     (let more = (\<lambda>out k. map_option (\<lambda>(s, rest). (out @ s, rest)) k) in
      if c = 34 then Some ([], cs)
      else if c < 32 then None
      else if c = 92 then
        (case cs of [] \<Rightarrow> None
         | e # cs' \<Rightarrow>
           if e = 117 then
             (case getu4 (c # cs) of None \<Rightarrow> None
              | Some r \<Rightarrow>
                if is_surrogate r then
                  (case utf16_DecodeRune r (getu4 (drop 5 cs)) of
                     Some d \<Rightarrow> more (EncodeRune d) (json_string (drop 11 cs))
                   | None \<Rightarrow> more (EncodeRune RuneError) (json_string (drop 5 cs)))
                else more (EncodeRune r) (json_string (drop 5 cs)))
           else (case simple_escape e of None \<Rightarrow> None | Some b \<Rightarrow> more [b] (json_string cs')))
      else if c < 128 then more [c] (json_string cs)
      else let (r, n) = DecodeRune (c # cs) in more (EncodeRune r) (json_string (drop (n - 1) cs)))"

text \<open>The string form of \<open>Marshal\<close>, with the characters special to HTML escaped.\<close>

definition json_safe :: "byte \<Rightarrow> bool" where
  "json_safe c \<longleftrightarrow> 32 \<le> c \<and> c < 128 \<and> c \<notin> {34, 92, 60, 62, 38}"

fun json_escape :: "bytes \<Rightarrow> bytes" where
  "json_escape [] = []"
| "json_escape (c # cs) =
     (if c < 128 then
        (if json_safe c then [c]
         else if c = 34 \<or> c = 92 then [92, c]
         else if c = 8 then [92, 98] else if c = 12 then [92, 102] else if c = 10 then [92, 110]
         else if c = 13 then [92, 114] else if c = 9 then [92, 116]
         else [92, 117, 48, 48, hex_digit (unat c div 16), hex_digit (unat c mod 16)]) @ json_escape cs
      else let (r, n) = DecodeRune (c # cs) in
        (if r = RuneError \<and> n = 1 then 92 # str_bytes ''ufffd''
         else if r = 0x2028 then 92 # str_bytes ''u2028'' else if r = 0x2029 then 92 # str_bytes ''u2029''
         else take n (c # cs)) @ json_escape (drop (n - 1) cs))"

definition json_quote :: "bytes \<Rightarrow> bytes" where
  "json_quote s = 34 # json_escape s @ [34]"

section \<open>Values\<close>

definition is_ws :: "byte \<Rightarrow> bool" where
  "is_ws c \<longleftrightarrow> c = 32 \<or> c = 9 \<or> c = 13 \<or> c = 10"

definition skip_ws :: "bytes \<Rightarrow> bytes" where
  "skip_ws = dropWhile is_ws"

definition has_prefix :: "bytes \<Rightarrow> bytes \<Rightarrow> bool" where
  "has_prefix s p \<longleftrightarrow> take (length p) s = p"

definition digits1 :: "bytes \<Rightarrow> (bytes \<times> bytes) option" where
  "digits1 s = (if takeWhile is_digit s = [] then None else Some (takeWhile is_digit s, dropWhile is_digit s))"

text \<open>A number literal: sign, integer part without leading zeros, fraction, exponent.\<close>

definition num_int :: "bytes \<Rightarrow> (bytes \<times> bytes) option" where
  "num_int s = (let (sg, s) = (if s \<noteq> [] \<and> hd s = 45 then ([45], tl s) else ([], s)) in
     if s \<noteq> [] \<and> hd s = 48 then Some (sg @ [48], tl s)
     else map_option (\<lambda>(d, r). (sg @ d, r)) (digits1 s))"

definition num_frac :: "bytes \<Rightarrow> (bytes \<times> bytes) option" where
  "num_frac s = (if s \<noteq> [] \<and> hd s = 46 then map_option (\<lambda>(d, r). (46 # d, r)) (digits1 (tl s)) else Some ([], s))"

definition num_exp :: "bytes \<Rightarrow> (bytes \<times> bytes) option" where
  "num_exp s = (if s \<noteq> [] \<and> (hd s = 101 \<or> hd s = 69) then
       let e = hd s; s = tl s;
           (sg, s) = (if s \<noteq> [] \<and> (hd s = 43 \<or> hd s = 45) then ([hd s], tl s) else ([], s))
       in map_option (\<lambda>(d, r). (e # sg @ d, r)) (digits1 s)
     else Some ([], s))"

definition json_number :: "bytes \<Rightarrow> (bytes \<times> bytes) option" where
  "json_number s = Option.bind (num_int s) (\<lambda>(i, s). Option.bind (num_frac s) (\<lambda>(f, s).
     Option.bind (num_exp s) (\<lambda>(e, s). Some (i @ f @ e, s))))"

definition json_syntax :: err where "json_syntax = Error ''invalid JSON''"

text \<open>
  A value at the start of the input, and the rest.  \<open>depth\<close> is the number of arrays and objects
  around it, which Go bounds by 10000.  The recursion runs on fuel; \<open>json_parse_fuel\<close> shows that
  twice the length of the input is enough.
\<close>

definition maxNestingDepth :: nat where "maxNestingDepth = 10000"
definition out_of_fuel :: err where "out_of_fuel = Panic ''fuel''"

fun json_value :: "nat \<Rightarrow> nat \<Rightarrow> bytes \<Rightarrow> (json \<times> bytes) res"
  and json_elems :: "nat \<Rightarrow> nat \<Rightarrow> bytes \<Rightarrow> (json list \<times> bytes) res"
  and json_members :: "nat \<Rightarrow> nat \<Rightarrow> bytes \<Rightarrow> ((bytes \<times> json) list \<times> bytes) res" where
  "json_value 0 depth s = Inl out_of_fuel"
| "json_value (Suc fuel) depth s =
     (case skip_ws s of [] \<Rightarrow> Inl json_syntax
      | c # cs \<Rightarrow>
        if c = 34 then (case json_string cs of None \<Rightarrow> Inl json_syntax | Some (v, r) \<Rightarrow> Inr (JStr v, r))
        else if c = 91 then
          (if maxNestingDepth \<le> depth then Inl json_syntax
           else case skip_ws cs of [] \<Rightarrow> Inl json_syntax
             | d # ds \<Rightarrow> if d = 93 then Inr (JArr [], ds)
                 else rbind (json_elems fuel (Suc depth) cs) (\<lambda>(vs, r). Inr (JArr vs, r)))
        else if c = 123 then
          (if maxNestingDepth \<le> depth then Inl json_syntax
           else case skip_ws cs of [] \<Rightarrow> Inl json_syntax
             | d # ds \<Rightarrow> if d = 125 then Inr (JObj [], ds)
                 else rbind (json_members fuel (Suc depth) cs) (\<lambda>(ms, r). Inr (JObj ms, r)))
        else if has_prefix (c # cs) (str_bytes ''true'') then Inr (JBool True, drop 3 cs)
        else if has_prefix (c # cs) (str_bytes ''false'') then Inr (JBool False, drop 4 cs)
        else if has_prefix (c # cs) (str_bytes ''null'') then Inr (JNull, drop 3 cs)
        else case json_number (c # cs) of None \<Rightarrow> Inl json_syntax | Some (n, r) \<Rightarrow> Inr (JNum n, r))"
| "json_elems 0 depth s = Inl out_of_fuel"
| "json_elems (Suc fuel) depth s =
     rbind (json_value fuel depth s) (\<lambda>(v, r).
     case skip_ws r of [] \<Rightarrow> Inl json_syntax
     | c # cs \<Rightarrow> if c = 93 then Inr ([v], cs)
         else if c = 44 then rbind (json_elems fuel depth cs) (\<lambda>(vs, r). Inr (v # vs, r))
         else Inl json_syntax)"
| "json_members 0 depth s = Inl out_of_fuel"
| "json_members (Suc fuel) depth s =
     (case skip_ws s of [] \<Rightarrow> Inl json_syntax
      | q # s1 \<Rightarrow> if q \<noteq> 34 then Inl json_syntax
        else case json_string s1 of None \<Rightarrow> Inl json_syntax
        | Some (k, s2) \<Rightarrow>
          (case skip_ws s2 of [] \<Rightarrow> Inl json_syntax
           | c # s3 \<Rightarrow> if c \<noteq> 58 then Inl json_syntax
             else rbind (json_value fuel depth s3) (\<lambda>(v, r).
               case skip_ws r of [] \<Rightarrow> Inl json_syntax
               | c # cs \<Rightarrow> if c = 125 then Inr ([(k, v)], cs)
                   else if c = 44 then rbind (json_members fuel depth cs) (\<lambda>(ms, r). Inr ((k, v) # ms, r))
                   else Inl json_syntax)))"

definition json_parse :: "bytes \<Rightarrow> json res" where
  "json_parse s = rbind (json_value (Suc (2 * length s)) 0 s) (\<lambda>(v, r).
     if skip_ws r = [] then Inr v else Inl json_syntax)"

text \<open>
  Object keys match field names exactly, or after folding case; besides the ASCII letters only
  the long s and the Kelvin sign fold to an ASCII letter.
\<close>

fun json_fold :: "bytes \<Rightarrow> bytes" where
  "json_fold [] = []"
| "json_fold (c # cs) =
     (if 97 \<le> c \<and> c \<le> 122 then (c - 32) # json_fold cs
      else if take 2 (c # cs) = [0xC5, 0xBF] then 83 # json_fold (drop 1 cs)
      else if take 3 (c # cs) = [0xE2, 0x84, 0xAA] then 75 # json_fold (drop 2 cs)
      else c # json_fold cs)"

definition field_matches :: "string list \<Rightarrow> string \<Rightarrow> bytes \<Rightarrow> bool" where
  "field_matches fields f k \<longleftrightarrow> (if k \<in> str_bytes ` set fields then k = str_bytes f
     else json_fold k = json_fold (str_bytes f))"

section \<open>The parser returns\<close>

lemma json_string_shorter: "json_string s = Some (v, r) \<Longrightarrow> length r < length s"
proof (induction s arbitrary: v r rule: json_string.induct)
  case (2 c cs)
  have drop: "length (drop n cs) \<le> length cs" for n by simp
  show ?case using 2
    by (auto simp: Let_def split: if_splits list.splits option.splits prod.splits) force+
qed simp

lemma digits1_shorter: "digits1 s = Some (d, r) \<Longrightarrow> length r < length s"
proof -
  assume d: "digits1 s = Some (d, r)"
  then have "length s = length (takeWhile is_digit s) + length r" and "takeWhile is_digit s \<noteq> []"
    by (auto simp: digits1_def split: if_splits) (metis length_append takeWhile_dropWhile_id)
  then show ?thesis by (cases "takeWhile is_digit s") auto
qed

lemma num_int_shorter: "num_int s = Some (d, r) \<Longrightarrow> length r < length s"
  by (cases s) (auto simp: num_int_def Let_def split: if_splits dest!: digits1_shorter)

lemma num_frac_shorter: "num_frac s = Some (d, r) \<Longrightarrow> length r \<le> length s"
  by (cases s) (auto simp: num_frac_def split: if_splits dest!: digits1_shorter)

lemma num_exp_shorter: "num_exp s = Some (d, r) \<Longrightarrow> length r \<le> length s"
  by (cases s; cases "tl s") (auto simp: num_exp_def Let_def split: if_splits dest!: digits1_shorter)

lemma json_number_shorter: "json_number s = Some (n, r) \<Longrightarrow> length r < length s"
  by (auto simp: json_number_def bind_eq_Some_conv dest!: num_int_shorter num_frac_shorter num_exp_shorter)

lemma skip_ws_length: "length (skip_ws s) \<le> length s"
  by (simp add: skip_ws_def length_dropWhile_le)

lemma skip_ws_Cons: "skip_ws s = c # cs \<Longrightarrow> length cs < length s"
  using skip_ws_length[of s] by simp

abbreviation returns :: "nat \<Rightarrow> ('a \<times> bytes) res \<Rightarrow> bool" where
  "returns n m \<equiv> (case m of Inl e \<Rightarrow> e \<noteq> out_of_fuel | Inr (v, r) \<Rightarrow> length r < n)"

lemma returns_rbind:
  assumes "returns n m" and "\<And>v r. m = Inr (v, r) \<Longrightarrow> length r < n \<Longrightarrow> returns n' (f (v, r))"
  shows "returns n' (rbind m f)"
  using assms by (cases m) auto

lemma json_syntax_fuel [simp]: "json_syntax \<noteq> out_of_fuel" by (simp add: json_syntax_def out_of_fuel_def)

lemma json_fuel:
  "(2 * length s < fuel \<longrightarrow> returns (length s) (json_value fuel depth s)) \<and>
   (2 * length s + 1 < fuel \<longrightarrow> returns (length s) (json_elems fuel depth s)) \<and>
   (2 * length s + 1 < fuel \<longrightarrow> returns (length s) (json_members fuel depth s))"
proof (induction fuel arbitrary: s depth)
  case (Suc fuel)
  note V = Suc[THEN conjunct1, rule_format] and E = Suc[THEN conjunct2, THEN conjunct1, rule_format]
    and M = Suc[THEN conjunct2, THEN conjunct2, rule_format]
  have "returns (length s) (json_value (Suc fuel) depth s)" if f: "2 * length s < Suc fuel"
  proof (cases "skip_ws s")
    case (Cons c cs)
    have l: "length cs < length s" by (rule skip_ws_Cons[OF Cons])
    have es: "returns (length s) (rbind (json_elems fuel d cs) (\<lambda>(vs, r). Inr (g vs, r)))" for d and g :: "json list \<Rightarrow> json"
      by (rule returns_rbind[OF E]) (use l f in auto)
    have ms: "returns (length s) (rbind (json_members fuel d cs) (\<lambda>(vs, r). Inr (g vs, r)))"
      for d and g :: "(bytes \<times> json) list \<Rightarrow> json"
      by (rule returns_rbind[OF M]) (use l f in auto)
    consider "c = 34" | "c = 91" | "c = 123" | "c \<noteq> 34 \<and> c \<noteq> 91 \<and> c \<noteq> 123" by blast
    then show ?thesis
    proof cases
      case 1
      then show ?thesis using l by (auto simp: Cons split: option.split dest!: json_string_shorter)
    next
      case 2
      then show ?thesis using l es by (auto simp: Cons split: list.split dest!: skip_ws_Cons)
    next
      case 3
      then show ?thesis using l ms by (auto simp: Cons split: list.split dest!: skip_ws_Cons)
    next
      case 4
      then show ?thesis using l by (auto simp: Cons split: option.split dest!: json_number_shorter)
    qed
  qed simp
  moreover have "returns (length s) (json_elems (Suc fuel) depth s)" if f: "2 * length s + 1 < Suc fuel"
  proof -
    have "returns (length s) (case skip_ws r of [] \<Rightarrow> Inl json_syntax
        | c # cs \<Rightarrow> if c = 93 then Inr ([v], cs)
            else if c = 44 then rbind (json_elems fuel depth cs) (\<lambda>(vs, r). Inr (v # vs, r)) else Inl json_syntax)"
      if r: "length r < length s" for v r
    proof (cases "skip_ws r")
      case (Cons c cs)
      have l: "length cs < length r" by (rule skip_ws_Cons[OF Cons])
      have "returns (length s) (rbind (json_elems fuel depth cs) (\<lambda>(vs, r). Inr (v # vs, r)))"
        by (rule returns_rbind[OF E]) (use l r f in auto)
      then show ?thesis using l r by (auto simp: Cons)
    qed simp
    then show ?thesis using f by (simp, intro returns_rbind[OF V]) auto
  qed
  moreover have "returns (length s) (json_members (Suc fuel) depth s)" if f: "2 * length s + 1 < Suc fuel"
  proof -
    have nxt: "returns (length s) (case skip_ws r of [] \<Rightarrow> Inl json_syntax
        | c # cs \<Rightarrow> if c = 125 then Inr ([(k, v)], cs)
            else if c = 44 then rbind (json_members fuel depth cs) (\<lambda>(vs, r). Inr ((k, v) # vs, r)) else Inl json_syntax)"
      if r: "length r < length s" for k v r
    proof (cases "skip_ws r")
      case (Cons c cs)
      have l: "length cs < length r" by (rule skip_ws_Cons[OF Cons])
      have "returns (length s) (rbind (json_members fuel depth cs) (\<lambda>(vs, r). Inr ((k, v) # vs, r)))"
        by (rule returns_rbind[OF M]) (use l r f in auto)
      then show ?thesis using l r by (auto simp: Cons)
    qed simp
    have "returns (length s) (rbind (json_value fuel depth s3) (\<lambda>(v, r). case skip_ws r of [] \<Rightarrow> Inl json_syntax
        | c # cs \<Rightarrow> if c = 125 then Inr ([(k, v)], cs)
            else if c = 44 then rbind (json_members fuel depth cs) (\<lambda>(vs, r). Inr ((k, v) # vs, r)) else Inl json_syntax))"
      if "length s3 < length s" for k s3
      by (rule returns_rbind[OF V]) (use that f nxt in auto)
    then show ?thesis
      by (auto split: list.split option.split dest!: skip_ws_Cons json_string_shorter)
  qed
  ultimately show ?case by blast
qed simp

lemma json_parse_fuel: "json_parse s \<noteq> Inl out_of_fuel"
  using json_fuel[THEN conjunct1, rule_format, of s "Suc (2 * length s)" 0]
  by (cases "json_value (Suc (2 * length s)) 0 s")
    (auto simp: json_parse_def split: if_splits simp del: json_value.simps)

section \<open>Reading back what was written\<close>

definition ascii :: "bytes \<Rightarrow> bool" where
  "ascii s \<longleftrightarrow> list_all (\<lambda>c. c < 128) s"

lemma hex_val_digit: "d < 16 \<Longrightarrow> hex_val (hex_digit d) = Some d"
proof -
  assume d: "d < 16"
  have "unat (87 + word_of_nat d :: byte) = 87 + d"
    using d by (subst unat_add_lem[THEN iffD1]) (simp_all add: unat_of_nat)
  then show ?thesis using d by (auto simp: hex_val_def hex_digit_def word_le_nat_alt unat_digit)
qed

lemma hex_val_0: "hex_val 48 = Some 0" by (simp add: hex_val_def)

lemma EncodeRune_unat: "(c :: byte) < 128 \<Longrightarrow> EncodeRune (unat c) = [c]"
  by (simp add: EncodeRune_ascii word_less_nat_alt)

lemma json_string_u:
  assumes "(c :: byte) < 128"
  shows "json_string (92 # 117 # 48 # 48 # hex_digit (unat c div 16) # hex_digit (unat c mod 16) # r) =
    map_option (\<lambda>(s, rest). (c # s, rest)) (json_string r)"
proof -
  have "unat c < 128" using assms by (simp add: word_less_nat_alt)
  then have "getu4 (92 # 117 # 48 # 48 # hex_digit (unat c div 16) # hex_digit (unat c mod 16) # r) = Some (unat c)"
    using hex_val_digit[of "unat c div 16"] hex_val_digit[of "unat c mod 16"] hex_val_0 by (simp add: getu4_def)
  then show ?thesis using assms \<open>unat c < 128\<close> by (simp add: Let_def is_surrogate_def EncodeRune_unat)
qed

lemma json_string_escape:
  "ascii s \<Longrightarrow> json_string (json_escape s @ 34 # r) = Some (s, r)"
proof (induction s)
  case Nil
  then show ?case by (simp add: Let_def)
next
  case (Cons c s)
  then have c: "c < 128" and IH: "json_string (json_escape s @ 34 # r) = Some (s, r)" by (auto simp: ascii_def)
  have safe: "json_string (c # t) = map_option (\<lambda>(s, rest). (c # s, rest)) (json_string t)" if "json_safe c" for t
    using that c by (auto simp: json_safe_def Let_def word_less_nat_alt word_le_nat_alt)
  have esc: "json_string (92 # e # t) = map_option (\<lambda>(s, rest). (c # s, rest)) (json_string t)"
    if "simple_escape e = Some c" "e \<noteq> 117" for e t
    using that by (simp add: Let_def)
  show ?case
    using c IH by (auto simp: safe json_string_u esc simple_escape_def simp del: json_string.simps)
qed

lemma json_quote_value:
  "ascii s \<Longrightarrow> json_value (Suc fuel) depth (json_quote s @ r) = Inr (JStr s, r)"
  by (simp add: json_quote_def skip_ws_def is_ws_def json_string_escape del: json_string.simps)

text \<open>A decimal number, followed by something that does not continue it.\<close>

definition ends_number :: "bytes \<Rightarrow> bool" where
  "ends_number r \<longleftrightarrow> (case r of [] \<Rightarrow> True | c # _ \<Rightarrow> \<not> is_digit c \<and> c \<notin> {46, 101, 69})"

lemma FormatUint_lead: "0 < n \<Longrightarrow> hd (FormatUint n) \<noteq> 48"
proof (induction n rule: FormatUint.induct)
  case (1 n)
  show ?case
  proof (cases "n < 10")
    case True
    have "unat (48 + word_of_nat n :: byte) \<noteq> unat (48 :: byte)" using unat_digit[OF True] 1(2) by simp
    then show ?thesis using True by (subst FormatUint.simps) auto
  qed (use 1 in \<open>subst FormatUint.simps, simp\<close>)
qed

lemma num_int_FormatUint: "ends_number r \<Longrightarrow> num_int (FormatUint n @ r) = Some (FormatUint n, r)"
proof (cases "n = 0")
  case True
  then show ?thesis by (simp add: num_int_def FormatUint.simps)
next
  case False
  assume r: "ends_number r"
  obtain d ds where f: "FormatUint n = d # ds" by (meson FormatUint_neq_Nil list.exhaust)
  have "d \<noteq> 45" "d \<noteq> 48" using FormatUint_hd[of n] FormatUint_lead[of n] False f by auto
  moreover have "takeWhile is_digit (FormatUint n @ r) = FormatUint n" "dropWhile is_digit (FormatUint n @ r) = r"
    using FormatUint_digits[of n] r
    by (auto simp: ends_number_def takeWhile_append dropWhile_append list_all_iff split: list.splits)
  ultimately show ?thesis by (simp add: num_int_def digits1_def f)
qed

lemma json_number_FormatUint: "ends_number r \<Longrightarrow> json_number (FormatUint n @ r) = Some (FormatUint n, r)"
  using num_int_FormatUint[of r n]
  by (cases r) (auto simp: json_number_def num_frac_def num_exp_def ends_number_def)

lemma json_value_FormatUint:
  assumes "ends_number r"
  shows "json_value (Suc fuel) depth (FormatUint n @ r) = Inr (JNum (FormatUint n), r)"
proof -
  obtain d ds where f: "FormatUint n = d # ds" by (meson FormatUint_neq_Nil list.exhaust)
  have "is_digit d" using FormatUint_digits[of n] f by simp
  then have d: "unat d \<in> {48..57}" by (auto simp: is_digit_iff)
  have ne: "d \<noteq> b" if "unat b \<notin> {48..57}" for b using d that by auto
  have "skip_ws (FormatUint n @ r) = d # ds @ r" using f d by (auto simp: skip_ws_def is_ws_def ne)
  then show ?thesis using json_number_FormatUint[OF assms, of n] f
    by (simp add: ne has_prefix_def str_bytes_def)
qed

end
