(* ===== verification/Meta.thy ===== *)
theory Meta
  imports Json Files Binary
begin

text \<open>
  \<open>src/db/metadata.go\<close>: the double-buffered metadata that names the live SSTables.  Two slot
  files each hold a checksummed JSON snapshot; the one with the higher version is current and
  \<open>Set\<close> overwrites the other, so that a crash can damage at most the slot being written.
\<close>

section \<open>Data\<close>

record KVMetaData =
  md_Version :: nat
  md_SSTables :: "bytes list"

definition meta_zero :: KVMetaData where
  "meta_zero = \<lparr>md_Version = 0, md_SSTables = []\<rparr>"

definition ErrMetaCorrupt :: err where "ErrMetaCorrupt = Error ''metadata slot is corrupt''"
definition ErrMetaUnreadable :: err where
  "ErrMetaUnreadable = Error ''metadata is unreadable but the store is not empty''"
definition errMetaAbsent :: err where "errMetaAbsent = Error ''metadata slot is absent''"
definition json_type_error :: err where "json_type_error = Error ''json: cannot unmarshal''"

text \<open>\<open>json.Marshal\<close> and \<open>json.Unmarshal\<close> for the struct; a nil list is \<open>null\<close>.\<close>

fun marshal_names :: "bytes list \<Rightarrow> bytes" where
  "marshal_names [] = []"
| "marshal_names [s] = json_quote s"
| "marshal_names (s # ss) = json_quote s @ [44] @ marshal_names ss"

definition marshal_meta :: "KVMetaData \<Rightarrow> bytes" where
  "marshal_meta d = str_bytes ''{\"Version\":'' @ FormatUint (md_Version d) @ str_bytes '',\"SSTables\":'' @
     (if md_SSTables d = [] then str_bytes ''null'' else [91] @ marshal_names (md_SSTables d) @ [93]) @ [125]"

definition unmarshal_name :: "json \<Rightarrow> bytes res" where
  "unmarshal_name v = (case v of JStr s \<Rightarrow> Inr s | JNull \<Rightarrow> Inr [] | _ \<Rightarrow> Inl json_type_error)"

fun unmarshal_names :: "json list \<Rightarrow> bytes list res" where
  "unmarshal_names [] = Inr []"
| "unmarshal_names (v # vs) = rbind (unmarshal_name v) (\<lambda>s. rbind (unmarshal_names vs) (\<lambda>ss. Inr (s # ss)))"

definition meta_fields :: "string list" where "meta_fields = [''Version'', ''SSTables'']"

fun unmarshal_members :: "(bytes \<times> json) list \<Rightarrow> KVMetaData \<Rightarrow> KVMetaData res" where
  "unmarshal_members [] d = Inr d"
| "unmarshal_members ((k, v) # ms) d =
     rbind (if field_matches meta_fields ''Version'' k then
              (case v of JNull \<Rightarrow> Inr d | JNum n \<Rightarrow> rbind (ParseUint n) (\<lambda>x. Inr (d\<lparr>md_Version := x\<rparr>))
               | _ \<Rightarrow> Inl json_type_error)
            else if field_matches meta_fields ''SSTables'' k then
              (case v of JNull \<Rightarrow> Inr (d\<lparr>md_SSTables := []\<rparr>)
               | JArr vs \<Rightarrow> rbind (unmarshal_names vs) (\<lambda>ss. Inr (d\<lparr>md_SSTables := ss\<rparr>))
               | _ \<Rightarrow> Inl json_type_error)
            else Inr d) (unmarshal_members ms)"

definition unmarshal_meta :: "bytes \<Rightarrow> KVMetaData res" where
  "unmarshal_meta b = rbind (json_parse b) (\<lambda>v. case v of
     JObj ms \<Rightarrow> unmarshal_members ms meta_zero | JNull \<Rightarrow> Inr meta_zero | _ \<Rightarrow> Inl json_type_error)"

section \<open>Slots\<close>

record KVMetaItem =
  it_fp :: "fileLike option"
  it_data :: KVMetaData

record KVMetaStore =
  ms_slot0 :: KVMetaItem
  ms_slot1 :: KVMetaItem

definition readAllAt :: "fileLike \<Rightarrow> fileLike \<times> bytes res" where
  "readAllAt fp = sbind (Stat_Size fp) (\<lambda>fp n. ReadAt fp n 0)"

definition decode_slot :: "bytes \<Rightarrow> KVMetaData res" where
  "decode_slot b =
     (if b = [] then Inl errMetaAbsent
      else if length b \<le> 8 then Inl ErrMetaCorrupt
      else let sum = Uint32 (take 4 b); size = unat (Uint32 (take 4 (drop 4 b))) in
        if length b < 8 + size then Inl ErrMetaCorrupt
        else if sum \<noteq> crc32_ieee (take (4 + size) (drop 4 b)) then Inl ErrMetaCorrupt
        else case unmarshal_meta (take size (drop 8 b)) of Inl e \<Rightarrow> Inl ErrMetaCorrupt | Inr d \<Rightarrow> Inr d)"

definition readMetaFile :: "fileLike \<Rightarrow> fileLike \<times> KVMetaData res" where
  "readMetaFile fp = sbind (readAllAt fp) (\<lambda>fp b. (fp, decode_slot b))"

definition slot_bytes :: "KVMetaData \<Rightarrow> bytes" where
  "slot_bytes d = (let b = marshal_meta d; c = PutUint32 (word_of_nat (length b)) @ b in PutUint32 (crc32_ieee c) @ c)"

definition writeMetaFile :: "fileLike \<Rightarrow> KVMetaData \<Rightarrow> fileLike \<times> unit res" where
  "writeMetaFile fp d = sbind (WriteAt fp (slot_bytes d) 0) (\<lambda>fp _. Sync fp)"

definition meta_current :: "KVMetaStore \<Rightarrow> nat" where
  "meta_current m = (if md_Version (it_data (ms_slot0 m)) > md_Version (it_data (ms_slot1 m)) then 0 else 1)"

definition meta_slot :: "KVMetaStore \<Rightarrow> nat \<Rightarrow> KVMetaItem" where
  "meta_slot m i = (if i = 0 then ms_slot0 m else ms_slot1 m)"

definition put_slot :: "KVMetaStore \<Rightarrow> nat \<Rightarrow> KVMetaItem \<Rightarrow> KVMetaStore" where
  "put_slot m i it = (if i = 0 then m\<lparr>ms_slot0 := it\<rparr> else m\<lparr>ms_slot1 := it\<rparr>)"

definition Meta_Get :: "KVMetaStore \<Rightarrow> KVMetaData" where
  "Meta_Get m = it_data (meta_slot m (meta_current m))"

definition Meta_Set :: "KVMetaStore \<Rightarrow> KVMetaData \<Rightarrow> KVMetaStore \<times> unit res" where
  "Meta_Set m d =
     (let i = 1 - meta_current m; it = meta_slot m i in
      case it_fp it of None \<Rightarrow> (m, Inl (Panic ''nil file''))
      | Some fp \<Rightarrow> (case writeMetaFile fp d of
          (fp', Inl e) \<Rightarrow> (put_slot m i (it\<lparr>it_fp := Some fp'\<rparr>), Inl e)
        | (fp', Inr _) \<Rightarrow> (put_slot m i (it\<lparr>it_fp := Some fp', it_data := d\<rparr>), Inr ())))"

section \<open>Opening\<close>

text \<open>
  The environment gives the result of opening each slot file, and the directory listing as names
  with a directory flag.
\<close>

definition metaSSTablePrefix :: bytes where "metaSSTablePrefix = str_bytes ''sstable_''"

definition countSSTables :: "(bytes \<times> bool) list res \<Rightarrow> nat res" where
  "countSSTables dir = rbind dir (\<lambda>entries. Inr (length (filter (\<lambda>(name, isDir).
     \<not> isDir \<and> length metaSSTablePrefix < length name \<and> take (length metaSSTablePrefix) name = metaSSTablePrefix) entries)))"

definition openMetafile :: "fileLike res \<Rightarrow> fileLike option \<times> KVMetaData res" where
  "openMetafile opened = (case opened of Inl e \<Rightarrow> (None, Inl e)
     | Inr fp \<Rightarrow> (case readMetaFile fp of (fp, r) \<Rightarrow> (Some fp, r)))"

definition opened_slot :: "fileLike \<Rightarrow> KVMetaData res \<Rightarrow> KVMetaItem" where
  "opened_slot fp r = \<lparr>it_fp = Some fp, it_data = (case r of Inl e \<Rightarrow> meta_zero | Inr d \<Rightarrow> d)\<rparr>"

definition no_slot :: "KVMetaItem" where "no_slot = \<lparr>it_fp = None, it_data = meta_zero\<rparr>"

definition checkNotEmpty :: "(bytes \<times> bool) list res \<Rightarrow> unit res" where
  "checkNotEmpty dir = rbind (countSSTables dir) (\<lambda>leftovers.
     if leftovers = 0 then Inr () else Inl ErrMetaUnreadable)"

definition meta_closed :: "KVMetaStore \<Rightarrow> KVMetaStore" where
  "meta_closed m = m\<lparr>ms_slot0 := (ms_slot0 m)\<lparr>it_fp := None\<rparr>, ms_slot1 := (ms_slot1 m)\<lparr>it_fp := None\<rparr>\<rparr>"

text \<open>\<open>MultiClosers.Close\<close> closes every slot file and returns the last error.\<close>

definition Meta_Close :: "KVMetaStore \<Rightarrow> KVMetaStore \<times> unit res" where
  "Meta_Close m =
     (let r = (\<lambda>it. case it_fp it of None \<Rightarrow> Inr () | Some fp \<Rightarrow> fp_Close fp);
          r0 = r (ms_slot0 m); r1 = r (ms_slot1 m) in
      (meta_closed m, if isl r1 then r1 else r0))"

definition Meta_Open :: "fileLike res \<Rightarrow> fileLike res \<Rightarrow> (bytes \<times> bool) list res \<Rightarrow> KVMetaStore \<times> unit res" where
  "Meta_Open o0 o1 dir =
     (case openMetafile o0 of
        (None, Inl e) \<Rightarrow> (\<lparr>ms_slot0 = no_slot, ms_slot1 = no_slot\<rparr>, Inl e)
      | (None, Inr _) \<Rightarrow> (\<lparr>ms_slot0 = no_slot, ms_slot1 = no_slot\<rparr>, Inl (Panic ''nil error''))
      | (Some fp0, r0) \<Rightarrow>
        (case openMetafile o1 of
           (None, r1) \<Rightarrow> (meta_closed \<lparr>ms_slot0 = opened_slot fp0 r0, ms_slot1 = no_slot\<rparr>,
              (case r1 of Inl e \<Rightarrow> Inl e | Inr _ \<Rightarrow> Inl (Panic ''nil error'')))
         | (Some fp1, r1) \<Rightarrow>
             let m = \<lparr>ms_slot0 = opened_slot fp0 r0, ms_slot1 = opened_slot fp1 r1\<rparr> in
             if \<not> isl r0 \<or> \<not> isl r1 then (m, Inr ())
             else (case checkNotEmpty dir of Inl e \<Rightarrow> (meta_closed m, Inl e) | Inr _ \<Rightarrow> (m, Inr ()))))"

section \<open>Reading back a slot\<close>

definition meta_wf :: "KVMetaData \<Rightarrow> bool" where
  "meta_wf d \<longleftrightarrow> md_Version d < 2 ^ 64 \<and> list_all ascii (md_SSTables d) \<and> length (marshal_meta d) < 2 ^ 32"

lemma skip_ws_nonspace [simp]: "\<not> is_ws c \<Longrightarrow> skip_ws (c # cs) = c # cs"
  by (simp add: skip_ws_def)

lemma json_elems_names:
  "ss \<noteq> [] \<Longrightarrow> list_all ascii ss \<Longrightarrow> length ss < fuel \<Longrightarrow>
    json_elems fuel depth (marshal_names ss @ 93 # r) = Inr (map JStr ss, r)"
proof (induction ss arbitrary: fuel rule: marshal_names.induct)
  case (2 s)
  then obtain f where "fuel = Suc (Suc f)" by (metis Suc_less_eq2 length_Cons list.size(3) less_natE add_Suc_right)
  then show ?case using 2 by (simp add: json_quote_value is_ws_def del: json_value.simps)
next
  case (3 s s' ss)
  then obtain f where f: "fuel = Suc (Suc f)" by (metis Suc_less_eq2 length_Cons)
  have "json_elems (Suc f) depth (marshal_names (s' # ss) @ 93 # r) = Inr (map JStr (s' # ss), r)"
    using 3 f by (intro "3.IH") auto
  then show ?case using 3 f by (simp add: json_quote_value is_ws_def del: json_value.simps)
qed simp

lemma unmarshal_names_JStr [simp]: "unmarshal_names (map JStr ss) = Inr ss"
  by (induction ss) (simp_all add: unmarshal_name_def)

lemma length_marshal_names: "length ss \<le> length (marshal_names ss)"
  by (induction ss rule: marshal_names.induct) (auto simp: json_quote_def)

lemma json_quote_Version: "str_bytes ''{\"Version\":'' = 123 # json_quote (str_bytes ''Version'') @ [58]"
  and json_quote_SSTables: "str_bytes '',\"SSTables\":'' = 44 # json_quote (str_bytes ''SSTables'') @ [58]"
  by (simp_all add: str_bytes_def json_quote_def json_safe_def)

definition names_json :: "bytes list \<Rightarrow> json" where
  "names_json ss = (if ss = [] then JNull else JArr (map JStr ss))"

lemma json_value_names:
  assumes "list_all ascii ss" and "Suc (length ss) < fuel" and "depth < maxNestingDepth"
  shows "json_value fuel depth ((if ss = [] then str_bytes ''null'' else [91] @ marshal_names ss @ [93]) @ r) =
    Inr (names_json ss, r)"
proof -
  obtain f where f: "fuel = Suc f" using assms(2) by (cases fuel) auto
  show ?thesis
  proof (cases "ss = []")
    case True
    then show ?thesis by (simp add: f names_json_def str_bytes_def is_ws_def has_prefix_def)
  next
    case False
    have q: "\<exists>t. marshal_names ss = 34 # t" using False by (cases ss rule: marshal_names.cases) (auto simp: json_quote_def)
    have "json_elems f (Suc depth) (marshal_names ss @ 93 # r) = Inr (map JStr ss, r)"
      using False assms f by (intro json_elems_names) auto
    then show ?thesis using False assms(3) q by (auto simp: f names_json_def is_ws_def)
  qed
qed

lemma json_member:
  assumes "ascii k" and "json_value fuel depth (v @ [c] @ r) = Inr (j, [c] @ r)" and "\<not> is_ws c"
  shows "json_members (Suc fuel) depth (json_quote k @ [58] @ v @ [c] @ r) =
    (if c = 125 then Inr ([(k, j)], r)
     else if c = 44 then rbind (json_members fuel depth r) (\<lambda>(ms, r). Inr ((k, j) # ms, r))
     else Inl json_syntax)"
  using assms by (simp add: json_quote_def is_ws_def json_string_escape)

lemma json_parse_marshal:
  assumes "list_all ascii (md_SSTables d)"
  shows "json_parse (marshal_meta d) = Inr (JObj [(str_bytes ''Version'', JNum (FormatUint (md_Version d))),
    (str_bytes ''SSTables'', names_json (md_SSTables d))])"
proof -
  define ss where "ss = md_SSTables d"
  define nm where "nm = (if ss = [] then str_bytes ''null'' else [91] @ marshal_names ss @ [93])"
  let ?V = "str_bytes ''Version''" and ?S = "str_bytes ''SSTables''"
  let ?m2 = "json_quote ?S @ [58] @ nm @ [125] @ []"
  let ?m1 = "json_quote ?V @ [58] @ FormatUint (md_Version d) @ [44] @ ?m2"
  have eq: "marshal_meta d = 123 # ?m1"
    by (simp add: marshal_meta_def json_quote_Version json_quote_SSTables nm_def ss_def)
  have "length ss + 10 < length (marshal_meta d)"
    using length_marshal_names[of ss] by (auto simp: marshal_meta_def str_bytes_def ss_def)
  then obtain n where n: "2 * length (marshal_meta d) = Suc (Suc n)" "length ss + 1 < n"
    by (intro that[of "2 * length (marshal_meta d) - 2"]) auto
  have asc: "ascii ?V" "ascii ?S" by (simp_all add: ascii_def str_bytes_def)
  have "json_value n 1 (nm @ [125] @ []) = Inr (names_json ss, [125] @ [])" unfolding nm_def
    by (rule json_value_names) (use assms n in \<open>simp_all add: maxNestingDepth_def ss_def\<close>)
  from json_member[OF asc(2) this] have m2: "json_members (Suc n) 1 ?m2 = Inr ([(?S, names_json ss)], [])"
    by (simp add: is_ws_def)
  have "json_value (Suc n) 1 (FormatUint (md_Version d) @ [44] @ ?m2) = Inr (JNum (FormatUint (md_Version d)), [44] @ ?m2)"
    by (rule json_value_FormatUint) (simp add: ends_number_def is_digit_def)
  from json_member[OF asc(1) this] m2 have m1: "json_members (Suc (Suc n)) 1 ?m1 =
      Inr ([(?V, JNum (FormatUint (md_Version d))), (?S, names_json ss)], [])"
    by (simp add: is_ws_def del: json_members.simps)
  have q: "\<exists>t. ?m1 = 34 # t" by (simp add: json_quote_def)
  have "json_value (Suc (Suc (Suc n))) 0 (123 # ?m1) =
      rbind (json_members (Suc (Suc n)) 1 ?m1) (\<lambda>(ms, r). Inr (JObj ms, r))"
    using q by (auto simp: is_ws_def maxNestingDepth_def simp del: json_members.simps)
  then have "json_value (Suc (2 * length (marshal_meta d))) 0 (marshal_meta d) =
      Inr (JObj [(?V, JNum (FormatUint (md_Version d))), (?S, names_json ss)], [])"
    using m1 unfolding n(1) unfolding eq by (simp del: json_value.simps json_members.simps)
  then show ?thesis by (simp add: json_parse_def ss_def skip_ws_def del: json_value.simps)
qed

lemma unmarshal_marshal:
  assumes "md_Version d < 2 ^ 64" and "list_all ascii (md_SSTables d)"
  shows "unmarshal_meta (marshal_meta d) = Inr d"
proof -
  have "str_bytes ''Version'' \<noteq> str_bytes ''SSTables''" by (simp add: str_bytes_def)
  then show ?thesis using json_parse_marshal[OF assms(2)] assms(1)
    by (simp add: unmarshal_meta_def field_matches_def meta_fields_def names_json_def meta_zero_def)
qed

lemma decode_slot_bytes:
  assumes "meta_wf d"
  shows "decode_slot (slot_bytes d @ junk) = Inr d"
proof -
  let ?b = "marshal_meta d"
  have "length ?b < 2 ^ 32" and u: "unmarshal_meta ?b = Inr d" using assms unmarshal_marshal by (auto simp: meta_wf_def)
  then have "unat (word_of_nat (length ?b) :: u32) = length ?b" by (simp add: unat_of_nat)
  moreover have "?b \<noteq> []" by (simp add: marshal_meta_def str_bytes_def)
  ultimately show ?thesis using u
    by (simp add: decode_slot_def slot_bytes_def Let_def codec_simps)
qed

section \<open>Opening what a crash left\<close>

definition slot_data :: "bytes \<Rightarrow> KVMetaData" where
  "slot_data x = (case decode_slot x of Inl e \<Rightarrow> meta_zero | Inr d \<Rightarrow> d)"

lemma openMetafile_clean: "openMetafile (Inr (clean x)) = (Some (clean x), decode_slot x)"
  by (simp add: openMetafile_def readMetaFile_def readAllAt_def Stat_Size_def ReadAt_def)

lemma Meta_Open_clean:
  "Meta_Open (Inr (clean x0)) (Inr (clean x1)) dir =
     (let m = \<lparr>ms_slot0 = \<lparr>it_fp = Some (clean x0), it_data = slot_data x0\<rparr>,
              ms_slot1 = \<lparr>it_fp = Some (clean x1), it_data = slot_data x1\<rparr>\<rparr> in
      if isl (decode_slot x0) \<and> isl (decode_slot x1) then
        (case checkNotEmpty dir of Inl e \<Rightarrow> (meta_closed m, Inl e) | Inr _ \<Rightarrow> (m, Inr ()))
      else (m, Inr ()))"
  by (simp add: Meta_Open_def openMetafile_clean opened_slot_def slot_data_def Let_def)

text \<open>The store reopened on the contents of its slots, \<open>y\<close> in slot \<open>c\<close> and \<open>x\<close> in the other.\<close>

definition meta_reopen :: "nat \<Rightarrow> bytes \<Rightarrow> bytes \<Rightarrow> (bytes \<times> bool) list res \<Rightarrow> KVMetaStore \<times> unit res" where
  "meta_reopen c y x dir = (if c = 0 then Meta_Open (Inr (clean y)) (Inr (clean x)) dir
     else Meta_Open (Inr (clean x)) (Inr (clean y)) dir)"

lemma meta_reopen_readable:
  assumes "decode_slot y = Inr d"
  obtains m where "meta_reopen c y x dir = (m, Inr ())"
    "Meta_Get m = (if md_Version (slot_data x) < md_Version d \<or> c \<noteq> 0 \<and> md_Version (slot_data x) = md_Version d
       then d else slot_data x)"
proof -
  have "slot_data y = d" "\<not> isl (decode_slot y)" using assms by (simp_all add: slot_data_def)
  then show thesis using that
    by (cases "c = 0") (auto simp: meta_reopen_def Meta_Open_clean Let_def Meta_Get_def meta_current_def meta_slot_def)
qed

lemma meta_slot_put [simp]:
  "meta_slot (put_slot m i it) i = it"
  "(i = 0) \<noteq> (j = 0) \<Longrightarrow> meta_slot (put_slot m i it) j = meta_slot m j"
  by (auto simp: meta_slot_def put_slot_def)

lemma meta_current_cases: "meta_current m = 0 \<or> meta_current m = 1"
  by (simp add: meta_current_def)

text \<open>What writing a slot leaves of its file.\<close>

lemma write_at_0: "write_at d 0 bs = bs @ drop (length bs) d"
  by (cases "bs = []") (auto simp: write_at_def)

lemma writeMetaFile_ok:
  assumes "writeMetaFile fp d = (fp', Inr ())"
  shows "f_pending fp' = []" and "f_synced fp' = slot_bytes d @ drop (length (slot_bytes d)) (f_data fp)"
  using assms
  by (auto simp: writeMetaFile_def WriteAt_def Sync_def do_fop_def write_at_0
      split: list.splits fault.splits)

lemma crashes_to_synced: "f_pending f = [] \<Longrightarrow> crashes_to f x \<Longrightarrow> x = f_synced f"
  by (auto simp: crashes_to_def elim: crash_content.cases)

lemma Meta_SetE:
  assumes "Meta_Set m d = (m', r)" and "it_fp (meta_slot m (1 - meta_current m)) = Some fp"
  obtains fp' where "writeMetaFile fp d = (fp', r)" "it_fp (meta_slot m' (1 - meta_current m)) = Some fp'"
    "it_data (meta_slot m' (1 - meta_current m)) = (if r = Inr () then d else it_data (meta_slot m (1 - meta_current m)))"
    "meta_slot m' (meta_current m) = meta_slot m (meta_current m)"
proof -
  obtain fp' r' where w: "writeMetaFile fp d = (fp', r')" by fastforce
  have "(1 - meta_current m = 0) \<noteq> (meta_current m = 0)" using meta_current_cases[of m] by auto
  then show thesis using that[of fp'] assms w
    by (cases r') (auto simp: Meta_Set_def Let_def)
qed

section \<open>Properties\<close>

text \<open>
  A torn write that its checksum does not catch: the slot is neither what it was before the write
  nor the completed write, and still passes every check of \<open>readMetaFile\<close>.
\<close>

definition undetected :: "bytes \<Rightarrow> bytes \<Rightarrow> KVMetaData \<Rightarrow> bool" where
  "undetected x old d \<longleftrightarrow>
     \<not> isl (decode_slot x) \<and> x \<noteq> old \<and> take (length (slot_bytes d)) x \<noteq> slot_bytes d"

text \<open>
  C9: the double buffer.  The current slot file holds the current metadata (so a first
  version has been stored).  \<open>Set\<close> of a newer version, under any I/O faults, and then any crash of the
  slot it wrote: the store opens.  If \<open>Set\<close> had returned nil it opens with the new metadata.  Otherwise
  it opens with the old metadata, or with metadata read from the written slot.  When the store in memory
  agrees with that slot, and the checksum catches a torn write, it opens with the old or the new
  metadata and nothing else.
\<close>

theorem meta_set_crash:
  assumes "it_fp (meta_slot m (1 - meta_current m)) = Some fp"
    and "decode_slot y = Inr (Meta_Get m)"
    and "meta_wf d" and "md_Version (Meta_Get m) < md_Version d"
    and "Meta_Set m d = (m', r)" and "it_fp (meta_slot m' (1 - meta_current m)) = Some fp'"
    and "crashes_to fp' x"
  shows "\<exists>m2. meta_reopen (meta_current m) y x dir = (m2, Inr ()) \<and>
    (r = Inr () \<longrightarrow> Meta_Get m2 = d) \<and>
    (Meta_Get m2 = Meta_Get m \<or> decode_slot x = Inr (Meta_Get m2)) \<and>
    (it_data (meta_slot m (1 - meta_current m)) = slot_data (f_synced fp) \<and>
       \<not> undetected x (f_synced fp) d \<longrightarrow> Meta_Get m2 = Meta_Get m \<or> Meta_Get m2 = d)"
proof -
  obtain m2 where m2: "meta_reopen (meta_current m) y x dir = (m2, Inr ())"
    "Meta_Get m2 = (if md_Version (slot_data x) < md_Version (Meta_Get m) \<or>
       meta_current m \<noteq> 0 \<and> md_Version (slot_data x) = md_Version (Meta_Get m) then Meta_Get m else slot_data x)"
    using meta_reopen_readable[OF assms(2)] by blast
  have new: "decode_slot x = Inr d" if "take (length (slot_bytes d)) x = slot_bytes d"
    using decode_slot_bytes[OF assms(3)] that by (metis append_take_drop_id)
  have synced: "decode_slot x = Inr d" if "r = Inr ()"
  proof -
    have w: "writeMetaFile fp d = (fp', Inr ())" using Meta_SetE[OF assms(5,1)] assms(6) that by auto
    then have "x = slot_bytes d @ drop (length (slot_bytes d)) (f_data fp)"
      using writeMetaFile_ok[OF w] crashes_to_synced[OF _ assms(7)] by simp
    then show ?thesis using new by simp
  qed
  have bad: "Meta_Get m2 = Meta_Get m" if "isl (decode_slot x)"
  proof -
    from that have "md_Version (slot_data x) = 0" by (cases "decode_slot x") (auto simp: slot_data_def meta_zero_def)
    moreover have "meta_current m = 0 \<Longrightarrow> 0 < md_Version (Meta_Get m)"
      by (auto simp: Meta_Get_def meta_current_def meta_slot_def split: if_splits)
    ultimately show ?thesis using m2(2) by (cases "md_Version (Meta_Get m)") auto
  qed
  have same: "Meta_Get m2 = Meta_Get m" if "it_data (meta_slot m (1 - meta_current m)) = slot_data x"
    using m2(2) that by (auto simp: Meta_Get_def meta_current_def meta_slot_def split: if_splits)
  have "Meta_Get m2 = Meta_Get m \<or> decode_slot x = Inr (Meta_Get m2)"
    using bad m2(2) by (cases "decode_slot x") (auto simp: slot_data_def)
  moreover have "Meta_Get m2 = d" if "decode_slot x = Inr d" using m2(2) assms(4) that by (simp add: slot_data_def)
  ultimately show ?thesis using m2(1) synced bad same new unfolding undetected_def by blast
qed

definition demo_meta :: KVMetaData where
  "demo_meta = \<lparr>md_Version = 1, md_SSTables = [str_bytes ''sstable_1'']\<rparr>"

definition demo_meta2 :: KVMetaData where
  "demo_meta2 = \<lparr>md_Version = 2, md_SSTables = [str_bytes ''sstable_2'', str_bytes ''sstable_1'']\<rparr>"

text \<open>A store whose slot 0 holds version 1 and whose slot 1 is still empty, with scheduled faults.\<close>

definition demo_store :: "fault list \<Rightarrow> KVMetaStore" where
  "demo_store fs = \<lparr>ms_slot0 = \<lparr>it_fp = Some (clean (slot_bytes demo_meta)), it_data = demo_meta\<rparr>,
     ms_slot1 = \<lparr>it_fp = Some ((clean [])\<lparr>f_faults := fs\<rparr>), it_data = meta_zero\<rparr>\<rparr>"

lemma demo_meta_wf: "meta_wf demo_meta" "meta_wf demo_meta2"
  by (simp_all add: meta_wf_def demo_meta_def demo_meta2_def marshal_meta_def str_bytes_def ascii_def json_quote_def
      json_safe_def FormatUint.simps)

lemma demo_store_sel:
  "meta_current (demo_store fs) = 0" "Meta_Get (demo_store fs) = demo_meta"
  "it_fp (meta_slot (demo_store fs) (Suc 0)) = Some ((clean [])\<lparr>f_faults := fs\<rparr>)"
  by (simp_all add: demo_store_def meta_current_def Meta_Get_def meta_slot_def demo_meta_def meta_zero_def)

theorem meta_set_crash_witness:
  "\<exists>m' fp' m2. Meta_Set (demo_store []) demo_meta2 = (m', Inr ()) \<and> it_fp (meta_slot m' 1) = Some fp' \<and>
     meta_reopen 0 (slot_bytes demo_meta) (f_synced fp') (Inr []) = (m2, Inr ()) \<and> Meta_Get m2 = demo_meta2 \<and>
     it_data (meta_slot (demo_store []) 1) = slot_data [] \<and> \<not> undetected (f_synced fp') [] demo_meta2"
proof -
  let ?m = "demo_store []"
  obtain m' r where s: "Meta_Set ?m demo_meta2 = (m', r)" by fastforce
  have fp: "it_fp (meta_slot ?m (1 - meta_current ?m)) = Some (clean [])" by (simp add: demo_store_sel clean_def)
  from Meta_SetE[OF s fp] obtain fp' where f: "writeMetaFile (clean []) demo_meta2 = (fp', r)"
    "it_fp (meta_slot m' (1 - meta_current ?m)) = Some fp'" by blast
  have r: "r = Inr ()" using f(1)
    by (auto simp: writeMetaFile_def WriteAt_def Sync_def do_fop_def)
  have c: "crashes_to fp' (f_synced fp')" using writeMetaFile_ok(1)[of "clean []" demo_meta2 fp'] f(1) r
    by (simp add: crashes_to_def crash_done)
  have y: "decode_slot (slot_bytes demo_meta) = Inr (Meta_Get ?m)"
    using decode_slot_bytes[OF demo_meta_wf(1), of "[]"] by (simp add: demo_store_sel)
  have v: "md_Version (Meta_Get ?m) < md_Version demo_meta2" by (simp add: demo_store_sel demo_meta_def demo_meta2_def)
  have it: "it_data (meta_slot ?m 1) = slot_data []"
    by (simp add: demo_store_def meta_slot_def slot_data_def decode_slot_def)
  have "f_synced fp' = slot_bytes demo_meta2" using writeMetaFile_ok(2)[of "clean []" demo_meta2 fp'] f(1) r by simp
  then have u: "\<not> undetected (f_synced fp') [] demo_meta2" by (simp add: undetected_def)
  from meta_set_crash[OF fp y demo_meta_wf(2) v s f(2) c, of "Inr []"] obtain m2 where
    "meta_reopen 0 (slot_bytes demo_meta) (f_synced fp') (Inr []) = (m2, Inr ())" "Meta_Get m2 = demo_meta2"
    using r by (auto simp: demo_store_sel)
  then show ?thesis using s f(2) it u by (auto simp: r demo_store_sel)
qed

text \<open>
  C10: when the write of a slot succeeds and its sync fails, \<open>Set\<close> returns the
  error and the store in memory keeps the old metadata, but the file holds the new one, and a store
  opened on these files starts with it, although the caller has removed the SSTable it names.
\<close>

theorem Meta_Set_sync_fault:
  assumes "it_fp (meta_slot m (1 - meta_current m)) = Some fp" and "f_faults fp = [NoFault, Fault k]"
    and "decode_slot y = Inr (Meta_Get m)" and "meta_wf d" and "md_Version (Meta_Get m) < md_Version d"
    and "Meta_Set m d = (m', r)"
  shows "r = Inl io_error \<and> Meta_Get m' = Meta_Get m \<and>
    (\<exists>fp' m2. it_fp (meta_slot m' (1 - meta_current m)) = Some fp' \<and>
       meta_reopen (meta_current m) y (f_data fp') dir = (m2, Inr ()) \<and> Meta_Get m2 = d)"
proof -
  from Meta_SetE[OF assms(6,1)] obtain fp' where f: "writeMetaFile fp d = (fp', r)"
    "it_fp (meta_slot m' (1 - meta_current m)) = Some fp'"
    and it: "it_data (meta_slot m' (1 - meta_current m)) =
      (if r = Inr () then d else it_data (meta_slot m (1 - meta_current m)))"
    "meta_slot m' (meta_current m) = meta_slot m (meta_current m)" by blast
  have r: "r = Inl io_error" and x: "f_data fp' = slot_bytes d @ drop (length (slot_bytes d)) (f_data fp)"
    using f(1) assms(2) by (auto simp: writeMetaFile_def WriteAt_def Sync_def do_fop_def write_at_0)
  have "decode_slot (f_data fp') = Inr d" using decode_slot_bytes[OF assms(4)] x by simp
  then have "slot_data (f_data fp') = d" by (simp add: slot_data_def)
  with meta_reopen_readable[OF assms(3), of "meta_current m" "f_data fp'" dir] assms(5)
  have "\<exists>m2. meta_reopen (meta_current m) y (f_data fp') dir = (m2, Inr ()) \<and> Meta_Get m2 = d" by auto
  moreover have "Meta_Get m' = Meta_Get m"
    using it r meta_current_cases[of m]
    by (auto simp: Meta_Get_def meta_current_def meta_slot_def split: if_splits)
  ultimately show ?thesis using r f(2) by blast
qed

theorem Meta_Set_sync_fault_witness:
  "\<exists>m' fp' m2. Meta_Set (demo_store [NoFault, Fault 0]) demo_meta2 = (m', Inl io_error) \<and> Meta_Get m' = demo_meta \<and>
     it_fp (meta_slot m' 1) = Some fp' \<and> meta_reopen 0 (slot_bytes demo_meta) (f_data fp') (Inr []) = (m2, Inr ()) \<and>
     Meta_Get m2 = demo_meta2"
proof -
  let ?m = "demo_store [NoFault, Fault 0]"
  obtain m' r where s: "Meta_Set ?m demo_meta2 = (m', r)" by fastforce
  have fp: "it_fp (meta_slot ?m (1 - meta_current ?m)) = Some ((clean [])\<lparr>f_faults := [NoFault, Fault 0]\<rparr>)"
    by (simp add: demo_store_sel)
  have y: "decode_slot (slot_bytes demo_meta) = Inr (Meta_Get ?m)"
    using decode_slot_bytes[OF demo_meta_wf(1), of "[]"] by (simp add: demo_store_sel)
  have v: "md_Version (Meta_Get ?m) < md_Version demo_meta2" by (simp add: demo_store_sel demo_meta_def demo_meta2_def)
  from Meta_Set_sync_fault[OF fp _ y demo_meta_wf(2) v s, of 0 "Inr []"] show ?thesis
    using s by (auto simp: demo_store_sel)
qed

end
