(* ===== verification/Store.thy ===== *)
theory Store
  imports WAL Levels Meta
begin

text \<open>
  \<open>src/db/kv.go\<close>, the state of the store and its transactions: opening, reading, writing,
  committing and aborting them, conflict detection, nested transactions, and the read cache.
  Pointers of the code are indices into two heaps, one of transactions and one of SSTable handles.
\<close>

section \<open>State\<close>

text \<open>
  A level of a transaction is a pointer: to a transaction's pending writes (which it keeps
  changing), to a memtable that no longer changes, or to an SSTable handle.
\<close>

datatype lref = RUpd nat | RArr SortedArray | RFile nat

datatype target = TKV | TTX nat

record KVTX =
  tx_snapshot :: nat
  tx_target :: target
  tx_updates :: SortedArray
  tx_levels :: "lref list"
  tx_mainSnap :: "nat list"
  tx_err :: "err option"

text \<open>An SSTable handle, with the reference count and the unlink flag of \<open>SortedFile\<close>.\<close>

record table =
  tb_name :: bytes
  tb_file :: SortedFile
  tb_refs :: int
  tb_unlink :: bool

text \<open>
  The store.  \<open>kv_disk\<close> holds the SSTable files of the directory; the log and the metadata slots
  carry their own files.  \<open>kv_cache\<close> is the read cache when it is enabled.
\<close>

record 'c KV =
  kv_meta :: KVMetaStore
  kv_version :: nat
  kv_log :: Log
  kv_mem :: SortedArray
  kv_imm :: "SortedArray option"
  kv_main :: "nat list"
  kv_cache :: "'c option"
  kv_snapshot :: nat
  kv_history :: "(nat \<times> bytes) list"
  kv_ongoing :: "nat list"
  kv_compactErr :: "err option"
  kv_closed :: bool
  kv_txs :: "KVTX list"
  kv_tables :: "table list"
  kv_disk :: "bytes \<rightharpoonup> fileLike"

text \<open>The cache library (\<open>ristretto\<close>), a parameter.\<close>

record 'c cacheLib =
  c_Get :: "'c \<Rightarrow> bytes \<Rightarrow> bytes option"
  c_Set :: "'c \<Rightarrow> bytes \<Rightarrow> bytes \<Rightarrow> 'c"
  c_Del :: "'c \<Rightarrow> bytes \<Rightarrow> 'c"

section \<open>SSTable handles\<close>

definition tb_update :: "nat \<Rightarrow> (table \<Rightarrow> table) \<Rightarrow> 'c KV \<Rightarrow> 'c KV" where
  "tb_update f g kv = kv\<lparr>kv_tables := (kv_tables kv)[f := g (kv_tables kv ! f)]\<rparr>"

definition SortedFile_acquire :: "nat \<Rightarrow> 'c KV \<Rightarrow> 'c KV" where
  "SortedFile_acquire f kv = tb_update f (\<lambda>t. t\<lparr>tb_refs := tb_refs t + 1\<rparr>) kv"

definition SortedFile_release :: "nat \<Rightarrow> 'c KV \<Rightarrow> 'c KV \<times> unit res" where
  "SortedFile_release f kv =
     (let kv = tb_update f (\<lambda>t. t\<lparr>tb_refs := tb_refs t - 1\<rparr>) kv; t = kv_tables kv ! f in
      if tb_refs t < 0 then (kv, Inl (Panic ''check''))
      else if tb_refs t > 0 then (kv, Inr ())
      else let kv = tb_update f (\<lambda>t. t\<lparr>tb_file := SortedFile_Close (tb_file t)\<rparr>) kv in
        (if tb_unlink t then kv\<lparr>kv_disk := (kv_disk kv)(tb_name t := None)\<rparr> else kv, Inr ()))"

definition SortedFile_retire :: "nat \<Rightarrow> 'c KV \<Rightarrow> 'c KV" where
  "SortedFile_retire f kv = tb_update f (\<lambda>t. t\<lparr>tb_unlink := True\<rparr>) kv"

fun release_all :: "nat list \<Rightarrow> 'c KV \<Rightarrow> 'c KV \<times> unit res" where
  "release_all [] kv = (kv, Inr ())"
| "release_all (f # fs) kv = sbind (SortedFile_release f kv) (\<lambda>kv _. release_all fs kv)"

section \<open>Starting and ending transactions\<close>

definition tx_update :: "nat \<Rightarrow> (KVTX \<Rightarrow> KVTX) \<Rightarrow> 'c KV \<Rightarrow> 'c KV" where
  "tx_update i g kv = kv\<lparr>kv_txs := (kv_txs kv)[i := g (kv_txs kv ! i)]\<rparr>"

definition KV_NewTX :: "'c KV \<Rightarrow> 'c KV \<times> nat" where
  "KV_NewTX kv =
     (let i = length (kv_txs kv) in
      if kv_closed kv then
        (kv\<lparr>kv_txs := kv_txs kv @ [\<lparr>tx_snapshot = 0, tx_target = TKV, tx_updates = empty_array, tx_levels = [],
           tx_mainSnap = [], tx_err = Some ErrKVClosed\<rparr>]\<rparr>, i)
      else
        let imm = (case kv_imm kv of None \<Rightarrow> [] | Some a \<Rightarrow> [RArr a]);
            tx = \<lparr>tx_snapshot = kv_snapshot kv, tx_target = TKV, tx_updates = empty_array,
              tx_levels = [RUpd i, RArr (kv_mem kv)] @ imm @ map RFile (kv_main kv),
              tx_mainSnap = kv_main kv, tx_err = None\<rparr>;
            kv = fold SortedFile_acquire (kv_main kv) kv
        in (kv\<lparr>kv_txs := kv_txs kv @ [tx], kv_ongoing := kv_ongoing kv @ [i]\<rparr>, i))"

text \<open>The history without what no running transaction can conflict with any more.\<close>

definition prune_history :: "nat list \<Rightarrow> KVTX list \<Rightarrow> (nat \<times> bytes) list \<Rightarrow> (nat \<times> bytes) list" where
  "prune_history ongoing txs history =
     (case ongoing of [] \<Rightarrow> []
      | j # _ \<Rightarrow> filter (\<lambda>h. \<not> fst h < tx_snapshot (txs ! j)) history)"

definition KV_untrackTXSync :: "nat \<Rightarrow> 'c KV \<Rightarrow> 'c KV \<times> unit res" where
  "KV_untrackTXSync i kv =
     (if i \<notin> set (kv_ongoing kv) then (kv, Inr ())
      else let ongoing = remove1 i (kv_ongoing kv);
               snap = tx_mainSnap (kv_txs kv ! i);
               kv = kv\<lparr>kv_ongoing := ongoing, kv_history := prune_history ongoing (kv_txs kv) (kv_history kv)\<rparr>;
               kv = tx_update i (\<lambda>tx. tx\<lparr>tx_mainSnap := [], tx_levels := [], tx_err := Some ErrTXDone\<rparr>) kv
           in release_all snap kv)"

section \<open>Reading\<close>

definition deref :: "'c KV \<Rightarrow> lref \<Rightarrow> level" where
  "deref kv r = (case r of
     RUpd i \<Rightarrow> LArr (tx_updates (kv_txs kv ! i))
   | RArr a \<Rightarrow> LArr a
   | RFile f \<Rightarrow> LFile (tb_file (kv_tables kv ! f)))"

definition tx_stack :: "'c KV \<Rightarrow> nat \<Rightarrow> level list" where
  "tx_stack kv i = map (deref kv) (tx_levels (kv_txs kv ! i))"

definition KVTX_Get :: "'c KV \<Rightarrow> nat \<Rightarrow> bytes \<Rightarrow> bytes option res" where
  "KVTX_Get kv i key =
     (case tx_err (kv_txs kv ! i) of Some e \<Rightarrow> Inl e
      | None \<Rightarrow> rbind (Merged_getExact level_ops level_kv_ops (tx_stack kv i) key) (\<lambda>r.
          case r of None \<Rightarrow> Inr None | Some (val, deleted) \<Rightarrow> Inr (if deleted then None else Some val)))"

definition KVTX_Seek :: "'c KV \<Rightarrow> nat \<Rightarrow> bytes \<Rightarrow> level_iter MergedSortedKVIter res" where
  "KVTX_Seek kv i key =
     (case tx_err (kv_txs kv ! i) of Some e \<Rightarrow> Inl e
      | None \<Rightarrow> rbind (Merged_Seek level_ops level_kv_ops (tx_stack kv i) key) (filterDeleted stack_ops))"

definition KVTX_SeekToLast :: "'c KV \<Rightarrow> nat \<Rightarrow> level_iter MergedSortedKVIter res" where
  "KVTX_SeekToLast kv i =
     (case tx_err (kv_txs kv ! i) of Some e \<Rightarrow> Inl e
      | None \<Rightarrow> rbind (Merged_SeekToLast level_ops level_kv_ops (tx_stack kv i)) (filterDeletedBackward stack_ops))"

definition KVTX_Range ::
  "'c KV \<Rightarrow> nat \<Rightarrow> bytes \<Rightarrow> bytes \<Rightarrow> bool \<Rightarrow> level_iter MergedSortedKVIter RangedKVIter res" where
  "KVTX_Range kv i start stop desc =
     rbind (KVTX_Seek kv i start) (\<lambda>it. Range_from (nodel_ops stack_ops) it start stop desc)"

section \<open>Writing\<close>

definition ModeUpsert :: int where "ModeUpsert = 1"
definition ModeInsert :: int where "ModeInsert = 2"
definition ModeUpdate :: int where "ModeUpdate = 3"

definition KVTX_SetEx :: "nat \<Rightarrow> bytes \<Rightarrow> bytes \<Rightarrow> int \<Rightarrow> 'c KV \<Rightarrow> 'c KV \<times> bool res" where
  "KVTX_SetEx i key val mode kv =
     (case KVTX_Get kv i key of Inl e \<Rightarrow> (kv, Inl e)
      | Inr old \<Rightarrow>
          let set = (\<lambda>updated. (if updated then tx_update i (\<lambda>tx. tx\<lparr>tx_updates := fst (Array_Set (tx_updates tx) key val)\<rparr>) kv
                       else kv, Inr updated)) in
          if mode = ModeUpsert then set (old \<noteq> Some val)
          else if mode = ModeInsert then set (old = None)
          else if mode = ModeUpdate then set (old \<noteq> None \<and> old \<noteq> Some val)
          else (kv, Inl (Error ''invalid update mode'')))"

definition KVTX_Set :: "nat \<Rightarrow> bytes \<Rightarrow> bytes \<Rightarrow> 'c KV \<Rightarrow> 'c KV \<times> bool res" where
  "KVTX_Set i key val kv = KVTX_SetEx i key val ModeUpsert kv"

definition KVTX_Del :: "nat \<Rightarrow> bytes \<Rightarrow> 'c KV \<Rightarrow> 'c KV \<times> bool res" where
  "KVTX_Del i key kv =
     (case KVTX_Get kv i key of Inl e \<Rightarrow> (kv, Inl e)
      | Inr None \<Rightarrow> (kv, Inr False)
      | Inr (Some _) \<Rightarrow> (tx_update i (\<lambda>tx. tx\<lparr>tx_updates := fst (Array_Del (tx_updates tx) key)\<rparr>) kv, Inr True))"

section \<open>Committing\<close>

definition KV_checkTXConflict :: "'c KV \<Rightarrow> nat \<Rightarrow> bool" where
  "KV_checkTXConflict kv i =
     (let tx = kv_txs kv ! i in
      list_ex (\<lambda>key. list_ex (\<lambda>h. fst h > tx_snapshot tx \<and> snd h = key) (kv_history kv)) (a_keys (tx_updates tx)))"

definition entry_of :: "kvd \<Rightarrow> entry" where
  "entry_of e = \<lparr>e_key = fst e, e_val = fst (snd e), e_seq = 0, e_op = (if snd (snd e) then EntryDel else EntryAdd)\<rparr>"

definition KV_updateLog :: "nat \<Rightarrow> 'c KV \<Rightarrow> 'c KV \<times> unit res" where
  "KV_updateLog i kv =
     (case Log_tx (kv_log kv) (map entry_of (arr_entries (tx_updates (kv_txs kv ! i)))) of
        (log, r) \<Rightarrow> (kv\<lparr>kv_log := log\<rparr>, r))"

definition appendSortedArray :: "SortedArray \<Rightarrow> SortedArray \<Rightarrow> SortedArray option" where
  "appendSortedArray dst src =
     (if Array_Size src = 0 then Some dst
      else if Array_Size dst \<noteq> 0 \<and> bytes_Compare (last (a_keys dst)) (hd (a_keys src)) \<ge> 0 then None
      else Some \<lparr>a_keys = a_keys dst @ a_keys src, a_vals = a_vals dst @ a_vals src, a_deleted = a_deleted dst @ a_deleted src\<rparr>)"

text \<open>The loop that builds a new memtable from two, the first one newer.\<close>

definition push_all :: "kvd list \<Rightarrow> SortedArray" where
  "push_all es = fold (\<lambda>(k, v, d) arr. Array_Push arr k v d) es empty_array"

definition merge_arrays :: "SortedArray \<Rightarrow> SortedArray \<Rightarrow> SortedArray res" where
  "merge_arrays newer older =
     (let kvs = [newer, older] in
      rbind (Merged_Iter array_ops array_kv_ops kvs) (\<lambda>it.
      rbind (walk (Merged_EstimatedSize array_kv_ops kvs) (merged_ops array_ops) it) (\<lambda>es. Inr (push_all es))))"

definition KV_updateMem :: "nat \<Rightarrow> 'c KV \<Rightarrow> 'c KV \<times> unit res" where
  "KV_updateMem i kv =
     (let updates = tx_updates (kv_txs kv ! i) in
      case appendSortedArray (kv_mem kv) updates of
        Some mem \<Rightarrow> (kv\<lparr>kv_mem := mem\<rparr>, Inr ())
      | None \<Rightarrow> (case merge_arrays updates (kv_mem kv) of
            Inl e \<Rightarrow> (kv, Inl (Panic ''check''))
          | Inr mem \<Rightarrow> (kv\<lparr>kv_mem := mem\<rparr>, Inr ())))"

definition KV_updateHistory :: "nat \<Rightarrow> 'c KV \<Rightarrow> 'c KV" where
  "KV_updateHistory i kv =
     (let kv = kv\<lparr>kv_snapshot := kv_snapshot kv + 1\<rparr> in
      if length (kv_ongoing kv) > 1 then
        kv\<lparr>kv_history := kv_history kv @ map (Pair (kv_snapshot kv)) (a_keys (tx_updates (kv_txs kv ! i)))\<rparr>
      else kv)"

definition KV_invalidateCache :: "'c cacheLib \<Rightarrow> nat \<Rightarrow> 'c KV \<Rightarrow> 'c KV" where
  "KV_invalidateCache cl i kv = (case kv_cache kv of None \<Rightarrow> kv
     | Some c \<Rightarrow> kv\<lparr>kv_cache := Some (fold (\<lambda>k c. c_Del cl c k) (a_keys (tx_updates (kv_txs kv ! i))) c)\<rparr>)"

text \<open>
  The critical sections of a commit: the conflict check and the log write run under the commit
  lock only, the memtable and the history change together under the store's lock.
\<close>

definition KV_commitLog :: "nat \<Rightarrow> 'c KV \<Rightarrow> 'c KV \<times> unit res" where
  "KV_commitLog i kv = (if KV_checkTXConflict kv i then (kv, Inl ErrTXConflict) else KV_updateLog i kv)"

definition KV_commitMem :: "'c cacheLib \<Rightarrow> nat \<Rightarrow> 'c KV \<Rightarrow> 'c KV \<times> unit res" where
  "KV_commitMem cl i kv = sbind (KV_updateMem i kv) (\<lambda>kv _.
     (KV_invalidateCache cl i (KV_updateHistory i kv), Inr ()))"

definition KV_applyTXSync :: "'c cacheLib \<Rightarrow> nat \<Rightarrow> 'c KV \<Rightarrow> 'c KV \<times> unit res" where
  "KV_applyTXSync cl i kv =
     (case tx_err (kv_txs kv ! i) of Some e \<Rightarrow> (kv, Inl e)
      | None \<Rightarrow>
          (case (if Array_Size (tx_updates (kv_txs kv ! i)) = 0 then (kv, Inr ())
                 else sbind (KV_commitLog i kv) (\<lambda>kv _. KV_commitMem cl i kv)) of
             (kv, r) \<Rightarrow> (case KV_untrackTXSync i kv of (kv, Inl e) \<Rightarrow> (kv, Inl e) | (kv, Inr _) \<Rightarrow> (kv, r))))"

section \<open>Nested transactions\<close>

definition KVTX_NewTX :: "nat \<Rightarrow> 'c KV \<Rightarrow> 'c KV \<times> nat" where
  "KVTX_NewTX i kv =
     (let tx = kv_txs kv ! i; j = length (kv_txs kv) in
      (kv\<lparr>kv_txs := kv_txs kv @ [\<lparr>tx_snapshot = 0, tx_target = TTX i, tx_updates = empty_array,
         tx_levels = RUpd j # tx_levels tx, tx_mainSnap = [], tx_err = tx_err tx\<rparr>]\<rparr>, j))"

definition apply_update :: "kvd \<Rightarrow> SortedArray \<Rightarrow> SortedArray" where
  "apply_update e arr = (if snd (snd e) then fst (Array_Del arr (fst e)) else fst (Array_Set arr (fst e) (fst (snd e))))"

definition KVTX_applyTX :: "nat \<Rightarrow> nat \<Rightarrow> 'c KV \<Rightarrow> 'c KV \<times> unit res" where
  "KVTX_applyTX i j kv =
     (case tx_err (kv_txs kv ! j) of Some e \<Rightarrow> (kv, Inl e)
      | None \<Rightarrow> (tx_update i (\<lambda>tx. tx\<lparr>tx_updates := fold apply_update (arr_entries (tx_updates (kv_txs kv ! j))) (tx_updates tx)\<rparr>) kv,
          Inr ()))"

definition KVTX_Commit :: "'c cacheLib \<Rightarrow> nat \<Rightarrow> 'c KV \<Rightarrow> 'c KV \<times> unit res" where
  "KVTX_Commit cl i kv = (case tx_target (kv_txs kv ! i) of TKV \<Rightarrow> KV_applyTXSync cl i kv | TTX j \<Rightarrow> KVTX_applyTX j i kv)"

definition KVTX_Abort :: "nat \<Rightarrow> 'c KV \<Rightarrow> 'c KV \<times> unit res" where
  "KVTX_Abort i kv = (case tx_target (kv_txs kv ! i) of TKV \<Rightarrow> KV_untrackTXSync i kv | TTX j \<Rightarrow> (kv, Inr ()))"

section \<open>Single operations\<close>

definition abortOrCommit :: "'c cacheLib \<Rightarrow> nat \<Rightarrow> 'c KV \<times> bool res \<Rightarrow> 'c KV \<times> bool res" where
  "abortOrCommit cl i m = (case m of
     (kv, Inl e) \<Rightarrow> sbind (KVTX_Abort i kv) (\<lambda>kv _. (kv, Inl e))
   | (kv, Inr updated) \<Rightarrow> sbind (KVTX_Commit cl i kv) (\<lambda>kv _. (kv, Inr updated)))"

definition KV_SetEx :: "'c cacheLib \<Rightarrow> bytes \<Rightarrow> bytes \<Rightarrow> int \<Rightarrow> 'c KV \<Rightarrow> 'c KV \<times> bool res" where
  "KV_SetEx cl key val mode kv = (case KV_NewTX kv of (kv, i) \<Rightarrow> abortOrCommit cl i (KVTX_SetEx i key val mode kv))"

definition KV_Set :: "'c cacheLib \<Rightarrow> bytes \<Rightarrow> bytes \<Rightarrow> 'c KV \<Rightarrow> 'c KV \<times> bool res" where
  "KV_Set cl key val kv = KV_SetEx cl key val ModeUpsert kv"

definition KV_Del :: "'c cacheLib \<Rightarrow> bytes \<Rightarrow> 'c KV \<Rightarrow> 'c KV \<times> bool res" where
  "KV_Del cl key kv = (case KV_NewTX kv of (kv, i) \<Rightarrow> abortOrCommit cl i (KVTX_Del i key kv))"

text \<open>\<open>KV.Get\<close> through the cache, in its three parts: the lookup, the read, the fill.\<close>

definition cache_lookup :: "'c cacheLib \<Rightarrow> 'c KV \<Rightarrow> bytes \<Rightarrow> bytes option" where
  "cache_lookup cl kv key = (case kv_cache kv of None \<Rightarrow> None | Some c \<Rightarrow> c_Get cl c key)"

definition cache_fill :: "'c cacheLib \<Rightarrow> bytes \<Rightarrow> bytes option res \<Rightarrow> 'c KV \<Rightarrow> 'c KV" where
  "cache_fill cl key r kv = (case (r, kv_cache kv) of
     (Inr (Some val), Some c) \<Rightarrow> kv\<lparr>kv_cache := Some (c_Set cl c key val)\<rparr> | _ \<Rightarrow> kv)"

definition KV_Get :: "'c cacheLib \<Rightarrow> bytes \<Rightarrow> 'c KV \<Rightarrow> 'c KV \<times> bytes option res" where
  "KV_Get cl key kv =
     (case cache_lookup cl kv key of
        Some val \<Rightarrow> (kv, Inr (Some val))
      | None \<Rightarrow> (case KV_NewTX kv of (kv, i) \<Rightarrow>
          let r = KVTX_Get kv i key; kv = cache_fill cl key r kv in
          sbind (KVTX_Abort i kv) (\<lambda>kv _. (kv, r))))"

definition KV_IterAll :: "'c KV \<Rightarrow> 'c KV \<times> (level_iter MergedSortedKVIter \<times> nat) res" where
  "KV_IterAll kv =
     (case KV_NewTX kv of (kv, i) \<Rightarrow>
      (case tx_err (kv_txs kv ! i) of Some e \<Rightarrow> (kv, Inl e)
       | None \<Rightarrow>
           (case rbind (Merged_Iter level_ops level_kv_ops (tx_stack kv i)) (filterDeleted stack_ops) of
              Inl e \<Rightarrow> sbind (KVTX_Abort i kv) (\<lambda>kv _. (kv, Inl e))
            | Inr it \<Rightarrow> (kv, Inr (it, i)))))"

section \<open>What a stack of levels holds\<close>

definition level_ok :: "level \<Rightarrow> bool" where
  "level_ok l \<longleftrightarrow> (\<exists>es. level_src l es)"

definition level_map :: "level \<Rightarrow> kvmap" where
  "level_map l k = (case Level_getExact l k of Inl e \<Rightarrow> None | Inr r \<Rightarrow> r)"

fun stack_map :: "level list \<Rightarrow> kvmap" where
  "stack_map [] = Map.empty"
| "stack_map (l # ls) = stack_map ls ++ level_map l"

lemma level_map_src: "level_src l es \<Longrightarrow> level_map l = map_of es"
  using lv.getExact_map[of l es] by (auto simp: level_map_def level_kv_ops_def)

lemma stack_ok_entries:
  assumes "list_all level_ok ls"
  obtains ess where "list_all2 level_src ls ess" "levels_map ess = stack_map ls"
proof -
  have "\<exists>ess. list_all2 level_src ls ess \<and> levels_map ess = stack_map ls"
    using assms
  proof (induction ls)
    case (Cons l ls)
    then obtain es ess where "level_src l es" "list_all2 level_src ls ess" "levels_map ess = stack_map ls"
      by (auto simp: level_ok_def)
    then have "list_all2 level_src (l # ls) (es # ess) \<and> levels_map (es # ess) = stack_map (l # ls)"
      by (simp add: level_map_src)
    then show ?case by blast
  qed simp
  then show thesis using that by blast
qed

lemma finite_stack_map: "list_all level_ok ls \<Longrightarrow> finite (dom (stack_map ls))"
  by (metis stack_ok_entries finite_levels_map)

lemma level_ok_arr [simp]: "level_ok (LArr a) \<longleftrightarrow> arr_wf a"
  by (auto simp: level_ok_def array_src_def)

lemma level_map_arr [simp]: "arr_wf a \<Longrightarrow> level_map (LArr a) = arr_map a"
  using level_map_src[of "LArr a" "arr_entries a"] by (simp add: array_src_def arr_map_def)

lemma stack_map_append: "stack_map (as @ bs) = stack_map bs ++ stack_map as"
  by (induction as) simp_all

lemma live_map_add: "live (m ++ n) k = (case n k of None \<Rightarrow> live m k | Some (v, d) \<Rightarrow> if d then None else Some v)"
  by (auto simp: live_def map_add_def split: option.splits)

lemma live_cong: "live m = live m' \<Longrightarrow> live (m ++ n) = live (m' ++ n)"
  by (rule ext) (simp add: live_map_add split: option.splits prod.splits)

section \<open>Reads\<close>

lemma KVTX_Get_live:
  assumes "tx_err (kv_txs kv ! i) = None" and "list_all level_ok (tx_stack kv i)"
  shows "KVTX_Get kv i k = Inr (live (stack_map (tx_stack kv i)) k)"
proof -
  obtain ess where "list_all2 level_src (tx_stack kv i) ess" "levels_map ess = stack_map (tx_stack kv i)"
    using stack_ok_entries[OF assms(2)] .
  then show ?thesis using assms(1) lv.Merged_getExact_map[of "tx_stack kv i" ess k]
    by (auto simp: KVTX_Get_def live_def split: option.splits)
qed

text \<open>The live pairs of a map in key order, from \<open>lo\<close> to \<open>hi\<close>.\<close>

definition pairs_between :: "(bytes \<rightharpoonup> bytes) \<Rightarrow> bytes \<Rightarrow> bytes \<Rightarrow> (bytes \<times> bytes) list" where
  "pairs_between m lo hi = filter (\<lambda>(k, v). lo \<le> k \<and> k \<le> hi) (sorted_entries m)"

lemma live_entries_sorted:
  assumes "ssorted (keys_of es)"
  shows "map kv_pair (live_entries es) = sorted_entries (live (map_of es))"
proof -
  have ss: "ssorted (map fst (map kv_pair (live_entries es)))"
    using ssorted_live_entries[OF assms] by (simp add: comp_def kv_pair_def)
  have "map_of (map kv_pair xs) k = map_option fst (map_of xs k)" for xs k
    by (induction xs) (auto simp: kv_pair_def)
  then have "map_of (map kv_pair (live_entries es)) = live (map_of es)"
    using map_of_live_entries[OF assms] by (auto split: option.splits)
  then show ?thesis using sorted_entries_map_of[OF ss] by simp
qed

lemma filter_kv_pair:
  "map kv_pair (filter (\<lambda>e. P (fst e)) es) = filter (\<lambda>(k, v). P k) (map kv_pair es)"
  by (induction es) (auto simp: kv_pair_def)

lemma KVTX_Seek_cursor:
  assumes "tx_err (kv_txs kv ! i) = None" and ess: "list_all2 level_src (tx_stack kv i) ess"
  shows "\<exists>it. KVTX_Seek kv i k = Inr it \<and> nodel_cursor (merged_cursor level_cursor) it (live_entries (merged_entries ess))
    (int (lower_bound (keys_of (live_entries (merged_entries ess))) k))"
proof -
  have s: "sorted (keys_of (merged_entries ess))" by (simp add: ssorted_imp_sorted)
  obtain it where it: "Merged_Seek level_ops level_kv_ops (tx_stack kv i) k = Inr it"
    "merged_cursor level_cursor it (merged_entries ess) (int (lower_bound (keys_of (merged_entries ess)) k))"
    using lv.Merged_Seek_cursor[OF ess] by blast
  from stack.skip_next_cursor[OF it(2)] show ?thesis
    using assms(1) it(1) by (simp add: KVTX_Seek_def filterDeleted_def lower_bound_live[OF s])
qed

lemma KVTX_Range_collect:
  assumes "tx_err (kv_txs kv ! i) = None" and "list_all level_ok (tx_stack kv i)"
    and "length (sorted_entries (live (stack_map (tx_stack kv i)))) < fuel"
  shows "\<exists>rit. KVTX_Range kv i start stop desc = Inr rit \<and> Ranged_collect fuel (nodel_ops stack_ops) rit =
    Some (Inr (let m = live (stack_map (tx_stack kv i)) in
      if desc then rev (pairs_between m stop start) else pairs_between m start stop))"
proof -
  obtain ess where ess: "list_all2 level_src (tx_stack kv i) ess" "levels_map ess = stack_map (tx_stack kv i)"
    using stack_ok_entries[OF assms(2)] .
  let ?es = "live_entries (merged_entries ess)"
  have m: "map kv_pair ?es = sorted_entries (live (stack_map (tx_stack kv i)))"
    using live_entries_sorted[of "merged_entries ess"] ess(2) by simp
  then have len: "length ?es < fuel" using assms(3) by (metis length_map)
  obtain it where it: "KVTX_Seek kv i start = Inr it" "nodel_cursor (merged_cursor level_cursor) it ?es
      (int (lower_bound (keys_of ?es) start))" using KVTX_Seek_cursor[OF assms(1) ess(1)] by blast
  from live.Range_collect[OF it(2) len, of stop desc] obtain rit where
    r: "Range_from (nodel_ops stack_ops) it start stop desc = Inr rit"
    "Ranged_collect fuel (nodel_ops stack_ops) rit = Some (Inr (map kv_pair
      (if desc then rev (filter (\<lambda>e. stop \<le> fst e \<and> fst e \<le> start) ?es) else filter (\<lambda>e. start \<le> fst e \<and> fst e \<le> stop) ?es)))"
    by blast
  have "map kv_pair (if desc then rev (filter (\<lambda>e. stop \<le> fst e \<and> fst e \<le> start) ?es)
      else filter (\<lambda>e. start \<le> fst e \<and> fst e \<le> stop) ?es) =
    (if desc then rev (pairs_between (live (stack_map (tx_stack kv i))) stop start)
      else pairs_between (live (stack_map (tx_stack kv i))) start stop)"
    by (simp add: filter_kv_pair[of "\<lambda>k. stop \<le> k \<and> k \<le> start"] filter_kv_pair[of "\<lambda>k. start \<le> k \<and> k \<le> stop"]
        pairs_between_def flip: m rev_map)
  then show ?thesis using it(1) r by (auto simp: KVTX_Range_def Let_def)
qed

section \<open>Merging into the memtable\<close>

lemma push_all_entries:
  assumes "ssorted (keys_of es)"
  shows "arr_wf (push_all es) \<and> arr_entries (push_all es) = es"
  using assms
proof (induction es rule: rev_induct)
  case (snoc e es)
  obtain k v d where e: "e = (k, v, d)" by (cases e)
  have IH: "arr_wf (push_all es)" "arr_entries (push_all es) = es"
    using snoc by (auto simp: sorted_wrt_append)
  have "a_keys (push_all es) = keys_of es" using arr_entries_simps(1)[of "push_all es"] IH arr_wfD(1)[OF IH(1)] by simp
  then have "a_keys (push_all es) = [] \<or> last (a_keys (push_all es)) < k"
    using snoc.prems e by (cases es rule: rev_cases) (auto simp: sorted_wrt_append)
  from Array_Push_wf[OF IH(1) this, of v d] show ?case using IH(2) by (simp add: push_all_def e)
qed (simp add: push_all_def)

lemma merge_arrays_ok:
  assumes "arr_wf newer" and "arr_wf older"
  obtains mem where "merge_arrays newer older = Inr mem" "arr_wf mem" "arr_map mem = arr_map older ++ arr_map newer"
proof -
  let ?ess = "[arr_entries newer, arr_entries older]"
  have all: "list_all2 array_src [newer, older] ?ess" using assms by (simp add: array_src_def)
  have src: "merged_src array_src [newer, older] (merged_entries ?ess)" using all by (auto simp: merged_src_def)
  have "fwd_source (merged_ops array_ops) (merged_cursor array_cursor) (merged_kv_ops array_ops array_kv_ops) (merged_src array_src)"
    by (rule kv_source.axioms(2)[OF kv_source.merged_source_laws[OF arr_source.kv_source_axioms]])
  from fwd_source.walk_source[OF this src]
  have "merge_arrays newer older = Inr (push_all (merged_entries ?ess))"
    by (auto simp: merge_arrays_def merged_kv_ops_def rbind_Inr_iff)
  moreover have "arr_wf (push_all (merged_entries ?ess))" "arr_entries (push_all (merged_entries ?ess)) = merged_entries ?ess"
    using push_all_entries[of "merged_entries ?ess"] by simp_all
  ultimately show thesis using that[of "push_all (merged_entries ?ess)"]
    by (simp add: arr_map_def)
qed

lemma appendSortedArray_ok:
  assumes "appendSortedArray dst src = Some mem" and "arr_wf dst" and "arr_wf src"
  shows "arr_wf mem \<and> arr_map mem = arr_map dst ++ arr_map src"
proof (cases "a_keys src = []")
  case True
  then have "arr_map src = Map.empty" by (simp add: arr_map_def arr_entries_def)
  then show ?thesis using assms True by (simp add: appendSortedArray_def Array_Size_def)
next
  case False
  then have mem: "mem = \<lparr>a_keys = a_keys dst @ a_keys src, a_vals = a_vals dst @ a_vals src, a_deleted = a_deleted dst @ a_deleted src\<rparr>"
    and lt: "a_keys dst \<noteq> [] \<Longrightarrow> last (a_keys dst) < hd (a_keys src)"
    using assms(1) by (auto simp: appendSortedArray_def Array_Size_def split: if_splits)
  have sd: "ssorted (a_keys dst)" and sr: "ssorted (a_keys src)" and shd: "arr_shape dst" and shs: "arr_shape src"
    using assms(2,3) by auto
  have less: "x < y" if x: "x \<in> set (a_keys dst)" and y: "y \<in> set (a_keys src)" for x y
  proof -
    have "x \<le> last (a_keys dst)" using x sd by (cases "a_keys dst" rule: rev_cases) (auto simp: sorted_wrt_append less_imp_le)
    also have "\<dots> < hd (a_keys src)" using lt x by (cases "a_keys dst") auto
    also have "\<dots> \<le> y" using y sr by (cases "a_keys src") (auto simp: less_imp_le)
    finally show ?thesis .
  qed
  have ent: "arr_entries mem = arr_entries dst @ arr_entries src"
    using shd by (simp add: mem arr_entries_def arr_shape_def)
  have "arr_wf mem" using sd sr shd shs less by (auto simp: mem arr_wf_def arr_shape_def sorted_wrt_append)
  moreover have "arr_map mem = arr_map src ++ arr_map dst" by (simp add: arr_map_def ent)
  moreover have "dom (arr_map dst) \<inter> dom (arr_map src) = {}" using less shd shs by (auto simp: dom_arr_map)
  ultimately show ?thesis using map_add_comm[of "arr_map dst" "arr_map src"] by simp
qed

lemma KV_updateMem_ok:
  assumes "arr_wf (kv_mem kv)" and "arr_wf (tx_updates (kv_txs kv ! i))"
  obtains mem where "KV_updateMem i kv = (kv\<lparr>kv_mem := mem\<rparr>, Inr ())" "arr_wf mem"
    "arr_map mem = arr_map (kv_mem kv) ++ arr_map (tx_updates (kv_txs kv ! i))"
proof (cases "appendSortedArray (kv_mem kv) (tx_updates (kv_txs kv ! i))")
  case None
  obtain mem where "merge_arrays (tx_updates (kv_txs kv ! i)) (kv_mem kv) = Inr mem" "arr_wf mem"
    "arr_map mem = arr_map (kv_mem kv) ++ arr_map (tx_updates (kv_txs kv ! i))"
    using merge_arrays_ok[OF assms(2,1)] .
  then show thesis using None by (intro that[of mem]) (simp_all add: KV_updateMem_def)
next
  case (Some mem)
  then show thesis using appendSortedArray_ok[OF Some assms] by (intro that[of mem]) (simp_all add: KV_updateMem_def)
qed

end
