(* ===== verification/Compact.thy ===== *)
theory Compact
  imports Store
begin

text \<open>
  \<open>src/db/kv.go\<close>, compaction: freezing the memtable and flushing it to an SSTable, merging two
  adjacent SSTables, the rewrite of the log that follows a flush, and closing the store.  Each
  part that runs between two lock operations of the code is a function; the whole operations
  compose them.
\<close>

section \<open>Sources without tombstones\<close>

definition NoDeletedSortedKV_ops :: "('l, 'i) kv_ops \<Rightarrow> ('l, 'i) kv_ops" where
  "NoDeletedSortedKV_ops kops = kops\<lparr>k_getExact := None\<rparr>"

section \<open>Creating a table file\<close>

text \<open>
  \<open>created\<close> is what opening the new file returned: an error, or the empty file with the faults
  its operations will meet.
\<close>

definition sstableName :: "nat \<Rightarrow> bytes" where
  "sstableName version = str_bytes ''sstable_'' @ FormatUint version"

definition KV_CreateFromSorted ::
  "'b bloomLib \<Rightarrow> 'i iter_ops \<Rightarrow> ('l, 'i) kv_ops \<Rightarrow> 'l \<Rightarrow> bytes \<Rightarrow> fileLike res \<Rightarrow> 'c KV \<Rightarrow> 'c KV \<times> SortedFile res" where
  "KV_CreateFromSorted bl ops kops src name created kv =
     (case created of Inl e \<Rightarrow> (kv, Inl e)
      | Inr fp \<Rightarrow> (case writeSortedFile bl ops kops src fp of
          (fp, r) \<Rightarrow> (kv\<lparr>kv_disk := (kv_disk kv)(name \<mapsto> fp)\<rparr>, r)))"

definition KV_remove :: "bytes \<Rightarrow> 'c KV \<Rightarrow> 'c KV" where
  "KV_remove name kv = kv\<lparr>kv_disk := (kv_disk kv)(name := None)\<rparr>"

section \<open>Flushing the memtable\<close>

record flush =
  fl_version :: nat
  fl_frozen :: SortedArray
  fl_drop :: bool

definition KV_freeze :: "'c KV \<Rightarrow> 'c KV \<times> flush option res" where
  "KV_freeze kv =
     (if kv_imm kv \<noteq> None then (kv, Inl (Panic ''check''))
      else if Array_Size (kv_mem kv) = 0 then (kv, Inr None)
      else let version = kv_version kv + 1; frozen = kv_mem kv in
        (kv\<lparr>kv_version := version, kv_mem := empty_array, kv_imm := Some frozen\<rparr>,
         Inr (Some \<lparr>fl_version = version, fl_frozen = frozen, fl_drop = (kv_main kv = [])\<rparr>)))"

definition KV_unfreeze :: "'c KV \<Rightarrow> 'c KV \<times> unit res" where
  "KV_unfreeze kv = (case kv_imm kv of None \<Rightarrow> (kv, Inr ())
     | Some imm \<Rightarrow> (case merge_arrays (kv_mem kv) imm of
         Inl e \<Rightarrow> (kv, Inl (Panic ''check''))
       | Inr mem \<Rightarrow> (kv\<lparr>kv_mem := mem, kv_imm := None\<rparr>, Inr ())))"

definition KV_flushWrite :: "'b bloomLib \<Rightarrow> fileLike res \<Rightarrow> flush \<Rightarrow> 'c KV \<Rightarrow> 'c KV \<times> SortedFile res" where
  "KV_flushWrite bl created fl kv =
     (let name = sstableName (fl_version fl) in
      case (if fl_drop fl
            then KV_CreateFromSorted bl (nodel_ops array_ops) (NoDeletedSortedKV_ops array_kv_ops) (fl_frozen fl) name created kv
            else KV_CreateFromSorted bl array_ops array_kv_ops (fl_frozen fl) name created kv) of
        (kv, Inr sf) \<Rightarrow> (kv, Inr sf)
      | (kv, Inl e) \<Rightarrow> (case KV_unfreeze kv of (kv, Inl p) \<Rightarrow> (kv, Inl p) | (kv, Inr _) \<Rightarrow> (KV_remove name kv, Inl e)))"

definition KV_flushMeta :: "flush \<Rightarrow> 'c KV \<Rightarrow> 'c KV \<times> unit res" where
  "KV_flushMeta fl kv =
     (let name = sstableName (fl_version fl); meta = Meta_Get (kv_meta kv);
          meta = meta\<lparr>md_Version := fl_version fl, md_SSTables := name # md_SSTables meta\<rparr> in
      case Meta_Set (kv_meta kv) meta of
        (m, Inr _) \<Rightarrow> (kv\<lparr>kv_meta := m\<rparr>, Inr ())
      | (m, Inl e) \<Rightarrow> (case KV_unfreeze (KV_remove name (kv\<lparr>kv_meta := m\<rparr>)) of
            (kv, Inl p) \<Rightarrow> (kv, Inl p) | (kv, Inr _) \<Rightarrow> (kv, Inl e)))"

text \<open>Publishing the table: a new handle with the reference of \<open>kv.main\<close>.\<close>

definition new_table :: "bytes \<Rightarrow> SortedFile \<Rightarrow> table" where
  "new_table name sf = \<lparr>tb_name = name, tb_file = sf, tb_refs = 1, tb_unlink = False\<rparr>"

definition KV_flushPublish :: "flush \<Rightarrow> SortedFile \<Rightarrow> 'c KV \<Rightarrow> 'c KV" where
  "KV_flushPublish fl sf kv =
     kv\<lparr>kv_tables := kv_tables kv @ [new_table (sstableName (fl_version fl)) sf],
        kv_main := length (kv_tables kv) # kv_main kv, kv_imm := None\<rparr>"

text \<open>The two durable steps of \<open>rewriteLog\<close>: the truncation, and the live memtable as one transaction.\<close>

definition KV_truncateLog :: "'c KV \<Rightarrow> 'c KV \<times> unit res" where
  "KV_truncateLog kv = (case Log_Truncate (kv_log kv) of (log, r) \<Rightarrow> (kv\<lparr>kv_log := log\<rparr>, r))"

definition KV_relog :: "SortedArray \<Rightarrow> 'c KV \<Rightarrow> 'c KV \<times> unit res" where
  "KV_relog mem kv =
     (if Array_Size mem = 0 then (kv, Inr ())
      else case Log_tx (kv_log kv) (map entry_of (arr_entries mem)) of (log, r) \<Rightarrow> (kv\<lparr>kv_log := log\<rparr>, r))"

definition KV_rewriteLog :: "'c KV \<Rightarrow> 'c KV \<times> unit res" where
  "KV_rewriteLog kv = sbind (KV_truncateLog kv) (\<lambda>kv' _. KV_relog (kv_mem kv) kv')"

definition KV_compactLog :: "'b bloomLib \<Rightarrow> fileLike res \<Rightarrow> 'c KV \<Rightarrow> 'c KV \<times> unit res" where
  "KV_compactLog bl created kv =
     sbind (KV_freeze kv) (\<lambda>kv fl. case fl of None \<Rightarrow> (kv, Inr ())
     | Some fl \<Rightarrow>
         sbind (KV_flushWrite bl created fl kv) (\<lambda>kv sf.
         sbind (KV_flushMeta fl kv) (\<lambda>kv _.
         KV_rewriteLog (KV_flushPublish fl sf kv))))"

section \<open>Merging tables\<close>

record merge =
  mg_version :: nat
  mg_level :: nat
  mg_old1 :: nat
  mg_old2 :: nat
  mg_drop :: bool

definition KV_mergeStart :: "nat \<Rightarrow> 'c KV \<Rightarrow> 'c KV \<times> merge option" where
  "KV_mergeStart level kv =
     (if level + 1 \<ge> length (kv_main kv) then (kv, None)
      else let version = kv_version kv + 1 in
        (kv\<lparr>kv_version := version\<rparr>,
         Some \<lparr>mg_version = version, mg_level = level, mg_old1 = kv_main kv ! level, mg_old2 = kv_main kv ! (level + 1),
           mg_drop = (length (kv_main kv) = level + 2)\<rparr>))"

definition KV_mergeWrite :: "'b bloomLib \<Rightarrow> fileLike res \<Rightarrow> merge \<Rightarrow> 'c KV \<Rightarrow> 'c KV \<times> SortedFile res" where
  "KV_mergeWrite bl created mg kv =
     (let name = sstableName (mg_version mg);
          src = [LFile (tb_file (kv_tables kv ! mg_old1 mg)), LFile (tb_file (kv_tables kv ! mg_old2 mg))] in
      case (if mg_drop mg
            then KV_CreateFromSorted bl (nodel_ops stack_ops) (NoDeletedSortedKV_ops stack_kv_ops) src name created kv
            else KV_CreateFromSorted bl stack_ops stack_kv_ops src name created kv) of
        (kv, Inr sf) \<Rightarrow> (kv, Inr sf)
      | (kv, Inl e) \<Rightarrow> (KV_remove name kv, Inl e))"

definition slices_Replace2 :: "'a list \<Rightarrow> nat \<Rightarrow> 'a \<Rightarrow> 'a list" where
  "slices_Replace2 xs i x = take i xs @ [x] @ drop (i + 2) xs"

definition KV_mergeMeta :: "merge \<Rightarrow> 'c KV \<Rightarrow> 'c KV \<times> unit res" where
  "KV_mergeMeta mg kv =
     (let name = sstableName (mg_version mg); meta = Meta_Get (kv_meta kv);
          meta = meta\<lparr>md_Version := mg_version mg, md_SSTables := slices_Replace2 (md_SSTables meta) (mg_level mg) name\<rparr> in
      case Meta_Set (kv_meta kv) meta of
        (m, Inr _) \<Rightarrow> (kv\<lparr>kv_meta := m\<rparr>, Inr ())
      | (m, Inl e) \<Rightarrow> (KV_remove name (kv\<lparr>kv_meta := m\<rparr>), Inl e))"

definition KV_mergePublish :: "merge \<Rightarrow> SortedFile \<Rightarrow> 'c KV \<Rightarrow> 'c KV \<times> unit res" where
  "KV_mergePublish mg sf kv =
     (if \<not> (mg_level mg + 1 < length (kv_main kv) \<and> kv_main kv ! mg_level mg = mg_old1 mg \<and>
            kv_main kv ! (mg_level mg + 1) = mg_old2 mg)
      then (kv, Inl (Panic ''check''))
      else (kv\<lparr>kv_tables := kv_tables kv @ [new_table (sstableName (mg_version mg)) sf],
              kv_main := slices_Replace2 (kv_main kv) (mg_level mg) (length (kv_tables kv))\<rparr>, Inr ()))"

definition KV_mergeRetire :: "merge \<Rightarrow> 'c KV \<Rightarrow> 'c KV \<times> unit res" where
  "KV_mergeRetire mg kv =
     (let kv = SortedFile_retire (mg_old2 mg) (SortedFile_retire (mg_old1 mg) kv) in
      sbind (SortedFile_release (mg_old1 mg) kv) (\<lambda>kv _. SortedFile_release (mg_old2 mg) kv))"

definition KV_compactSSTable :: "'b bloomLib \<Rightarrow> fileLike res \<Rightarrow> nat \<Rightarrow> 'c KV \<Rightarrow> 'c KV \<times> unit res" where
  "KV_compactSSTable bl created level kv =
     (case KV_mergeStart level kv of (kv, None) \<Rightarrow> (kv, Inr ())
      | (kv, Some mg) \<Rightarrow>
          sbind (KV_mergeWrite bl created mg kv) (\<lambda>kv sf.
          sbind (KV_mergeMeta mg kv) (\<lambda>kv _.
          sbind (KV_mergePublish mg sf kv) (\<lambda>kv _.
          KV_mergeRetire mg kv))))"

section \<open>One compaction step\<close>

text \<open>
  \<open>merge_due cur next\<close> is the outcome of \<open>shouldMergeLocked\<close>, which compares the sizes of two
  neighbours in \<open>float32\<close>; nothing below depends on how it decides.
\<close>

definition KV_mergeLevel :: "(nat \<Rightarrow> nat \<Rightarrow> bool) \<Rightarrow> 'c KV \<Rightarrow> nat option" where
  "KV_mergeLevel merge_due kv =
     (let size = (\<lambda>i. sf_nkeys (tb_file (kv_tables kv ! (kv_main kv ! i)))) in
      slices_IndexFunc (\<lambda>i. merge_due (size i) (size (i + 1))) [0..<length (kv_main kv) - 1])"

definition KV_compactOnce ::
  "'b bloomLib \<Rightarrow> (nat \<Rightarrow> nat \<Rightarrow> bool) \<Rightarrow> nat \<Rightarrow> fileLike res \<Rightarrow> fileLike res \<Rightarrow> 'c KV \<Rightarrow> 'c KV \<times> unit res" where
  "KV_compactOnce bl merge_due threshold created1 created2 kv =
     (if kv_closed kv then (kv, Inl ErrKVClosed)
      else sbind (if Array_Size (kv_mem kv) \<ge> threshold then KV_compactLog bl created1 kv else (kv, Inr ())) (\<lambda>kv _.
        case KV_mergeLevel merge_due kv of None \<Rightarrow> (kv, Inr ())
        | Some level \<Rightarrow> KV_compactSSTable bl created2 level kv))"

definition KV_recordError :: "err \<Rightarrow> 'c KV \<Rightarrow> 'c KV" where
  "KV_recordError e kv = kv\<lparr>kv_compactErr := Some e\<rparr>"

definition KV_Compact ::
  "'b bloomLib \<Rightarrow> (nat \<Rightarrow> nat \<Rightarrow> bool) \<Rightarrow> nat \<Rightarrow> fileLike res \<Rightarrow> fileLike res \<Rightarrow> 'c KV \<Rightarrow> 'c KV \<times> unit res" where
  "KV_Compact bl merge_due threshold created1 created2 kv =
     (case KV_compactOnce bl merge_due threshold created1 created2 kv of
        (kv, Inl e) \<Rightarrow> (if e \<noteq> ErrKVClosed then KV_recordError e kv else kv, Inl e)
      | (kv, Inr _) \<Rightarrow> (kv, Inr ()))"

section \<open>Closing\<close>

text \<open>
  \<open>Close\<close> marks the store closed and waits for the running transactions; the second function is
  the teardown that follows the wait.
\<close>

definition KV_closeBegin :: "'c KV \<Rightarrow> 'c KV" where
  "KV_closeBegin kv = kv\<lparr>kv_closed := True\<rparr>"

definition KV_closeEnd :: "'c KV \<Rightarrow> 'c KV \<times> unit res" where
  "KV_closeEnd kv =
     (let main = kv_main kv; kv = kv\<lparr>kv_main := [], kv_imm := None\<rparr> in
      sbind (release_all main kv) (\<lambda>kv _.
      case Log_Close (kv_log kv) of (log, r1) \<Rightarrow>
      case Meta_Close (kv_meta kv) of (meta, r2) \<Rightarrow>
      (kv\<lparr>kv_cache := None, kv_log := log, kv_meta := meta\<rparr>, if isl r1 then r1 else r2)))"

section \<open>A source without its tombstones keeps the contract\<close>

text \<open>
  \<open>NoDeletedSortedKV.Iter\<close> starts on the first entry whether it is a tombstone or not, and skips
  tombstones from there on.
\<close>

fun kept :: "kvd list \<Rightarrow> kvd list" where
  "kept [] = []"
| "kept (e # es) = e # live_entries es"

definition kept_cursor :: "('i \<Rightarrow> kvd list \<Rightarrow> int \<Rightarrow> bool) \<Rightarrow> 'i \<Rightarrow> kvd list \<Rightarrow> int \<Rightarrow> bool" where
  "kept_cursor rep it es' p' \<longleftrightarrow> (\<exists>es p. rep it es (int p) \<and> es' = kept es \<and>
     (p = 0 \<and> p' = 0 \<or> p = length es \<and> p' = int (length es') \<or>
      0 < p \<and> p < length es \<and> is_live (es ! p) \<and> p' = int (Suc (live_before (tl es) (p - 1)))))"

definition kept_src :: "('l \<Rightarrow> kvd list \<Rightarrow> bool) \<Rightarrow> 'l \<Rightarrow> kvd list \<Rightarrow> bool" where
  "kept_src src l es' \<longleftrightarrow> (\<exists>es. src l es \<and> es' = kept es)"

lemma set_kept: "set (kept es) \<subseteq> set es"
  by (cases es) (auto simp: live_entries_def)

lemma length_kept: "length (kept es) \<le> length es"
  by (cases es) (auto simp: live_entries_def)

lemma ssorted_kept: "ssorted (keys_of es) \<Longrightarrow> ssorted (keys_of (kept es))"
  by (cases es) (auto simp: live_entries_def ssorted_live_entries[unfolded live_entries_def])

lemma live_kept:
  assumes "ssorted (keys_of es)"
  shows "live (map_of (kept es)) = live (map_of es)"
proof (cases es)
  case (Cons e rest)
  have "ssorted (keys_of rest)" using assms Cons by simp
  from map_of_live_entries[OF this] show ?thesis
    by (auto simp: Cons live_def fun_eq_iff split: option.splits bool.splits)
qed simp

lemma kept_nth:
  assumes "0 < p" and "p < length es" and "is_live (es ! p)"
  shows "live_before (tl es) (p - 1) < length (live_entries (tl es))"
    and "kept es ! Suc (live_before (tl es) (p - 1)) = es ! p"
proof -
  obtain e rest where es: "es = e # rest" using assms by (cases es) auto
  have "p - 1 < length rest" "is_live (rest ! (p - 1))" using assms es by (auto simp: nth_Cons')
  from live_nth[OF this] show "live_before (tl es) (p - 1) < length (live_entries (tl es))"
    "kept es ! Suc (live_before (tl es) (p - 1)) = es ! p" using assms es by (auto simp: nth_Cons')
qed

context kv_iter begin

lemma kept_valid:
  assumes "kept_cursor rep it es' p'"
  obtains es p where "rep it es (int p)" "es' = kept es" "0 \<le> p'" "p' \<le> int (length es')"
    "p < length es \<longleftrightarrow> p' < int (length es')" "p < length es \<Longrightarrow> es' ! nat p' = es ! p"
proof -
  from assms obtain es p where r: "rep it es (int p)" "es' = kept es"
    and c: "p = 0 \<and> p' = 0 \<or> p = length es \<and> p' = int (length es') \<or>
      0 < p \<and> p < length es \<and> is_live (es ! p) \<and> p' = int (Suc (live_before (tl es) (p - 1)))"
    by (auto simp: kept_cursor_def)
  have len: "length es' = (if es = [] then 0 else Suc (length (live_entries (tl es))))" using r(2) by (cases es) auto
  from c show thesis
  proof (elim disjE)
    assume "0 < p \<and> p < length es \<and> is_live (es ! p) \<and> p' = int (Suc (live_before (tl es) (p - 1)))"
    then show thesis using r kept_nth[of p es] len by (intro that[of es p]) (auto simp: nat_add_distrib)
  qed (use r len in \<open>(intro that[of es p]; cases es; auto)+\<close>)
qed

lemma kept_next:
  assumes "rep it (e # es) (int p)"
  shows "\<exists>it'. NoDeleted_Next ops it = Inr it' \<and>
    kept_cursor rep it' (kept (e # es)) (int (Suc (live_before es p)))"
proof -
  have p: "p \<le> Suc (length es)" using rep_range[OF assms] by simp
  obtain it1 where it1: "i_Next ops it = Inr it1" "rep it1 (e # es) (int (min (Suc (length es)) (Suc p)))"
  proof -
    have "min (int (length (e # es))) (int p + 1) = int (min (Suc (length es)) (Suc p))" by simp
    then show thesis using Next_step[OF assms] that by metis
  qed
  from skip_next[OF it1(2)] obtain it' r where
    r: "skip_deleted (i_Next ops) ops it1 = Some (Inr it')" "rep it' (e # es) (int r)"
      "min (Suc (length es)) (Suc p) \<le> r" "r \<le> Suc (length es)" "r < Suc (length es) \<longrightarrow> is_live ((e # es) ! r)"
      "\<forall>i. min (Suc (length es)) (Suc p) \<le> i \<longrightarrow> i < r \<longrightarrow> \<not> is_live ((e # es) ! i)" by auto
  obtain q where q: "r = Suc q" using r(3) by (cases r) auto
  have "live_before es q = live_before es (min (length es) p)"
  proof (rule live_before_same)
    show "\<not> is_live (es ! i)" if "min (length es) p \<le> i" "i < q" for i
      using r(6)[rule_format, of "Suc i"] that q by (auto simp: min_def split: if_splits)
  qed (use r(3,4) q in auto)
  then have same: "live_before es q = live_before es p" using p by (cases "p \<le> length es") (auto simp: min_def)
  have "kept_cursor rep it' (kept (e # es)) (int (Suc (live_before es p)))"
    unfolding kept_cursor_def
  proof (intro exI[of _ "e # es"] exI[of _ r] conjI refl)
    show "r = 0 \<and> int (Suc (live_before es p)) = 0 \<or>
      r = length (e # es) \<and> int (Suc (live_before es p)) = int (length (kept (e # es))) \<or>
      0 < r \<and> r < length (e # es) \<and> is_live ((e # es) ! r) \<and> int (Suc (live_before es p)) = int (Suc (live_before (tl (e # es)) (r - 1)))"
    proof (cases "q = length es")
      case True
      then show ?thesis using q same live_before_all[of es] by auto
    next
      case False
      then show ?thesis using q r(4,5) same by auto
    qed
  qed (rule r(2))
  then show ?thesis using it1(1) r(1) by (simp add: NoDeleted_Next_def loop_result_def)
qed

lemma nodel_fwd_laws: "fwd_iter (nodel_ops ops) (kept_cursor rep)"
proof
  fix it es' p' assume k: "kept_cursor rep it es' p'"
  from kept_valid[OF k] obtain es p where r: "rep it es (int p)" "es' = kept es" "0 \<le> p'" "p' \<le> int (length es')"
    "p < length es \<longleftrightarrow> p' < int (length es')" and nth: "p < length es \<Longrightarrow> es' ! nat p' = es ! p" by blast
  show "ssorted (keys_of es')" using r(2) ssorted_kept[OF rep_sorted[OF r(1)]] by simp
  show "- 1 \<le> p' \<and> p' \<le> int (length es')" using r by simp
  show "i_Valid (nodel_ops ops) it \<longleftrightarrow> 0 \<le> p' \<and> p' < int (length es')"
    using Valid_iff[OF r(1)] r by (simp add: nodel_ops_def)
  show "i_Key (nodel_ops ops) it = Inr (fst (es' ! nat p'))" "i_Val (nodel_ops ops) it = Inr (fst (snd (es' ! nat p')))"
    "i_Deleted (nodel_ops ops) it = Inr (snd (snd (es' ! nat p')))" if "p' < int (length es')"
    using that r(5) nth Key_nth[OF r(1)] Val_nth[OF r(1)] Deleted_nth[OF r(1)] by (auto simp: nodel_ops_def)
next
  fix it es' p' assume k: "kept_cursor rep it es' p'"
  then obtain es p where r: "rep it es (int p)" "es' = kept es"
    and c: "p = 0 \<and> p' = 0 \<or> p = length es \<and> p' = int (length es') \<or>
      0 < p \<and> p < length es \<and> is_live (es ! p) \<and> p' = int (Suc (live_before (tl es) (p - 1)))"
    by (auto simp: kept_cursor_def)
  show "\<exists>it'. i_Next (nodel_ops ops) it = Inr it' \<and> kept_cursor rep it' es' (min (int (length es')) (p' + 1))"
  proof (cases es)
    case Nil
    then have "rep it [] (int 0)" using r(1) rep_range[OF r(1)] by simp
    obtain it1 where it1: "i_Next ops it = Inr it1" "rep it1 [] (int 0)" using Next_step[OF r(1)] Nil by (auto simp: min_def)
    then have "skip_deleted (i_Next ops) ops it1 = Some (Inr it1)"
      using Valid_iff[OF it1(2)] by (simp add: skip_deleted.simps)
    then show ?thesis using it1 Nil r c
      by (auto simp: nodel_ops_def NoDeleted_Next_def loop_result_def kept_cursor_def intro!: exI[of _ "[]"] exI[of _ 0])
  next
    case (Cons e rest)
    from kept_next[OF r(1)[unfolded Cons]] obtain it' where
      it': "NoDeleted_Next ops it = Inr it'" "kept_cursor rep it' es' (int (Suc (live_before rest p)))" using r(2) Cons by auto
    have "int (Suc (live_before rest p)) = min (int (length es')) (p' + 1)"
      using c
    proof (elim disjE)
      assume "p = 0 \<and> p' = 0"
      then show ?thesis using r(2) Cons by simp
    next
      assume "p = length es \<and> p' = int (length es')"
      then show ?thesis using r(2) Cons live_before_all[of rest] by simp
    next
      assume a: "0 < p \<and> p < length es \<and> is_live (es ! p) \<and> p' = int (Suc (live_before (tl es) (p - 1)))"
      then obtain q where q: "p = Suc q" by (cases p) auto
      have "q < length rest" "is_live (rest ! q)" using a q Cons by auto
      then have "live_before rest p = Suc (live_before rest q)" "live_before rest q < length (live_entries rest)"
        using live_before_Suc[of q rest] live_nth[of q rest] q by auto
      then show ?thesis using a q r(2) Cons by simp
    qed
    then show ?thesis using it' by (simp add: nodel_ops_def)
  qed
qed

end

context kv_source begin

lemma nodel_source_laws:
  "fwd_source (nodel_ops ops) (kept_cursor rep) (NoDeletedSortedKV_ops kops) (kept_src src)"
proof (intro fwd_source.intro nodel_fwd_laws fwd_source_axioms.intro)
  fix l es' assume "kept_src src l es'"
  then obtain es where es: "src l es" "es' = kept es" by (auto simp: kept_src_def)
  show "ssorted (keys_of es')" using es ssorted_kept[OF src_sorted] by simp
  show "length es' \<le> k_EstimatedSize (NoDeletedSortedKV_ops kops) l"
    using es Size_ge[OF es(1)] length_kept[of es] by (simp add: NoDeletedSortedKV_ops_def)
  obtain it where "k_Iter kops l = Inr it" "rep it es 0" using Iter_rep[OF es(1)] by blast
  then show "\<exists>it. k_Iter (NoDeletedSortedKV_ops kops) l = Inr it \<and> kept_cursor rep it es' 0"
    using es(2) by (auto simp: NoDeletedSortedKV_ops_def kept_cursor_def intro!: exI[of _ es] exI[of _ 0])
qed

end

interpretation flush_src: fwd_source "nodel_ops array_ops" "kept_cursor array_cursor"
  "NoDeletedSortedKV_ops array_kv_ops" "kept_src array_src"
  by (rule kv_source.nodel_source_laws[OF arr_source.kv_source_axioms])

interpretation merge_src: fwd_source "nodel_ops stack_ops" "kept_cursor (merged_cursor level_cursor)"
  "NoDeletedSortedKV_ops stack_kv_ops" "kept_src (merged_src level_src)"
  by (rule kv_source.nodel_source_laws[OF stack.kv_source_axioms])

end
