(* ===== verification/StoreInv.thy ===== *)
theory StoreInv
  imports Compact
begin

text \<open>
  The invariant of the store and what every operation keeps of it: memtables and pending writes
  are sorted, every transaction has the levels it captured, and the reference count of an SSTable
  is the number of places that hold it, so that a table in use is open.
\<close>

section \<open>The invariant\<close>

abbreviation tx_of :: "'c KV \<Rightarrow> nat \<Rightarrow> KVTX" where
  "tx_of kv i \<equiv> kv_txs kv ! i"

abbreviation tb_of :: "'c KV \<Rightarrow> nat \<Rightarrow> table" where
  "tb_of kv f \<equiv> kv_tables kv ! f"

definition snap_refs :: "'c KV \<Rightarrow> nat \<Rightarrow> nat" where
  "snap_refs kv f = (\<Sum>i\<leftarrow>kv_ongoing kv. count_list (tx_mainSnap (tx_of kv i)) f)"

text \<open>\<open>pend\<close> lists references that an operation under way still has to give up.\<close>

definition refs_ok :: "'c KV \<Rightarrow> nat list \<Rightarrow> bool" where
  "refs_ok kv pend \<longleftrightarrow> (\<forall>f < length (kv_tables kv).
     tb_refs (tb_of kv f) = int (count_list (kv_main kv) f + snap_refs kv f + count_list pend f) \<and>
     (0 < tb_refs (tb_of kv f) \<longrightarrow> level_ok (LFile (tb_file (tb_of kv f)))))"

definition tx_inv :: "'c KV \<Rightarrow> nat \<Rightarrow> bool" where
  "tx_inv kv i \<longleftrightarrow> i < length (kv_txs kv) \<and> tx_err (tx_of kv i) = None \<and> tx_target (tx_of kv i) = TKV \<and>
     arr_wf (tx_updates (tx_of kv i)) \<and> tx_snapshot (tx_of kv i) \<le> kv_snapshot kv \<and>
     set (tx_mainSnap (tx_of kv i)) \<subseteq> {..<length (kv_tables kv)} \<and>
     (\<exists>arrs. list_all arr_wf arrs \<and>
        tx_levels (tx_of kv i) = RUpd i # map RArr arrs @ map RFile (tx_mainSnap (tx_of kv i)))"

definition store_inv :: "'c KV \<Rightarrow> nat list \<Rightarrow> bool" where
  "store_inv kv pend \<longleftrightarrow> arr_wf (kv_mem kv) \<and> (\<forall>a. kv_imm kv = Some a \<longrightarrow> arr_wf a) \<and>
     set (kv_main kv) \<subseteq> {..<length (kv_tables kv)} \<and> set pend \<subseteq> {..<length (kv_tables kv)} \<and>
     refs_ok kv pend \<and> distinct (kv_ongoing kv) \<and> (\<forall>i\<in>set (kv_ongoing kv). tx_inv kv i) \<and>
     sorted (map (\<lambda>i. tx_snapshot (tx_of kv i)) (kv_ongoing kv))"

lemma store_invE:
  assumes "store_inv kv pend"
  shows "arr_wf (kv_mem kv)" "\<And>a. kv_imm kv = Some a \<Longrightarrow> arr_wf a" "set (kv_main kv) \<subseteq> {..<length (kv_tables kv)}"
    "set pend \<subseteq> {..<length (kv_tables kv)}" "refs_ok kv pend" "distinct (kv_ongoing kv)"
    "\<And>i. i \<in> set (kv_ongoing kv) \<Longrightarrow> tx_inv kv i"
    "sorted (map (\<lambda>i. tx_snapshot (tx_of kv i)) (kv_ongoing kv))"
  using assms by (auto simp: store_inv_def)

section \<open>What the store and a transaction see\<close>

definition store_levels :: "'c KV \<Rightarrow> level list" where
  "store_levels kv = LArr (kv_mem kv) # (case kv_imm kv of None \<Rightarrow> [] | Some a \<Rightarrow> [LArr a]) @
     map (\<lambda>f. LFile (tb_file (tb_of kv f))) (kv_main kv)"

definition kv_view :: "'c KV \<Rightarrow> bytes \<rightharpoonup> bytes" where
  "kv_view kv = live (stack_map (store_levels kv))"

definition tx_base :: "'c KV \<Rightarrow> nat \<Rightarrow> level list" where
  "tx_base kv i = map (deref kv) (tl (tx_levels (tx_of kv i)))"

definition tx_view :: "'c KV \<Rightarrow> nat \<Rightarrow> bytes \<rightharpoonup> bytes" where
  "tx_view kv i = live (stack_map (tx_base kv i))"

text \<open>Pending writes over a view.\<close>

definition overlay :: "(bytes \<rightharpoonup> bytes) \<Rightarrow> kvmap \<Rightarrow> bytes \<rightharpoonup> bytes" where
  "overlay m u k = (case u k of None \<Rightarrow> m k | Some (v, d) \<Rightarrow> if d then None else Some v)"

lemma live_overlay: "live (m ++ u) = overlay (live m) u"
  by (rule ext) (simp add: live_map_add overlay_def)

lemma overlay_upd [simp]:
  "overlay m (u(k \<mapsto> (v, False))) = (overlay m u)(k \<mapsto> v)"
  "overlay m (u(k \<mapsto> (v, True))) = (overlay m u)(k := None)"
  "overlay m Map.empty = m"
  by (auto simp: overlay_def fun_eq_iff)

lemma snap_refs_pos:
  assumes "i \<in> set (kv_ongoing kv)" and "f \<in> set (tx_mainSnap (tx_of kv i))"
  shows "0 < snap_refs kv f"
proof -
  have "count_list (tx_mainSnap (tx_of kv i)) f \<noteq> 0" using assms(2) by (simp add: count_list_0_iff)
  then show ?thesis using assms(1) unfolding snap_refs_def
    by (metis (no_types, lifting) bot_nat_0.not_eq_extremum image_eqI list.set_map sum_list_eq_0_iff)
qed

lemma refs_level_ok:
  assumes "refs_ok kv pend" and "f < length (kv_tables kv)"
    and "f \<in> set (kv_main kv) \<or> (\<exists>i\<in>set (kv_ongoing kv). f \<in> set (tx_mainSnap (tx_of kv i))) \<or> f \<in> set pend"
  shows "0 < tb_refs (tb_of kv f)" and "level_ok (LFile (tb_file (tb_of kv f)))"
proof -
  have "0 < count_list (kv_main kv) f + snap_refs kv f + count_list pend f"
    using assms(3) snap_refs_pos[of _ kv f] count_list_0_iff[of _ f] by (metis add_gr_0 gr0I)
  then show "0 < tb_refs (tb_of kv f)" and "level_ok (LFile (tb_file (tb_of kv f)))"
    using assms(1,2) by (auto simp: refs_ok_def)
qed

lemma store_levels_ok: "store_inv kv pend \<Longrightarrow> list_all level_ok (store_levels kv)"
  using store_invE[of kv pend] refs_level_ok(2)[of kv pend]
  by (auto simp: store_levels_def list_all_iff split: option.splits)

lemma tx_base_ok:
  assumes "store_inv kv pend" and "i \<in> set (kv_ongoing kv)"
  shows "list_all level_ok (tx_base kv i)"
    and "tx_stack kv i = LArr (tx_updates (tx_of kv i)) # tx_base kv i"
proof -
  have t: "tx_inv kv i" using store_invE(7)[OF assms] .
  then show "tx_stack kv i = LArr (tx_updates (tx_of kv i)) # tx_base kv i"
    by (auto simp: tx_inv_def tx_stack_def tx_base_def deref_def)
  have f: "level_ok (LFile (tb_file (tb_of kv f)))" if "f \<in> set (tx_mainSnap (tx_of kv i))" for f
  proof (rule refs_level_ok(2)[OF store_invE(5)[OF assms(1)]])
    show "f < length (kv_tables kv)" using t that by (auto simp: tx_inv_def)
  qed (use assms(2) that in blast)
  show "list_all level_ok (tx_base kv i)"
    using t f by (auto simp: tx_inv_def tx_base_def deref_def list_all_iff)
qed

lemma tx_stack_map:
  assumes "store_inv kv pend" and "i \<in> set (kv_ongoing kv)"
  shows "live (stack_map (tx_stack kv i)) = overlay (tx_view kv i) (arr_map (tx_updates (tx_of kv i)))"
  using tx_base_ok(2)[OF assms] store_invE(7)[OF assms]
  by (simp add: live_overlay tx_view_def tx_inv_def)

lemma tx_stack_ok:
  assumes "store_inv kv pend" and "i \<in> set (kv_ongoing kv)"
  shows "list_all level_ok (tx_stack kv i)"
  using tx_base_ok[OF assms] store_invE(7)[OF assms] by (simp add: tx_inv_def)

lemma tx_Get:
  assumes "store_inv kv pend" and "i \<in> set (kv_ongoing kv)"
  shows "KVTX_Get kv i k = Inr (overlay (tx_view kv i) (arr_map (tx_updates (tx_of kv i))) k)"
  using KVTX_Get_live[OF _ tx_stack_ok[OF assms]] tx_stack_map[OF assms] store_invE(7)[OF assms]
  by (simp add: tx_inv_def)

section \<open>Releasing and acquiring\<close>

text \<open>
  What changes when references are given up: tables that nothing refers to any more are closed,
  and maybe unlinked; nothing else.
\<close>

definition frame :: "'c KV \<Rightarrow> 'c KV \<Rightarrow> bool" where
  "frame kv kv' \<longleftrightarrow> kv' = kv\<lparr>kv_tables := kv_tables kv', kv_disk := kv_disk kv'\<rparr> \<and>
     length (kv_tables kv') = length (kv_tables kv) \<and>
     (\<forall>f < length (kv_tables kv). 0 < tb_refs (tb_of kv' f) \<longrightarrow> tb_file (tb_of kv' f) = tb_file (tb_of kv f))"

lemma frame_refl [simp]: "frame kv kv" by (simp add: frame_def)

lemma frameD:
  assumes "frame kv kv'"
  shows "kv_meta kv' = kv_meta kv" "kv_version kv' = kv_version kv" "kv_log kv' = kv_log kv" "kv_mem kv' = kv_mem kv"
    "kv_imm kv' = kv_imm kv" "kv_main kv' = kv_main kv" "kv_cache kv' = kv_cache kv" "kv_snapshot kv' = kv_snapshot kv"
    "kv_history kv' = kv_history kv" "kv_ongoing kv' = kv_ongoing kv" "kv_closed kv' = kv_closed kv" "kv_txs kv' = kv_txs kv"
    "length (kv_tables kv') = length (kv_tables kv)" "kv_compactErr kv' = kv_compactErr kv"
proof -
  have e: "kv' = kv\<lparr>kv_tables := kv_tables kv', kv_disk := kv_disk kv'\<rparr>" using assms by (simp add: frame_def)
  show "kv_meta kv' = kv_meta kv" by (subst e) simp
  show "kv_version kv' = kv_version kv" by (subst e) simp
  show "kv_log kv' = kv_log kv" by (subst e) simp
  show "kv_mem kv' = kv_mem kv" by (subst e) simp
  show "kv_imm kv' = kv_imm kv" by (subst e) simp
  show "kv_main kv' = kv_main kv" by (subst e) simp
  show "kv_cache kv' = kv_cache kv" by (subst e) simp
  show "kv_snapshot kv' = kv_snapshot kv" by (subst e) simp
  show "kv_history kv' = kv_history kv" by (subst e) simp
  show "kv_ongoing kv' = kv_ongoing kv" by (subst e) simp
  show "kv_closed kv' = kv_closed kv" by (subst e) simp
  show "kv_txs kv' = kv_txs kv" by (subst e) simp
  show "kv_compactErr kv' = kv_compactErr kv" by (subst e) simp
qed (use assms in \<open>simp add: frame_def\<close>)

lemma tables_disk_twice:
  "b = a\<lparr>kv_tables := t, kv_disk := d\<rparr> \<Longrightarrow> c = b\<lparr>kv_tables := t', kv_disk := d'\<rparr> \<Longrightarrow> c = a\<lparr>kv_tables := t', kv_disk := d'\<rparr>"
  by simp

lemma frame_trans:
  assumes "frame a b" and "frame b c"
    and "\<forall>f < length (kv_tables a). 0 < tb_refs (tb_of c f) \<longrightarrow> 0 < tb_refs (tb_of b f)"
  shows "frame a c"
proof -
  have "b = a\<lparr>kv_tables := kv_tables b, kv_disk := kv_disk b\<rparr>" "c = b\<lparr>kv_tables := kv_tables c, kv_disk := kv_disk c\<rparr>"
    using assms(1,2) unfolding frame_def by blast+
  from tables_disk_twice[OF this] have "c = a\<lparr>kv_tables := kv_tables c, kv_disk := kv_disk c\<rparr>" .
  then show ?thesis using assms by (auto simp: frame_def)
qed

lemma store_inv_frame:
  assumes "store_inv kv pend" and "frame kv kv'" and "refs_ok kv' pend'" and "set pend' \<subseteq> {..<length (kv_tables kv)}"
  shows "store_inv kv' pend'"
  using assms frameD[OF assms(2)] by (auto simp: store_inv_def tx_inv_def)

lemma snap_refs_frame: "frame kv kv' \<Longrightarrow> snap_refs kv' f = snap_refs kv f"
  by (simp add: snap_refs_def frameD)

lemma frame_views:
  assumes "store_inv kv pend" and "frame kv kv'" and "store_inv kv' pend'"
  shows "kv_view kv' = kv_view kv" and "i \<in> set (kv_ongoing kv) \<Longrightarrow> tx_base kv' i = tx_base kv i"
proof -
  note d = frameD[OF assms(2)]
  have same: "tb_file (tb_of kv' f) = tb_file (tb_of kv f)" if "f < length (kv_tables kv)"
    "f \<in> set (kv_main kv) \<or> (\<exists>i\<in>set (kv_ongoing kv). f \<in> set (tx_mainSnap (tx_of kv i)))" for f
    using that refs_level_ok(1)[OF store_invE(5)[OF assms(3)], of f] assms(2) d by (auto simp: frame_def)
  have "map (\<lambda>f. LFile (tb_file (tb_of kv' f))) (kv_main kv) = map (\<lambda>f. LFile (tb_file (tb_of kv f))) (kv_main kv)"
    using same store_invE(3)[OF assms(1)] by auto
  then show "kv_view kv' = kv_view kv" by (simp add: kv_view_def store_levels_def d del: map_eq_conv)
  assume i: "i \<in> set (kv_ongoing kv)"
  have t: "tx_inv kv i" using store_invE(7)[OF assms(1) i] .
  have "tb_file (tb_of kv' f) = tb_file (tb_of kv f)" if "f \<in> set (tx_mainSnap (tx_of kv i))" for f
    using same[of f] t that i by (auto simp: tx_inv_def)
  then show "tx_base kv' i = tx_base kv i" using t by (auto simp: tx_base_def tx_inv_def d deref_def)
qed

lemma SortedFile_release_ok:
  assumes inv: "store_inv kv (f # pend)"
  obtains kv' where "SortedFile_release f kv = (kv', Inr ())" "frame kv kv'" "store_inv kv' pend"
    "\<And>g. g < length (kv_tables kv) \<Longrightarrow> tb_refs (tb_of kv' g) \<le> tb_refs (tb_of kv g)"
proof -
  have f: "f < length (kv_tables kv)" using store_invE(4)[OF inv] by simp
  have r: "refs_ok kv (f # pend)" by (rule store_invE(5)[OF inv])
  define n where "n = count_list (kv_main kv) f + snap_refs kv f + count_list pend f"
  have n: "tb_refs (tb_of kv f) - 1 = int n" using r f by (simp add: refs_ok_def n_def)
  define t where "t = (tb_of kv f)\<lparr>tb_refs := int n, tb_file := (if n = 0 then SortedFile_Close (tb_file (tb_of kv f)) else tb_file (tb_of kv f))\<rparr>"
  define kv' where "kv' = kv\<lparr>kv_tables := (kv_tables kv)[f := t],
    kv_disk := (if n = 0 \<and> tb_unlink (tb_of kv f) then (kv_disk kv)(tb_name (tb_of kv f) := None) else kv_disk kv)\<rparr>"
  have rel: "SortedFile_release f kv = (kv', Inr ())"
    using f n by (auto simp: SortedFile_release_def tb_update_def Let_def kv'_def t_def)
  have fr: "frame kv kv'"
    using f by (auto simp: frame_def kv'_def t_def nth_list_update)
  have "refs_ok kv' pend" unfolding refs_ok_def snap_refs_frame[OF fr]
  proof (intro allI impI)
    fix g assume "g < length (kv_tables kv')"
    then have g: "g < length (kv_tables kv)" using frameD[OF fr] by simp
    have "tb_refs (tb_of kv g) = int (count_list (kv_main kv) g + snap_refs kv g + count_list (f # pend) g)"
      "0 < tb_refs (tb_of kv g) \<longrightarrow> level_ok (LFile (tb_file (tb_of kv g)))" using r g by (auto simp: refs_ok_def)
    then show "tb_refs (tb_of kv' g) = int (count_list (kv_main kv') g + snap_refs kv g + count_list pend g) \<and>
        (0 < tb_refs (tb_of kv' g) \<longrightarrow> level_ok (LFile (tb_file (tb_of kv' g))))"
      using f g by (cases "g = f") (auto simp: kv'_def t_def n_def)
  qed
  from store_inv_frame[OF inv fr this] have inv': "store_inv kv' pend" using store_invE(4)[OF inv] by simp
  have "tb_refs (tb_of kv' g) \<le> tb_refs (tb_of kv g)" for g
    using f n by (cases "g = f") (auto simp: kv'_def t_def)
  then show thesis using that[OF rel fr inv'] by blast
qed

lemma release_all_ok:
  assumes "store_inv kv (fs @ pend)"
  shows "\<exists>kv'. release_all fs kv = (kv', Inr ()) \<and> frame kv kv' \<and> store_inv kv' pend \<and>
    (\<forall>g < length (kv_tables kv). tb_refs (tb_of kv' g) \<le> tb_refs (tb_of kv g))"
  using assms
proof (induction fs arbitrary: kv)
  case (Cons f fs)
  then have "store_inv kv (f # fs @ pend)" by simp
  from SortedFile_release_ok[OF this] obtain kv1 where
    k1: "SortedFile_release f kv = (kv1, Inr ())" "frame kv kv1" "store_inv kv1 (fs @ pend)"
      "\<And>g. g < length (kv_tables kv) \<Longrightarrow> tb_refs (tb_of kv1 g) \<le> tb_refs (tb_of kv g)" by blast
  from Cons.IH[OF k1(3)] obtain kv2 where k2: "release_all fs kv1 = (kv2, Inr ())" "frame kv1 kv2" "store_inv kv2 pend"
    "\<forall>g < length (kv_tables kv1). tb_refs (tb_of kv2 g) \<le> tb_refs (tb_of kv1 g)" by blast
  have len: "length (kv_tables kv1) = length (kv_tables kv)" using frameD[OF k1(2)] by simp
  have "frame kv kv2"
    by (rule frame_trans[OF k1(2) k2(2)]) (use k2(4) len in fastforce)
  moreover have "tb_refs (tb_of kv2 g) \<le> tb_refs (tb_of kv g)" if "g < length (kv_tables kv)" for g
    using k1(4)[OF that] k2(4)[rule_format, of g] that len by simp
  ultimately show ?case using k1(1) k2(1,3) by auto
qed simp

lemma acquire_all:
  "fold SortedFile_acquire fs kv = kv\<lparr>kv_tables :=
     map (\<lambda>f. (tb_of kv f)\<lparr>tb_refs := tb_refs (tb_of kv f) + int (count_list fs f)\<rparr>) [0..<length (kv_tables kv)]\<rparr>"
proof (induction fs arbitrary: kv)
  case Nil
  have "map (\<lambda>f. (tb_of kv f)\<lparr>tb_refs := tb_refs (tb_of kv f)\<rparr>) [0..<length (kv_tables kv)] = kv_tables kv"
    by (intro nth_equalityI) auto
  then show ?case by simp
next
  case (Cons f fs)
  have "fold SortedFile_acquire (f # fs) kv = fold SortedFile_acquire fs (SortedFile_acquire f kv)" by simp
  also have "\<dots> = kv\<lparr>kv_tables :=
     map (\<lambda>g. (tb_of kv g)\<lparr>tb_refs := tb_refs (tb_of kv g) + int (count_list (f # fs) g)\<rparr>) [0..<length (kv_tables kv)]\<rparr>"
    unfolding Cons.IH
  proof -
    let ?k = "SortedFile_acquire f kv"
    have "map (\<lambda>g. (tb_of ?k g)\<lparr>tb_refs := tb_refs (tb_of ?k g) + int (count_list fs g)\<rparr>) [0..<length (kv_tables ?k)] =
      map (\<lambda>g. (tb_of kv g)\<lparr>tb_refs := tb_refs (tb_of kv g) + int (count_list (f # fs) g)\<rparr>) [0..<length (kv_tables kv)]"
      by (intro nth_equalityI) (auto simp: SortedFile_acquire_def tb_update_def nth_list_update)
    then show "?k\<lparr>kv_tables := map (\<lambda>g. (tb_of ?k g)\<lparr>tb_refs := tb_refs (tb_of ?k g) + int (count_list fs g)\<rparr>) [0..<length (kv_tables ?k)]\<rparr> =
      kv\<lparr>kv_tables := map (\<lambda>g. (tb_of kv g)\<lparr>tb_refs := tb_refs (tb_of kv g) + int (count_list (f # fs) g)\<rparr>) [0..<length (kv_tables kv)]\<rparr>"
      by (simp add: SortedFile_acquire_def tb_update_def)
  qed
  finally show ?case .
qed

section \<open>Starting a transaction\<close>

definition imm_levels :: "'c KV \<Rightarrow> SortedArray list" where
  "imm_levels kv = kv_mem kv # (case kv_imm kv of None \<Rightarrow> [] | Some a \<Rightarrow> [a])"

lemma store_levels_imm:
  "store_levels kv = map LArr (imm_levels kv) @ map (\<lambda>f. LFile (tb_file (tb_of kv f))) (kv_main kv)"
  by (simp add: store_levels_def imm_levels_def split: option.split)

text \<open>The captured memtables of a transaction, and its base in terms of them.\<close>

definition tx_arrs :: "KVTX \<Rightarrow> SortedArray list" where
  "tx_arrs tx = map (\<lambda>r. case r of RArr a \<Rightarrow> a | _ \<Rightarrow> empty_array)
     (take (length (tx_levels tx) - 1 - length (tx_mainSnap tx)) (tl (tx_levels tx)))"

lemma tx_inv_base:
  assumes "tx_inv kv i"
  shows "tx_base kv i = map LArr (tx_arrs (tx_of kv i)) @ map (\<lambda>f. LFile (tb_file (tb_of kv f))) (tx_mainSnap (tx_of kv i))"
  using assms by (auto simp: tx_inv_def tx_base_def tx_arrs_def deref_def)

lemma NewTX_ok:
  assumes inv: "store_inv kv pend" and open_: "\<not> kv_closed kv" and new: "KV_NewTX kv = (kv', i)"
  shows "i = length (kv_txs kv)" and "store_inv kv' pend" and "kv_view kv' = kv_view kv"
    and "tx_view kv' i = kv_view kv" and "tx_updates (tx_of kv' i) = empty_array" and "tx_snapshot (tx_of kv' i) = kv_snapshot kv"
    and "\<And>j. j < length (kv_txs kv) \<Longrightarrow> tx_of kv' j = tx_of kv j"
    and "\<And>j. j \<in> set (kv_ongoing kv) \<Longrightarrow> tx_base kv' j = tx_base kv j"
    and "kv_ongoing kv' = kv_ongoing kv @ [i]" and "kv_history kv' = kv_history kv" and "kv_snapshot kv' = kv_snapshot kv"
    and "kv_imm kv' = kv_imm kv" and "kv_mem kv' = kv_mem kv" and "kv_main kv' = kv_main kv"
    and "length (kv_tables kv') = length (kv_tables kv)" and "\<And>f. f < length (kv_tables kv) \<Longrightarrow> tb_file (tb_of kv' f) = tb_file (tb_of kv f)"
    and "kv_closed kv' = kv_closed kv"
proof -
  define tx where "tx = \<lparr>tx_snapshot = kv_snapshot kv, tx_target = TKV, tx_updates = empty_array,
    tx_levels = RUpd i # map RArr (imm_levels kv) @ map RFile (kv_main kv), tx_mainSnap = kv_main kv, tx_err = None\<rparr>"
  define tabs where "tabs = map (\<lambda>f. (tb_of kv f)\<lparr>tb_refs := tb_refs (tb_of kv f) + int (count_list (kv_main kv) f)\<rparr>) [0..<length (kv_tables kv)]"
  have i: "i = length (kv_txs kv)" using new open_ by (auto simp: KV_NewTX_def Let_def)
  have kv': "kv' = kv\<lparr>kv_tables := tabs, kv_txs := kv_txs kv @ [tx], kv_ongoing := kv_ongoing kv @ [i]\<rparr>"
    using new open_ by (auto simp: KV_NewTX_def Let_def acquire_all tabs_def tx_def imm_levels_def split: option.splits)
  show "i = length (kv_txs kv)" by (rule i)
  have len: "length tabs = length (kv_tables kv)" by (simp add: tabs_def)
  have tab: "tb_file (tabs ! f) = tb_file (tb_of kv f)" "tb_refs (tabs ! f) = tb_refs (tb_of kv f) + int (count_list (kv_main kv) f)"
    if "f < length (kv_tables kv)" for f using that by (simp_all add: tabs_def)
  have old: "j < length (kv_txs kv)" if "j \<in> set (kv_ongoing kv)" for j
    using store_invE(7)[OF inv that] by (simp add: tx_inv_def)
  show same: "tx_of kv' j = tx_of kv j" if "j < length (kv_txs kv)" for j using that by (simp add: kv' nth_append)
  have txi: "tx_of kv' i = tx" by (simp add: kv' i)
  have snap: "snap_refs kv' f = snap_refs kv f + count_list (kv_main kv) f" for f
  proof -
    have "map (\<lambda>j. count_list (tx_mainSnap (tx_of kv' j)) f) (kv_ongoing kv) = map (\<lambda>j. count_list (tx_mainSnap (tx_of kv j)) f) (kv_ongoing kv)"
      using old same by auto
    then show ?thesis using txi by (simp add: snap_refs_def kv' tx_def del: map_eq_conv)
  qed
  have refs: "refs_ok kv' pend" unfolding refs_ok_def snap
    using store_invE(5)[OF inv] tab len store_invE(3)[OF inv] refs_level_ok(2)[OF store_invE(5)[OF inv]]
      count_list_0_iff
    by (auto simp: refs_ok_def kv')
  have wf: "list_all arr_wf (imm_levels kv)" using store_invE(1,2)[OF inv] by (auto simp: imm_levels_def split: option.splits)
  have ti: "tx_inv kv' i" using store_invE(3)[OF inv] wf txi len by (auto simp: tx_inv_def tx_def kv' i)
  have tj: "tx_inv kv' j" if "j \<in> set (kv_ongoing kv)" for j
    using store_invE(7)[OF inv that] same[OF old[OF that]] old[OF that] len by (auto simp: tx_inv_def kv')
  have srt: "sorted (map (\<lambda>i. tx_snapshot (tx_of kv' i)) (kv_ongoing kv'))"
  proof -
    have "map (\<lambda>i. tx_snapshot (tx_of kv' i)) (kv_ongoing kv') = map (\<lambda>i. tx_snapshot (tx_of kv i)) (kv_ongoing kv) @ [kv_snapshot kv]"
      using old same txi by (auto simp: kv' tx_def)
    then show ?thesis using store_invE(7,8)[OF inv] by (auto simp: sorted_append tx_inv_def)
  qed
  have "i \<notin> set (kv_ongoing kv)" using old[of i] i by auto
  then show inv': "store_inv kv' pend"
    using store_invE[OF inv] refs ti tj srt len by (auto simp: store_inv_def kv')
  have files: "map (\<lambda>f. LFile (tb_file (tabs ! f))) fs = map (\<lambda>f. LFile (tb_file (tb_of kv f))) fs"
    if "set fs \<subseteq> {..<length (kv_tables kv)}" for fs using tab(1) that by auto
  show "kv_view kv' = kv_view kv"
    using files[OF store_invE(3)[OF inv]] by (simp add: kv_view_def store_levels_def kv' del: map_eq_conv)
  have "tx_base kv' i = store_levels kv"
    using files[OF store_invE(3)[OF inv]] txi
    by (simp add: tx_base_def tx_def store_levels_imm deref_def comp_def kv' del: map_eq_conv)
  then show "tx_view kv' i = kv_view kv" by (simp add: tx_view_def kv_view_def)
  show "tx_updates (tx_of kv' i) = empty_array" "tx_snapshot (tx_of kv' i) = kv_snapshot kv" by (simp_all add: txi tx_def)
  show "tx_base kv' j = tx_base kv j" if "j \<in> set (kv_ongoing kv)" for j
    using tx_inv_base[OF store_invE(7)[OF inv that]] tx_inv_base[OF tj[OF that]] same[OF old[OF that]] tab(1)
      store_invE(7)[OF inv that] by (auto simp: tx_inv_def kv')
qed (use new open_ in \<open>auto simp: KV_NewTX_def Let_def acquire_all\<close>)

section \<open>Ending a transaction\<close>

lemma sorted_map_remove1: "sorted (map f xs) \<Longrightarrow> sorted (map f (remove1 x xs))"
  by (induction xs) (auto dest: set_remove1_subset[THEN subsetD])

definition untrack_state :: "nat \<Rightarrow> 'c KV \<Rightarrow> 'c KV" where
  "untrack_state i kv = tx_update i (\<lambda>tx. tx\<lparr>tx_mainSnap := [], tx_levels := [], tx_err := Some ErrTXDone\<rparr>)
     (kv\<lparr>kv_ongoing := remove1 i (kv_ongoing kv),
        kv_history := prune_history (remove1 i (kv_ongoing kv)) (kv_txs kv) (kv_history kv)\<rparr>)"

lemma untrack_state_sel [simp]:
  "kv_ongoing (untrack_state i kv) = remove1 i (kv_ongoing kv)"
  "kv_history (untrack_state i kv) = prune_history (remove1 i (kv_ongoing kv)) (kv_txs kv) (kv_history kv)"
  "kv_mem (untrack_state i kv) = kv_mem kv" "kv_imm (untrack_state i kv) = kv_imm kv" "kv_main (untrack_state i kv) = kv_main kv"
  "kv_tables (untrack_state i kv) = kv_tables kv" "kv_snapshot (untrack_state i kv) = kv_snapshot kv"
  "kv_closed (untrack_state i kv) = kv_closed kv" "kv_log (untrack_state i kv) = kv_log kv" "kv_meta (untrack_state i kv) = kv_meta kv"
  "kv_cache (untrack_state i kv) = kv_cache kv" "kv_version (untrack_state i kv) = kv_version kv"
  "j \<noteq> i \<Longrightarrow> tx_of (untrack_state i kv) j = tx_of kv j" "length (kv_txs (untrack_state i kv)) = length (kv_txs kv)"
  "kv_disk (untrack_state i kv) = kv_disk kv"
  by (simp_all add: untrack_state_def tx_update_def)

lemma untrack_state_inv:
  assumes inv: "store_inv kv pend" and i: "i \<in> set (kv_ongoing kv)"
  shows "store_inv (untrack_state i kv) (tx_mainSnap (tx_of kv i) @ pend)"
proof -
  let ?k = "untrack_state i kv"
  have d: "distinct (kv_ongoing kv)" by (rule store_invE(6)[OF inv])
  have mem: "j \<in> set (remove1 i (kv_ongoing kv)) \<longleftrightarrow> j \<in> set (kv_ongoing kv) \<and> j \<noteq> i" for j using d by auto
  have snap: "snap_refs kv f = snap_refs ?k f + count_list (tx_mainSnap (tx_of kv i)) f" for f
  proof -
    have "map (\<lambda>j. count_list (tx_mainSnap (tx_of ?k j)) f) (remove1 i (kv_ongoing kv)) =
        map (\<lambda>j. count_list (tx_mainSnap (tx_of kv j)) f) (remove1 i (kv_ongoing kv))"
      using mem by auto
    then have "snap_refs ?k f = (\<Sum>j\<leftarrow>remove1 i (kv_ongoing kv). count_list (tx_mainSnap (tx_of kv j)) f)"
      by (simp add: snap_refs_def del: map_eq_conv)
    then show ?thesis using sum_list_map_remove1[OF i, of "\<lambda>j. count_list (tx_mainSnap (tx_of kv j)) f"]
      by (simp add: snap_refs_def)
  qed
  have "refs_ok ?k (tx_mainSnap (tx_of kv i) @ pend)" using store_invE(5)[OF inv] by (simp add: refs_ok_def snap)
  moreover have "tx_inv ?k j" if "j \<in> set (kv_ongoing kv)" "j \<noteq> i" for j
    using store_invE(7)[OF inv that(1)] that(2) by (simp add: tx_inv_def)
  moreover have "map (\<lambda>j. tx_snapshot (tx_of ?k j)) (remove1 i (kv_ongoing kv)) =
      map (\<lambda>j. tx_snapshot (tx_of kv j)) (remove1 i (kv_ongoing kv))" using mem by auto
  ultimately show ?thesis
    using store_invE[OF inv] store_invE(7)[OF inv i] mem sorted_map_remove1[OF store_invE(8)[OF inv], of i]
    by (simp add: store_inv_def tx_inv_def del: map_eq_conv)
qed

lemma untrack_ok:
  assumes inv: "store_inv kv pend" and i: "i \<in> set (kv_ongoing kv)"
  obtains kv' where "KV_untrackTXSync i kv = (kv', Inr ())" "frame (untrack_state i kv) kv'" "store_inv kv' pend"
    "kv_view kv' = kv_view kv" "\<And>j. j \<in> set (kv_ongoing kv) \<Longrightarrow> j \<noteq> i \<Longrightarrow> tx_base kv' j = tx_base kv j"
proof -
  let ?k = "untrack_state i kv"
  have inv1: "store_inv ?k (tx_mainSnap (tx_of kv i) @ pend)" using untrack_state_inv[OF assms] by simp
  from release_all_ok[OF inv1] obtain kv' where r: "release_all (tx_mainSnap (tx_of kv i)) ?k = (kv', Inr ())" "frame ?k kv'" "store_inv kv' pend"
    by blast
  have u: "KV_untrackTXSync i kv = (kv', Inr ())"
    using i r(1) by (simp add: KV_untrackTXSync_def untrack_state_def Let_def tx_update_def)
  have "store_levels ?k = store_levels kv" by (simp add: store_levels_def split: option.split)
  then have "kv_view ?k = kv_view kv" by (simp add: kv_view_def)
  moreover have "tx_base ?k j = tx_base kv j" if "j \<in> set (kv_ongoing kv)" "j \<noteq> i" for j
    using store_invE(7)[OF inv that(1)] that(2) by (auto simp: tx_base_def deref_def tx_inv_def)
  moreover have "j \<in> set (kv_ongoing ?k)" if "j \<in> set (kv_ongoing kv)" "j \<noteq> i" for j using that by simp
  ultimately show thesis using that[OF u r(2,3)] frame_views[OF inv1 r(2,3)] by simp
qed

section \<open>Writing\<close>

lemma tx_update_sel [simp]:
  "kv_ongoing (tx_update i g kv) = kv_ongoing kv" "kv_history (tx_update i g kv) = kv_history kv"
  "kv_mem (tx_update i g kv) = kv_mem kv" "kv_imm (tx_update i g kv) = kv_imm kv" "kv_main (tx_update i g kv) = kv_main kv"
  "kv_tables (tx_update i g kv) = kv_tables kv" "kv_snapshot (tx_update i g kv) = kv_snapshot kv"
  "kv_closed (tx_update i g kv) = kv_closed kv" "kv_log (tx_update i g kv) = kv_log kv" "kv_meta (tx_update i g kv) = kv_meta kv"
  "kv_cache (tx_update i g kv) = kv_cache kv" "kv_version (tx_update i g kv) = kv_version kv" "kv_disk (tx_update i g kv) = kv_disk kv"
  "j \<noteq> i \<Longrightarrow> tx_of (tx_update i g kv) j = tx_of kv j" "length (kv_txs (tx_update i g kv)) = length (kv_txs kv)"
  "i < length (kv_txs kv) \<Longrightarrow> tx_of (tx_update i g kv) i = g (tx_of kv i)"
  by (simp_all add: tx_update_def)

definition with_updates :: "nat \<Rightarrow> SortedArray \<Rightarrow> 'c KV \<Rightarrow> 'c KV" where
  "with_updates i u kv = tx_update i (\<lambda>tx. tx\<lparr>tx_updates := u\<rparr>) kv"

lemma with_updates_inv:
  assumes inv: "store_inv kv pend" and i: "i \<in> set (kv_ongoing kv)" and u: "arr_wf u"
  shows "store_inv (with_updates i u kv) pend" and "kv_view (with_updates i u kv) = kv_view kv"
    and "j \<in> set (kv_ongoing kv) \<Longrightarrow> tx_base (with_updates i u kv) j = tx_base kv j"
    and "tx_updates (tx_of (with_updates i u kv) i) = u"
proof -
  let ?k = "with_updates i u kv"
  have il: "i < length (kv_txs kv)" using store_invE(7)[OF inv i] by (simp add: tx_inv_def)
  have same: "tx_mainSnap (tx_of ?k j) = tx_mainSnap (tx_of kv j)" "tx_snapshot (tx_of ?k j) = tx_snapshot (tx_of kv j)"
    "tx_levels (tx_of ?k j) = tx_levels (tx_of kv j)" "tx_err (tx_of ?k j) = tx_err (tx_of kv j)"
    "tx_target (tx_of ?k j) = tx_target (tx_of kv j)" for j
    using il by (cases "j = i"; simp add: with_updates_def)+
  have "snap_refs ?k f = snap_refs kv f" for f by (simp add: snap_refs_def same) (simp add: with_updates_def)
  then have "refs_ok ?k pend" using store_invE(5)[OF inv] by (simp add: refs_ok_def) (simp add: with_updates_def)
  moreover have "tx_inv ?k j" if "j \<in> set (kv_ongoing kv)" for j
    using store_invE(7)[OF inv that] il u
    by (cases "j = i") (auto simp: tx_inv_def same with_updates_def)
  ultimately show "store_inv ?k pend" using store_invE[OF inv]
    by (simp add: store_inv_def same) (simp add: with_updates_def)
  have "store_levels ?k = store_levels kv" by (simp add: store_levels_def with_updates_def split: option.split)
  then show "kv_view ?k = kv_view kv" by (simp add: kv_view_def)
  show "tx_updates (tx_of ?k i) = u" using il by (simp add: with_updates_def)
  show "tx_base ?k j = tx_base kv j" if "j \<in> set (kv_ongoing kv)"
  proof -
    have "kv_tables ?k = kv_tables kv" by (simp add: with_updates_def)
    then show ?thesis using store_invE(7)[OF inv that] by (auto simp: tx_base_def same deref_def tx_inv_def)
  qed
qed

text \<open>When a mode makes a write of \<open>val\<close> over the value \<open>old\<close>; \<open>None\<close> for a mode that does not exist.\<close>

definition mode_writes :: "int \<Rightarrow> bytes option \<Rightarrow> bytes \<Rightarrow> bool option" where
  "mode_writes mode old val =
     (if mode = ModeUpsert then Some (old \<noteq> Some val)
      else if mode = ModeInsert then Some (old = None)
      else if mode = ModeUpdate then Some (old \<noteq> None \<and> old \<noteq> Some val)
      else None)"

lemma SetEx_step:
  assumes "KVTX_Get kv i key = Inr old"
  shows "KVTX_SetEx i key val mode kv = (case mode_writes mode old val of None \<Rightarrow> (kv, Inl (Error ''invalid update mode''))
    | Some b \<Rightarrow> (if b then with_updates i (fst (Array_Set (tx_updates (tx_of kv i)) key val)) kv else kv, Inr b))"
  using assms by (simp add: KVTX_SetEx_def mode_writes_def with_updates_def tx_update_def Let_def)

lemma Del_step:
  assumes "KVTX_Get kv i key = Inr old"
  shows "KVTX_Del i key kv = (if old = None then (kv, Inr False)
    else (with_updates i (fst (Array_Del (tx_updates (tx_of kv i)) key)) kv, Inr True))"
  using assms by (cases old) (simp_all add: KVTX_Del_def with_updates_def tx_update_def)

lemma SetEx_cases:
  assumes inv: "store_inv kv pend" and i: "i \<in> set (kv_ongoing kv)" and s: "KVTX_SetEx i key val mode kv = (kv', Inr b)"
  shows "if b then \<exists>u. arr_wf u \<and> arr_map u = (arr_map (tx_updates (tx_of kv i)))(key \<mapsto> (val, False)) \<and>
      kv' = with_updates i u kv else kv' = kv"
proof -
  have "arr_wf (tx_updates (tx_of kv i))" using store_invE(7)[OF inv i] by (simp add: tx_inv_def)
  note w = Array_Set_wf[OF this, of key val]
  have "if b then kv' = with_updates i (fst (Array_Set (tx_updates (tx_of kv i)) key val)) kv else kv' = kv"
    using s unfolding SetEx_step[OF tx_Get[OF inv i]] by (cases b) (simp_all split: option.splits if_splits)
  then show ?thesis using w by (cases b) auto
qed

lemma Del_cases:
  assumes inv: "store_inv kv pend" and i: "i \<in> set (kv_ongoing kv)" and s: "KVTX_Del i key kv = (kv', r)"
  shows "r = Inr (overlay (tx_view kv i) (arr_map (tx_updates (tx_of kv i))) key \<noteq> None)"
    and "if r = Inr True then \<exists>u. arr_wf u \<and> arr_map u = (arr_map (tx_updates (tx_of kv i)))(key \<mapsto> ([], True)) \<and>
      kv' = with_updates i u kv else kv' = kv"
proof -
  let ?o = "overlay (tx_view kv i) (arr_map (tx_updates (tx_of kv i))) key"
  have wf: "arr_wf (tx_updates (tx_of kv i))" using store_invE(7)[OF inv i] by (simp add: tx_inv_def)
  have s': "(if ?o = None then (kv, Inr False) else (with_updates i (fst (Array_Del (tx_updates (tx_of kv i)) key)) kv, Inr True)) = (kv', r)"
    using s unfolding Del_step[OF tx_Get[OF inv i]] .
  then show "r = Inr (?o \<noteq> None)" by (auto split: if_splits)
  show "if r = Inr True then \<exists>u. arr_wf u \<and> arr_map u = (arr_map (tx_updates (tx_of kv i)))(key \<mapsto> ([], True)) \<and>
      kv' = with_updates i u kv else kv' = kv"
  proof (cases "?o = None")
    case False
    then have "\<nexists>w. arr_map (tx_updates (tx_of kv i)) key = Some (w, True)" by (auto simp: overlay_def)
    from Array_Del_wf[OF wf this] show ?thesis using s' False by auto
  qed (use s' in auto)
qed

section \<open>Fields the invariant does not depend on\<close>

lemmas inv_defs = store_inv_def tx_inv_def refs_ok_def snap_refs_def
lemmas view_defs = kv_view_def store_levels_def tx_view_def tx_base_def deref_def

lemma store_inv_other [simp]:
  "store_inv (kv\<lparr>kv_log := xlog\<rparr>) pend = store_inv kv pend"
  "store_inv (kv\<lparr>kv_meta := xmeta\<rparr>) pend = store_inv kv pend"
  "store_inv (kv\<lparr>kv_cache := xcache\<rparr>) pend = store_inv kv pend"
  "store_inv (kv\<lparr>kv_version := xversion\<rparr>) pend = store_inv kv pend"
  "store_inv (kv\<lparr>kv_history := xhistory\<rparr>) pend = store_inv kv pend"
  "store_inv (kv\<lparr>kv_compactErr := xcompactErr\<rparr>) pend = store_inv kv pend"
  "store_inv (kv\<lparr>kv_disk := xdisk\<rparr>) pend = store_inv kv pend"
  "store_inv (kv\<lparr>kv_closed := xclosed\<rparr>) pend = store_inv kv pend"
  by (simp_all add: inv_defs)

lemma kv_view_other [simp]:
  "kv_view (kv\<lparr>kv_log := xlog\<rparr>) = kv_view kv"
  "kv_view (kv\<lparr>kv_meta := xmeta\<rparr>) = kv_view kv"
  "kv_view (kv\<lparr>kv_cache := xcache\<rparr>) = kv_view kv"
  "kv_view (kv\<lparr>kv_version := xversion\<rparr>) = kv_view kv"
  "kv_view (kv\<lparr>kv_history := xhistory\<rparr>) = kv_view kv"
  "kv_view (kv\<lparr>kv_compactErr := xcompactErr\<rparr>) = kv_view kv"
  "kv_view (kv\<lparr>kv_disk := xdisk\<rparr>) = kv_view kv"
  "kv_view (kv\<lparr>kv_closed := xclosed\<rparr>) = kv_view kv"
  by (simp_all add: view_defs)

lemma tx_base_other [simp]:
  "tx_base (kv\<lparr>kv_log := xlog\<rparr>) j = tx_base kv j"
  "tx_base (kv\<lparr>kv_meta := xmeta\<rparr>) j = tx_base kv j"
  "tx_base (kv\<lparr>kv_cache := xcache\<rparr>) j = tx_base kv j"
  "tx_base (kv\<lparr>kv_version := xversion\<rparr>) j = tx_base kv j"
  "tx_base (kv\<lparr>kv_history := xhistory\<rparr>) j = tx_base kv j"
  "tx_base (kv\<lparr>kv_compactErr := xcompactErr\<rparr>) j = tx_base kv j"
  "tx_base (kv\<lparr>kv_disk := xdisk\<rparr>) j = tx_base kv j"
  "tx_base (kv\<lparr>kv_closed := xclosed\<rparr>) j = tx_base kv j"
  "tx_base (kv\<lparr>kv_mem := m\<rparr>) j = tx_base kv j" "tx_base (kv\<lparr>kv_imm := im\<rparr>) j = tx_base kv j"
  "tx_base (kv\<lparr>kv_main := fs\<rparr>) j = tx_base kv j" "tx_base (kv\<lparr>kv_snapshot := n\<rparr>) j = tx_base kv j"
  by (simp_all add: tx_base_def deref_def cong: lref.case_cong)

lemma tx_view_base: "tx_base kv' j = tx_base kv j \<Longrightarrow> tx_view kv' j = tx_view kv j"
  by (simp add: tx_view_def)

section \<open>Committing\<close>

lemma updateLog_shape: "\<exists>log r. KV_updateLog i kv = (kv\<lparr>kv_log := log\<rparr>, r)"
  by (auto simp: KV_updateLog_def split: prod.split)

lemma commitLog_shape:
  assumes "KV_commitLog i kv = (kv', r)"
  obtains log where "kv' = kv\<lparr>kv_log := log\<rparr>" "r = Inr () \<Longrightarrow> \<not> KV_checkTXConflict kv i"
proof (cases "KV_checkTXConflict kv i")
  case True
  then show thesis using assms by (intro that[of "kv_log kv"]) (auto simp: KV_commitLog_def)
next
  case False
  then show thesis using assms updateLog_shape[of i kv] that by (auto simp: KV_commitLog_def)
qed

lemma kv_view_mem: "arr_wf m \<Longrightarrow> kv_view (kv\<lparr>kv_mem := m\<rparr>) =
    overlay (live (stack_map (tl (store_levels kv)))) (arr_map m)"
  by (simp add: kv_view_def store_levels_def live_overlay cong: option.case_cong)

lemma overlay_add: "overlay m (u ++ w) = overlay (overlay m u) w"
  by (auto simp: overlay_def fun_eq_iff map_add_def split: option.splits)

lemma commitMem_ok:
  assumes inv: "store_inv kv pend" and i: "i \<in> set (kv_ongoing kv)"
  obtains kv' mem where "KV_commitMem cl i kv = (kv', Inr ())" "store_inv kv' pend"
    "kv_view kv' = overlay (kv_view kv) (arr_map (tx_updates (tx_of kv i)))"
    "\<And>j. tx_base kv' j = tx_base kv j" "kv_txs kv' = kv_txs kv" "kv_ongoing kv' = kv_ongoing kv" "kv_tables kv' = kv_tables kv"
    "kv_snapshot kv' = Suc (kv_snapshot kv)" "kv_history kv' = (if length (kv_ongoing kv) > 1
       then kv_history kv @ map (Pair (Suc (kv_snapshot kv))) (a_keys (tx_updates (tx_of kv i))) else kv_history kv)"
    "kv_imm kv' = kv_imm kv" "kv_main kv' = kv_main kv" "kv_closed kv' = kv_closed kv"
    "kv_log kv' = kv_log kv" "kv_meta kv' = kv_meta kv" "kv_version kv' = kv_version kv" "kv_disk kv' = kv_disk kv"
    "kv_mem kv' = mem" "arr_map mem = arr_map (kv_mem kv) ++ arr_map (tx_updates (tx_of kv i))"
proof -
  let ?u = "tx_updates (tx_of kv i)"
  have wf: "arr_wf (kv_mem kv)" "arr_wf ?u" using store_invE(1)[OF inv] store_invE(7)[OF inv i] by (simp_all add: tx_inv_def)
  obtain mem where m: "KV_updateMem i kv = (kv\<lparr>kv_mem := mem\<rparr>, Inr ())" "arr_wf mem" "arr_map mem = arr_map (kv_mem kv) ++ arr_map ?u"
    using KV_updateMem_ok[OF wf] .
  define k1 where "k1 = kv\<lparr>kv_mem := mem, kv_snapshot := Suc (kv_snapshot kv)\<rparr>"
  define h where "h = (if length (kv_ongoing kv) > 1 then kv_history kv @ map (Pair (Suc (kv_snapshot kv))) (a_keys ?u) else kv_history kv)"
  define c where "c = map_option (fold (\<lambda>k c. c_Del cl c k) (a_keys ?u)) (kv_cache kv)"
  define kv' where "kv' = k1\<lparr>kv_history := h, kv_cache := c\<rparr>"
  have e: "KV_commitMem cl i kv = (kv', Inr ())"
    using m(1) by (cases "kv_cache kv") (auto simp: KV_commitMem_def KV_updateHistory_def KV_invalidateCache_def Let_def
        kv'_def k1_def h_def c_def)
  have "store_inv k1 pend" using inv m(2) by (auto simp: k1_def inv_defs)
  then have inv': "store_inv kv' pend" by (simp add: kv'_def)
  have "kv_view k1 = kv_view (kv\<lparr>kv_mem := mem\<rparr>)" by (simp add: k1_def view_defs cong: option.case_cong)
  moreover have "kv_view kv = overlay (live (stack_map (tl (store_levels kv)))) (arr_map (kv_mem kv))"
    using kv_view_mem[OF wf(1), of kv] by simp
  ultimately have v: "kv_view kv' = overlay (kv_view kv) (arr_map ?u)"
    using kv_view_mem[OF m(2), of kv] by (simp add: kv'_def m(3) overlay_add)
  show thesis
    by (rule that[OF e inv' v _ _ _ _ _ _ _ _ _ _ _ _ _ _ m(3)])
      (auto simp: kv'_def k1_def h_def tx_base_def deref_def cong: lref.case_cong)
qed

lemma conflict_iff:
  assumes "arr_wf (tx_updates (tx_of kv i))"
  shows "KV_checkTXConflict kv i \<longleftrightarrow> (\<exists>n k. (n, k) \<in> set (kv_history kv) \<and> tx_snapshot (tx_of kv i) < n \<and>
    k \<in> dom (arr_map (tx_updates (tx_of kv i))))"
  using assms by (simp add: KV_checkTXConflict_def list_ex_iff dom_arr_map Let_def) (metis fst_conv snd_conv surj_pair)

end
