(* ===== verification/CompactInv.thy ===== *)
theory CompactInv
  imports StoreInv
begin

text \<open>
  What compaction keeps: each of its parts preserves the invariant of the store, leaves every
  view as it was, and never touches a table that a transaction still reads.
\<close>

section \<open>Table files\<close>

lemma sst_sized_kept: "sst_sized est es \<Longrightarrow> sst_sized est (kept es)"
proof -
  assume s: "sst_sized est es"
  have sub: "sum_list (map g (live_entries xs)) \<le> sum_list (map g xs)" for g :: "kvd \<Rightarrow> nat" and xs
    by (induction xs) (auto simp: live_entries_def)
  have "rec_end (8 + 8 * est) (kept es) \<le> rec_end (8 + 8 * est) es"
    using sub by (cases es) (auto simp: rec_end_def length_concat comp_def)
  then show ?thesis using s length_kept[of es] set_kept[of es] by (auto simp: sst_sized_def list_all_iff subset_iff)
qed

lemma level_map_file: "sst_holds sf es \<Longrightarrow> level_ok (LFile sf) \<and> level_map (LFile sf) = map_of es"
  using level_map_src[of "LFile sf" es] by (auto simp: level_ok_def)

text \<open>\<open>created\<close> files are empty, whatever faults wait for them.\<close>

definition fresh :: "fileLike res \<Rightarrow> bool" where
  "fresh created \<longleftrightarrow> (case created of Inl e \<Rightarrow> True | Inr fp \<Rightarrow> f_data fp = [])"

lemma Create_shape: "\<exists>disk r. KV_CreateFromSorted bl ops kops src name created kv = (kv\<lparr>kv_disk := disk\<rparr>, r)"
proof (cases created)
  case (Inl e)
  then have "KV_CreateFromSorted bl ops kops src name created kv = (kv\<lparr>kv_disk := kv_disk kv\<rparr>, Inl e)"
    by (simp add: KV_CreateFromSorted_def)
  then show ?thesis by blast
qed (auto simp: KV_CreateFromSorted_def split: prod.split)

lemma Create_fresh:
  assumes "KV_CreateFromSorted bl ops kops src name created kv = (kv', Inr sf)" and "fresh created"
  obtains fp fp' where "f_data fp = []" "writeSortedFile bl ops kops src fp = (fp', Inr sf)"
    "kv' = kv\<lparr>kv_disk := (kv_disk kv)(name \<mapsto> fp')\<rparr>"
  using assms by (auto simp: KV_CreateFromSorted_def fresh_def split: sum.splits prod.splits)

text \<open>The source that flushing a memtable writes, and the table it gives.\<close>

definition fl_fits :: "flush \<Rightarrow> bool" where
  "fl_fits fl \<longleftrightarrow> sst_sized (Array_Size (fl_frozen fl)) (arr_entries (fl_frozen fl))"

definition table_for :: "bool \<Rightarrow> kvmap \<Rightarrow> SortedFile \<Rightarrow> bool" where
  "table_for dropping m sf \<longleftrightarrow> level_ok (LFile sf) \<and>
     (if dropping then live (level_map (LFile sf)) = live m else level_map (LFile sf) = m)"

lemma flushWrite_ok:
  assumes bl: "bloom_ok bl" and fr: "fresh created" and wf: "arr_wf (fl_frozen fl)" and fits: "fl_fits fl"
    and w: "KV_flushWrite bl created fl kv = (kv', Inr sf)"
  shows "table_for (fl_drop fl) (arr_map (fl_frozen fl)) sf" and "\<exists>disk. kv' = kv\<lparr>kv_disk := disk\<rparr>"
proof -
  let ?a = "fl_frozen fl" and ?name = "sstableName (fl_version fl)"
  have src: "array_src ?a (arr_entries ?a)" using wf by (simp add: array_src_def)
  have ss: "ssorted (keys_of (arr_entries ?a))" by (rule arr_entries_sorted[OF wf])
  have "table_for (fl_drop fl) (arr_map ?a) sf \<and> (\<exists>disk. kv' = kv\<lparr>kv_disk := disk\<rparr>)"
  proof (cases "fl_drop fl")
    case True
    have "KV_CreateFromSorted bl (nodel_ops array_ops) (NoDeletedSortedKV_ops array_kv_ops) ?a ?name created kv = (kv', Inr sf)"
      using w True by (auto simp: KV_flushWrite_def Let_def split: prod.splits sum.splits)
    then obtain fp fp' where c: "f_data fp = []" "kv' = kv\<lparr>kv_disk := (kv_disk kv)(?name \<mapsto> fp')\<rparr>"
      "writeSortedFile bl (nodel_ops array_ops) (NoDeletedSortedKV_ops array_kv_ops) ?a fp = (fp', Inr sf)"
      using Create_fresh[OF _ fr] by metis
    have k: "kept_src array_src ?a (kept (arr_entries ?a))" using src by (auto simp: kept_src_def)
    have "sst_sized (k_EstimatedSize (NoDeletedSortedKV_ops array_kv_ops) ?a) (kept (arr_entries ?a))"
      using sst_sized_kept fits by (simp add: NoDeletedSortedKV_ops_def array_kv_ops_def Array_EstimatedSize_def Array_Size_def fl_fits_def)
    from flush_src.writeSortedFile_holds[OF bl k c(1) this c(3)] have "sst_holds sf (kept (arr_entries ?a))" by blast
    from level_map_file[OF this] show ?thesis using True c(2) live_kept[OF ss] by (auto simp: table_for_def arr_map_def)
  next
    case False
    have "KV_CreateFromSorted bl array_ops array_kv_ops ?a ?name created kv = (kv', Inr sf)"
      using w False by (auto simp: KV_flushWrite_def Let_def split: prod.splits sum.splits)
    then obtain fp fp' where c: "f_data fp = []" "kv' = kv\<lparr>kv_disk := (kv_disk kv)(?name \<mapsto> fp')\<rparr>"
      "writeSortedFile bl array_ops array_kv_ops ?a fp = (fp', Inr sf)"
      using Create_fresh[OF _ fr] by metis
    have "sst_sized (k_EstimatedSize array_kv_ops ?a) (arr_entries ?a)"
      using fits by (simp add: array_kv_ops_def Array_EstimatedSize_def Array_Size_def fl_fits_def)
    from fwd_source.writeSortedFile_holds[OF arr_source.fwd_source_axioms bl src c(1) this c(3)]
    have "sst_holds sf (arr_entries ?a)" by blast
    from level_map_file[OF this] show ?thesis using False c(2) by (auto simp: table_for_def arr_map_def)
  qed
  then show "table_for (fl_drop fl) (arr_map ?a) sf" and "\<exists>disk. kv' = kv\<lparr>kv_disk := disk\<rparr>" by auto
qed

text \<open>The same for the merge of two tables.\<close>

definition mg_src :: "merge \<Rightarrow> 'c KV \<Rightarrow> level list" where
  "mg_src mg kv = [LFile (tb_file (tb_of kv (mg_old1 mg))), LFile (tb_file (tb_of kv (mg_old2 mg)))]"

definition mg_fits :: "merge \<Rightarrow> 'c KV \<Rightarrow> bool" where
  "mg_fits mg kv \<longleftrightarrow> sst_sized (Merged_EstimatedSize level_kv_ops (mg_src mg kv)) (sorted_entries (stack_map (mg_src mg kv)))"

lemma mergeWrite_ok:
  assumes bl: "bloom_ok bl" and fr: "fresh created" and ok: "list_all level_ok (mg_src mg kv)" and fits: "mg_fits mg kv"
    and w: "KV_mergeWrite bl created mg kv = (kv', Inr sf)"
  shows "table_for (mg_drop mg) (stack_map (mg_src mg kv)) sf \<and> (\<exists>disk. kv' = kv\<lparr>kv_disk := disk\<rparr>)"
proof -
  let ?l = "mg_src mg kv" and ?name = "sstableName (mg_version mg)"
  obtain ess where ess: "list_all2 level_src ?l ess" "levels_map ess = stack_map ?l" using stack_ok_entries[OF ok] .
  have src: "merged_src level_src ?l (merged_entries ess)" using ess by (auto simp: merged_src_def)
  have m: "merged_entries ess = sorted_entries (stack_map ?l)" by (simp add: merged_entries_def ess(2))
  have ss: "ssorted (keys_of (merged_entries ess))" by simp
  show ?thesis
  proof (cases "mg_drop mg")
    case True
    have "KV_CreateFromSorted bl (nodel_ops stack_ops) (NoDeletedSortedKV_ops stack_kv_ops) ?l ?name created kv = (kv', Inr sf)"
      using w True by (auto simp: KV_mergeWrite_def Let_def mg_src_def split: prod.splits sum.splits)
    then obtain fp fp' where c: "f_data fp = []" "kv' = kv\<lparr>kv_disk := (kv_disk kv)(?name \<mapsto> fp')\<rparr>"
      "writeSortedFile bl (nodel_ops stack_ops) (NoDeletedSortedKV_ops stack_kv_ops) ?l fp = (fp', Inr sf)"
      using Create_fresh[OF _ fr] by metis
    have k: "kept_src (merged_src level_src) ?l (kept (merged_entries ess))" using src by (auto simp: kept_src_def)
    have "sst_sized (k_EstimatedSize (NoDeletedSortedKV_ops stack_kv_ops) ?l) (kept (merged_entries ess))"
      using sst_sized_kept fits by (simp add: NoDeletedSortedKV_ops_def merged_kv_ops_def mg_fits_def m)
    from merge_src.writeSortedFile_holds[OF bl k c(1) this c(3)] have "sst_holds sf (kept (merged_entries ess))" by blast
    from level_map_file[OF this] show ?thesis using True c(2) live_kept[OF ss] ess(2) by (auto simp: table_for_def)
  next
    case False
    have "KV_CreateFromSorted bl stack_ops stack_kv_ops ?l ?name created kv = (kv', Inr sf)"
      using w False by (auto simp: KV_mergeWrite_def Let_def mg_src_def split: prod.splits sum.splits)
    then obtain fp fp' where c: "f_data fp = []" "kv' = kv\<lparr>kv_disk := (kv_disk kv)(?name \<mapsto> fp')\<rparr>"
      "writeSortedFile bl stack_ops stack_kv_ops ?l fp = (fp', Inr sf)"
      using Create_fresh[OF _ fr] by metis
    have "sst_sized (k_EstimatedSize stack_kv_ops ?l) (merged_entries ess)"
      using fits by (simp add: merged_kv_ops_def mg_fits_def m)
    from stack.writeSortedFile_holds[OF bl src c(1) this c(3)] have "sst_holds sf (merged_entries ess)" by blast
    from level_map_file[OF this] show ?thesis using False c(2) ess(2) by (auto simp: table_for_def)
  qed
qed

section \<open>Freezing and unfreezing\<close>

lemma freeze_ok:
  assumes inv: "store_inv kv []" and f: "KV_freeze kv = (kv', Inr (Some fl))"
  shows "store_inv kv' []" and "kv_view kv' = kv_view kv" and "\<And>j. tx_base kv' j = tx_base kv j"
    and "kv_imm kv' = Some (fl_frozen fl)" and "arr_wf (fl_frozen fl)" and "fl_drop fl \<longleftrightarrow> kv_main kv' = []"
    and "kv_txs kv' = kv_txs kv" and "kv_ongoing kv' = kv_ongoing kv" and "kv_history kv' = kv_history kv"
    and "kv_snapshot kv' = kv_snapshot kv" and "kv_main kv' = kv_main kv" and "kv_tables kv' = kv_tables kv"
    and "kv_closed kv' = kv_closed kv"
proof -
  have c: "kv_imm kv = None" "fl = \<lparr>fl_version = kv_version kv + 1, fl_frozen = kv_mem kv, fl_drop = (kv_main kv = [])\<rparr>"
    "kv' = kv\<lparr>kv_version := kv_version kv + 1, kv_mem := empty_array, kv_imm := Some (kv_mem kv)\<rparr>"
    using f by (auto simp: KV_freeze_def Let_def split: if_splits)
  show "store_inv kv' []" using inv by (auto simp: c inv_defs)
  show "kv_view kv' = kv_view kv" by (simp add: c kv_view_def store_levels_def)
  show "tx_base kv' j = tx_base kv j" for j by (simp add: c)
  show "arr_wf (fl_frozen fl)" using store_invE(1)[OF inv] by (simp add: c)
qed (use f in \<open>auto simp: KV_freeze_def Let_def split: if_splits\<close>)

lemma unfreeze_ok:
  assumes inv: "store_inv kv []"
  obtains mem where "KV_unfreeze kv = (kv\<lparr>kv_mem := mem, kv_imm := None\<rparr>, Inr ())"
    "store_inv (kv\<lparr>kv_mem := mem, kv_imm := None\<rparr>) []" "kv_view (kv\<lparr>kv_mem := mem, kv_imm := None\<rparr>) = kv_view kv"
proof (cases "kv_imm kv")
  case None
  have same: "kv\<lparr>kv_mem := kv_mem kv, kv_imm := None\<rparr> = kv" using None by simp
  show thesis by (rule that[of "kv_mem kv"]; unfold same) (simp_all add: KV_unfreeze_def None inv)
next
  case (Some a)
  have wf: "arr_wf (kv_mem kv)" "arr_wf a" using store_invE(1,2)[OF inv] Some by auto
  obtain mem where m: "merge_arrays (kv_mem kv) a = Inr mem" "arr_wf mem" "arr_map mem = arr_map a ++ arr_map (kv_mem kv)"
    using merge_arrays_ok[OF wf] .
  have "store_inv (kv\<lparr>kv_mem := mem, kv_imm := None\<rparr>) []" using inv m(2) by (auto simp: inv_defs)
  then show thesis using m wf Some
    by (intro that[of mem]) (simp_all add: KV_unfreeze_def kv_view_def store_levels_def)
qed

section \<open>Installing a table\<close>

text \<open>A new handle at the end of the heap, listed in \<open>kv.main\<close>.\<close>

lemma install_ok:
  assumes inv: "store_inv kv []" and sf: "level_ok (LFile sf)"
    and main: "set main' \<subseteq> {..<length (kv_tables kv)} \<union> {length (kv_tables kv)}"
    and cnt: "count_list main' (length (kv_tables kv)) = 1"
    and pend: "\<forall>f < length (kv_tables kv). count_list main' f + count_list pend f = count_list (kv_main kv) f"
      "set pend \<subseteq> {..<length (kv_tables kv)}"
    and imm: "\<forall>a. im = Some a \<longrightarrow> arr_wf a"
    and kv': "kv' = kv\<lparr>kv_tables := kv_tables kv @ [new_table name sf], kv_main := main', kv_imm := im\<rparr>"
  shows "store_inv kv' pend" and "j \<in> set (kv_ongoing kv) \<Longrightarrow> tx_base kv' j = tx_base kv j"
proof -
  let ?n = "length (kv_tables kv)"
  have snap: "snap_refs kv' f = snap_refs kv f" for f by (simp add: snap_refs_def kv')
  have sub: "set (tx_mainSnap (tx_of kv i)) \<subseteq> {..<?n}" if "i \<in> set (kv_ongoing kv)" for i
    using store_invE(7)[OF inv that] by (simp add: tx_inv_def)
  have "snap_refs kv ?n = 0"
    using sub by (auto simp: snap_refs_def count_list_0_iff)
  moreover have "int (count_list (kv_main kv) f) = int (count_list main' f) + int (count_list pend f)"
    if "f < ?n" for f using pend(1)[rule_format, OF that] by simp
  ultimately have "refs_ok kv' pend"
    using store_invE(5)[OF inv] pend(2) cnt sf
    unfolding refs_ok_def snap by (auto simp: kv' nth_append new_table_def less_Suc_eq count_list_0_iff)
  moreover have ti: "tx_inv kv' i" if "i \<in> set (kv_ongoing kv)" for i
    using store_invE(7)[OF inv that] by (auto simp: tx_inv_def kv')
  ultimately show "store_inv kv' pend"
    using store_invE[OF inv] main pend(2) imm by (auto simp: store_inv_def kv' subset_iff less_Suc_eq)
  show "tx_base kv' j = tx_base kv j" if "j \<in> set (kv_ongoing kv)"
  proof -
    have "tb_file (tb_of kv' f) = tb_file (tb_of kv f)" if "f \<in> set (tx_mainSnap (tx_of kv j))" for f
      using sub[OF \<open>j \<in> set (kv_ongoing kv)\<close>] that by (auto simp: kv' nth_append)
    then show ?thesis using tx_inv_base[OF store_invE(7)[OF inv that]] tx_inv_base[OF ti[OF that]] by (simp add: kv')
  qed
qed

lemma publish_ok:
  assumes inv: "store_inv kv []" and imm: "kv_imm kv = Some (fl_frozen fl)" and t: "table_for (fl_drop fl) (arr_map (fl_frozen fl)) sf"
    and d: "fl_drop fl \<longrightarrow> kv_main kv = []"
  shows "store_inv (KV_flushPublish fl sf kv) []" and "kv_view (KV_flushPublish fl sf kv) = kv_view kv"
    and "j \<in> set (kv_ongoing kv) \<Longrightarrow> tx_base (KV_flushPublish fl sf kv) j = tx_base kv j"
proof -
  let ?n = "length (kv_tables kv)" and ?a = "fl_frozen fl"
  have ok: "level_ok (LFile sf)" using t by (simp add: table_for_def)
  have "?n \<notin> set (kv_main kv)" using store_invE(3)[OF inv] by auto
  then have cnt: "count_list (?n # kv_main kv) ?n = 1" by (simp add: count_list_0_iff)
  have sub: "set (?n # kv_main kv) \<subseteq> {..<?n} \<union> {?n}" using store_invE(3)[OF inv] by auto
  have pend: "\<forall>f < ?n. count_list (?n # kv_main kv) f + count_list [] f = count_list (kv_main kv) f" by simp
  have k: "KV_flushPublish fl sf kv = kv\<lparr>kv_tables := kv_tables kv @ [new_table (sstableName (fl_version fl)) sf],
      kv_main := ?n # kv_main kv, kv_imm := None\<rparr>" by (simp add: KV_flushPublish_def)
  have none: "set [] \<subseteq> {..<?n}" "\<forall>a. None = Some a \<longrightarrow> arr_wf a" by simp_all
  note i = install_ok[OF inv ok sub cnt pend none k]
  show "store_inv (KV_flushPublish fl sf kv) []" by (rule i(1))
  show "tx_base (KV_flushPublish fl sf kv) j = tx_base kv j" if "j \<in> set (kv_ongoing kv)" by (rule i(2)[OF that])
  have wf: "arr_wf ?a" "arr_wf (kv_mem kv)" using store_invE(1,2)[OF inv] imm by auto
  let ?fs = "map (\<lambda>f. LFile (tb_file (tb_of kv f))) (kv_main kv)"
  have fs: "map (\<lambda>f. LFile (tb_file ((kv_tables kv @ [x]) ! f))) (kv_main kv) = ?fs" for x
    using store_invE(3)[OF inv] by (auto simp: nth_append)
  have "live (stack_map ?fs ++ level_map (LFile sf)) = live (stack_map ?fs ++ arr_map ?a)"
    using t d by (cases "fl_drop fl") (auto simp: table_for_def)
  from live_cong[OF this, of "arr_map (kv_mem kv)"] show "kv_view (KV_flushPublish fl sf kv) = kv_view kv"
    using wf by (simp add: kv_view_def store_levels_def KV_flushPublish_def imm fs new_table_def)
qed

lemma live_middle:
  assumes "table_for dropping (stack_map bs) sf" and "dropping \<longrightarrow> cs = []"
  shows "live (stack_map (as @ LFile sf # cs)) = live (stack_map (as @ bs @ cs))"
proof -
  have "live (stack_map cs ++ level_map (LFile sf)) = live (stack_map cs ++ stack_map bs)"
    using assms by (cases dropping) (auto simp: table_for_def)
  from live_cong[OF this, of "stack_map as"] show ?thesis by (simp add: stack_map_append)
qed

lemma take_two_drop: "l + 1 < length xs \<Longrightarrow> xs = take l xs @ [xs ! l, xs ! (l + 1)] @ drop (l + 2) xs"
  by (metis Cons_nth_drop_Suc Suc_eq_plus1 Suc_lessD add_2_eq_Suc' append_Cons append_Nil append_take_drop_id)

lemma mergePublish_ok:
  assumes inv: "store_inv kv []" and p: "KV_mergePublish mg sf kv = (kv', Inr ())"
    and t: "table_for (mg_drop mg) (stack_map (mg_src mg kv)) sf" and d: "mg_drop mg \<longrightarrow> length (kv_main kv) = mg_level mg + 2"
  shows "store_inv kv' [mg_old1 mg, mg_old2 mg]" and "kv_view kv' = kv_view kv"
    and "j \<in> set (kv_ongoing kv) \<Longrightarrow> tx_base kv' j = tx_base kv j"
proof -
  let ?n = "length (kv_tables kv)" and ?l = "mg_level mg"
  let ?as = "take ?l (kv_main kv)" and ?cs = "drop (?l + 2) (kv_main kv)" and ?pend = "[mg_old1 mg, mg_old2 mg]"
  have c: "?l + 1 < length (kv_main kv)" "kv_main kv ! ?l = mg_old1 mg" "kv_main kv ! (?l + 1) = mg_old2 mg"
    and kv': "kv' = kv\<lparr>kv_tables := kv_tables kv @ [new_table (sstableName (mg_version mg)) sf], kv_main := ?as @ [?n] @ ?cs\<rparr>"
    using p by (auto simp: KV_mergePublish_def slices_Replace2_def split: if_splits)
  have main: "kv_main kv = ?as @ ?pend @ ?cs" using take_two_drop[OF c(1)] c(2,3) by simp
  have notin: "?n \<notin> set (kv_main kv)" using store_invE(3)[OF inv] by auto
  then have n0: "?n \<notin> set ?as" "?n \<notin> set ?cs" using set_take_subset[of ?l "kv_main kv"] set_drop_subset[of "?l + 2" "kv_main kv"] by blast+
  have ok: "level_ok (LFile sf)" using t by (simp add: table_for_def)
  have sub: "set (?as @ [?n] @ ?cs) \<subseteq> {..<?n} \<union> {?n}"
    using store_invE(3)[OF inv] set_take_subset[of ?l "kv_main kv"] set_drop_subset[of "?l + 2" "kv_main kv"] by auto
  have cnt: "count_list (?as @ [?n] @ ?cs) ?n = 1" using n0 by (simp add: count_list_0_iff)
  have pend: "\<forall>f < ?n. count_list (?as @ [?n] @ ?cs) f + count_list ?pend f = count_list (kv_main kv) f"
    using arg_cong[OF main, of "count_list"] by (auto simp: fun_eq_iff)
  have psub: "set ?pend \<subseteq> {..<?n}" using store_invE(3)[OF inv] main by (metis Un_iff set_append subset_eq)
  have k: "kv' = kv\<lparr>kv_tables := kv_tables kv @ [new_table (sstableName (mg_version mg)) sf], kv_main := ?as @ [?n] @ ?cs, kv_imm := kv_imm kv\<rparr>"
    by (simp add: kv')
  have im: "\<forall>a. kv_imm kv = Some a \<longrightarrow> arr_wf a" using store_invE(2)[OF inv] by blast
  note i = install_ok[OF inv ok sub cnt pend psub im k]
  show "store_inv kv' ?pend" by (rule i(1))
  show "tx_base kv' j = tx_base kv j" if "j \<in> set (kv_ongoing kv)" by (rule i(2)[OF that])
  let ?lv = "map (\<lambda>f. LFile (tb_file (tb_of kv f)))"
  have lv: "map (\<lambda>f. LFile (tb_file (tb_of kv' f))) fs = ?lv fs" if "set fs \<subseteq> {..<?n}" for fs
    using that by (auto simp: kv' nth_append)
  have sub': "set ?as \<subseteq> {..<?n}" "set ?cs \<subseteq> {..<?n}" using sub n0 by auto
  have "store_levels kv' = map LArr (imm_levels kv) @ ?lv ?as @ LFile sf # ?lv ?cs"
    using lv[OF sub'(1)] lv[OF sub'(2)] by (simp add: store_levels_imm kv' imm_levels_def new_table_def del: map_eq_conv)
  moreover have "?lv (kv_main kv) = ?lv ?as @ mg_src mg kv @ ?lv ?cs"
    using arg_cong[OF main, of ?lv] by (simp add: mg_src_def)
  then have "store_levels kv = map LArr (imm_levels kv) @ ?lv ?as @ mg_src mg kv @ ?lv ?cs"
    by (simp only: store_levels_imm)
  moreover have "mg_drop mg \<longrightarrow> ?lv ?cs = []" using d by auto
  ultimately show "kv_view kv' = kv_view kv"
    using live_middle[OF t, of "?lv ?cs" "map LArr (imm_levels kv) @ ?lv ?as"] by (simp add: kv_view_def)
qed

lemma retire_ok:
  assumes inv: "store_inv kv pend" and f: "f < length (kv_tables kv)"
  shows "store_inv (SortedFile_retire f kv) pend" and "frame kv (SortedFile_retire f kv)"
    and "length (kv_tables (SortedFile_retire f kv)) = length (kv_tables kv)"
proof -
  show fr: "frame kv (SortedFile_retire f kv)"
    using f by (auto simp: frame_def SortedFile_retire_def tb_update_def nth_list_update)
  have "refs_ok (SortedFile_retire f kv) pend" unfolding refs_ok_def snap_refs_frame[OF fr]
    using store_invE(5)[OF inv] f by (auto simp: refs_ok_def SortedFile_retire_def tb_update_def nth_list_update)
  then show "store_inv (SortedFile_retire f kv) pend" by (rule store_inv_frame[OF inv fr _ store_invE(4)[OF inv]])
  show "length (kv_tables (SortedFile_retire f kv)) = length (kv_tables kv)" using frameD[OF fr] by simp
qed

lemma mergeRetire_ok:
  assumes inv: "store_inv kv [mg_old1 mg, mg_old2 mg]"
  obtains kv' where "KV_mergeRetire mg kv = (kv', Inr ())" "store_inv kv' []" "kv_view kv' = kv_view kv"
    "\<And>j. j \<in> set (kv_ongoing kv) \<Longrightarrow> tx_base kv' j = tx_base kv j" "kv_txs kv' = kv_txs kv" "kv_ongoing kv' = kv_ongoing kv"
    "kv_history kv' = kv_history kv" "kv_snapshot kv' = kv_snapshot kv" "kv_main kv' = kv_main kv" "kv_imm kv' = kv_imm kv"
    "kv_closed kv' = kv_closed kv"
proof -
  let ?o1 = "mg_old1 mg" and ?o2 = "mg_old2 mg"
  have o: "?o1 < length (kv_tables kv)" "?o2 < length (kv_tables kv)" using store_invE(4)[OF inv] by auto
  define k1 where "k1 = SortedFile_retire ?o1 kv"
  note r1 = retire_ok[OF inv o(1), folded k1_def]
  have o2: "?o2 < length (kv_tables k1)" using o(2) r1(3) by simp
  define k2 where "k2 = SortedFile_retire ?o2 k1"
  note r2 = retire_ok[OF r1(1) o2, folded k2_def]
  obtain k3 where r3: "SortedFile_release ?o1 k2 = (k3, Inr ())" "frame k2 k3" "store_inv k3 [?o2]"
    using SortedFile_release_ok[OF r2(1)] by metis
  obtain k4 where r4: "SortedFile_release ?o2 k3 = (k4, Inr ())" "frame k3 k4" "store_inv k4 []"
    using SortedFile_release_ok[OF r3(3)] by metis
  have run: "KV_mergeRetire mg kv = (k4, Inr ())" using r3(1) r4(1) by (simp add: KV_mergeRetire_def k1_def k2_def)
  note f = frameD[OF r1(2)] frameD[OF r2(2)] frameD[OF r3(2)] frameD[OF r4(2)]
  note v = frame_views[OF inv r1(2) r1(1)] frame_views[OF r1(1) r2(2) r2(1)] frame_views[OF r2(1) r3(2,3)] frame_views[OF r3(3) r4(2,3)]
  show thesis by (rule that[OF run r4(3)]) (simp_all add: v f)
qed

end
