(* ===== verification/StoreRun.thy ===== *)
theory StoreRun
  imports CompactInv
begin

text \<open>
  The store as a concurrent system.  Each step is one critical section of \<open>src/db/kv.go\<close>: what
  runs under the store's lock, or between two lock operations, is atomic, and steps of different
  goroutines interleave.  The system refines an abstract store with snapshot isolation.
\<close>

section \<open>The abstract store\<close>

text \<open>
  A transaction reads the committed map of its start under its own writes.  \<open>st_dirty\<close> is the set
  of keys that others have committed since then; a transaction that writes one of them must not
  commit.
\<close>

record si_tx =
  st_base :: "bytes \<rightharpoonup> bytes"
  st_writes :: kvmap
  st_dirty :: "bytes set"
  st_done :: bool

record si =
  si_view :: "bytes \<rightharpoonup> bytes"
  si_open :: "nat \<rightharpoonup> si_tx"

datatype act = ABegin nat | APut nat bytes bytes | ADel nat bytes | ACommit nat | AEnd nat

definition si_mark :: "nat \<Rightarrow> bytes set \<Rightarrow> (nat \<rightharpoonup> si_tx) \<Rightarrow> (nat \<rightharpoonup> si_tx)" where
  "si_mark i ks open j = map_option (\<lambda>t. if j = i then t\<lparr>st_done := True\<rparr> else t\<lparr>st_dirty := st_dirty t \<union> ks\<rparr>) (open j)"

inductive si_step :: "si \<Rightarrow> act \<Rightarrow> si \<Rightarrow> bool" where
  si_begin: "si_open \<sigma> i = None \<Longrightarrow> si_step \<sigma> (ABegin i)
    (\<sigma>\<lparr>si_open := (si_open \<sigma>)(i \<mapsto> \<lparr>st_base = si_view \<sigma>, st_writes = Map.empty, st_dirty = {}, st_done = False\<rparr>)\<rparr>)"
| si_put: "si_open \<sigma> i = Some t \<Longrightarrow> \<not> st_done t \<Longrightarrow> si_step \<sigma> (APut i k v)
    (\<sigma>\<lparr>si_open := (si_open \<sigma>)(i \<mapsto> t\<lparr>st_writes := (st_writes t)(k \<mapsto> (v, False))\<rparr>)\<rparr>)"
| si_del: "si_open \<sigma> i = Some t \<Longrightarrow> \<not> st_done t \<Longrightarrow> si_step \<sigma> (ADel i k)
    (\<sigma>\<lparr>si_open := (si_open \<sigma>)(i \<mapsto> t\<lparr>st_writes := (st_writes t)(k \<mapsto> ([], True))\<rparr>)\<rparr>)"
| si_commit: "si_open \<sigma> i = Some t \<Longrightarrow> \<not> st_done t \<Longrightarrow> dom (st_writes t) \<inter> st_dirty t = {} \<Longrightarrow> si_step \<sigma> (ACommit i)
    (\<sigma>\<lparr>si_view := overlay (si_view \<sigma>) (st_writes t), si_open := si_mark i (dom (st_writes t)) (si_open \<sigma>)\<rparr>)"
| si_end: "si_open \<sigma> i = Some t \<Longrightarrow> si_step \<sigma> (AEnd i) (\<sigma>\<lparr>si_open := (si_open \<sigma>)(i := None)\<rparr>)"

inductive_cases si_stepE: "si_step \<sigma> a \<sigma>'"

inductive si_run :: "si \<Rightarrow> act list \<Rightarrow> si \<Rightarrow> bool" where
  si_nil: "si_run \<sigma> [] \<sigma>"
| si_snoc: "si_run \<sigma> as \<sigma>' \<Longrightarrow> si_step \<sigma>' a \<sigma>'' \<Longrightarrow> si_run \<sigma> (as @ [a]) \<sigma>''"

text \<open>What has not been committed by others still has the value of the transaction's start.\<close>

definition si_inv :: "si \<Rightarrow> bool" where
  "si_inv \<sigma> \<longleftrightarrow> (\<forall>i t k. si_open \<sigma> i = Some t \<longrightarrow> \<not> st_done t \<longrightarrow> k \<notin> st_dirty t \<longrightarrow> si_view \<sigma> k = st_base t k)"

lemma overlay_other: "k \<notin> dom u \<Longrightarrow> overlay m u k = m k"
  by (auto simp: overlay_def split: option.splits)

lemma si_step_inv: "si_step \<sigma> a \<sigma>' \<Longrightarrow> si_inv \<sigma> \<Longrightarrow> si_inv \<sigma>'"
proof (induction rule: si_step.induct)
  case (si_commit \<sigma> i t)
  show ?case unfolding si_inv_def
  proof (intro allI impI)
    fix j t' k
    assume a: "si_open (\<sigma>\<lparr>si_view := overlay (si_view \<sigma>) (st_writes t), si_open := si_mark i (dom (st_writes t)) (si_open \<sigma>)\<rparr>) j = Some t'"
      "\<not> st_done t'" "k \<notin> st_dirty t'"
    have "j \<noteq> i" using a(1,2) by (auto simp: si_mark_def)
    with a(1) obtain u where u: "si_open \<sigma> j = Some u" "j \<noteq> i" "t' = u\<lparr>st_dirty := st_dirty u \<union> dom (st_writes t)\<rparr>"
      by (auto simp: si_mark_def)
    then show "si_view (\<sigma>\<lparr>si_view := overlay (si_view \<sigma>) (st_writes t), si_open := si_mark i (dom (st_writes t)) (si_open \<sigma>)\<rparr>) k = st_base t' k"
      using a si_commit.prems by (auto simp: si_inv_def overlay_other)
  qed
qed (auto simp: si_inv_def split: if_splits)

lemma si_run_inv: "si_run \<sigma> as \<sigma>' \<Longrightarrow> si_inv \<sigma> \<Longrightarrow> si_inv \<sigma>'"
  by (induction rule: si_run.induct) (auto dest: si_step_inv)

section \<open>The concurrent system\<close>

text \<open>
  \<open>commit_phase\<close> is the commit lock: free, or held by a commit that has written the log, by a
  commit that only has to untrack its transaction, or by the log rewrite of a flush.
\<close>

datatype commit_phase = CFree | CLogged nat | CDone nat | CRewrite

datatype compact_phase =
    PIdle
  | PFrozen flush | PWritten flush SortedFile | PNamed flush SortedFile | PPublished | PTruncated
  | PMerge merge | PMergeWritten merge SortedFile | PMergeNamed merge SortedFile | PMergePub merge

record 'c sys =
  s_kv :: "'c KV"
  s_commit :: commit_phase
  s_compact :: compact_phase

fun committing :: "commit_phase \<Rightarrow> nat \<Rightarrow> bool" where
  "committing (CLogged j) i = (i = j)"
| "committing (CDone j) i = (i = j)"
| "committing _ i = False"

text \<open>Steps carry the abstract action they perform, if any.\<close>

inductive kv_step :: "'b bloomLib \<Rightarrow> 'c cacheLib \<Rightarrow> 'c sys \<Rightarrow> act option \<Rightarrow> 'c sys \<Rightarrow> bool"
  for bl :: "'b bloomLib" and cl :: "'c cacheLib" where
  k_begin: "\<not> kv_closed (s_kv s) \<Longrightarrow> KV_NewTX (s_kv s) = (kv, i) \<Longrightarrow>
    kv_step bl cl s (Some (ABegin i)) (s\<lparr>s_kv := kv\<rparr>)"
| k_set: "i \<in> set (kv_ongoing (s_kv s)) \<Longrightarrow> \<not> committing (s_commit s) i \<Longrightarrow>
    KVTX_SetEx i k v mode (s_kv s) = (kv, Inr b) \<Longrightarrow>
    kv_step bl cl s (if b then Some (APut i k v) else None) (s\<lparr>s_kv := kv\<rparr>)"
| k_del: "i \<in> set (kv_ongoing (s_kv s)) \<Longrightarrow> \<not> committing (s_commit s) i \<Longrightarrow>
    KVTX_Del i k (s_kv s) = (kv, Inr b) \<Longrightarrow>
    kv_step bl cl s (if b then Some (ADel i k) else None) (s\<lparr>s_kv := kv\<rparr>)"
| k_abort: "i \<in> set (kv_ongoing (s_kv s)) \<Longrightarrow> \<not> committing (s_commit s) i \<Longrightarrow>
    KV_untrackTXSync i (s_kv s) = (kv, r) \<Longrightarrow>
    kv_step bl cl s (Some (AEnd i)) (s\<lparr>s_kv := kv\<rparr>)"
| k_commit_empty: "s_commit s = CFree \<Longrightarrow> i \<in> set (kv_ongoing (s_kv s)) \<Longrightarrow>
    Array_Size (tx_updates (tx_of (s_kv s) i)) = 0 \<Longrightarrow>
    kv_step bl cl s None (s\<lparr>s_commit := CDone i\<rparr>)"
| k_commit_log: "s_commit s = CFree \<Longrightarrow> i \<in> set (kv_ongoing (s_kv s)) \<Longrightarrow>
    Array_Size (tx_updates (tx_of (s_kv s) i)) \<noteq> 0 \<Longrightarrow> KV_commitLog i (s_kv s) = (kv, r) \<Longrightarrow>
    kv_step bl cl s None (s\<lparr>s_kv := kv, s_commit := (if r = Inr () then CLogged i else CDone i)\<rparr>)"
| k_commit_mem: "s_commit s = CLogged i \<Longrightarrow> KV_commitMem cl i (s_kv s) = (kv, r) \<Longrightarrow>
    kv_step bl cl s (Some (ACommit i)) (s\<lparr>s_kv := kv, s_commit := CDone i\<rparr>)"
| k_commit_done: "s_commit s = CDone i \<Longrightarrow> KV_untrackTXSync i (s_kv s) = (kv, r) \<Longrightarrow>
    kv_step bl cl s (Some (AEnd i)) (s\<lparr>s_kv := kv, s_commit := CFree\<rparr>)"
| k_close: "kv_step bl cl s None (s\<lparr>s_kv := KV_closeBegin (s_kv s)\<rparr>)"
| k_freeze: "s_compact s = PIdle \<Longrightarrow> KV_freeze (s_kv s) = (kv, Inr (Some fl)) \<Longrightarrow>
    kv_step bl cl s None (s\<lparr>s_kv := kv, s_compact := PFrozen fl\<rparr>)"
| k_write: "s_compact s = PFrozen fl \<Longrightarrow> fresh created \<Longrightarrow> fl_fits fl \<Longrightarrow> KV_flushWrite bl created fl (s_kv s) = (kv, r) \<Longrightarrow>
    kv_step bl cl s None (s\<lparr>s_kv := kv, s_compact := (case r of Inl e \<Rightarrow> PIdle | Inr sf \<Rightarrow> PWritten fl sf)\<rparr>)"
| k_meta: "s_compact s = PWritten fl sf \<Longrightarrow> KV_flushMeta fl (s_kv s) = (kv, r) \<Longrightarrow>
    kv_step bl cl s None (s\<lparr>s_kv := kv, s_compact := (case r of Inl e \<Rightarrow> PIdle | Inr _ \<Rightarrow> PNamed fl sf)\<rparr>)"
| k_publish: "s_compact s = PNamed fl sf \<Longrightarrow> s_commit s = CFree \<Longrightarrow>
    kv_step bl cl s None (s\<lparr>s_kv := KV_flushPublish fl sf (s_kv s), s_commit := CRewrite, s_compact := PPublished\<rparr>)"
| k_truncate: "s_compact s = PPublished \<Longrightarrow> KV_truncateLog (s_kv s) = (kv, r) \<Longrightarrow>
    kv_step bl cl s None (s\<lparr>s_kv := kv, s_commit := (if r = Inr () then CRewrite else CFree),
      s_compact := (if r = Inr () then PTruncated else PIdle)\<rparr>)"
| k_relog: "s_compact s = PTruncated \<Longrightarrow> KV_relog (kv_mem (s_kv s)) (s_kv s) = (kv, r) \<Longrightarrow>
    kv_step bl cl s None (s\<lparr>s_kv := kv, s_commit := CFree, s_compact := PIdle\<rparr>)"
| k_merge: "s_compact s = PIdle \<Longrightarrow> KV_mergeStart level (s_kv s) = (kv, Some mg) \<Longrightarrow>
    kv_step bl cl s None (s\<lparr>s_kv := kv, s_compact := PMerge mg\<rparr>)"
| k_merge_write: "s_compact s = PMerge mg \<Longrightarrow> fresh created \<Longrightarrow> mg_fits mg (s_kv s) \<Longrightarrow>
    KV_mergeWrite bl created mg (s_kv s) = (kv, r) \<Longrightarrow>
    kv_step bl cl s None (s\<lparr>s_kv := kv, s_compact := (case r of Inl e \<Rightarrow> PIdle | Inr sf \<Rightarrow> PMergeWritten mg sf)\<rparr>)"
| k_merge_meta: "s_compact s = PMergeWritten mg sf \<Longrightarrow> KV_mergeMeta mg (s_kv s) = (kv, r) \<Longrightarrow>
    kv_step bl cl s None (s\<lparr>s_kv := kv, s_compact := (case r of Inl e \<Rightarrow> PIdle | Inr _ \<Rightarrow> PMergeNamed mg sf)\<rparr>)"
| k_merge_publish: "s_compact s = PMergeNamed mg sf \<Longrightarrow> KV_mergePublish mg sf (s_kv s) = (kv, r) \<Longrightarrow>
    kv_step bl cl s None (s\<lparr>s_kv := kv, s_compact := PMergePub mg\<rparr>)"
| k_merge_retire: "s_compact s = PMergePub mg \<Longrightarrow> KV_mergeRetire mg (s_kv s) = (kv, r) \<Longrightarrow>
    kv_step bl cl s None (s\<lparr>s_kv := kv, s_compact := PIdle\<rparr>)"

inductive kv_run :: "'b bloomLib \<Rightarrow> 'c cacheLib \<Rightarrow> 'c sys \<Rightarrow> act list \<Rightarrow> 'c sys \<Rightarrow> bool"
  for bl :: "'b bloomLib" and cl :: "'c cacheLib" where
  run_nil: "kv_run bl cl s [] s"
| run_tau: "kv_run bl cl s as s' \<Longrightarrow> kv_step bl cl s' None s'' \<Longrightarrow> kv_run bl cl s as s''"
| run_act: "kv_run bl cl s as s' \<Longrightarrow> kv_step bl cl s' (Some a) s'' \<Longrightarrow> kv_run bl cl s (as @ [a]) s''"

section \<open>The invariant of the system\<close>

fun pend_refs :: "compact_phase \<Rightarrow> nat list" where
  "pend_refs (PMergePub mg) = [mg_old1 mg, mg_old2 mg]"
| "pend_refs _ = []"

definition flush_ok :: "'c KV \<Rightarrow> flush \<Rightarrow> bool" where
  "flush_ok kv fl \<longleftrightarrow> kv_imm kv = Some (fl_frozen fl) \<and> (fl_drop fl \<longrightarrow> kv_main kv = [])"

definition merge_ok :: "'c KV \<Rightarrow> merge \<Rightarrow> bool" where
  "merge_ok kv mg \<longleftrightarrow> kv_imm kv = None \<and> mg_level mg + 1 < length (kv_main kv) \<and>
     kv_main kv ! mg_level mg = mg_old1 mg \<and> kv_main kv ! (mg_level mg + 1) = mg_old2 mg \<and>
     (mg_drop mg \<longrightarrow> length (kv_main kv) = mg_level mg + 2)"

fun compact_ok :: "'c KV \<Rightarrow> compact_phase \<Rightarrow> bool" where
  "compact_ok kv (PFrozen fl) = flush_ok kv fl"
| "compact_ok kv (PWritten fl sf) = (flush_ok kv fl \<and> table_for (fl_drop fl) (arr_map (fl_frozen fl)) sf)"
| "compact_ok kv (PNamed fl sf) = (flush_ok kv fl \<and> table_for (fl_drop fl) (arr_map (fl_frozen fl)) sf)"
| "compact_ok kv (PMerge mg) = merge_ok kv mg"
| "compact_ok kv (PMergeWritten mg sf) = (merge_ok kv mg \<and> table_for (mg_drop mg) (stack_map (mg_src mg kv)) sf)"
| "compact_ok kv (PMergeNamed mg sf) = (merge_ok kv mg \<and> table_for (mg_drop mg) (stack_map (mg_src mg kv)) sf)"
| "compact_ok kv _ = (kv_imm kv = None)"

definition rewriting :: "compact_phase \<Rightarrow> bool" where
  "rewriting p \<longleftrightarrow> p = PPublished \<or> p = PTruncated"

fun commit_ok :: "'c KV \<Rightarrow> commit_phase \<Rightarrow> compact_phase \<Rightarrow> bool" where
  "commit_ok kv CFree p = (\<not> rewriting p)"
| "commit_ok kv (CLogged i) p = (\<not> rewriting p \<and> i \<in> set (kv_ongoing kv) \<and> \<not> KV_checkTXConflict kv i)"
| "commit_ok kv (CDone i) p = (\<not> rewriting p \<and> i \<in> set (kv_ongoing kv))"
| "commit_ok kv CRewrite p = rewriting p"

definition sys_inv :: "'c sys \<Rightarrow> bool" where
  "sys_inv s \<longleftrightarrow> store_inv (s_kv s) (pend_refs (s_compact s)) \<and> compact_ok (s_kv s) (s_compact s) \<and>
     commit_ok (s_kv s) (s_commit s) (s_compact s) \<and>
     (\<forall>h\<in>set (kv_history (s_kv s)). fst h \<le> kv_snapshot (s_kv s))"

text \<open>What a step of a transaction leaves to a compaction under way.\<close>

definition same_tables :: "'c KV \<Rightarrow> 'c KV \<Rightarrow> bool" where
  "same_tables kv kv' \<longleftrightarrow> kv_imm kv' = kv_imm kv \<and> kv_main kv' = kv_main kv \<and>
     (\<forall>f\<in>set (kv_main kv). tb_file (tb_of kv' f) = tb_file (tb_of kv f))"

lemma compact_ok_same:
  assumes "compact_ok kv p" and "same_tables kv kv'"
  shows "compact_ok kv' p"
proof -
  have "mg_src mg kv' = mg_src mg kv" if "merge_ok kv mg" for mg
    using that assms(2) nth_mem[of "mg_level mg" "kv_main kv"] nth_mem[of "mg_level mg + 1" "kv_main kv"]
    by (auto simp: mg_src_def merge_ok_def same_tables_def)
  moreover have "merge_ok kv' mg = merge_ok kv mg" "flush_ok kv' fl = flush_ok kv fl" for mg fl
    using assms(2) by (simp_all add: merge_ok_def flush_ok_def same_tables_def)
  ultimately show ?thesis using assms by (cases p) (auto simp: same_tables_def)
qed

section \<open>Simulation\<close>

definition later_keys :: "'c KV \<Rightarrow> nat \<Rightarrow> bytes set" where
  "later_keys kv i = {k. \<exists>n. (n, k) \<in> set (kv_history kv) \<and> tx_snapshot (tx_of kv i) < n}"

definition tx_refines :: "'c sys \<Rightarrow> si \<Rightarrow> nat \<Rightarrow> bool" where
  "tx_refines s \<sigma> i \<longleftrightarrow> (\<exists>t. si_open \<sigma> i = Some t \<and> st_base t = tx_view (s_kv s) i \<and>
     st_writes t = arr_map (tx_updates (tx_of (s_kv s) i)) \<and>
     (s_commit s \<noteq> CDone i \<longrightarrow> \<not> st_done t \<and> st_dirty t = later_keys (s_kv s) i))"

definition refines :: "'c sys \<Rightarrow> si \<Rightarrow> bool" where
  "refines s \<sigma> \<longleftrightarrow> si_view \<sigma> = kv_view (s_kv s) \<and> dom (si_open \<sigma>) = set (kv_ongoing (s_kv s)) \<and>
     (\<forall>i\<in>set (kv_ongoing (s_kv s)). tx_refines s \<sigma> i)"

text \<open>A step that changes nothing a transaction sees.\<close>

lemma refines_quiet:
  assumes "refines s \<sigma>" and "kv_view (s_kv s') = kv_view (s_kv s)" and "kv_ongoing (s_kv s') = kv_ongoing (s_kv s)"
    and "kv_history (s_kv s') = kv_history (s_kv s)"
    and "\<forall>i\<in>set (kv_ongoing (s_kv s)). tx_of (s_kv s') i = tx_of (s_kv s) i \<and> tx_base (s_kv s') i = tx_base (s_kv s) i"
    and "\<forall>i. s_commit s = CDone i \<longrightarrow> s_commit s' = CDone i"
  shows "refines s' \<sigma>"
  using assms unfolding refines_def tx_refines_def
  by (fastforce simp: tx_view_def later_keys_def)

lemma tx_refinesE:
  assumes "refines s \<sigma>" and "i \<in> set (kv_ongoing (s_kv s))"
  obtains t where "si_open \<sigma> i = Some t" "st_base t = tx_view (s_kv s) i" "st_writes t = arr_map (tx_updates (tx_of (s_kv s) i))"
    "s_commit s \<noteq> CDone i \<Longrightarrow> \<not> st_done t" "s_commit s \<noteq> CDone i \<Longrightarrow> st_dirty t = later_keys (s_kv s) i"
  using assms by (auto simp: refines_def tx_refines_def)

definition sim :: "'c sys \<Rightarrow> act option \<Rightarrow> si \<Rightarrow> bool" where
  "sim s a \<sigma> \<longleftrightarrow> sys_inv s \<and> (case a of None \<Rightarrow> refines s \<sigma> | Some b \<Rightarrow> \<exists>\<sigma>'. si_step \<sigma> b \<sigma>' \<and> refines s \<sigma>')"

lemma sys_invE:
  assumes "sys_inv s"
  shows "store_inv (s_kv s) (pend_refs (s_compact s))" "compact_ok (s_kv s) (s_compact s)"
    "commit_ok (s_kv s) (s_commit s) (s_compact s)" "\<And>n k. (n, k) \<in> set (kv_history (s_kv s)) \<Longrightarrow> n \<le> kv_snapshot (s_kv s)"
  using assms by (auto simp: sys_inv_def)

text \<open>The commit lock's holder is not disturbed by the others.\<close>

lemma commit_ok_keep:
  assumes "commit_ok kv c p" and "set (kv_history kv') \<subseteq> set (kv_history kv)"
    and "\<And>i. committing c i \<Longrightarrow> i \<in> set (kv_ongoing kv) \<Longrightarrow> i \<in> set (kv_ongoing kv') \<and>
      tx_snapshot (tx_of kv' i) = tx_snapshot (tx_of kv i) \<and> tx_updates (tx_of kv' i) = tx_updates (tx_of kv i)"
  shows "commit_ok kv' c p"
proof (cases c)
  case (CLogged i)
  then have i: "i \<in> set (kv_ongoing kv)" "\<not> KV_checkTXConflict kv i" using assms(1) by auto
  have "\<not> KV_checkTXConflict kv' i" using i(2) assms(2) assms(3)[of i] i(1) CLogged
    by (auto simp: KV_checkTXConflict_def Let_def list_ex_iff)
  then show ?thesis using CLogged assms(1) assms(3)[of i] i(1) by simp
next
  case (CDone i)
  then show ?thesis using assms(1) assms(3)[of i] by simp
qed (use assms(1) in auto)

lemma sim_begin:
  assumes inv: "sys_inv s" and r: "refines s \<sigma>" and c: "\<not> kv_closed (s_kv s)" and new: "KV_NewTX (s_kv s) = (kv, i)"
  shows "sim (s\<lparr>s_kv := kv\<rparr>) (Some (ABegin i)) \<sigma>"
proof -
  note I = sys_invE[OF inv]
  note N = NewTX_ok[OF I(1) c new]
  let ?s = "s\<lparr>s_kv := kv\<rparr>"
  have lt: "j < length (kv_txs (s_kv s))" if "j \<in> set (kv_ongoing (s_kv s))" for j
    using store_invE(7)[OF I(1) that] by (simp add: tx_inv_def)
  then have fresh_i: "i \<notin> set (kv_ongoing (s_kv s))" using N(1) by auto
  have same: "tx_of kv j = tx_of (s_kv s) j" if "j \<in> set (kv_ongoing (s_kv s))" for j using N(7) lt[OF that] .
  have "compact_ok kv (s_compact s)"
    by (rule compact_ok_same[OF I(2)]) (use N store_invE(3)[OF I(1)] in \<open>auto simp: same_tables_def\<close>)
  moreover have "commit_ok kv (s_commit s) (s_compact s)"
    by (rule commit_ok_keep[OF I(3)]) (use N(9,10) same in auto)
  ultimately have inv': "sys_inv ?s" using N(2,10,11) I(4) by (auto simp: sys_inv_def)
  let ?t = "\<lparr>st_base = si_view \<sigma>, st_writes = Map.empty, st_dirty = {}, st_done = False\<rparr>"
  have none: "si_open \<sigma> i = None" using r fresh_i by (auto simp: refines_def dom_def)
  have "tx_refines ?s (\<sigma>\<lparr>si_open := (si_open \<sigma>)(i \<mapsto> ?t)\<rparr>) i"
    using r N(4,5,6,10) I(4) by (auto simp: tx_refines_def refines_def later_keys_def leD)
  moreover have "tx_refines ?s (\<sigma>\<lparr>si_open := (si_open \<sigma>)(i \<mapsto> ?t)\<rparr>) j" if "j \<in> set (kv_ongoing (s_kv s))" for j
    using r that fresh_i same[OF that] tx_view_base[OF N(8)[OF that]] N(10)
    by (auto simp: tx_refines_def refines_def later_keys_def)
  ultimately have "refines ?s (\<sigma>\<lparr>si_open := (si_open \<sigma>)(i \<mapsto> ?t)\<rparr>)"
    using r N(3,9) by (auto simp: refines_def)
  then show ?thesis using inv' si_begin[OF none] by (auto simp: sim_def)
qed

lemma sim_write:
  assumes inv: "sys_inv s" and r: "refines s \<sigma>" and i: "i \<in> set (kv_ongoing (s_kv s))" and c: "\<not> committing (s_commit s) i"
    and u: "arr_wf u" and kv: "kv = with_updates i u (s_kv s)"
  shows "sys_inv (s\<lparr>s_kv := kv\<rparr>)"
    and "\<exists>t. si_open \<sigma> i = Some t \<and> \<not> st_done t \<and> st_writes t = arr_map (tx_updates (tx_of (s_kv s) i)) \<and>
      refines (s\<lparr>s_kv := kv\<rparr>) (\<sigma>\<lparr>si_open := (si_open \<sigma>)(i \<mapsto> t\<lparr>st_writes := arr_map u\<rparr>)\<rparr>)"
proof -
  note I = sys_invE[OF inv]
  note W = with_updates_inv[OF I(1) i u, folded kv]
  have il: "i < length (kv_txs (s_kv s))" using store_invE(7)[OF I(1) i] by (simp add: tx_inv_def)
  have same: "tx_of kv j = tx_of (s_kv s) j" if "j \<noteq> i" for j using that by (simp add: kv with_updates_def)
  have sel: "kv_ongoing kv = kv_ongoing (s_kv s)" "kv_history kv = kv_history (s_kv s)" "kv_snapshot kv = kv_snapshot (s_kv s)"
    "tx_snapshot (tx_of kv i) = tx_snapshot (tx_of (s_kv s) i)"
    using il by (simp_all add: kv with_updates_def)
  have "compact_ok kv (s_compact s)"
    by (rule compact_ok_same[OF I(2)]) (simp add: same_tables_def kv with_updates_def)
  moreover have "commit_ok kv (s_commit s) (s_compact s)"
  proof (rule commit_ok_keep[OF I(3)])
    fix j assume "committing (s_commit s) j"
    then have "j \<noteq> i" using c by auto
    then show "j \<in> set (kv_ongoing kv) \<and> tx_snapshot (tx_of kv j) = tx_snapshot (tx_of (s_kv s) j) \<and>
        tx_updates (tx_of kv j) = tx_updates (tx_of (s_kv s) j)" if "j \<in> set (kv_ongoing (s_kv s))"
      using that sel same by simp
  qed (use sel in simp)
  ultimately show "sys_inv (s\<lparr>s_kv := kv\<rparr>)" using W(1) I(4) sel by (auto simp: sys_inv_def)
  have nd: "s_commit s \<noteq> CDone i" using c by auto
  obtain t where t: "si_open \<sigma> i = Some t" "st_base t = tx_view (s_kv s) i" "st_writes t = arr_map (tx_updates (tx_of (s_kv s) i))"
    "\<not> st_done t" "st_dirty t = later_keys (s_kv s) i" using tx_refinesE[OF r i] nd by metis
  let ?\<sigma> = "\<sigma>\<lparr>si_open := (si_open \<sigma>)(i \<mapsto> t\<lparr>st_writes := arr_map u\<rparr>)\<rparr>"
  have "tx_refines (s\<lparr>s_kv := kv\<rparr>) ?\<sigma> j" if "j \<in> set (kv_ongoing (s_kv s))" for j
  proof (cases "j = i")
    case True
    then show ?thesis using t W(4) tx_view_base[OF W(3)[OF that]] sel by (simp add: tx_refines_def later_keys_def)
  next
    case False
    then show ?thesis using r that tx_view_base[OF W(3)[OF that]] sel same[OF False]
      by (auto simp: tx_refines_def refines_def later_keys_def)
  qed
  then have "refines (s\<lparr>s_kv := kv\<rparr>) ?\<sigma>" using r W(2) sel(1) i by (auto simp: refines_def)
  then show "\<exists>t. si_open \<sigma> i = Some t \<and> \<not> st_done t \<and> st_writes t = arr_map (tx_updates (tx_of (s_kv s) i)) \<and>
      refines (s\<lparr>s_kv := kv\<rparr>) (\<sigma>\<lparr>si_open := (si_open \<sigma>)(i \<mapsto> t\<lparr>st_writes := arr_map u\<rparr>)\<rparr>)" using t by blast
qed

lemma frame_tables:
  assumes "frame kv kv'" and "store_inv kv' pend"
  shows "same_tables kv kv'"
proof -
  note d = frameD[OF assms(1)]
  have "tb_file (tb_of kv' f) = tb_file (tb_of kv f)" if "f \<in> set (kv_main kv)" for f
  proof -
    have f: "f < length (kv_tables kv')" using store_invE(3)[OF assms(2)] that d by auto
    then have "0 < tb_refs (tb_of kv' f)" using refs_level_ok(1)[OF store_invE(5)[OF assms(2)] f] that d by simp
    then show ?thesis using assms(1) f d by (auto simp: frame_def)
  qed
  then show ?thesis using d by (simp add: same_tables_def)
qed

lemma later_keys_prune:
  assumes "sorted (map (\<lambda>i. tx_snapshot (txs ! i)) ongoing)" and "j \<in> set ongoing"
  shows "{k. \<exists>n. (n, k) \<in> set (prune_history ongoing txs history) \<and> tx_snapshot (txs ! j) < n} =
    {k. \<exists>n. (n, k) \<in> set history \<and> tx_snapshot (txs ! j) < n}"
proof (cases ongoing)
  case (Cons i rest)
  have "tx_snapshot (txs ! i) \<le> tx_snapshot (txs ! j)" using assms Cons by auto
  then show ?thesis using Cons by (auto simp: prune_history_def)
qed (use assms(2) in simp)

lemma sim_end:
  assumes inv: "sys_inv s" and r: "refines s \<sigma>" and i: "i \<in> set (kv_ongoing (s_kv s))"
    and c: "c' = s_commit s \<and> \<not> committing (s_commit s) i \<or> s_commit s = CDone i \<and> c' = CFree"
    and u: "KV_untrackTXSync i (s_kv s) = (kv, res)"
  shows "sim (s\<lparr>s_kv := kv, s_commit := c'\<rparr>) (Some (AEnd i)) \<sigma>"
proof -
  let ?k = "untrack_state i (s_kv s)" and ?s = "s\<lparr>s_kv := kv, s_commit := c'\<rparr>"
  note I = sys_invE[OF inv]
  obtain kv' where U: "KV_untrackTXSync i (s_kv s) = (kv', Inr ())" "frame ?k kv'" "store_inv kv' (pend_refs (s_compact s))"
    "kv_view kv' = kv_view (s_kv s)" "\<And>j. j \<in> set (kv_ongoing (s_kv s)) \<Longrightarrow> j \<noteq> i \<Longrightarrow> tx_base kv' j = tx_base (s_kv s) j"
    using untrack_ok[OF I(1) i] by blast
  have kv: "kv' = kv" using U(1) u by simp
  note U = U[unfolded kv]
  note F = frameD[OF U(2)]
  have on: "j \<in> set (kv_ongoing kv) \<longleftrightarrow> j \<in> set (kv_ongoing (s_kv s)) \<and> j \<noteq> i" for j
    using store_invE(6)[OF I(1)] by (auto simp: F)
  have same: "tx_of kv j = tx_of (s_kv s) j" if "j \<noteq> i" for j using that by (simp add: F)
  have hist: "set (kv_history kv) \<subseteq> set (kv_history (s_kv s))"
    by (auto simp: F prune_history_def split: list.splits)
  have "same_tables (s_kv s) kv" using frame_tables[OF U(2,3)] by (simp add: same_tables_def)
  then have "compact_ok kv (s_compact s)" by (rule compact_ok_same[OF I(2)])
  moreover have "commit_ok kv c' (s_compact s)"
    using c
  proof
    assume c': "c' = s_commit s \<and> \<not> committing (s_commit s) i"
    then have "commit_ok kv (s_commit s) (s_compact s)"
      by (intro commit_ok_keep[OF I(3) hist]) (metis on same)
    then show ?thesis using c' by simp
  qed (use I(3) in auto)
  ultimately have inv': "sys_inv ?s" using U(3) I(4) hist by (auto simp: sys_inv_def F)
  obtain t where t: "si_open \<sigma> i = Some t" using tx_refinesE[OF r i] by metis
  let ?\<sigma> = "\<sigma>\<lparr>si_open := (si_open \<sigma>)(i := None)\<rparr>"
  have "tx_refines ?s ?\<sigma> j" if "j \<in> set (kv_ongoing kv)" for j
  proof -
    have j: "j \<in> set (kv_ongoing (s_kv s))" "j \<noteq> i" using that on by auto
    have "j \<in> set (remove1 i (kv_ongoing (s_kv s)))" using j by simp
    from later_keys_prune[OF sorted_map_remove1[OF store_invE(8)[OF I(1)]] this]
    have "later_keys kv j = later_keys (s_kv s) j" using same[OF j(2)] by (simp add: later_keys_def F)
    moreover have "c' = CDone j \<longleftrightarrow> s_commit s = CDone j" using c j(2) by auto
    ultimately show ?thesis using r j same[OF j(2)] tx_view_base[OF U(5)[OF j]]
      by (auto simp: tx_refines_def refines_def)
  qed
  then have "refines ?s ?\<sigma>" using r U(4) on by (auto simp: refines_def)
  then show ?thesis using inv' si_end[OF t] by (auto simp: sim_def)
qed

lemma sim_commit_log:
  assumes inv: "sys_inv s" and r: "refines s \<sigma>" and i: "i \<in> set (kv_ongoing (s_kv s))" and c: "s_commit s = CFree"
    and l: "KV_commitLog i (s_kv s) = (kv, res)"
  shows "sim (s\<lparr>s_kv := kv, s_commit := (if res = Inr () then CLogged i else CDone i)\<rparr>) None \<sigma>"
proof -
  note I = sys_invE[OF inv]
  from commitLog_shape[OF l] obtain log where kv: "kv = (s_kv s)\<lparr>kv_log := log\<rparr>" and
    ok: "res = Inr () \<longrightarrow> \<not> KV_checkTXConflict (s_kv s) i" by metis
  have "compact_ok kv (s_compact s)" by (rule compact_ok_same[OF I(2)]) (simp add: kv same_tables_def)
  moreover have "KV_checkTXConflict kv i = KV_checkTXConflict (s_kv s) i" by (simp add: kv KV_checkTXConflict_def)
  ultimately have "sys_inv (s\<lparr>s_kv := kv, s_commit := (if res = Inr () then CLogged i else CDone i)\<rparr>)"
    using I c i ok by (auto simp: sys_inv_def kv)
  moreover have "refines (s\<lparr>s_kv := kv, s_commit := (if res = Inr () then CLogged i else CDone i)\<rparr>) \<sigma>"
    by (rule refines_quiet[OF r]) (simp_all add: kv c)
  ultimately show ?thesis by (simp add: sim_def)
qed

lemma sim_commit_mem:
  assumes inv: "sys_inv s" and r: "refines s \<sigma>" and c: "s_commit s = CLogged i"
    and m: "KV_commitMem cl i (s_kv s) = (kv, res)"
  shows "sim (s\<lparr>s_kv := kv, s_commit := CDone i\<rparr>) (Some (ACommit i)) \<sigma>"
proof -
  let ?s = "s\<lparr>s_kv := kv, s_commit := CDone i\<rparr>" and ?u = "tx_updates (tx_of (s_kv s) i)"
  note I = sys_invE[OF inv]
  have i: "i \<in> set (kv_ongoing (s_kv s))" and nc: "\<not> KV_checkTXConflict (s_kv s) i" and nr: "\<not> rewriting (s_compact s)"
    using I(3) c by auto
  have wf: "arr_wf ?u" using store_invE(7)[OF I(1) i] by (simp add: tx_inv_def)
  obtain kv' mem where M: "KV_commitMem cl i (s_kv s) = (kv', Inr ())" "store_inv kv' (pend_refs (s_compact s))"
    "kv_view kv' = overlay (kv_view (s_kv s)) (arr_map ?u)" "\<And>j. tx_base kv' j = tx_base (s_kv s) j"
    "kv_txs kv' = kv_txs (s_kv s)" "kv_ongoing kv' = kv_ongoing (s_kv s)" "kv_tables kv' = kv_tables (s_kv s)"
    "kv_snapshot kv' = Suc (kv_snapshot (s_kv s))" "kv_history kv' = (if length (kv_ongoing (s_kv s)) > 1
       then kv_history (s_kv s) @ map (Pair (Suc (kv_snapshot (s_kv s)))) (a_keys ?u) else kv_history (s_kv s))"
    "kv_imm kv' = kv_imm (s_kv s)" "kv_main kv' = kv_main (s_kv s)"
    using commitMem_ok[OF I(1) i, of cl] by metis
  have kv: "kv' = kv" using M(1) m by simp
  note M = M[unfolded kv]
  have "compact_ok kv (s_compact s)" by (rule compact_ok_same[OF I(2)]) (simp add: M same_tables_def)
  moreover have "n \<le> Suc (kv_snapshot (s_kv s))" if "(n, k) \<in> set (kv_history kv)" for n k
    using that I(4)[of n k] by (auto simp: M(9) split: if_splits)
  ultimately have inv': "sys_inv ?s" using M(2,6,8) i nr by (auto simp: sys_inv_def)
  have nd: "s_commit s \<noteq> CDone j" for j using c by simp
  obtain t where t: "si_open \<sigma> i = Some t" "st_base t = tx_view (s_kv s) i" "st_writes t = arr_map ?u" "\<not> st_done t"
    "st_dirty t = later_keys (s_kv s) i" using tx_refinesE[OF r i] nd by metis
  have dis: "dom (st_writes t) \<inter> st_dirty t = {}"
    using nc conflict_iff[OF wf] t by (auto simp: later_keys_def)
  let ?\<sigma> = "\<sigma>\<lparr>si_view := overlay (si_view \<sigma>) (st_writes t), si_open := si_mark i (dom (st_writes t)) (si_open \<sigma>)\<rparr>"
  have "tx_refines ?s ?\<sigma> j" if j: "j \<in> set (kv_ongoing (s_kv s))" for j
  proof (cases "j = i")
    case True
    then show ?thesis using t M(5) tx_view_base[OF M(4)] by (simp add: tx_refines_def si_mark_def)
  next
    case False
    have "length (kv_ongoing (s_kv s)) > 1"
      using False i j by (cases "kv_ongoing (s_kv s)"; cases "tl (kv_ongoing (s_kv s))") auto
    then have h: "kv_history kv = kv_history (s_kv s) @ map (Pair (Suc (kv_snapshot (s_kv s)))) (a_keys ?u)" using M(9) by simp
    have "tx_snapshot (tx_of (s_kv s) j) \<le> kv_snapshot (s_kv s)" using store_invE(7)[OF I(1) j] by (simp add: tx_inv_def)
    then have "later_keys kv j = later_keys (s_kv s) j \<union> dom (arr_map ?u)"
      using wf by (auto simp: later_keys_def h M(5) dom_arr_map)
    moreover obtain t' where "si_open \<sigma> j = Some t'" "st_base t' = tx_view (s_kv s) j"
      "st_writes t' = arr_map (tx_updates (tx_of (s_kv s) j))" "\<not> st_done t'" "st_dirty t' = later_keys (s_kv s) j"
      using tx_refinesE[OF r j] nd by metis
    ultimately show ?thesis using False t(3) M(5) tx_view_base[OF M(4)] by (auto simp: tx_refines_def si_mark_def)
  qed
  moreover have "dom (si_open ?\<sigma>) = dom (si_open \<sigma>)" by (auto simp: si_mark_def)
  ultimately have "refines ?s ?\<sigma>" using r M(3,6) t(3) by (simp add: refines_def)
  then show ?thesis using inv' si_commit[OF t(1,4) dis] by (auto simp: sim_def)
qed

section \<open>Compaction is invisible\<close>

text \<open>What a compaction step keeps for the transactions.\<close>

definition quiet :: "'c KV \<Rightarrow> 'c KV \<Rightarrow> bool" where
  "quiet kv kv' \<longleftrightarrow> kv_view kv' = kv_view kv \<and> kv_ongoing kv' = kv_ongoing kv \<and> kv_history kv' = kv_history kv \<and>
     kv_snapshot kv' = kv_snapshot kv \<and> kv_txs kv' = kv_txs kv \<and> (\<forall>i\<in>set (kv_ongoing kv). tx_base kv' i = tx_base kv i)"

lemma commit_ok_quiet:
  assumes "commit_ok kv c p" and "quiet kv kv'" and "rewriting p' = rewriting p"
  shows "commit_ok kv' c p'"
  using assms by (cases c) (auto simp: quiet_def KV_checkTXConflict_def)

lemma sim_quiet:
  assumes inv: "sys_inv s" and r: "refines s \<sigma>" and q: "quiet (s_kv s) kv"
    and "store_inv kv (pend_refs p)" and "compact_ok kv p" and "rewriting p = rewriting (s_compact s)"
  shows "sim (s\<lparr>s_kv := kv, s_compact := p\<rparr>) None \<sigma>"
proof -
  note I = sys_invE[OF inv]
  have "commit_ok kv (s_commit s) p" by (rule commit_ok_quiet[OF I(3) q assms(6)])
  then have "sys_inv (s\<lparr>s_kv := kv, s_compact := p\<rparr>)" using assms I(4) by (auto simp: sys_inv_def quiet_def)
  moreover have "refines (s\<lparr>s_kv := kv, s_compact := p\<rparr>) \<sigma>"
    by (rule refines_quiet[OF r]) (use q in \<open>auto simp: quiet_def\<close>)
  ultimately show ?thesis by (simp add: sim_def)
qed

lemma quiet_unfreeze:
  assumes "store_inv kv []"
  shows "\<exists>kv'. KV_unfreeze kv = (kv', Inr ()) \<and> store_inv kv' [] \<and> quiet kv kv' \<and> kv_imm kv' = None"
proof -
  from unfreeze_ok[OF assms] obtain mem where "KV_unfreeze kv = (kv\<lparr>kv_mem := mem, kv_imm := None\<rparr>, Inr ())"
    "store_inv (kv\<lparr>kv_mem := mem, kv_imm := None\<rparr>) []" "kv_view (kv\<lparr>kv_mem := mem, kv_imm := None\<rparr>) = kv_view kv" by metis
  then show ?thesis by (auto simp: quiet_def)
qed

lemma quiet_fields [simp]:
  "quiet kv (kv\<lparr>kv_disk := d\<rparr>)" "quiet kv (kv\<lparr>kv_meta := m\<rparr>)" "quiet kv (kv\<lparr>kv_log := l\<rparr>)"
  "quiet kv (kv\<lparr>kv_version := v\<rparr>)" "quiet kv (kv\<lparr>kv_closed := b\<rparr>)"
  by (simp_all add: quiet_def)

lemma quiet_trans: "quiet a b \<Longrightarrow> quiet b c \<Longrightarrow> quiet a c"
  by (auto simp: quiet_def)

lemma flushWrite_err:
  assumes inv: "store_inv kv []" and w: "KV_flushWrite bl created fl kv = (kv', Inl e)"
  shows "store_inv kv' [] \<and> quiet kv kv' \<and> kv_imm kv' = None"
proof -
  let ?name = "sstableName (fl_version fl)"
  define m where "m = (if fl_drop fl
    then KV_CreateFromSorted bl (nodel_ops array_ops) (NoDeletedSortedKV_ops array_kv_ops) (fl_frozen fl) ?name created kv
    else KV_CreateFromSorted bl array_ops array_kv_ops (fl_frozen fl) ?name created kv)"
  obtain disk res where m: "m = (kv\<lparr>kv_disk := disk\<rparr>, res)" using Create_shape unfolding m_def by metis
  have w': "(case m of (kv, Inr sf) \<Rightarrow> (kv, Inr sf) | (kv, Inl e) \<Rightarrow> (case KV_unfreeze kv of (kv, Inl p) \<Rightarrow> (kv, Inl p)
      | (kv, Inr _) \<Rightarrow> (KV_remove ?name kv, Inl e))) = (kv', Inl e)"
    using w by (simp add: KV_flushWrite_def m_def Let_def)
  have "store_inv (kv\<lparr>kv_disk := disk\<rparr>) []" using inv by simp
  from quiet_unfreeze[OF this] obtain k where k: "KV_unfreeze (kv\<lparr>kv_disk := disk\<rparr>) = (k, Inr ())" "store_inv k []"
    "quiet (kv\<lparr>kv_disk := disk\<rparr>) k" "kv_imm k = None" by blast
  have "kv' = KV_remove ?name k" using w' k(1) m by (cases res) auto
  then show ?thesis using k quiet_trans[OF quiet_fields(1) k(3)] quiet_trans[of kv k]
    by (simp add: KV_remove_def)
qed

lemma flushMeta_ok:
  assumes inv: "store_inv kv []" and m: "KV_flushMeta fl kv = (kv', r)"
  shows "(r = Inr () \<and> (\<exists>meta. kv' = kv\<lparr>kv_meta := meta\<rparr>)) \<or>
    ((\<exists>e. r = Inl e) \<and> store_inv kv' [] \<and> quiet kv kv' \<and> kv_imm kv' = None)"
proof -
  obtain meta res where s: "Meta_Set (kv_meta kv) ((Meta_Get (kv_meta kv))\<lparr>md_Version := fl_version fl,
      md_SSTables := sstableName (fl_version fl) # md_SSTables (Meta_Get (kv_meta kv))\<rparr>) = (meta, res)" by fastforce
  let ?k = "KV_remove (sstableName (fl_version fl)) (kv\<lparr>kv_meta := meta\<rparr>)"
  have q: "quiet kv ?k" using quiet_trans[OF quiet_fields(2) quiet_fields(1)] by (simp add: KV_remove_def)
  have "store_inv ?k []" using inv by (simp add: KV_remove_def)
  from quiet_unfreeze[OF this] obtain k where "KV_unfreeze ?k = (k, Inr ())" "store_inv k []" "quiet ?k k" "kv_imm k = None" by blast
  then show ?thesis using m s quiet_trans[OF q] by (cases res) (auto simp: KV_flushMeta_def Let_def)
qed

lemma sim_write_table:
  assumes inv: "sys_inv s" and r: "refines s \<sigma>" and bl: "bloom_ok bl" and p: "s_compact s = PFrozen fl"
    and fr: "fresh created" and fits: "fl_fits fl" and w: "KV_flushWrite bl created fl (s_kv s) = (kv, res)"
  shows "sim (s\<lparr>s_kv := kv, s_compact := (case res of Inl e \<Rightarrow> PIdle | Inr sf \<Rightarrow> PWritten fl sf)\<rparr>) None \<sigma>"
proof (cases res)
  case (Inl e)
  note I = sys_invE[OF inv]
  have "store_inv (s_kv s) []" using I(1) p by simp
  from flushWrite_err[OF this w[unfolded Inl]] show ?thesis
    using Inl by (intro sim_quiet[OF inv r]) (auto simp: rewriting_def p)
next
  case (Inr sf)
  note I = sys_invE[OF inv]
  have f: "flush_ok (s_kv s) fl" using I(2) p by simp
  have wf: "arr_wf (fl_frozen fl)" using f store_invE(2)[OF I(1)] by (simp add: flush_ok_def)
  obtain disk where kv: "kv = (s_kv s)\<lparr>kv_disk := disk\<rparr>" and t: "table_for (fl_drop fl) (arr_map (fl_frozen fl)) sf"
    using flushWrite_ok[OF bl fr wf fits w[unfolded Inr]] by blast
  show ?thesis
    using Inr f t I(1) by (intro sim_quiet[OF inv r]) (auto simp: rewriting_def p kv flush_ok_def)
qed

lemma merge_src_ok:
  assumes "store_inv kv pend" and "merge_ok kv mg"
  shows "list_all level_ok (mg_src mg kv)"
proof -
  have m: "mg_old1 mg \<in> set (kv_main kv)" "mg_old2 mg \<in> set (kv_main kv)"
    using assms(2) nth_mem[of "mg_level mg" "kv_main kv"] nth_mem[of "mg_level mg + 1" "kv_main kv"] by (auto simp: merge_ok_def)
  then show ?thesis using refs_level_ok(2)[OF store_invE(5)[OF assms(1)]] store_invE(3)[OF assms(1)]
    by (auto simp: mg_src_def)
qed

lemma sim_merge_write:
  assumes inv: "sys_inv s" and r: "refines s \<sigma>" and bl: "bloom_ok bl" and p: "s_compact s = PMerge mg"
    and fr: "fresh created" and fits: "mg_fits mg (s_kv s)" and w: "KV_mergeWrite bl created mg (s_kv s) = (kv, res)"
  shows "sim (s\<lparr>s_kv := kv, s_compact := (case res of Inl e \<Rightarrow> PIdle | Inr sf \<Rightarrow> PMergeWritten mg sf)\<rparr>) None \<sigma>"
proof -
  note I = sys_invE[OF inv]
  have f: "merge_ok (s_kv s) mg" using I(2) p by simp
  define m where "m = (if mg_drop mg
    then KV_CreateFromSorted bl (nodel_ops stack_ops) (NoDeletedSortedKV_ops stack_kv_ops) (mg_src mg (s_kv s)) (sstableName (mg_version mg)) created (s_kv s)
    else KV_CreateFromSorted bl stack_ops stack_kv_ops (mg_src mg (s_kv s)) (sstableName (mg_version mg)) created (s_kv s))"
  obtain disk0 res0 where m: "m = ((s_kv s)\<lparr>kv_disk := disk0\<rparr>, res0)" using Create_shape unfolding m_def by metis
  have "(case m of (kv, Inr sf) \<Rightarrow> (kv, Inr sf) | (kv, Inl e) \<Rightarrow> (KV_remove (sstableName (mg_version mg)) kv, Inl e)) = (kv, res)"
    using w unfolding KV_mergeWrite_def m_def mg_src_def Let_def .
  then have "\<exists>disk. kv = (s_kv s)\<lparr>kv_disk := disk\<rparr>"
    using m by (cases res0) (auto simp: KV_remove_def)
  then obtain disk where kv: "kv = (s_kv s)\<lparr>kv_disk := disk\<rparr>" by blast
  have "table_for (mg_drop mg) (stack_map (mg_src mg (s_kv s))) sf" if "res = Inr sf" for sf
    using mergeWrite_ok[OF bl fr merge_src_ok[OF I(1) f] fits w[unfolded that]] by blast
  then show ?thesis using f I(1)
    by (intro sim_quiet[OF inv r]) (auto simp: rewriting_def p kv merge_ok_def mg_src_def split: sum.split)
qed

lemma mergeStart_ok:
  assumes "store_inv kv []" and "kv_imm kv = None" and "KV_mergeStart level kv = (kv', Some mg)"
  shows "merge_ok kv' mg" and "\<exists>v. kv' = kv\<lparr>kv_version := v\<rparr>"
  using assms by (auto simp: KV_mergeStart_def Let_def merge_ok_def split: if_splits)

lemma sim_set:
  assumes inv: "sys_inv s" and r: "refines s \<sigma>" and i: "i \<in> set (kv_ongoing (s_kv s))" and c: "\<not> committing (s_commit s) i"
    and w: "KVTX_SetEx i k v mode (s_kv s) = (kv, Inr b)"
  shows "sim (s\<lparr>s_kv := kv\<rparr>) (if b then Some (APut i k v) else None) \<sigma>"
proof (cases b)
  case True
  then obtain u where u: "arr_wf u" "arr_map u = (arr_map (tx_updates (tx_of (s_kv s) i)))(k \<mapsto> (v, False))"
    "kv = with_updates i u (s_kv s)" using SetEx_cases[OF sys_invE(1)[OF inv] i w] by auto
  note W = sim_write[OF inv r i c u(1,3)]
  from W(2) obtain t where "si_open \<sigma> i = Some t" "\<not> st_done t" "st_writes t = arr_map (tx_updates (tx_of (s_kv s) i))"
    "refines (s\<lparr>s_kv := kv\<rparr>) (\<sigma>\<lparr>si_open := (si_open \<sigma>)(i \<mapsto> t\<lparr>st_writes := arr_map u\<rparr>)\<rparr>)" by blast
  then show ?thesis using W(1) True u(2) si_put[of \<sigma> i t k v] by (auto simp: sim_def)
next
  case False
  then have "kv = s_kv s" using SetEx_cases[OF sys_invE(1)[OF inv] i w] by simp
  then show ?thesis using False inv r by (simp add: sim_def)
qed

lemma sim_del:
  assumes inv: "sys_inv s" and r: "refines s \<sigma>" and i: "i \<in> set (kv_ongoing (s_kv s))" and c: "\<not> committing (s_commit s) i"
    and w: "KVTX_Del i k (s_kv s) = (kv, Inr b)"
  shows "sim (s\<lparr>s_kv := kv\<rparr>) (if b then Some (ADel i k) else None) \<sigma>"
proof (cases b)
  case True
  then obtain u where u: "arr_wf u" "arr_map u = (arr_map (tx_updates (tx_of (s_kv s) i)))(k \<mapsto> ([], True))"
    "kv = with_updates i u (s_kv s)" using Del_cases(2)[OF sys_invE(1)[OF inv] i w] by auto
  note W = sim_write[OF inv r i c u(1,3)]
  from W(2) obtain t where "si_open \<sigma> i = Some t" "\<not> st_done t" "st_writes t = arr_map (tx_updates (tx_of (s_kv s) i))"
    "refines (s\<lparr>s_kv := kv\<rparr>) (\<sigma>\<lparr>si_open := (si_open \<sigma>)(i \<mapsto> t\<lparr>st_writes := arr_map u\<rparr>)\<rparr>)" by blast
  then show ?thesis using W(1) True u(2) si_del[of \<sigma> i t k] by (auto simp: sim_def)
next
  case False
  then have "kv = s_kv s" using Del_cases(2)[OF sys_invE(1)[OF inv] i w] by simp
  then show ?thesis using False inv r by (simp add: sim_def)
qed

text \<open>Publishing takes the commit lock, and the log rewrite gives it back.\<close>

lemma sim_lock:
  assumes inv: "sys_inv s" and r: "refines s \<sigma>" and q: "quiet (s_kv s) kv" and "\<forall>i. s_commit s \<noteq> CDone i"
    and "store_inv kv []" and "kv_imm kv = None" and "if rewriting p then c = CRewrite else c = CFree"
    and "p \<in> {PIdle, PPublished, PTruncated}"
  shows "sim (s\<lparr>s_kv := kv, s_commit := c, s_compact := p\<rparr>) None \<sigma>"
proof -
  note I = sys_invE[OF inv]
  have "sys_inv (s\<lparr>s_kv := kv, s_commit := c, s_compact := p\<rparr>)"
    using assms(5-8) q I(4) by (auto simp: sys_inv_def quiet_def rewriting_def)
  moreover have "refines (s\<lparr>s_kv := kv, s_commit := c, s_compact := p\<rparr>) \<sigma>"
    by (rule refines_quiet[OF r]) (use q assms(4) in \<open>auto simp: quiet_def\<close>)
  ultimately show ?thesis by (simp add: sim_def)
qed

lemma rewriting_commit: "sys_inv s \<Longrightarrow> rewriting (s_compact s) \<Longrightarrow> s_commit s = CRewrite"
  using sys_invE(3)[of s] by (cases "s_commit s") auto

lemma truncate_shape: "KV_truncateLog kv = (kv', r) \<Longrightarrow> \<exists>log. kv' = kv\<lparr>kv_log := log\<rparr>"
  by (auto simp: KV_truncateLog_def split: prod.splits)

lemma relog_shape: "KV_relog mem kv = (kv', r) \<Longrightarrow> \<exists>log. kv' = kv\<lparr>kv_log := log\<rparr>"
  by (cases "Array_Size mem = 0") (auto simp: KV_relog_def split: prod.splits intro: exI[of _ "kv_log kv"])

lemma mergeMeta_ok:
  assumes inv: "store_inv kv []" and m: "KV_mergeMeta mg kv = (kv', r)"
  shows "store_inv kv' [] \<and> quiet kv kv' \<and> same_tables kv kv'"
proof -
  obtain meta res where s: "Meta_Set (kv_meta kv) ((Meta_Get (kv_meta kv))\<lparr>md_Version := mg_version mg,
      md_SSTables := slices_Replace2 (md_SSTables (Meta_Get (kv_meta kv))) (mg_level mg) (sstableName (mg_version mg))\<rparr>) = (meta, res)" by fastforce
  have "kv' = kv\<lparr>kv_meta := meta\<rparr> \<or> kv' = KV_remove (sstableName (mg_version mg)) (kv\<lparr>kv_meta := meta\<rparr>)"
    using m s by (cases res) (auto simp: KV_mergeMeta_def Let_def)
  moreover have "quiet kv (KV_remove (sstableName (mg_version mg)) (kv\<lparr>kv_meta := meta\<rparr>))"
    using quiet_trans[OF quiet_fields(2) quiet_fields(1)] by (simp add: KV_remove_def)
  ultimately show ?thesis using inv by (auto simp: KV_remove_def same_tables_def)
qed

lemma sim_merge_publish:
  assumes inv: "sys_inv s" and r: "refines s \<sigma>" and p: "s_compact s = PMergeNamed mg sf" and m: "KV_mergePublish mg sf (s_kv s) = (kv, res)"
  shows "sim (s\<lparr>s_kv := kv, s_compact := PMergePub mg\<rparr>) None \<sigma>"
proof -
  note I = sys_invE[OF inv]
  have ok: "merge_ok (s_kv s) mg" and t: "table_for (mg_drop mg) (stack_map (mg_src mg (s_kv s))) sf"
    and inv0: "store_inv (s_kv s) []" using I(1,2) p by auto
  have d: "mg_drop mg \<longrightarrow> length (kv_main (s_kv s)) = mg_level mg + 2" and imm: "kv_imm (s_kv s) = None"
    using ok by (auto simp: merge_ok_def)
  have m': "KV_mergePublish mg sf (s_kv s) = (kv, Inr ())" using m ok by (auto simp: KV_mergePublish_def merge_ok_def)
  then obtain ts ms where kv: "kv = (s_kv s)\<lparr>kv_tables := ts, kv_main := ms\<rparr>"
    by (auto simp: KV_mergePublish_def split: if_splits)
  note P = mergePublish_ok[OF inv0 m' t d]
  have q: "quiet (s_kv s) kv" using P(2,3) by (simp add: quiet_def kv)
  show ?thesis using P(1) imm by (intro sim_quiet[OF inv r q]) (simp_all add: rewriting_def p kv)
qed

lemma sim_merge_retire:
  assumes inv: "sys_inv s" and r: "refines s \<sigma>" and p: "s_compact s = PMergePub mg" and m: "KV_mergeRetire mg (s_kv s) = (kv, res)"
  shows "sim (s\<lparr>s_kv := kv, s_compact := PIdle\<rparr>) None \<sigma>"
proof -
  note I = sys_invE[OF inv]
  have inv0: "store_inv (s_kv s) [mg_old1 mg, mg_old2 mg]" and imm: "kv_imm (s_kv s) = None" using I(1,2) p by auto
  from mergeRetire_ok[OF inv0] m have "store_inv kv []" "quiet (s_kv s) kv" "kv_imm kv = kv_imm (s_kv s)"
    by (metis Pair_inject, smt (verit) Pair_inject quiet_def, metis Pair_inject)
  then show ?thesis using imm by (intro sim_quiet[OF inv r]) (simp_all add: rewriting_def p)
qed

lemma sim_publish:
  assumes inv: "sys_inv s" and r: "refines s \<sigma>" and p: "s_compact s = PNamed fl sf" and c: "s_commit s = CFree"
  shows "sim (s\<lparr>s_kv := KV_flushPublish fl sf (s_kv s), s_commit := CRewrite, s_compact := PPublished\<rparr>) None \<sigma>"
proof -
  note I = sys_invE[OF inv]
  have f: "flush_ok (s_kv s) fl" and t: "table_for (fl_drop fl) (arr_map (fl_frozen fl)) sf"
    and inv0: "store_inv (s_kv s) []" using I(1,2) p by auto
  have imm: "kv_imm (s_kv s) = Some (fl_frozen fl)" and d: "fl_drop fl \<longrightarrow> kv_main (s_kv s) = []" using f by (auto simp: flush_ok_def)
  note P = publish_ok[OF inv0 imm t d]
  have "quiet (s_kv s) (KV_flushPublish fl sf (s_kv s))"
    using P(2,3) by (simp add: quiet_def) (simp add: KV_flushPublish_def)
  then show ?thesis using P(1) c by (intro sim_lock[OF inv r]) (simp_all add: rewriting_def KV_flushPublish_def)
qed

lemma sim_log:
  assumes inv: "sys_inv s" and r: "refines s \<sigma>" and p: "rewriting (s_compact s)" and kv: "kv = (s_kv s)\<lparr>kv_log := log\<rparr>"
    and "if rewriting p' then c = CRewrite else c = CFree" and "p' \<in> {PIdle, PPublished, PTruncated}"
  shows "sim (s\<lparr>s_kv := kv, s_commit := c, s_compact := p'\<rparr>) None \<sigma>"
proof -
  have "kv_imm (s_kv s) = None" "store_inv (s_kv s) []" using sys_invE(1,2)[OF inv] p by (auto simp: rewriting_def)
  then show ?thesis using assms(5,6) rewriting_commit[OF inv p] by (intro sim_lock[OF inv r]) (simp_all add: kv)
qed

lemma sim_freeze:
  assumes inv: "sys_inv s" and r: "refines s \<sigma>" and p: "s_compact s = PIdle" and f: "KV_freeze (s_kv s) = (kv, Inr (Some fl))"
  shows "sim (s\<lparr>s_kv := kv, s_compact := PFrozen fl\<rparr>) None \<sigma>"
proof -
  have "store_inv (s_kv s) []" using sys_invE(1)[OF inv] p by simp
  note F = freeze_ok[OF this f]
  have "quiet (s_kv s) kv" using F by (simp add: quiet_def)
  then show ?thesis using F by (intro sim_quiet[OF inv r]) (simp_all add: rewriting_def p flush_ok_def)
qed

lemma sim_meta:
  assumes inv: "sys_inv s" and r: "refines s \<sigma>" and p: "s_compact s = PWritten fl sf" and m: "KV_flushMeta fl (s_kv s) = (kv, res)"
  shows "sim (s\<lparr>s_kv := kv, s_compact := (case res of Inl e \<Rightarrow> PIdle | Inr _ \<Rightarrow> PNamed fl sf)\<rparr>) None \<sigma>"
proof -
  note I = sys_invE[OF inv]
  have inv0: "store_inv (s_kv s) []" and ok: "compact_ok (s_kv s) (PWritten fl sf)" using I(1,2) p by auto
  from flushMeta_ok[OF inv0 m] show ?thesis
    using inv0 ok by (intro sim_quiet[OF inv r]) (auto simp: rewriting_def p flush_ok_def)
qed

lemma sim_merge_meta:
  assumes inv: "sys_inv s" and r: "refines s \<sigma>" and p: "s_compact s = PMergeWritten mg sf" and m: "KV_mergeMeta mg (s_kv s) = (kv, res)"
  shows "sim (s\<lparr>s_kv := kv, s_compact := (case res of Inl e \<Rightarrow> PIdle | Inr _ \<Rightarrow> PMergeNamed mg sf)\<rparr>) None \<sigma>"
proof -
  note I = sys_invE[OF inv]
  have inv0: "store_inv (s_kv s) []" and ok: "compact_ok (s_kv s) (PMergeWritten mg sf)" using I(1,2) p by auto
  note M = mergeMeta_ok[OF inv0 m]
  then have "compact_ok kv (PMergeWritten mg sf)" using compact_ok_same[OF ok] by blast
  then show ?thesis using M by (intro sim_quiet[OF inv r]) (auto simp: rewriting_def p merge_ok_def split: sum.split)
qed

lemma sim_merge:
  assumes inv: "sys_inv s" and r: "refines s \<sigma>" and p: "s_compact s = PIdle" and m: "KV_mergeStart level (s_kv s) = (kv, Some mg)"
  shows "sim (s\<lparr>s_kv := kv, s_compact := PMerge mg\<rparr>) None \<sigma>"
proof -
  have inv0: "store_inv (s_kv s) []" "kv_imm (s_kv s) = None" using sys_invE(1,2)[OF inv] p by auto
  from mergeStart_ok[OF inv0 m] show ?thesis using inv0
    by (intro sim_quiet[OF inv r]) (auto simp: rewriting_def p)
qed

lemma kv_step_sim:
  assumes "kv_step bl cl s a s'" and "bloom_ok bl" and "sys_inv s" and "refines s \<sigma>"
  shows "sim s' a \<sigma>"
  using assms
proof (induction rule: kv_step.induct)
  case (k_truncate s kv r)
  obtain log where "kv = (s_kv s)\<lparr>kv_log := log\<rparr>" using truncate_shape[OF k_truncate(2)] by blast
  then show ?case using k_truncate by (intro sim_log) (auto simp: rewriting_def)
next
  case (k_relog s kv r)
  obtain log where "kv = (s_kv s)\<lparr>kv_log := log\<rparr>" using relog_shape[OF k_relog(2)] by blast
  then show ?case using k_relog by (intro sim_log) (auto simp: rewriting_def)
next
  case (k_close s)
  show ?case using sim_quiet[OF k_close(2,3), of "KV_closeBegin (s_kv s)" "s_compact s"] sys_invE(1,2)[OF k_close(2)]
    by (simp add: KV_closeBegin_def compact_ok_same same_tables_def)
next
  case (k_abort i s kv r)
  show ?case using sim_end[OF k_abort(5,6,1) _ k_abort(3), of "s_commit s"] k_abort(2) by simp
next
  case (k_commit_done s i kv r)
  have "i \<in> set (kv_ongoing (s_kv s))" using sys_invE(3)[OF k_commit_done(4)] k_commit_done(1) by simp
  from sim_end[OF k_commit_done(4,5) this _ k_commit_done(2), of CFree] show ?case using k_commit_done(1) by simp
next
  case (k_commit_empty s i)
  have "sys_inv (s\<lparr>s_commit := CDone i\<rparr>)" using k_commit_empty by (auto simp: sys_inv_def)
  moreover have "refines (s\<lparr>s_commit := CDone i\<rparr>) \<sigma>"
    by (rule refines_quiet[OF k_commit_empty(6)]) (use k_commit_empty(1) in simp_all)
  ultimately show ?case by (simp add: sim_def)
qed (simp_all add: sim_begin sim_set sim_del sim_end sim_commit_log sim_commit_mem sim_freeze sim_write_table sim_meta
    sim_publish sim_merge sim_merge_write sim_merge_meta sim_merge_publish sim_merge_retire)

section \<open>Reachable states\<close>

definition starts :: "'c sys \<Rightarrow> bool" where
  "starts s \<longleftrightarrow> s_commit s = CFree \<and> s_compact s = PIdle \<and> kv_ongoing (s_kv s) = [] \<and> kv_history (s_kv s) = [] \<and>
     kv_imm (s_kv s) = None \<and> store_inv (s_kv s) []"

definition si_start :: "'c sys \<Rightarrow> si" where
  "si_start s = \<lparr>si_view = kv_view (s_kv s), si_open = Map.empty\<rparr>"

lemma starts_sim: "starts s \<Longrightarrow> sys_inv s \<and> refines s (si_start s) \<and> si_inv (si_start s)"
  by (simp add: starts_def sys_inv_def refines_def si_start_def si_inv_def rewriting_def)

lemma kv_run_sim:
  assumes "kv_run bl cl s as s'" and "bloom_ok bl" and "starts s"
  shows "sys_inv s' \<and> (\<exists>\<sigma>. si_run (si_start s) as \<sigma> \<and> refines s' \<sigma>)"
  using assms
proof (induction rule: kv_run.induct)
  case (run_nil s)
  then show ?case using starts_sim si_nil by blast
next
  case (run_tau s as s' s'')
  then obtain \<sigma> where "sys_inv s'" "si_run (si_start s) as \<sigma>" "refines s' \<sigma>" by blast
  then show ?case using kv_step_sim[OF run_tau(2) run_tau(4)] by (auto simp: sim_def)
next
  case (run_act s as s' a s'')
  then obtain \<sigma> where \<sigma>: "sys_inv s'" "si_run (si_start s) as \<sigma>" "refines s' \<sigma>" by blast
  from kv_step_sim[OF run_act(2) run_act(4) \<sigma>(1,3)] obtain \<sigma>' where "sys_inv s''" "si_step \<sigma> a \<sigma>'" "refines s'' \<sigma>'"
    by (auto simp: sim_def)
  then show ?case using si_snoc[OF \<sigma>(2)] by blast
qed

lemma reachable_inv:
  assumes "kv_run bl cl s as s'" and "bloom_ok bl" and "starts s"
  shows "sys_inv s'" "store_inv (s_kv s') (pend_refs (s_compact s'))"
  using kv_run_sim[OF assms] sys_invE(1) by auto

text \<open>
  C1: every interleaving of transactions, commits, flushes and merges is one of the
  abstract store with snapshot isolation: its actions are a run of the abstract store, the committed
  contents agree, and in the state reached every read of an open transaction returns what the
  abstract transaction sees, its writes over the contents at its start.
\<close>

theorem store_refines_si:
  assumes "kv_run bl cl s as s'" and "bloom_ok bl" and "starts s"
  shows "\<exists>\<sigma>. si_run (si_start s) as \<sigma> \<and> si_view \<sigma> = kv_view (s_kv s') \<and> dom (si_open \<sigma>) = set (kv_ongoing (s_kv s')) \<and>
    (\<forall>i t k. si_open \<sigma> i = Some t \<longrightarrow> KVTX_Get (s_kv s') i k = Inr (overlay (st_base t) (st_writes t) k))"
proof -
  obtain \<sigma> where \<sigma>: "si_run (si_start s) as \<sigma>" "refines s' \<sigma>" using kv_run_sim[OF assms] by blast
  have "KVTX_Get (s_kv s') i k = Inr (overlay (st_base t) (st_writes t) k)" if "si_open \<sigma> i = Some t" for i t k
  proof -
    have i: "i \<in> set (kv_ongoing (s_kv s'))" using \<sigma>(2) that by (auto simp: refines_def)
    show ?thesis using tx_refinesE[OF \<sigma>(2) i] tx_Get[OF reachable_inv(2)[OF assms] i] that by (metis option.inject)
  qed
  then show ?thesis using \<sigma> by (auto simp: refines_def)
qed

text \<open>
  C2: in every reachable state, a transaction that wrote a key whose committed
  value is no longer the one of the transaction's start does not commit: its commit stops with
  \<open>ErrTXConflict\<close> before anything is logged.
\<close>

theorem first_committer_wins:
  assumes "kv_run bl cl s as s'" and "bloom_ok bl" and "starts s"
    and "i \<in> set (kv_ongoing (s_kv s'))" and "s_commit s' \<noteq> CDone i"
    and "k \<in> set (a_keys (tx_updates (tx_of (s_kv s') i)))" and "kv_view (s_kv s') k \<noteq> tx_view (s_kv s') i k"
  shows "KV_commitLog i (s_kv s') = (s_kv s', Inl ErrTXConflict)"
proof -
  obtain \<sigma> where \<sigma>: "si_run (si_start s) as \<sigma>" "refines s' \<sigma>" using kv_run_sim[OF assms(1-3)] by blast
  have si: "si_inv \<sigma>" using si_run_inv[OF \<sigma>(1)] starts_sim[OF assms(3)] by blast
  obtain t where t: "si_open \<sigma> i = Some t" "st_base t = tx_view (s_kv s') i" "\<not> st_done t" "st_dirty t = later_keys (s_kv s') i"
    using tx_refinesE[OF \<sigma>(2) assms(4)] assms(5) by metis
  have wf: "arr_wf (tx_updates (tx_of (s_kv s') i))"
    using store_invE(7)[OF reachable_inv(2)[OF assms(1-3)] assms(4)] by (simp add: tx_inv_def)
  have "k \<in> later_keys (s_kv s') i" using si t \<sigma>(2) assms(7) by (auto simp: si_inv_def refines_def)
  then have "KV_checkTXConflict (s_kv s') i"
    using conflict_iff[OF wf] assms(6) wf by (auto simp: later_keys_def dom_arr_map)
  then show ?thesis by (simp add: KV_commitLog_def)
qed

text \<open>
  C6: in every reachable state a range over an open transaction delivers exactly the
  pairs between its bounds, in key order or in the reverse of it, of the contents at the
  transaction's start under its own writes.
\<close>

theorem snapshot_range:
  assumes "kv_run bl cl s as s'" and "bloom_ok bl" and "starts s" and "i \<in> set (kv_ongoing (s_kv s'))"
    and m: "m = overlay (tx_view (s_kv s') i) (arr_map (tx_updates (tx_of (s_kv s') i)))"
    and "length (sorted_entries m) < fuel"
  shows "\<exists>rit. KVTX_Range (s_kv s') i start stop desc = Inr rit \<and> Ranged_collect fuel (nodel_ops stack_ops) rit =
    Some (Inr (if desc then rev (pairs_between m stop start) else pairs_between m start stop))"
proof -
  note inv = reachable_inv(2)[OF assms(1-3)]
  have "tx_err (tx_of (s_kv s') i) = None" using store_invE(7)[OF inv assms(4)] by (simp add: tx_inv_def)
  from KVTX_Range_collect[OF this tx_stack_ok[OF inv assms(4)], of fuel start stop desc]
  show ?thesis unfolding tx_stack_map[OF inv assms(4)] Let_def m[symmetric] using assms(6) .
qed

section \<open>A run\<close>

text \<open>Two transactions write the same key, and the first of them commits.\<close>

definition no_cache :: "unit cacheLib" where
  "no_cache = \<lparr>c_Get = (\<lambda>_ _. None), c_Set = (\<lambda>c _ _. c), c_Del = (\<lambda>c _. c)\<rparr>"

definition demo_kv :: "Log \<Rightarrow> SortedArray \<Rightarrow> nat \<Rightarrow> (nat \<times> bytes) list \<Rightarrow> nat list \<Rightarrow> KVTX list \<Rightarrow> unit KV" where
  "demo_kv log mem n hist ongoing txs = \<lparr>kv_meta = demo_store [], kv_version = 0, kv_log = log, kv_mem = mem, kv_imm = None,
     kv_main = [], kv_cache = None, kv_snapshot = n, kv_history = hist, kv_ongoing = ongoing, kv_compactErr = None, kv_closed = False,
     kv_txs = txs, kv_tables = [], kv_disk = Map.empty\<rparr>"

definition demo_tx :: "nat \<Rightarrow> SortedArray \<Rightarrow> KVTX" where
  "demo_tx i u = \<lparr>tx_snapshot = 0, tx_target = TKV, tx_updates = u, tx_levels = [RUpd i, RArr empty_array], tx_mainSnap = [], tx_err = None\<rparr>"

definition demo_mem :: "bytes \<Rightarrow> SortedArray" where
  "demo_mem v = fst (Array_Set empty_array [107] v)"

lemma demo_sel [simp]:
  "tx_err (demo_tx i u) = None" "tx_updates (demo_tx i u) = u" "tx_snapshot (demo_tx i u) = 0"
  "kv_ongoing (demo_kv log mem n hist on txs) = on" "kv_txs (demo_kv log mem n hist on txs) = txs"
  "kv_log (demo_kv log mem n hist on txs) = log"
  by (simp_all add: demo_tx_def demo_kv_def)

lemma demo_mem_eval: "demo_mem v = \<lparr>a_keys = [[107]], a_vals = [v], a_deleted = [False]\<rparr>"
  by code_simp

lemma demo_maps [simp]:
  "arr_wf (demo_mem v)" "arr_map (demo_mem v) = [[107] \<mapsto> (v, False)]" "live [[107] \<mapsto> (v, False)] = [[107] \<mapsto> v]" "live Map.empty = Map.empty"
  by (simp_all add: demo_mem_eval arr_wf_def arr_shape_def arr_map_def arr_entries_def live_def fun_eq_iff)

lemma demo_begin:
  "KV_NewTX (demo_kv log empty_array 0 [] on txs) =
     (demo_kv log empty_array 0 [] (on @ [length txs]) (txs @ [demo_tx (length txs) empty_array]), length txs)"
  by (simp add: demo_kv_def KV_NewTX_def Let_def demo_tx_def)

lemma demo_levels: "Merged_getExact level_ops level_kv_ops [LArr empty_array, LArr empty_array] [107] = Inr None"
  by code_simp

lemma demo_read: "i < length txs \<Longrightarrow> txs ! i = demo_tx i empty_array \<Longrightarrow> KVTX_Get (demo_kv log empty_array 0 [] on txs) i [107] = Inr None"
  by (simp add: KVTX_Get_def tx_stack_def, simp add: demo_tx_def deref_def demo_levels del: Merged_getExact.simps)

lemma demo_set:
  "i < length txs \<Longrightarrow> txs ! i = demo_tx i empty_array \<Longrightarrow>
   KVTX_SetEx i [107] v ModeUpsert (demo_kv log empty_array 0 [] on txs) =
     (demo_kv log empty_array 0 [] on (txs[i := demo_tx i (demo_mem v)]), Inr True)"
  by (simp add: KVTX_SetEx_def demo_read Let_def tx_update_def) (simp add: demo_kv_def demo_tx_def demo_mem_def)

lemma demo_log:
  obtains log where "KV_commitLog 0 (demo_kv (fst (Log_Open (clean []))) empty_array 0 [] on (demo_tx 0 (demo_mem [1]) # txs)) =
     (demo_kv log empty_array 0 [] on (demo_tx 0 (demo_mem [1]) # txs), Inr ())"
proof -
  obtain f where f: "l_fp (fst (Log_Open (clean []))) = Some f" "f_faults f = []" using Log_Open_demo_sel(2) by blast
  have fits: "list_all entry_fits [entry_of ([107], [1], False)]" by (simp add: entry_of_def entry_fits_def MaxEntrySize_def)
  obtain log where "Log_tx (fst (Log_Open (clean []))) [entry_of ([107], [1], False)] = (log, Inr ())"
    using Log_tx_nofault[OF f fits, of 0] by auto
  then show thesis
    by (intro that[of log]) (simp add: KV_commitLog_def KV_checkTXConflict_def KV_updateLog_def demo_mem_eval arr_entries_def,
      simp add: demo_kv_def)
qed

lemma demo_apply:
  "KV_commitMem no_cache 0 (demo_kv log empty_array 0 [] [0, 1] (demo_tx 0 (demo_mem [1]) # txs)) =
     (demo_kv log (demo_mem [1]) 1 [(1, [107])] [0, 1] (demo_tx 0 (demo_mem [1]) # txs), Inr ())"
  by (simp add: KV_commitMem_def KV_updateMem_def demo_kv_def demo_mem_eval appendSortedArray_def Array_Size_def empty_array_def
      KV_updateHistory_def KV_invalidateCache_def Let_def)

lemma demo_untrack:
  "KV_untrackTXSync 0 (demo_kv log (demo_mem [1]) 1 [(1, [107])] [0, 1] [demo_tx 0 (demo_mem [1]), demo_tx 1 u]) =
     (demo_kv log (demo_mem [1]) 1 [(1, [107])] [1] [(demo_tx 0 (demo_mem [1]))\<lparr>tx_levels := [], tx_err := Some ErrTXDone\<rparr>, demo_tx 1 u], Inr ())"
  by (simp add: KV_untrackTXSync_def demo_kv_def demo_tx_def tx_update_def Let_def prune_history_def)


definition demo_sys :: "Log \<Rightarrow> unit sys" where
  "demo_sys log = \<lparr>s_kv = demo_kv log empty_array 0 [] [] [], s_commit = CFree, s_compact = PIdle\<rparr>"

definition demo_end :: "Log \<Rightarrow> unit sys" where
  "demo_end log = \<lparr>s_kv = demo_kv log (demo_mem [1]) 1 [(1, [107])] [1]
     [(demo_tx 0 (demo_mem [1]))\<lparr>tx_levels := [], tx_err := Some ErrTXDone\<rparr>, demo_tx 1 (demo_mem [2])], s_commit = CFree, s_compact = PIdle\<rparr>"

lemma demo_starts: "starts (demo_sys log)"
  by (simp add: starts_def demo_sys_def) (simp add: demo_kv_def inv_defs)

lemma demo_steps:
  obtains log where "kv_run bloom8 no_cache (demo_sys (fst (Log_Open (clean []))))
    [ABegin 0, ABegin 1, APut 0 [107] [1], APut 1 [107] [2], ACommit 0, AEnd 0] (demo_end log)"
proof -
  let ?l = "fst (Log_Open (clean []))" and ?t = "demo_tx 0 (demo_mem [1])" and ?u = "demo_tx 1 (demo_mem [2])"
  let ?s = "\<lambda>kv c. \<lparr>s_kv = kv, s_commit = c, s_compact = PIdle\<rparr>" and ?R = "kv_run bloom8 no_cache (demo_sys ?l)"
  let ?k0 = "demo_kv ?l empty_array 0 [] [] []" and ?k1 = "demo_kv ?l empty_array 0 [] [0] [demo_tx 0 empty_array]"
  let ?k2 = "demo_kv ?l empty_array 0 [] [0, 1] [demo_tx 0 empty_array, demo_tx 1 empty_array]"
  let ?k3 = "demo_kv ?l empty_array 0 [] [0, 1] [?t, demo_tx 1 empty_array]"
  let ?k4 = "demo_kv ?l empty_array 0 [] [0, 1] [?t, ?u]"
  obtain log where l: "KV_commitLog 0 ?k4 = (demo_kv log empty_array 0 [] [0, 1] [?t, ?u], Inr ())" using demo_log .
  let ?k5 = "demo_kv log empty_array 0 [] [0, 1] [?t, ?u]" and ?k6 = "demo_kv log (demo_mem [1]) 1 [(1, [107])] [0, 1] [?t, ?u]"
  have open_: "\<not> kv_closed ?k0" "\<not> kv_closed ?k1" by (simp_all add: demo_kv_def)
  have "?R [] (?s ?k0 CFree)" by (simp add: demo_sys_def run_nil)
  moreover have "kv_step bloom8 no_cache (?s ?k0 CFree) (Some (ABegin 0)) (?s ?k1 CFree)"
    using k_begin[of "?s ?k0 CFree" ?k1 0] open_ demo_begin[of ?l "[]" "[]"] by simp
  ultimately have "?R [ABegin 0] (?s ?k1 CFree)" using run_act by fastforce
  moreover have "kv_step bloom8 no_cache (?s ?k1 CFree) (Some (ABegin 1)) (?s ?k2 CFree)"
    using k_begin[of "?s ?k1 CFree" ?k2 1] open_ demo_begin[of ?l "[0]" "[demo_tx 0 empty_array]"] by simp
  ultimately have "?R [ABegin 0, ABegin 1] (?s ?k2 CFree)" using run_act by fastforce
  moreover have "kv_step bloom8 no_cache (?s ?k2 CFree) (Some (APut 0 [107] [1])) (?s ?k3 CFree)"
    using k_set[of 0 "?s ?k2 CFree" "[107]" "[1]" ModeUpsert ?k3 True] demo_set[of 0] by simp
  ultimately have "?R [ABegin 0, ABegin 1, APut 0 [107] [1]] (?s ?k3 CFree)" using run_act by fastforce
  moreover have "kv_step bloom8 no_cache (?s ?k3 CFree) (Some (APut 1 [107] [2])) (?s ?k4 CFree)"
    using k_set[of 1 "?s ?k3 CFree" "[107]" "[2]" ModeUpsert ?k4 True] demo_set[of 1 "[?t, demo_tx 1 empty_array]"] by simp
  ultimately have "?R [ABegin 0, ABegin 1, APut 0 [107] [1], APut 1 [107] [2]] (?s ?k4 CFree)" using run_act by fastforce
  moreover have "kv_step bloom8 no_cache (?s ?k4 CFree) None (?s ?k5 (CLogged 0))"
    using k_commit_log[of "?s ?k4 CFree" 0 ?k5 "Inr ()"] l by (simp add: demo_mem_eval Array_Size_def)
  ultimately have "?R [ABegin 0, ABegin 1, APut 0 [107] [1], APut 1 [107] [2]] (?s ?k5 (CLogged 0))" using run_tau by blast
  moreover have "kv_step bloom8 no_cache (?s ?k5 (CLogged 0)) (Some (ACommit 0)) (?s ?k6 (CDone 0))"
    using k_commit_mem[of "?s ?k5 (CLogged 0)" 0 no_cache ?k6 "Inr ()"] demo_apply[of log "[?u]"] by simp
  ultimately have "?R [ABegin 0, ABegin 1, APut 0 [107] [1], APut 1 [107] [2], ACommit 0] (?s ?k6 (CDone 0))" using run_act by fastforce
  moreover have "kv_step bloom8 no_cache (?s ?k6 (CDone 0)) (Some (AEnd 0)) (demo_end log)"
    using k_commit_done[of "?s ?k6 (CDone 0)" 0 "s_kv (demo_end log)" "Inr ()"] demo_untrack[of log "demo_mem [2]"] by (simp add: demo_end_def)
  ultimately have "?R [ABegin 0, ABegin 1, APut 0 [107] [1], APut 1 [107] [2], ACommit 0, AEnd 0] (demo_end log)"
    using run_act by fastforce
  then show thesis by (rule that)
qed

lemma demo_view:
  "kv_view (s_kv (demo_end log)) = [[107] \<mapsto> [1]]" "tx_view (s_kv (demo_end log)) 1 = Map.empty"
  "arr_map (tx_updates (tx_of (s_kv (demo_end log)) 1)) = [[107] \<mapsto> ([2], False)]"
  "overlay (tx_view (s_kv (demo_end log)) 1) (arr_map (tx_updates (tx_of (s_kv (demo_end log)) 1))) = [[107] \<mapsto> [2]]"
  by (simp_all add: demo_end_def demo_kv_def kv_view_def store_levels_def tx_view_def tx_base_def demo_tx_def deref_def)
theorem store_refines_si_witness:
  "\<exists>log \<sigma>. si_run \<lparr>si_view = Map.empty, si_open = Map.empty\<rparr>
      [ABegin 0, ABegin 1, APut 0 [107] [1], APut 1 [107] [2], ACommit 0, AEnd 0] \<sigma> \<and>
    si_view \<sigma> = [[107] \<mapsto> [1]] \<and> dom (si_open \<sigma>) = {1} \<and> KVTX_Get (s_kv (demo_end log)) 1 [107] = Inr (Some [2])"
proof -
  obtain log where r: "kv_run bloom8 no_cache (demo_sys (fst (Log_Open (clean []))))
    [ABegin 0, ABegin 1, APut 0 [107] [1], APut 1 [107] [2], ACommit 0, AEnd 0] (demo_end log)" using demo_steps .
  have "si_start (demo_sys (fst (Log_Open (clean [])))) = \<lparr>si_view = Map.empty, si_open = Map.empty\<rparr>"
    by (simp add: si_start_def demo_sys_def demo_kv_def kv_view_def store_levels_def)
  with store_refines_si[OF r bloom8_ok demo_starts] obtain \<sigma> where \<sigma>: "si_run \<lparr>si_view = Map.empty, si_open = Map.empty\<rparr>
      [ABegin 0, ABegin 1, APut 0 [107] [1], APut 1 [107] [2], ACommit 0, AEnd 0] \<sigma>" "si_view \<sigma> = [[107] \<mapsto> [1]]" "dom (si_open \<sigma>) = {1}"
    by (auto simp: demo_view(1)) (auto simp: demo_end_def)
  have "KVTX_Get (s_kv (demo_end log)) 1 [107] = Inr (Some [2])"
    using tx_Get[OF reachable_inv(2)[OF r bloom8_ok demo_starts], of 1 "[107]"] demo_view(4)[of log] by (simp add: demo_end_def)
  then show ?thesis using \<sigma> by blast
qed

theorem first_committer_wins_witness:
  "\<exists>log. KV_commitLog 1 (s_kv (demo_end log)) = (s_kv (demo_end log), Inl ErrTXConflict)"
proof -
  obtain log where "kv_run bloom8 no_cache (demo_sys (fst (Log_Open (clean []))))
    [ABegin 0, ABegin 1, APut 0 [107] [1], APut 1 [107] [2], ACommit 0, AEnd 0] (demo_end log)" using demo_steps .
  from first_committer_wins[OF this bloom8_ok demo_starts, of 1 "[107]"] show ?thesis using demo_view[of log]
    by (auto simp: demo_end_def demo_mem_eval)
qed

theorem snapshot_range_witness:
  "\<exists>log rit. KVTX_Range (s_kv (demo_end log)) 1 [] [200] False = Inr rit \<and>
     Ranged_collect 2 (nodel_ops stack_ops) rit = Some (Inr [([107], [2])])"
proof -
  obtain log where "kv_run bloom8 no_cache (demo_sys (fst (Log_Open (clean []))))
    [ABegin 0, ABegin 1, APut 0 [107] [1], APut 1 [107] [2], ACommit 0, AEnd 0] (demo_end log)" using demo_steps .
  note r = snapshot_range[OF this bloom8_ok demo_starts, of 1 "[[107] \<mapsto> [2]]" 2 "[]" "[200]" False]
  have "sorted_entries [[107::byte] \<mapsto> [2::byte]] = [([107], [2])]" by (simp add: sorted_entries_def)
  with r show ?thesis using demo_view[of log] by (auto simp: demo_end_def pairs_between_def)
qed
end
