(* ===== verification/StoreOps.thy ===== *)
theory StoreOps
  imports StoreRun
begin

text \<open>
  The operations of \<open>src/db/kv.go\<close> that run in a transaction of their own, over the contents of the
  store: \<open>SetEx\<close> with its three modes, \<open>Del\<close> and \<open>Get\<close>.
\<close>

lemma applyTXSync_ok:
  assumes inv: "store_inv kv pend" and i: "i \<in> set (kv_ongoing kv)" and a: "KV_applyTXSync cl i kv = (kv', r)"
  shows "store_inv kv' pend" and "kv_ongoing kv' = remove1 i (kv_ongoing kv)" and "kv_closed kv' = kv_closed kv"
    and "kv_view kv' = (if r = Inr () then overlay (kv_view kv) (arr_map (tx_updates (tx_of kv i))) else kv_view kv)"
proof -
  define m where "m = (if Array_Size (tx_updates (tx_of kv i)) = 0 then (kv, Inr ())
    else sbind (KV_commitLog i kv) (\<lambda>kv _. KV_commitMem cl i kv))"
  have wf: "arr_wf (tx_updates (tx_of kv i))" and e: "tx_err (tx_of kv i) = None"
    using store_invE(7)[OF inv i] by (simp_all add: tx_inv_def)
  have "\<exists>k1 r1. m = (k1, r1) \<and> store_inv k1 pend \<and> kv_ongoing k1 = kv_ongoing kv \<and> kv_closed k1 = kv_closed kv \<and>
    kv_view k1 = (if r1 = Inr () then overlay (kv_view kv) (arr_map (tx_updates (tx_of kv i))) else kv_view kv)"
  proof (cases "Array_Size (tx_updates (tx_of kv i)) = 0")
    case True
    then have "arr_map (tx_updates (tx_of kv i)) = Map.empty" using wf by (simp add: dom_arr_map Array_Size_def flip: dom_eq_empty_conv)
    then show ?thesis using True inv by (simp add: m_def)
  next
    case False
    obtain k1 r1 where l: "KV_commitLog i kv = (k1, r1)" by fastforce
    from commitLog_shape[OF l] obtain log where k1: "k1 = kv\<lparr>kv_log := log\<rparr>" by blast
    have inv1: "store_inv k1 pend" and i1: "i \<in> set (kv_ongoing k1)" using inv i by (simp_all add: k1)
    show ?thesis
    proof (cases r1)
      case (Inl e)
      then show ?thesis using False l inv1 by (simp add: m_def k1)
    next
      case (Inr u)
      from commitMem_ok[OF inv1 i1, of cl] obtain k2 where "KV_commitMem cl i k1 = (k2, Inr ())" "store_inv k2 pend"
        "kv_view k2 = overlay (kv_view k1) (arr_map (tx_updates (tx_of k1 i)))" "kv_ongoing k2 = kv_ongoing k1" "kv_closed k2 = kv_closed k1" by metis
      then show ?thesis using False l Inr by (simp add: m_def k1)
    qed
  qed
  then obtain k1 r1 where 1: "m = (k1, r1)" "store_inv k1 pend" "kv_ongoing k1 = kv_ongoing kv" "kv_closed k1 = kv_closed kv"
    "kv_view k1 = (if r1 = Inr () then overlay (kv_view kv) (arr_map (tx_updates (tx_of kv i))) else kv_view kv)" by blast
  from untrack_ok[OF 1(2), of i] i 1(3) obtain k2 where 2: "KV_untrackTXSync i k1 = (k2, Inr ())" "frame (untrack_state i k1) k2"
    "store_inv k2 pend" "kv_view k2 = kv_view k1" by metis
  have "kv' = k2" "r = r1" using a e 1(1) 2(1) by (auto simp: KV_applyTXSync_def m_def)
  then show "store_inv kv' pend" "kv_ongoing kv' = remove1 i (kv_ongoing kv)" "kv_closed kv' = kv_closed kv"
    "kv_view kv' = (if r = Inr () then overlay (kv_view kv) (arr_map (tx_updates (tx_of kv i))) else kv_view kv)"
    using 1 2 frameD[OF 2(2)] by simp_all
qed

text \<open>A write that fits, on a log whose file takes it, is committed.\<close>

lemma applyTXSync_total:
  assumes inv: "store_inv kv pend" and i: "i \<in> set (kv_ongoing kv)" and f: "l_fp (kv_log kv) = Some f" "f_faults f = []"
    and fits: "list_all entry_fits (map entry_of (arr_entries (tx_updates (tx_of kv i))))" and c: "\<not> KV_checkTXConflict kv i"
  shows "\<exists>kv'. KV_applyTXSync cl i kv = (kv', Inr ())"
proof -
  have e: "tx_err (tx_of kv i) = None" using store_invE(7)[OF inv i] by (simp add: tx_inv_def)
  from Log_tx_nofault[OF f fits, of 0] obtain log where "Log_tx (kv_log kv) (map entry_of (arr_entries (tx_updates (tx_of kv i)))) = (log, Inr ())"
    by auto
  then have l: "KV_commitLog i kv = (kv\<lparr>kv_log := log\<rparr>, Inr ())" using c by (simp add: KV_commitLog_def KV_updateLog_def)
  have inv1: "store_inv (kv\<lparr>kv_log := log\<rparr>) pend" and i1: "i \<in> set (kv_ongoing (kv\<lparr>kv_log := log\<rparr>))" using inv i by simp_all
  from commitMem_ok[OF inv1 i1, of cl] obtain k2 where k2: "KV_commitMem cl i (kv\<lparr>kv_log := log\<rparr>) = (k2, Inr ())" "store_inv k2 pend"
    "kv_ongoing k2 = kv_ongoing (kv\<lparr>kv_log := log\<rparr>)" by metis
  have i2: "i \<in> set (kv_ongoing k2)" using k2(3) i1 by simp
  obtain k3 where k3: "KV_untrackTXSync i k2 = (k3, Inr ())" using untrack_ok[OF k2(2) i2] by metis
  obtain k4 where k4: "KV_untrackTXSync i kv = (k4, Inr ())" using untrack_ok[OF inv i] by metis
  show ?thesis using l k2(1) k3 k4 e by (auto simp: KV_applyTXSync_def)
qed


section \<open>Set and delete\<close>

lemma SetEx_mode:
  assumes "KVTX_Get kv i key = Inr old" and "KVTX_SetEx i key val mode kv = (kv', r)"
  shows "r = (case mode_writes mode old val of None \<Rightarrow> Inl (Error ''invalid update mode'') | Some b \<Rightarrow> Inr b)"
    and "isl r \<Longrightarrow> kv' = kv"
  using assms(2) unfolding SetEx_step[OF assms(1)] by (auto split: option.splits)

definition history_ok :: "'c KV \<Rightarrow> bool" where
  "history_ok kv \<longleftrightarrow> (\<forall>h\<in>set (kv_history kv). fst h \<le> kv_snapshot kv)"

lemma fresh_no_conflict:
  assumes "history_ok kv" and "kv_history kv' = kv_history kv" and "tx_snapshot (tx_of kv' i) = kv_snapshot kv"
  shows "\<not> KV_checkTXConflict kv' i"
  using assms by (fastforce simp: history_ok_def KV_checkTXConflict_def list_ex_iff)

text \<open>The end of a single operation: the writes \<open>u\<close> of a transaction that has just begun.\<close>

lemma single_commit:
  assumes inv: "store_inv kv pend" and op: "\<not> kv_closed kv" and new: "KV_NewTX kv = (k1, i)" and u: "arr_wf u"
    and c: "KVTX_Commit cl i (with_updates i u k1) = (kv', r)"
  shows "store_inv kv' pend" and "kv_ongoing kv' = kv_ongoing kv"
    and "kv_view kv' = (if r = Inr () then overlay (kv_view kv) (arr_map u) else kv_view kv)"
    and "history_ok kv \<Longrightarrow> l_fp (kv_log kv) = Some f \<Longrightarrow> f_faults f = [] \<Longrightarrow> list_all entry_fits (map entry_of (arr_entries u)) \<Longrightarrow> r = Inr ()"
proof -
  note N = NewTX_ok[OF inv op new]
  let ?k = "with_updates i u k1"
  have i1: "i \<in> set (kv_ongoing k1)" using N(9) by simp
  note W = with_updates_inv[OF N(2) i1 u]
  have il: "i < length (kv_txs k1)" using store_invE(7)[OF N(2) i1] by (simp add: tx_inv_def)
  have sel: "kv_ongoing ?k = kv_ongoing k1" "kv_history ?k = kv_history k1" "kv_log ?k = kv_log k1" by (simp_all add: with_updates_def)
  have i2: "i \<in> set (kv_ongoing ?k)" using i1 sel by simp
  have "tx_target (tx_of ?k i) = TKV" using store_invE(7)[OF W(1) i2] by (simp add: tx_inv_def)
  then have a: "KV_applyTXSync cl i ?k = (kv', r)" using c by (simp add: KVTX_Commit_def)
  note A = applyTXSync_ok[OF W(1) i2 a]
  have "i \<notin> set (kv_ongoing kv)" using N(1) store_invE(7)[OF inv] by (auto simp: tx_inv_def)
  then show "store_inv kv' pend" "kv_ongoing kv' = kv_ongoing kv"
    "kv_view kv' = (if r = Inr () then overlay (kv_view kv) (arr_map u) else kv_view kv)"
    using A W(2,4) N(3,9) sel by (simp_all add: remove1_append)
  assume h: "history_ok kv" "l_fp (kv_log kv) = Some f" "f_faults f = []" "list_all entry_fits (map entry_of (arr_entries u))"
  have "kv_log k1 = kv_log kv" using new op by (auto simp: KV_NewTX_def Let_def acquire_all)
  moreover have "tx_snapshot (tx_of ?k i) = kv_snapshot kv" using N(6) il by (simp add: with_updates_def)
  ultimately show "r = Inr ()"
    using applyTXSync_total[OF W(1) i2, of f cl] h fresh_no_conflict[OF h(1), of ?k i] N(10) sel W(4) a by auto
qed


lemma with_updates_id: "with_updates i (tx_updates (tx_of kv i)) kv = kv"
  by (simp add: with_updates_def tx_update_def)

lemma single_abort:
  assumes inv: "store_inv kv pend" and op: "\<not> kv_closed kv" and new: "KV_NewTX kv = (k1, i)" and u: "arr_wf u"
    and c: "KVTX_Abort i (with_updates i u k1) = (kv', r)"
  shows "r = Inr ()" and "store_inv kv' pend" and "kv_ongoing kv' = kv_ongoing kv" and "kv_view kv' = kv_view kv"
proof -
  note N = NewTX_ok[OF inv op new]
  let ?k = "with_updates i u k1"
  have i1: "i \<in> set (kv_ongoing k1)" using N(9) by simp
  note W = with_updates_inv[OF N(2) i1 u]
  have sel: "kv_ongoing ?k = kv_ongoing k1" by (simp add: with_updates_def)
  have i2: "i \<in> set (kv_ongoing ?k)" using i1 sel by simp
  have "tx_target (tx_of ?k i) = TKV" using store_invE(7)[OF W(1) i2] by (simp add: tx_inv_def)
  then have a: "KV_untrackTXSync i ?k = (kv', r)" using c by (simp add: KVTX_Abort_def)
  from untrack_ok[OF W(1) i2] a have A: "r = Inr ()" "frame (untrack_state i ?k) kv'" "store_inv kv' pend" "kv_view kv' = kv_view ?k"
    by (metis Pair_inject)+
  have "i \<notin> set (kv_ongoing kv)" using N(1) store_invE(7)[OF inv] by (auto simp: tx_inv_def)
  then show "r = Inr ()" "store_inv kv' pend" "kv_ongoing kv' = kv_ongoing kv" "kv_view kv' = kv_view kv"
    using A W(2) N(3,9) sel frameD(10)[OF A(2)] by (simp_all add: remove1_append)
qed

text \<open>
  C7: a \<open>SetEx\<close> on an open store keeps the invariant and leaves no transaction
  behind.  When it succeeds, its flag says whether the mode asks for the write, and the contents are
  the old ones with the write, if it does; when it fails, the contents are the old ones.  It fails
  only on an unknown mode or an error of the log: with a log file that takes the write and a record
  within the limits it succeeds.
\<close>

theorem KV_SetEx_contract:
  assumes inv: "store_inv kv pend" and op: "\<not> kv_closed kv" and h: "history_ok kv" and s: "KV_SetEx cl key val mode kv = (kv', r)"
  shows "store_inv kv' pend \<and> kv_ongoing kv' = kv_ongoing kv \<and>
    (case r of Inl e \<Rightarrow> kv_view kv' = kv_view kv
     | Inr b \<Rightarrow> mode_writes mode (kv_view kv key) val = Some b \<and> kv_view kv' = (if b then (kv_view kv)(key \<mapsto> val) else kv_view kv)) \<and>
    (\<forall>f. l_fp (kv_log kv) = Some f \<and> f_faults f = [] \<and> length key + length val \<le> MaxEntrySize \<longrightarrow>
      (isl r \<longleftrightarrow> mode_writes mode (kv_view kv key) val = None))"
proof -
  obtain k1 i where new: "KV_NewTX kv = (k1, i)" by fastforce
  note N = NewTX_ok[OF inv op new]
  have i1: "i \<in> set (kv_ongoing k1)" using N(9) by simp
  have get: "KVTX_Get k1 i key = Inr (kv_view kv key)" using tx_Get[OF N(2) i1, of key] N(4,5) by simp
  obtain k2 r2 where set: "KVTX_SetEx i key val mode k1 = (k2, r2)" by fastforce
  have wf0: "arr_wf empty_array" and k1: "with_updates i empty_array k1 = k1" using with_updates_id[of i k1] N(5) by simp_all
  note r2 = SetEx_mode(1)[OF get set]
  have res: "(kv', r) = abortOrCommit cl i (k2, r2)" using s new set by (simp add: KV_SetEx_def)
  show ?thesis
  proof (cases r2)
    case (Inl e)
    then have m: "mode_writes mode (kv_view kv key) val = None" and k2: "k2 = k1"
      using r2 SetEx_mode(2)[OF get set] by (auto split: option.splits)
    obtain k3 r3 where ab: "KVTX_Abort i k1 = (k3, r3)" by fastforce
    then have "KVTX_Abort i (with_updates i empty_array k1) = (k3, r3)" using k1 by simp
    note A = single_abort[OF inv op new wf0 this]
    show ?thesis using res A Inl k2 ab m by (simp add: abortOrCommit_def)
  next
    case (Inr b)
    then have m: "mode_writes mode (kv_view kv key) val = Some b" using r2 by (auto split: option.splits)
    have "if b then \<exists>u. arr_wf u \<and> arr_map u = [key \<mapsto> (val, False)] \<and> k2 = with_updates i u k1 else k2 = k1"
      using SetEx_cases[OF N(2) i1 set[unfolded Inr]] by (simp add: N(5) cong: if_cong)
    then obtain u where u: "arr_wf u" "k2 = with_updates i u k1" "arr_map u = (if b then [key \<mapsto> (val, False)] else Map.empty)"
      using wf0 k1 arr_wf_empty(2) by (metis (full_types))
    obtain k3 r3 where cm: "KVTX_Commit cl i k2 = (k3, r3)" by fastforce
    note A = single_commit[OF inv op new u(1) cm[unfolded u(2)]]
    have ent: "arr_entries u = (if b then [(key, val, False)] else [])"
      using arr_entries_eq[OF u(1)] u(3) by (simp add: sorted_entries_def)
    have fit: "list_all entry_fits (map entry_of (arr_entries u))" if "length key + length val \<le> MaxEntrySize"
      using that by (simp add: ent entry_of_def entry_fits_def)
    then show ?thesis using res A u(3) Inr cm m h by (cases r3) (simp_all add: abortOrCommit_def, blast)
  qed
qed


lemma demo_store_ok: "store_inv (demo_kv log empty_array 0 [] [] []) []" "history_ok (demo_kv log empty_array 0 [] [] [])"
  "\<not> kv_closed (demo_kv log empty_array 0 [] [] [])" "kv_view (demo_kv log empty_array 0 [] [] []) = Map.empty"
  by (simp_all add: demo_kv_def inv_defs history_ok_def kv_view_def store_levels_def)

theorem KV_SetEx_contract_witness:
  "\<exists>kv'. KV_SetEx no_cache [107] [1] ModeInsert (demo_kv (fst (Log_Open (clean []))) empty_array 0 [] [] []) = (kv', Inr True) \<and>
     kv_view kv' = [[107] \<mapsto> [1]]"
proof -
  let ?kv = "demo_kv (fst (Log_Open (clean []))) empty_array 0 [] [] []"
  obtain kv' r where s: "KV_SetEx no_cache [107] [1] ModeInsert ?kv = (kv', r)" by fastforce
  have m: "mode_writes ModeInsert (kv_view ?kv [107]) [1] = Some True" by (simp add: mode_writes_def demo_store_ok)
  obtain f where "l_fp (fst (Log_Open (clean []))) = Some f" "f_faults f = []" using Log_Open_demo_sel(2) by blast
  with KV_SetEx_contract[OF demo_store_ok(1,3,2) s] show ?thesis using m s
    by (auto simp: MaxEntrySize_def demo_store_ok split: sum.splits)
qed

text \<open>
  C8: a \<open>Del\<close> on an open store keeps the invariant and leaves no transaction behind.
  When it succeeds, its flag says whether the key was there, and the key is gone; when it fails, the
  contents are the old ones.  With a log file that takes the write it succeeds.
\<close>

theorem KV_Del_contract:
  assumes inv: "store_inv kv pend" and op: "\<not> kv_closed kv" and h: "history_ok kv" and s: "KV_Del cl key kv = (kv', r)"
  shows "store_inv kv' pend \<and> kv_ongoing kv' = kv_ongoing kv \<and>
    (case r of Inl e \<Rightarrow> kv_view kv' = kv_view kv | Inr b \<Rightarrow> (b \<longleftrightarrow> key \<in> dom (kv_view kv)) \<and> kv_view kv' = (kv_view kv)(key := None)) \<and>
    (\<forall>f. l_fp (kv_log kv) = Some f \<and> f_faults f = [] \<and> length key \<le> MaxEntrySize \<longrightarrow> \<not> isl r)"
proof -
  obtain k1 i where new: "KV_NewTX kv = (k1, i)" by fastforce
  note N = NewTX_ok[OF inv op new]
  have i1: "i \<in> set (kv_ongoing k1)" using N(9) by simp
  obtain k2 r2 where del: "KVTX_Del i key k1 = (k2, r2)" by fastforce
  have wf0: "arr_wf empty_array" and k1: "with_updates i empty_array k1 = k1" using with_updates_id[of i k1] N(5) by simp_all
  define b where "b \<longleftrightarrow> key \<in> dom (kv_view kv)"
  have r2: "r2 = Inr b" using Del_cases(1)[OF N(2) i1 del] N(4,5) by (simp add: b_def domIff)
  have "if b then \<exists>u. arr_wf u \<and> arr_map u = [key \<mapsto> ([], True)] \<and> k2 = with_updates i u k1 else k2 = k1"
    using Del_cases(2)[OF N(2) i1 del] by (simp add: N(5) r2 cong: if_cong)
  then obtain u where u: "arr_wf u" "k2 = with_updates i u k1" "arr_map u = (if b then [key \<mapsto> ([], True)] else Map.empty)"
    using wf0 k1 arr_wf_empty(2) by (metis (full_types))
  obtain k3 r3 where cm: "KVTX_Commit cl i k2 = (k3, r3)" by fastforce
  note A = single_commit[OF inv op new u(1) cm[unfolded u(2)]]
  have ent: "arr_entries u = (if b then [(key, [], True)] else [])"
    using arr_entries_eq[OF u(1)] u(3) by (simp add: sorted_entries_def)
  have "list_all entry_fits (map entry_of (arr_entries u))" if "length key \<le> MaxEntrySize"
    using that by (simp add: ent entry_of_def entry_fits_def)
  moreover have "overlay (kv_view kv) (arr_map u) = (kv_view kv)(key := None)"
    by (cases b) (auto simp: u(3) b_def)
  moreover have "(kv', r) = abortOrCommit cl i (k2, r2)" using s new del by (simp add: KV_Del_def)
  ultimately show ?thesis using A r2 cm h by (cases r3) (simp_all add: abortOrCommit_def b_def, blast)
qed

theorem KV_Del_contract_witness:
  "\<exists>kv'. KV_Del no_cache [107] (demo_kv (fst (Log_Open (clean []))) empty_array 0 [] [] []) = (kv', Inr False) \<and> kv_view kv' = Map.empty"
proof -
  let ?kv = "demo_kv (fst (Log_Open (clean []))) empty_array 0 [] [] []"
  obtain kv' r where s: "KV_Del no_cache [107] ?kv = (kv', r)" by fastforce
  obtain f where "l_fp (fst (Log_Open (clean []))) = Some f" "f_faults f = []" using Log_Open_demo_sel(2) by blast
  with KV_Del_contract[OF demo_store_ok(1,3,2) s] show ?thesis using s
    by (auto simp: MaxEntrySize_def demo_store_ok split: sum.splits)
qed

end
