(* ===== verification/Row.thy ===== *)
theory Row
  imports Cell Strconv
begin

text \<open>
  \<open>src/db/row.go\<close>: schemas, rows and the encodings of a row as index keys and as a value.  A row
  is a Go slice that the decoders fill in place, so they return it together with their result.
  The theorems: a stored row decodes to itself, index keys sort like the tuples of their cells,
  and an encoded key prefix bounds exactly the keys its cells bound.
\<close>

section \<open>Schemas and rows\<close>

record Column =
  col_Name :: bytes
  col_Type :: byte

record Schema =
  sc_Version :: int
  sc_Table :: bytes
  sc_Cols :: "Column list"
  sc_Indices :: "int list list"

type_synonym row = "cell list"

definition SchemaVersion :: int where "SchemaVersion = 1"

text \<open>\<open>check\<close> of \<open>assert.go\<close>, and Go's run-time error for an index outside a slice.\<close>

definition check_failed :: err where "check_failed = Panic ''assertion failure''"
definition index_error :: err where "index_error = Panic ''index out of range''"

definition go_index :: "'a list \<Rightarrow> int \<Rightarrow> 'a res" where
  "go_index xs i = (if 0 \<le> i \<and> i < int (length xs) then Inr (xs ! nat i) else Inl index_error)"

lemma go_index_ok [simp]: "0 \<le> i \<Longrightarrow> i < int (length xs) \<Longrightarrow> go_index xs i = Inr (xs ! nat i)"
  by (simp add: go_index_def)

definition Schema_NewRow :: "Schema \<Rightarrow> row" where
  "Schema_NewRow schema = replicate (length (sc_Cols schema)) (Cell_of_type 0)"

definition Schema_Validate :: "Schema \<Rightarrow> unit res" where
  "Schema_Validate schema =
     (if sc_Version schema \<noteq> SchemaVersion then Inl (Error ''unsupported schema version'')
      else if sc_Table schema = [] \<or> sc_Cols schema = [] then Inl (Error ''corrupted schema'')
      else if \<not> list_all (\<lambda>col. col_Name col \<noteq> [] \<and> (col_Type col = TypeI64 \<or> col_Type col = TypeStr)) (sc_Cols schema)
        then Inl (Error ''corrupted schema'')
      else if sc_Indices schema = [] \<or> 256 < length (sc_Indices schema) then Inl (Error ''corrupted schema'')
      else if \<not> list_all (\<lambda>index. index \<noteq> [] \<and> list_all (\<lambda>idx. 0 \<le> idx \<and> idx < int (length (sc_Cols schema))) index)
          (sc_Indices schema) then Inl (Error ''corrupted schema'')
      else Inr ())"

section \<open>Encoding\<close>

fun EncodeKey_loop :: "Schema \<Rightarrow> row \<Rightarrow> int list \<Rightarrow> bytes \<Rightarrow> bytes res" where
  "EncodeKey_loop schema row [] key = Inr key"
| "EncodeKey_loop schema row (idx # index) key =
     rbind (go_index row idx) (\<lambda>cell.
     rbind (go_index (sc_Cols schema) idx) (\<lambda>col.
     if cell_Type cell \<noteq> col_Type col then Inl check_failed
     else rbind (Cell_EncodeKey cell (key @ [cell_Type cell])) (EncodeKey_loop schema row index)))"

definition Row_EncodeKey :: "row \<Rightarrow> Schema \<Rightarrow> int \<Rightarrow> bytes res" where
  "Row_EncodeKey row schema indexNo =
     (if length row \<noteq> length (sc_Cols schema) then Inl check_failed
      else rbind (go_index (sc_Indices schema) indexNo) (\<lambda>index.
        rbind (EncodeKey_loop schema row index (sc_Table schema @ [0x00, word_of_int indexNo])) (\<lambda>key.
        Inr (key @ [0x00]))))"

fun EncodeKeyPrefix_loop :: "Schema \<Rightarrow> int list \<Rightarrow> cell list \<Rightarrow> bytes \<Rightarrow> bytes res" where
  "EncodeKeyPrefix_loop schema index [] key = Inr key"
| "EncodeKeyPrefix_loop schema [] (cell # prefix) key = Inl index_error"
| "EncodeKeyPrefix_loop schema (idx # index) (cell # prefix) key =
     rbind (go_index (sc_Cols schema) idx) (\<lambda>col.
     if cell_Type cell \<noteq> col_Type col then Inl (Error ''key prefix type mismatch'')
     else rbind (Cell_EncodeKey cell (key @ [cell_Type cell])) (EncodeKeyPrefix_loop schema index prefix))"

definition EncodeKeyPrefix :: "Schema \<Rightarrow> int \<Rightarrow> cell list \<Rightarrow> bool \<Rightarrow> bytes res" where
  "EncodeKeyPrefix schema indexNo prefix positive =
     (if indexNo < 0 \<or> int (length (sc_Indices schema)) \<le> indexNo then Inl (Error ''unknown index'')
      else let index = sc_Indices schema ! nat indexNo in
        if length index < length prefix then Inl (Error ''key prefix is longer than the index'')
        else rbind (EncodeKeyPrefix_loop schema index prefix (sc_Table schema @ [0x00, word_of_int indexNo])) (\<lambda>key.
          Inr (if positive then key @ [0xff] else key)))"

text \<open>The columns from position \<open>i\<close> on that are not in the primary key.\<close>

fun EncodeVal_loop :: "int list \<Rightarrow> int \<Rightarrow> Column list \<Rightarrow> row \<Rightarrow> bytes \<Rightarrow> bytes res" where
  "EncodeVal_loop pkey i (col # cols) (cell # row) val =
     (if i \<in> set pkey then EncodeVal_loop pkey (i + 1) cols row val
      else if cell_Type cell \<noteq> col_Type col then Inl check_failed
      else rbind (Cell_EncodeVal cell val) (EncodeVal_loop pkey (i + 1) cols row))"
| "EncodeVal_loop pkey i cols row val = Inr val"

definition Row_EncodeVal :: "row \<Rightarrow> Schema \<Rightarrow> bytes res" where
  "Row_EncodeVal row schema =
     (if length row \<noteq> length (sc_Cols schema) then Inl check_failed
      else rbind (go_index (sc_Indices schema) 0) (\<lambda>pkey. EncodeVal_loop pkey 0 (sc_Cols schema) row []))"

section \<open>Decoding\<close>

fun DecodeKey_loop :: "Schema \<Rightarrow> int list \<Rightarrow> bytes \<Rightarrow> row \<Rightarrow> row \<times> bytes res" where
  "DecodeKey_loop schema [] key row = (row, Inr key)"
| "DecodeKey_loop schema (idx # index) key row =
     (case go_index (sc_Cols schema) idx of Inl e \<Rightarrow> (row, Inl e)
      | Inr col \<Rightarrow>
          let t = col_Type col; row = row[nat idx := Cell_of_type t] in
          if key = [] \<or> hd key \<noteq> t then (row, Inl (Error ''bad key''))
          else case Cell_DecodeKey (Cell_of_type t) (tl key) of
            Inl e \<Rightarrow> (row, Inl e)
          | Inr (cell, key) \<Rightarrow> DecodeKey_loop schema index key (row[nat idx := cell]))"

text \<open>
  \<open>string(byte(indexNo))\<close> converts the byte to a rune: from 128 on the string is the two byte
  UTF-8 encoding, not the byte.
\<close>

definition Row_DecodeKey :: "Schema \<Rightarrow> int \<Rightarrow> bytes \<Rightarrow> row \<Rightarrow> row \<times> unit res" where
  "Row_DecodeKey schema indexNo key row =
     (if length row \<noteq> length (sc_Cols schema) then (row, Inl check_failed)
      else let n = length (sc_Table schema) + 2 in
        if length key < n then (row, Inl ErrOutOfRange)
        else if take n key \<noteq> sc_Table schema @ [0x00] @ EncodeRune (unat (word_of_int indexNo :: byte))
          then (row, Inl ErrOutOfRange)
        else case go_index (sc_Indices schema) indexNo of Inl e \<Rightarrow> (row, Inl e)
          | Inr index \<Rightarrow> sbind (DecodeKey_loop schema index (drop n key) row) (\<lambda>row key.
              if key = [0x00] then (row, Inr ()) else (row, Inl (Error ''bad key''))))"

fun DecodeVal_loop :: "int list \<Rightarrow> int \<Rightarrow> Column list \<Rightarrow> bytes \<Rightarrow> row \<Rightarrow> row \<times> bytes res" where
  "DecodeVal_loop pkey i [] val row = (row, Inr val)"
| "DecodeVal_loop pkey i (col # cols) val row =
     (if i \<in> set pkey then DecodeVal_loop pkey (i + 1) cols val row
      else let row = row[nat i := Cell_of_type (col_Type col)] in
        case Cell_DecodeVal (Cell_of_type (col_Type col)) val of
          Inl e \<Rightarrow> (row, Inl e)
        | Inr (cell, val) \<Rightarrow> DecodeVal_loop pkey (i + 1) cols val (row[nat i := cell]))"

definition Row_DecodeVal :: "Schema \<Rightarrow> bytes \<Rightarrow> row \<Rightarrow> row \<times> unit res" where
  "Row_DecodeVal schema val row =
     (if length row \<noteq> length (sc_Cols schema) then (row, Inl check_failed)
      else case go_index (sc_Indices schema) 0 of Inl e \<Rightarrow> (row, Inl e)
        | Inr pkey \<Rightarrow> sbind (DecodeVal_loop pkey 0 (sc_Cols schema) val row) (\<lambda>row val.
            if val \<noteq> [] then (row, Inl (Error ''trailing garbage'')) else (row, Inr ())))"


section \<open>What a valid schema and a row of it are\<close>

definition schema_ok :: "Schema \<Rightarrow> bool" where
  "schema_ok s \<longleftrightarrow> Schema_Validate s = Inr ()"

lemma schema_ok_iff:
  "schema_ok s \<longleftrightarrow> sc_Version s = SchemaVersion \<and> sc_Table s \<noteq> [] \<and> sc_Cols s \<noteq> [] \<and>
     (\<forall>col\<in>set (sc_Cols s). col_Name col \<noteq> [] \<and> (col_Type col = TypeI64 \<or> col_Type col = TypeStr)) \<and>
     sc_Indices s \<noteq> [] \<and> length (sc_Indices s) \<le> 256 \<and>
     (\<forall>index\<in>set (sc_Indices s). index \<noteq> [] \<and> (\<forall>idx\<in>set index. 0 \<le> idx \<and> idx < int (length (sc_Cols s))))"
  by (auto simp: schema_ok_def Schema_Validate_def list_all_iff split: if_splits)

definition cell_ok :: "cell \<Rightarrow> byte \<Rightarrow> bool" where
  "cell_ok c t \<longleftrightarrow> cell_wf c \<and> cell_Type c = t \<and> length (cell_Str c) < 2 ^ 32"

definition row_ok :: "Schema \<Rightarrow> row \<Rightarrow> bool" where
  "row_ok s row \<longleftrightarrow> list_all2 cell_ok row (map col_Type (sc_Cols s))"

lemma row_ok_length: "row_ok s row \<Longrightarrow> length row = length (sc_Cols s)"
  by (auto simp: row_ok_def dest: list_all2_lengthD)

lemma row_ok_nth: "row_ok s row \<Longrightarrow> i < length (sc_Cols s) \<Longrightarrow> cell_ok (row ! i) (col_Type (sc_Cols s ! i))"
  by (auto simp: row_ok_def list_all2_conv_all_nth)

abbreviation index_of :: "Schema \<Rightarrow> nat \<Rightarrow> int list" where
  "index_of s n \<equiv> sc_Indices s ! n"

definition index_in :: "Schema \<Rightarrow> int list \<Rightarrow> bool" where
  "index_in s index \<longleftrightarrow> (\<forall>idx\<in>set index. 0 \<le> idx \<and> idx < int (length (sc_Cols s)))"

lemma index_in_Cons [simp]: "index_in s (idx # index) \<longleftrightarrow> 0 \<le> idx \<and> idx < int (length (sc_Cols s)) \<and> index_in s index"
  and index_in_Nil [simp]: "index_in s []"
  by (auto simp: index_in_def)

lemma index_of_in: "schema_ok s \<Longrightarrow> n < length (sc_Indices s) \<Longrightarrow> index_in s (index_of s n)"
  by (auto simp: schema_ok_iff index_in_def)

lemma schema_ok_indices: "schema_ok s \<Longrightarrow> 0 < length (sc_Indices s) \<and> length (sc_Indices s) \<le> 256"
  by (auto simp: schema_ok_iff)

section \<open>Tuples of cells as keys\<close>

definition row_cells :: "row \<Rightarrow> int list \<Rightarrow> cell list" where
  "row_cells row index = map (\<lambda>i. row ! nat i) index"

lemma row_cells_simps [simp]:
  "row_cells row [] = []" "row_cells row (i # is) = row ! nat i # row_cells row is" "length (row_cells row index) = length index"
  by (simp_all add: row_cells_def)

fun cells_key :: "cell list \<Rightarrow> bytes" where
  "cells_key [] = []"
| "cells_key (c # cs) = cell_Type c # cell_key c @ cells_key cs"

lemma cells_key_append [simp]: "cells_key (as @ bs) = cells_key as @ cells_key bs"
  by (induction as) auto

fun cells_less :: "cell list \<Rightarrow> cell list \<Rightarrow> bool" where
  "cells_less (a # as) (b # bs) \<longleftrightarrow> cell_less a b \<or> a = b \<and> cells_less as bs"
| "cells_less _ _ \<longleftrightarrow> False"

definition cells_of :: "cell list \<Rightarrow> byte list \<Rightarrow> bool" where
  "cells_of cs ts \<longleftrightarrow> list_all2 (\<lambda>c t. cell_wf c \<and> cell_Type c = t) cs ts"

lemma cells_of_simps [simp]:
  "cells_of [] ts \<longleftrightarrow> ts = []" "cells_of (c # cs) (t # ts) \<longleftrightarrow> cell_wf c \<and> cell_Type c = t \<and> cells_of cs ts"
  "cells_of cs [] \<longleftrightarrow> cs = []"
  by (auto simp: cells_of_def)

lemma cells_of_ConsD: "cells_of (c # cs) ts \<Longrightarrow> \<exists>us. ts = cell_Type c # us \<and> cell_wf c \<and> cells_of cs us"
  by (cases ts) auto

lemma cells_of_take: "cells_of cs ts \<Longrightarrow> cells_of (take n cs) (take n ts)"
  by (simp add: cells_of_def)

lemma cells_key_less_iff:
  assumes "cells_of as ts" and "cells_of bs ts"
  shows "cells_key as @ r < cells_key bs @ r' \<longleftrightarrow> cells_less as bs \<or> as = bs \<and> r < r'"
  using assms
proof (induction as arbitrary: bs ts)
  case Nil
  then show ?case by simp
next
  case (Cons a as)
  then obtain us where t: "ts = cell_Type a # us" "cell_wf a" "cells_of as us" using cells_of_ConsD by blast
  with Cons.prems obtain b bs' where b: "bs = b # bs'" "cell_wf b" "cell_Type b = cell_Type a" "cells_of bs' us"
    by (cases bs) auto
  then show ?case using cell_key_less_iff[OF t(2) b(2)] Cons.IH[OF t(3) b(4)] by auto
qed

lemma cells_less_linear:
  assumes "cells_of as ts" and "cells_of bs ts"
  shows "cells_less as bs \<or> as = bs \<or> cells_less bs as" and "cells_less as bs \<Longrightarrow> \<not> cells_less bs as \<and> as \<noteq> bs"
proof -
  have 1: "cells_key as @ [0] < cells_key bs @ [0] \<longleftrightarrow> cells_less as bs" "cells_key bs @ [0] < cells_key as @ [0] \<longleftrightarrow> cells_less bs as"
    using cells_key_less_iff[OF assms, of "[0]" "[0]"] cells_key_less_iff[OF assms(2,1), of "[0]" "[0]"] by auto
  have "cells_key as = cells_key bs \<Longrightarrow> as = bs" using cells_key_less_iff[OF assms, of "[]" "[0]"]
      cells_key_less_iff[OF assms(2,1), of "[]" "[0]"] by (auto simp: 1[symmetric])
  then show "cells_less as bs \<or> as = bs \<or> cells_less bs as" using 1 by (metis linorder_less_linear append_same_eq)
  show "cells_less as bs \<Longrightarrow> \<not> cells_less bs as \<and> as \<noteq> bs" using 1 by (auto simp: order_less_imp_not_less)
qed

text \<open>Every type byte is smaller than the byte that closes a positive prefix.\<close>

lemma cells_key_ff: "cells_of cs ts \<Longrightarrow> cells_key cs @ [0] < [0xff]"
  by (cases cs) (auto dest!: cells_of_ConsD simp: cell_wf_def)


section \<open>The keys of a row\<close>

definition key_head :: "Schema \<Rightarrow> nat \<Rightarrow> bytes" where
  "key_head s n = sc_Table s @ [0x00, word_of_nat n]"

definition index_types :: "Schema \<Rightarrow> nat \<Rightarrow> byte list" where
  "index_types s n = map (\<lambda>i. col_Type (sc_Cols s ! nat i)) (index_of s n)"

definition row_key :: "Schema \<Rightarrow> nat \<Rightarrow> row \<Rightarrow> bytes" where
  "row_key s n row = key_head s n @ cells_key (row_cells row (index_of s n)) @ [0x00]"

definition prefix_key :: "Schema \<Rightarrow> nat \<Rightarrow> cell list \<Rightarrow> bool \<Rightarrow> bytes" where
  "prefix_key s n cells pos = key_head s n @ cells_key cells @ (if pos then [0xff] else [])"

lemma row_cells_of:
  assumes "row_ok s row" and "index_in s index"
  shows "cells_of (row_cells row index) (map (\<lambda>i. col_Type (sc_Cols s ! nat i)) index)"
  using assms(2)
proof (induction index)
  case (Cons i index)
  then show ?case using row_ok_nth[OF assms(1), of "nat i"] by (auto simp: cell_ok_def nat_less_iff)
qed simp

lemma row_index_cells_of:
  "schema_ok s \<Longrightarrow> row_ok s row \<Longrightarrow> n < length (sc_Indices s) \<Longrightarrow> cells_of (row_cells row (index_of s n)) (index_types s n)"
  unfolding index_types_def by (intro row_cells_of index_of_in)

lemma EncodeKey_loop_ok:
  assumes "row_ok s row" and "index_in s index"
  shows "EncodeKey_loop s row index key = Inr (key @ cells_key (row_cells row index))"
  using assms(2)
proof (induction index arbitrary: key)
  case (Cons i index)
  then have i: "nat i < length (sc_Cols s)" "int (nat i) = i" by auto
  note c = row_ok_nth[OF assms(1) i(1), unfolded cell_ok_def]
  show ?case using Cons c row_ok_length[OF assms(1)] by (simp add: Cell_EncodeKey_eq)
qed simp

lemma Row_EncodeKey_ok:
  assumes "schema_ok s" and "row_ok s row" and "n < length (sc_Indices s)"
  shows "Row_EncodeKey row s (int n) = Inr (row_key s n row)"
  using EncodeKey_loop_ok[OF assms(2) index_of_in[OF assms(1,3)]] row_ok_length[OF assms(2)] assms(3)
  by (simp add: Row_EncodeKey_def row_key_def key_head_def)

lemma EncodeKeyPrefix_loop_ok:
  assumes "index_in s index" and "cells_of cells (take (length cells) (map (\<lambda>i. col_Type (sc_Cols s ! nat i)) index))"
  shows "EncodeKeyPrefix_loop s index cells key = Inr (key @ cells_key cells)"
  using assms
proof (induction s index cells key rule: EncodeKeyPrefix_loop.induct)
  case (3 s idx index cell pre key)
  then show ?case by (simp add: Cell_EncodeKey_eq)
qed auto

text \<open>A leading part of the columns of an index, of their types.\<close>

definition prefix_ok :: "Schema \<Rightarrow> nat \<Rightarrow> cell list \<Rightarrow> bool" where
  "prefix_ok s n cells \<longleftrightarrow> n < length (sc_Indices s) \<and> length cells \<le> length (index_of s n) \<and>
     cells_of cells (take (length cells) (index_types s n))"

lemma EncodeKeyPrefix_ok:
  assumes "schema_ok s" and "prefix_ok s n cells"
  shows "EncodeKeyPrefix s (int n) cells pos = Inr (prefix_key s n cells pos)"
  using assms EncodeKeyPrefix_loop_ok[of s "index_of s n" cells] index_of_in[OF assms(1), of n]
  by (simp add: EncodeKeyPrefix_def prefix_ok_def index_types_def prefix_key_def key_head_def)

text \<open>A prefix bounds exactly the keys its cells bound.\<close>

lemma Nil_less_snoc: "([] :: 'a::linorder list) < xs @ [x]"
  by (cases xs) auto

lemma row_key_prefix_split:
  assumes "schema_ok s" and "row_ok s row" and "prefix_ok s n cells"
  obtains r ts where "row_key s n row = key_head s n @ cells_key (take (length cells) (row_cells row (index_of s n))) @ r"
    "r < [0xff]" "[] < r" "cells_of (take (length cells) (row_cells row (index_of s n))) ts" "cells_of cells ts"
proof -
  let ?c = "row_cells row (index_of s n)"
  have n: "n < length (sc_Indices s)" using assms(3) by (simp add: prefix_ok_def)
  note o = row_index_cells_of[OF assms(1,2) n]
  have "cells_of (drop (length cells) ?c) (drop (length cells) (index_types s n))"
    using o by (simp add: cells_of_def)
  from cells_key_ff[OF this] show thesis
    using cells_of_take[OF o, of "length cells"] assms(3)
    by (intro that[of "cells_key (drop (length cells) ?c) @ [0]" "take (length cells) (index_types s n)"])
      (simp_all add: row_key_def prefix_ok_def Nil_less_snoc flip: cells_key_append append_assoc)
qed

lemma prefix_bounds:
  assumes "schema_ok s" and "row_ok s row" and "prefix_ok s n cells"
  defines "c \<equiv> take (length cells) (row_cells row (index_of s n))"
  shows "row_key s n row \<le> prefix_key s n cells pos \<longleftrightarrow> (if pos then \<not> cells_less cells c else cells_less c cells)"
    and "prefix_key s n cells pos \<le> row_key s n row \<longleftrightarrow> (if pos then cells_less cells c else \<not> cells_less c cells)"
proof -
  obtain r ts where r: "row_key s n row = key_head s n @ cells_key c @ r" "r < [0xff]" "[] < r" "cells_of c ts" "cells_of cells ts"
    using row_key_prefix_split[OF assms(1-3)] unfolding c_def by metis
  let ?e = "if pos then [0xff] else []"
  have less: "cells_key cells @ ?e < cells_key c @ r \<longleftrightarrow> cells_less cells c \<or> cells = c \<and> \<not> pos"
    "cells_key c @ r < cells_key cells @ ?e \<longleftrightarrow> cells_less c cells \<or> c = cells \<and> pos"
    using cells_key_less_iff[OF r(5,4), of ?e r] cells_key_less_iff[OF r(4,5), of r ?e] r(2,3)
    by (auto simp: order_less_imp_not_less)
  note lin = cells_less_linear[OF r(4,5)]
  show "row_key s n row \<le> prefix_key s n cells pos \<longleftrightarrow> (if pos then \<not> cells_less cells c else cells_less c cells)"
    using less(1) lin by (auto simp: r(1) prefix_key_def not_less[symmetric])
  show "prefix_key s n cells pos \<le> row_key s n row \<longleftrightarrow> (if pos then cells_less cells c else \<not> cells_less c cells)"
    using less(2) lin by (auto simp: r(1) prefix_key_def not_less[symmetric])
qed

text \<open>What lies between two keys of one index has the head of that index.\<close>

lemma between_common_prefix:
  "(p :: 'a::linorder list) @ x \<le> k \<Longrightarrow> k \<le> p @ y \<Longrightarrow> \<exists>z. k = p @ z"
proof (induction p arbitrary: k)
  case (Cons a p)
  then obtain b k' where k: "k = b # k'" by (cases k) auto
  with Cons.prems have "b = a" "p @ x \<le> k'" "k' \<le> p @ y" by auto
  with Cons.IH k show ?case by auto
qed simp

lemma between_prefix_keys:
  "prefix_key s n a pos \<le> k \<Longrightarrow> k \<le> prefix_key s n b pos' \<Longrightarrow> \<exists>z. k = key_head s n @ z"
  unfolding prefix_key_def by (rule between_common_prefix)


section \<open>Reading a row back\<close>

text \<open>The cells of \<open>row\<close> at the positions in \<open>A\<close>, over \<open>row0\<close>.\<close>

definition mix :: "int set \<Rightarrow> row \<Rightarrow> row \<Rightarrow> row" where
  "mix A row row0 = map (\<lambda>i. if int i \<in> A then row ! i else row0 ! i) [0..<length row0]"

lemma mix_simps [simp]:
  "length (mix A row row0) = length row0" "mix {} row row0 = row0"
  by (simp_all add: mix_def map_nth)

lemma mix_upd:
  assumes "i < length row0"
  shows "mix A row (row0[i := row ! i]) = mix (insert (int i) A) row row0"
  using assms by (auto simp: mix_def nth_list_update)

lemma mix_mix: "length row = length row0 \<Longrightarrow> mix A row (mix (- A) row row0) = row"
  by (rule nth_equalityI) (auto simp: mix_def)

lemma DecodeKey_loop_ok:
  assumes row: "row_ok s row" and "index_in s index" and "length row0 = length (sc_Cols s)"
  shows "DecodeKey_loop s index (cells_key (row_cells row index) @ rest) row0 = (mix (set index) row row0, Inr rest)"
  using assms(2,3)
proof (induction index arbitrary: row0)
  case (Cons i index)
  then have i: "nat i < length (sc_Cols s)" "int (nat i) = i" by auto
  note c = row_ok_nth[OF row i(1), unfolded cell_ok_def]
  have "Cell_DecodeKey (Cell_of_type (col_Type (sc_Cols s ! nat i))) (cell_key (row ! nat i) @ cells_key (row_cells row index) @ rest) =
      Inr (row ! nat i, cells_key (row_cells row index) @ rest)" using c Cell_DecodeKey_key by metis
  moreover have "go_index (sc_Cols s) i = Inr (sc_Cols s ! nat i)" using Cons.prems by simp
  moreover have "mix (set index) row (row0[nat i := row ! nat i]) = mix (set (i # index)) row row0"
    using mix_upd[of "nat i" row0 "set index" row] i Cons.prems by simp
  ultimately show ?case using Cons c by (simp add: Let_def)
qed simp

lemma EncodeRune_byte: "n < 128 \<Longrightarrow> EncodeRune (unat (word_of_nat n :: byte)) = [word_of_nat n]"
  by (simp add: EncodeRune_ascii unat_word_of_nat_byte)

lemma Row_DecodeKey_ok:
  assumes "schema_ok s" and "row_ok s row" and "n < length (sc_Indices s)" and "n < 128" and "length row0 = length (sc_Cols s)"
  shows "Row_DecodeKey s (int n) (row_key s n row) row0 = (mix (set (index_of s n)) row row0, Inr ())"
  using DecodeKey_loop_ok[OF assms(2) index_of_in[OF assms(1,3)] assms(5), of "[0]"] assms(3-5)
  by (simp add: Row_DecodeKey_def row_key_def key_head_def EncodeRune_byte Let_def)

fun vals_key :: "int list \<Rightarrow> int \<Rightarrow> row \<Rightarrow> bytes" where
  "vals_key pkey i [] = []"
| "vals_key pkey i (c # cs) = (if i \<in> set pkey then [] else cell_val c) @ vals_key pkey (i + 1) cs"

definition row_val :: "Schema \<Rightarrow> row \<Rightarrow> bytes" where
  "row_val s row = vals_key (index_of s 0) 0 row"

lemma EncodeVal_loop_ok:
  "list_all2 cell_ok row (map col_Type cols) \<Longrightarrow> EncodeVal_loop pkey i cols row val = Inr (val @ vals_key pkey i row)"
  by (induction pkey i cols row val rule: EncodeVal_loop.induct) (auto simp: cell_ok_def Cell_EncodeVal_eq)

lemma Row_EncodeVal_ok:
  assumes "schema_ok s" and "row_ok s row"
  shows "Row_EncodeVal row s = Inr (row_val s row)"
  using assms EncodeVal_loop_ok[of row "sc_Cols s"] row_ok_length[OF assms(2)] schema_ok_indices[OF assms(1)]
  by (simp add: Row_EncodeVal_def row_val_def row_ok_def)

lemma DecodeVal_loop_ok:
  assumes "list_all2 cell_ok (drop i row) (map col_Type cols)" and "length row0 = length row" and "i \<le> length row"
  shows "DecodeVal_loop pkey (int i) cols (vals_key pkey (int i) (drop i row) @ rest) row0 =
    (mix {j. int i \<le> j \<and> j \<notin> set pkey} row row0, Inr rest)"
  using assms
proof (induction cols arbitrary: i row0)
  case Nil
  then show ?case by (auto simp: mix_def intro: nth_equalityI)
next
  case (Cons col cols)
  then have i: "i < length row" by (auto dest!: list_all2_lengthD)
  then have d: "drop i row = row ! i # drop (Suc i) row" by (simp add: Cons_nth_drop_Suc)
  then have c: "cell_ok (row ! i) (col_Type col)" "list_all2 cell_ok (drop (Suc i) row) (map col_Type cols)"
    using Cons.prems(1) by simp_all
  note IH = Cons.IH[of "Suc i", OF c(2), unfolded of_nat_Suc]
  show ?case
  proof (cases "int i \<in> set pkey")
    case True
    have "{j. int i + 1 \<le> j \<and> j \<notin> set pkey} = {j. int i \<le> j \<and> j \<notin> set pkey}" using True
      by (auto simp: order_le_less add1_zle_eq)
    then show ?thesis using True IH[of row0] Cons.prems i by (simp add: d add.commute)
  next
    case False
    have e: "insert (int i) {j. int i + 1 \<le> j \<and> j \<notin> set pkey} = {j. int i \<le> j \<and> j \<notin> set pkey}" using False by auto
    have dec: "Cell_DecodeVal (Cell_of_type (col_Type col)) (cell_val (row ! i) @ r) = Inr (row ! i, r)" for r
      using Cell_DecodeVal_val[of "row ! i"] c(1) by (auto simp: cell_ok_def)
    have "mix {j. int i + 1 \<le> j \<and> j \<notin> set pkey} row (row0[i := row ! i]) = mix {j. int i \<le> j \<and> j \<notin> set pkey} row row0"
      using mix_upd[of i row0 _ row] i Cons.prems(2) e by metis
    then show ?thesis using False IH[of "row0[i := row ! i]"] Cons.prems i dec by (simp add: d add.commute Let_def)
  qed
qed

lemma Row_DecodeVal_ok:
  assumes "schema_ok s" and "row_ok s row" and "length row0 = length (sc_Cols s)"
  shows "Row_DecodeVal s (row_val s row) row0 = (mix (- set (index_of s 0)) row row0, Inr ())"
proof -
  have "mix {j. 0 \<le> j \<and> j \<notin> set (index_of s 0)} row row0 = mix (- set (index_of s 0)) row row0" by (auto simp: mix_def)
  then show ?thesis using DecodeVal_loop_ok[of 0 row "sc_Cols s" row0 "index_of s 0" "[]"] assms row_ok_length[OF assms(2)] schema_ok_indices[OF assms(1)]
    by (simp add: Row_DecodeVal_def row_val_def row_ok_def)
qed


section \<open>Properties\<close>

text \<open>
  C20: under a valid schema, a row whose cells have the column types is stored without
  a failed check.  Its key in any index with a number below 128 decodes, into any row of the right
  length, to the columns of that index and changes no other column.  Its primary key and its value,
  decoded one after the other, give back exactly that row.
\<close>

theorem Row_roundtrip:
  assumes "schema_ok s" and "row_ok s row" and "length row0 = length (sc_Cols s)"
    and "n < length (sc_Indices s)" and "n < 128"
  shows "(\<exists>key row1. Row_EncodeKey row s (int n) = Inr key \<and> Row_DecodeKey s (int n) key row0 = (row1, Inr ()) \<and>
      length row1 = length row0 \<and>
      (\<forall>j < length row0. row1 ! j = (if int j \<in> set (index_of s n) then row ! j else row0 ! j))) \<and>
    (\<exists>key val row1. Row_EncodeKey row s 0 = Inr key \<and> Row_EncodeVal row s = Inr val \<and>
      Row_DecodeKey s 0 key row0 = (row1, Inr ()) \<and> Row_DecodeVal s val row1 = (row, Inr ()))"
proof (intro conjI)
  show "\<exists>key row1. Row_EncodeKey row s (int n) = Inr key \<and> Row_DecodeKey s (int n) key row0 = (row1, Inr ()) \<and>
      length row1 = length row0 \<and>
      (\<forall>j < length row0. row1 ! j = (if int j \<in> set (index_of s n) then row ! j else row0 ! j))"
    using Row_EncodeKey_ok[OF assms(1,2,4)] Row_DecodeKey_ok[OF assms(1,2,4,5,3)]
    by (intro exI[of _ "row_key s n row"] exI[of _ "mix (set (index_of s n)) row row0"]) (simp add: mix_def)
  have n: "0 < length (sc_Indices s)" using assms(4) by linarith
  let ?r = "mix (set (index_of s 0)) row row0"
  have "mix (- set (index_of s 0)) row ?r = row"
    using mix_mix[of row row0 "- set (index_of s 0)"] assms(3) row_ok_length[OF assms(2)] by simp
  moreover have "Row_DecodeKey s 0 (row_key s 0 row) row0 = (?r, Inr ())" using Row_DecodeKey_ok[OF assms(1,2) n _ assms(3)] by simp
  moreover have "Row_DecodeVal s (row_val s row) ?r = (mix (- set (index_of s 0)) row ?r, Inr ())"
    by (rule Row_DecodeVal_ok[OF assms(1,2)]) (simp add: assms(3))
  ultimately show "\<exists>key val row1. Row_EncodeKey row s 0 = Inr key \<and> Row_EncodeVal row s = Inr val \<and>
      Row_DecodeKey s 0 key row0 = (row1, Inr ()) \<and> Row_DecodeVal s val row1 = (row, Inr ())"
    using Row_EncodeKey_ok[OF assms(1,2) n] Row_EncodeVal_ok[OF assms(1,2)] by simp
qed

definition demo_schema :: Schema where
  "demo_schema = \<lparr>sc_Version = 1, sc_Table = [116], sc_Cols = [\<lparr>col_Name = [97], col_Type = TypeI64\<rparr>, \<lparr>col_Name = [98], col_Type = TypeStr\<rparr>],
     sc_Indices = [[0], [1, 0]]\<rparr>"

definition demo_row :: row where
  "demo_row = [cell_int 5, cell_str [120, 0]]"

lemma demo_schema_ok: "schema_ok demo_schema" "row_ok demo_schema demo_row" "length (sc_Cols demo_schema) = 2" "length (sc_Indices demo_schema) = 2"
  by (simp_all add: schema_ok_iff demo_schema_def SchemaVersion_def row_ok_def demo_row_def cell_ok_def cell_int_def cell_str_def cell_wf_def)

theorem Row_roundtrip_witness:
  "(\<exists>key row1. Row_EncodeKey demo_row demo_schema 1 = Inr key \<and>
      Row_DecodeKey demo_schema 1 key (Schema_NewRow demo_schema) = (row1, Inr ()) \<and>
      length row1 = 2 \<and> row1 ! 0 = cell_int 5 \<and> row1 ! 1 = cell_str [120, 0]) \<and>
   (\<exists>key val row1. Row_EncodeKey demo_row demo_schema 0 = Inr key \<and> Row_EncodeVal demo_row demo_schema = Inr val \<and>
    Row_DecodeKey demo_schema 0 key (Schema_NewRow demo_schema) = (row1, Inr ()) \<and>
    Row_DecodeVal demo_schema val row1 = ([cell_int 5, cell_str [120, 0]], Inr ()))"
proof -
  have l: "length (Schema_NewRow demo_schema) = length (sc_Cols demo_schema)" by (simp add: Schema_NewRow_def)
  have i: "index_of demo_schema 1 = [1, 0]" by (simp add: demo_schema_def)
  from Row_roundtrip[OF demo_schema_ok(1,2) l, of 1] show ?thesis
    unfolding i using l by (auto simp: demo_schema_ok demo_row_def)
qed

text \<open>
  C21: an encoded key prefix bounds exactly the rows its cells bound.  Compared with
  the key of a row under the same index, a prefix that is closed with \<open>0xff\<close> sorts after every key
  whose leading cells are equal to it, a prefix that is left open sorts before them, and otherwise
  the keys compare like the tuples of cells.
\<close>

theorem key_prefix_bounds:
  assumes "schema_ok s" and "row_ok s row" and "prefix_ok s n cells"
    and "Row_EncodeKey row s (int n) = Inr rk" and "EncodeKeyPrefix s (int n) cells pos = Inr pk"
  shows "(bytes_Compare rk pk \<le> 0 \<longleftrightarrow>
      (let c = take (length cells) (row_cells row (index_of s n)) in if pos then \<not> cells_less cells c else cells_less c cells)) \<and>
    (bytes_Compare rk pk \<ge> 0 \<longleftrightarrow>
      (let c = take (length cells) (row_cells row (index_of s n)) in if pos then cells_less cells c else \<not> cells_less c cells))"
proof -
  have n: "n < length (sc_Indices s)" using assms(3) by (simp add: prefix_ok_def)
  have "rk = row_key s n row" "pk = prefix_key s n cells pos"
    using assms(4,5) Row_EncodeKey_ok[OF assms(1,2) n] EncodeKeyPrefix_ok[OF assms(1,3)] by simp_all
  then show ?thesis using prefix_bounds[OF assms(1-3)] by (simp add: Let_def)
qed

theorem key_prefix_bounds_witness:
  "\<exists>rk pk. Row_EncodeKey demo_row demo_schema 1 = Inr rk \<and> EncodeKeyPrefix demo_schema 1 [cell_str [120]] True = Inr pk \<and>
     \<not> bytes_Compare rk pk \<le> 0"
proof -
  have p: "prefix_ok demo_schema 1 [cell_str [120]]" by (simp add: prefix_ok_def demo_schema_def index_types_def)
  obtain rk pk where "Row_EncodeKey demo_row demo_schema (int 1) = Inr rk" "EncodeKeyPrefix demo_schema (int 1) [cell_str [120]] True = Inr pk"
    using Row_EncodeKey_ok[OF demo_schema_ok(1,2), of 1] EncodeKeyPrefix_ok[OF demo_schema_ok(1) p] by (simp add: demo_schema_ok)
  with key_prefix_bounds[OF demo_schema_ok(1,2) p] show ?thesis
    by (simp add: demo_row_def demo_schema_def cell_less_def)
qed

text \<open>
  C27: a schema may have up to 256 indices, but a key of index 128 or above never
  decodes: the reader compares with the UTF-8 encoding of the index number, the writer wrote the
  byte.  Every scan of such an index ends with \<open>ErrOutOfRange\<close>.
\<close>

theorem index_128_undecodable:
  assumes "schema_ok s" and "row_ok s row" and "128 \<le> n" and "n < length (sc_Indices s)" and "length row0 = length (sc_Cols s)"
    and "Row_EncodeKey row s (int n) = Inr key"
  shows "Row_DecodeKey s (int n) key row0 = (row0, Inl ErrOutOfRange)"
proof -
  have n: "n < 256" using schema_ok_indices[OF assms(1)] assms(4) by simp
  have "length (EncodeRune (unat (word_of_nat n :: byte))) = 2"
    using n assms(3) by (simp add: EncodeRune_def unat_word_of_nat_byte Let_def)
  then have "take (length (sc_Table s) + 2) key \<noteq> sc_Table s @ 0 # EncodeRune (unat (word_of_nat n :: byte))"
    by (metis (no_types, lifting) Nat.add_0_right add_Suc_right length_Cons length_append length_take
        min.cobounded2 not_less_eq_eq numeral_2_eq_2 order_refl)
  then show ?thesis using assms by (simp add: Row_DecodeKey_def Let_def)
qed

definition wide_schema :: Schema where
  "wide_schema = demo_schema\<lparr>sc_Indices := replicate 129 [0]\<rparr>"

theorem index_128_undecodable_witness:
  "\<exists>key. Row_EncodeKey demo_row wide_schema 128 = Inr key \<and>
     Row_DecodeKey wide_schema 128 key (Schema_NewRow wide_schema) = (Schema_NewRow wide_schema, Inl ErrOutOfRange)"
proof -
  have ok: "schema_ok wide_schema" "row_ok wide_schema demo_row" "length (sc_Indices wide_schema) = 129"
    using demo_schema_ok by (simp_all add: schema_ok_iff wide_schema_def row_ok_def)
  then obtain key where "Row_EncodeKey demo_row wide_schema (int 128) = Inr key" using Row_EncodeKey_ok[OF ok(1,2), of 128] by auto
  with index_128_undecodable[OF ok(1,2), of 128 "Schema_NewRow wide_schema" key] show ?thesis
    using ok(3) by (simp add: Schema_NewRow_def)
qed

end
