(* ===== verification/Expr.thy ===== *)
theory Expr
  imports Entry Row "HOL-Library.Signed_Division"
begin

text \<open>
  \<open>src/db/eval.go\<close> and the expression types of \<open>src/db/sql_parser.go\<close>: the tree of an
  expression, its evaluation against a row with the depth cap, its static type
  (\<open>exprType\<close> of \<open>src/db/table.go\<close>) and its display form.  The theorems: the static type is the
  type of the value, up to the depth where \<open>exprType\<close> gives up.
\<close>

section \<open>Expressions\<close>

datatype ExprOp = OP_ADD | OP_SUB | OP_MUL | OP_DIV | OP_EQ | OP_NE | OP_LE | OP_GE | OP_LT | OP_GT
  | OP_AND | OP_OR | OP_NOT | OP_NEG

text \<open>The dynamic types of a Go expression node; a nil condition is \<open>None\<close> where one may be absent.\<close>

datatype expr =
    EName bytes
  | ECell cell
  | EUnOp ExprOp expr
  | EBinOp ExprOp expr expr
  | ETuple "expr list"
  | EStar

definition maxExprDepth :: nat where "maxExprDepth = 1000"

definition errTooDeep :: err where "errTooDeep = Error ''expression is nested too deeply''"

definition isCmpOp :: "ExprOp \<Rightarrow> bool" where
  "isCmpOp op \<longleftrightarrow> op \<in> {OP_EQ, OP_NE, OP_LE, OP_GE, OP_LT, OP_GT}"

fun cmpResult :: "ExprOp \<Rightarrow> int \<Rightarrow> bool" where
  "cmpResult OP_EQ r = (r = 0)"
| "cmpResult OP_NE r = (r \<noteq> 0)"
| "cmpResult OP_LE r = (r \<le> 0)"
| "cmpResult OP_GE r = (r \<ge> 0)"
| "cmpResult OP_LT r = (r < 0)"
| "cmpResult OP_GT r = (r > 0)"
| "cmpResult _ r = False"

definition boolCell :: "bool \<Rightarrow> cell" where
  "boolCell b = cell_int (if b then 1 else 0)"

section \<open>Evaluation\<close>

text \<open>\<open>cmp.Compare\<close> on \<open>int64\<close> and \<open>bytes.Compare\<close>, chosen by the type of the cells.\<close>

definition cmp_int :: "int \<Rightarrow> int \<Rightarrow> int" where
  "cmp_int a b = (if a < b then -1 else if a = b then 0 else 1)"

definition compareCells :: "cell \<Rightarrow> cell \<Rightarrow> int res" where
  "compareCells l r =
     (if cell_Type l \<noteq> cell_Type r then Inl (Error ''binary op type mismatch'')
      else if cell_Type l = TypeI64 then Inr (cmp_int (sint (cell_I64 l)) (sint (cell_I64 r)))
      else if cell_Type l = TypeStr then Inr (bytes_Compare (cell_Str l) (cell_Str r))
      else Inl (Error ''bad cell type''))"

text \<open>The switch over the operators of two values of one type; \<open>int64\<close> arithmetic wraps around.\<close>

definition binop_cells :: "ExprOp \<Rightarrow> cell \<Rightarrow> cell \<Rightarrow> cell res" where
  "binop_cells op l r =
     (if cell_Type l \<noteq> cell_Type r then Inl (Error ''binary op type mismatch'')
      else if isCmpOp op then rbind (compareCells l r) (\<lambda>c. Inr (boolCell (cmpResult op c)))
      else if op = OP_ADD \<and> cell_Type l = TypeStr then
        (if MaxEntrySize < length (cell_Str l) + length (cell_Str r) then Inl (Error ''string too large'')
         else Inr (cell_str (cell_Str l @ cell_Str r)))
      else if cell_Type l \<noteq> TypeI64 then Inl (Error ''bad binary op'')
      else let a = cell_I64 l; b = cell_I64 r in
        case op of
          OP_ADD \<Rightarrow> Inr (cell_int (a + b))
        | OP_SUB \<Rightarrow> Inr (cell_int (a - b))
        | OP_MUL \<Rightarrow> Inr (cell_int (a * b))
        | OP_DIV \<Rightarrow> if b = 0 then Inl (Error ''division by 0'') else Inr (cell_int (word_of_int (sint a sdiv sint b)))
        | OP_AND \<Rightarrow> Inr (boolCell (a \<noteq> 0 \<and> b \<noteq> 0))
        | OP_OR \<Rightarrow> Inr (boolCell (a \<noteq> 0 \<or> b \<noteq> 0))
        | _ \<Rightarrow> Inl (Error ''bad binary op''))"

definition unop_cell :: "ExprOp \<Rightarrow> cell \<Rightarrow> cell res" where
  "unop_cell op kid =
     (if op = OP_NEG \<and> cell_Type kid = TypeI64 then Inr (cell_int (- cell_I64 kid))
      else if op = OP_NOT \<and> cell_Type kid = TypeI64 then Inr (boolCell (cell_I64 kid = 0))
      else Inl (Error ''bad unary op''))"

definition column_index :: "Schema \<Rightarrow> bytes \<Rightarrow> nat option" where
  "column_index schema name = slices_IndexFunc (\<lambda>col. col_Name col = name) (sc_Cols schema)"

fun is_tuple :: "expr \<Rightarrow> bool" where
  "is_tuple (ETuple kids) = True"
| "is_tuple _ = False"

fun tuple_kids :: "expr \<Rightarrow> expr list" where
  "tuple_kids (ETuple kids) = kids"
| "tuple_kids _ = []"

lemma size_tuple_kids: "size_list size (tuple_kids e) < size e + 1"
  by (cases e) auto

text \<open>
  \<open>evalTuple\<close> is the loop of \<open>evalTupleCmp\<close> over two lists of the same length; it stops at the first
  difference.
\<close>

function (sequential) evalExprAt :: "Schema \<Rightarrow> row \<Rightarrow> expr \<Rightarrow> nat \<Rightarrow> cell res"
  and evalTuple :: "Schema \<Rightarrow> row \<Rightarrow> expr list \<Rightarrow> expr list \<Rightarrow> nat \<Rightarrow> int res" where
  "evalExprAt schema row (EName name) depth =
     (if maxExprDepth < depth then Inl errTooDeep
      else case column_index schema name of None \<Rightarrow> Inl (Error ''unknown column'') | Some idx \<Rightarrow> go_index row (int idx))"
| "evalExprAt schema row (ECell c) depth = (if maxExprDepth < depth then Inl errTooDeep else Inr c)"
| "evalExprAt schema row (EUnOp op kid) depth =
     (if maxExprDepth < depth then Inl errTooDeep
      else rbind (evalExprAt schema row kid (depth + 1)) (unop_cell op))"
| "evalExprAt schema row (EBinOp op l r) depth =
     (if maxExprDepth < depth then Inl errTooDeep
      else if isCmpOp op \<and> (is_tuple l \<or> is_tuple r) then
        (if \<not> (is_tuple l \<and> is_tuple r) then Inl (Error ''cannot compare a tuple with a scalar'')
         else if length (tuple_kids l) \<noteq> length (tuple_kids r) then Inl (Error ''tuple comparison arity mismatch'')
         else rbind (evalTuple schema row (tuple_kids l) (tuple_kids r) depth) (\<lambda>c. Inr (boolCell (cmpResult op c))))
      else rbind (evalExprAt schema row l (depth + 1)) (\<lambda>lc.
        rbind (evalExprAt schema row r (depth + 1)) (\<lambda>rc. binop_cells op lc rc)))"
| "evalExprAt schema row (ETuple kids) depth =
     (if maxExprDepth < depth then Inl errTooDeep else Inl (Error ''a tuple is not a value''))"
| "evalExprAt schema row EStar depth =
     (if maxExprDepth < depth then Inl errTooDeep else Inl (Error ''unsupported expression''))"
| "evalTuple schema row (l # ls) (r # rs) depth =
     rbind (evalExprAt schema row l (depth + 1)) (\<lambda>lc.
     rbind (evalExprAt schema row r (depth + 1)) (\<lambda>rc.
     rbind (compareCells lc rc) (\<lambda>c. if c \<noteq> 0 then Inr c else evalTuple schema row ls rs depth)))"
| "evalTuple schema row ls rs depth = Inr 0"
  by pat_completeness auto

termination
proof (relation "measure (\<lambda>x. case x of Inl (s, r, e, d) \<Rightarrow> size e | Inr (s, r, ls, rs, d) \<Rightarrow> size_list size ls + size_list size rs)", goal_cases)
  case (3 schema row op l r depth)
  then show ?case using size_tuple_kids[of l] size_tuple_kids[of r] by (cases l; cases r) auto
qed auto

definition evalExpr :: "Schema \<Rightarrow> row \<Rightarrow> expr \<Rightarrow> cell res" where
  "evalExpr schema row e = evalExprAt schema row e 0"


section \<open>Display and static type\<close>

definition cell2str :: "cell \<Rightarrow> bytes" where
  "cell2str c = (if cell_Type c = TypeI64 then FormatInt (sint (cell_I64 c))
     else if cell_Type c = TypeStr then cell_Str c else [])"

fun exprop2str :: "ExprOp \<Rightarrow> string" where
  "exprop2str OP_ADD = ''+''" | "exprop2str OP_SUB = ''-''" | "exprop2str OP_MUL = ''*''" | "exprop2str OP_DIV = ''/''"
| "exprop2str OP_EQ = ''=''" | "exprop2str OP_NE = ''!=''" | "exprop2str OP_LE = ''<=''" | "exprop2str OP_GE = ''>=''"
| "exprop2str OP_LT = ''<''" | "exprop2str OP_GT = ''>''" | "exprop2str OP_AND = ''AND''" | "exprop2str OP_OR = ''OR''"
| "exprop2str OP_NOT = ''NOT''" | "exprop2str OP_NEG = ''-''"

text \<open>\<open>strings.Join\<close>.\<close>

fun strings_Join :: "bytes list \<Rightarrow> bytes \<Rightarrow> bytes" where
  "strings_Join [] sep = []"
| "strings_Join [x] sep = x"
| "strings_Join (x # xs) sep = x @ sep @ strings_Join xs sep"

fun expr2strAt :: "expr \<Rightarrow> nat \<Rightarrow> bytes" where
  "expr2strAt (EName name) depth = (if maxExprDepth < depth then str_bytes ''...'' else name)"
| "expr2strAt (ECell c) depth = (if maxExprDepth < depth then str_bytes ''...'' else cell2str c)"
| "expr2strAt EStar depth = (if maxExprDepth < depth then str_bytes ''...'' else str_bytes ''*'')"
| "expr2strAt (EUnOp op kid) depth =
     (if maxExprDepth < depth then str_bytes ''...''
      else if op = OP_NEG then str_bytes ''-'' @ expr2strAt kid (depth + 1)
      else if op = OP_NOT then str_bytes ''NOT '' @ expr2strAt kid (depth + 1)
      else str_bytes ''?'')"
| "expr2strAt (EBinOp op l r) depth =
     (if maxExprDepth < depth then str_bytes ''...''
      else str_bytes ''('' @ expr2strAt l (depth + 1) @ str_bytes '' '' @ str_bytes (exprop2str op) @
        str_bytes '' '' @ expr2strAt r (depth + 1) @ str_bytes '')'')"
| "expr2strAt (ETuple kids) depth =
     (if maxExprDepth < depth then str_bytes ''...''
      else str_bytes ''('' @ strings_Join (map (\<lambda>kid. expr2strAt kid (depth + 1)) kids) (str_bytes '', '') @ str_bytes '')'')"

definition expr2str :: "expr \<Rightarrow> bytes" where
  "expr2str e = expr2strAt e 0"

definition exprs2header :: "expr list \<Rightarrow> bytes list" where
  "exprs2header cols = map expr2str cols"

text \<open>\<open>n\<close> counts the iterations that are left.\<close>

fun exprType_loop :: "nat \<Rightarrow> Schema \<Rightarrow> expr \<Rightarrow> byte" where
  "exprType_loop 0 schema e = TypeI64"
| "exprType_loop (Suc n) schema e =
     (case e of
        EName name \<Rightarrow> (case column_index schema name of None \<Rightarrow> TypeI64 | Some idx \<Rightarrow> col_Type (sc_Cols schema ! idx))
      | ECell c \<Rightarrow> cell_Type c
      | EBinOp op l r \<Rightarrow> if op \<in> {OP_ADD, OP_SUB, OP_MUL, OP_DIV} then exprType_loop n schema l else TypeI64
      | _ \<Rightarrow> TypeI64)"

definition exprType :: "Schema \<Rightarrow> expr \<Rightarrow> byte" where
  "exprType schema e = exprType_loop maxExprDepth schema e"

section \<open>Evaluation without the depth cap\<close>

text \<open>
  A device for the proofs about types and plans: the same evaluation without the check of the depth,
  which does not depend on where in a condition an expression stands.
\<close>

function (sequential) denote :: "Schema \<Rightarrow> row \<Rightarrow> expr \<Rightarrow> cell res"
  and denoteTuple :: "Schema \<Rightarrow> row \<Rightarrow> expr list \<Rightarrow> expr list \<Rightarrow> int res" where
  "denote schema row (EName name) =
     (case column_index schema name of None \<Rightarrow> Inl (Error ''unknown column'') | Some idx \<Rightarrow> go_index row (int idx))"
| "denote schema row (ECell c) = Inr c"
| "denote schema row (EUnOp op kid) = rbind (denote schema row kid) (unop_cell op)"
| "denote schema row (EBinOp op l r) =
     (if isCmpOp op \<and> (is_tuple l \<or> is_tuple r) then
        (if \<not> (is_tuple l \<and> is_tuple r) then Inl (Error ''cannot compare a tuple with a scalar'')
         else if length (tuple_kids l) \<noteq> length (tuple_kids r) then Inl (Error ''tuple comparison arity mismatch'')
         else rbind (denoteTuple schema row (tuple_kids l) (tuple_kids r)) (\<lambda>c. Inr (boolCell (cmpResult op c))))
      else rbind (denote schema row l) (\<lambda>lc. rbind (denote schema row r) (\<lambda>rc. binop_cells op lc rc)))"
| "denote schema row (ETuple kids) = Inl (Error ''a tuple is not a value'')"
| "denote schema row EStar = Inl (Error ''unsupported expression'')"
| "denoteTuple schema row (l # ls) (r # rs) =
     rbind (denote schema row l) (\<lambda>lc. rbind (denote schema row r) (\<lambda>rc.
     rbind (compareCells lc rc) (\<lambda>c. if c \<noteq> 0 then Inr c else denoteTuple schema row ls rs)))"
| "denoteTuple schema row ls rs = Inr 0"
  by pat_completeness auto

termination
proof (relation "measure (\<lambda>x. case x of Inl (s, r, e) \<Rightarrow> size e | Inr (s, r, ls, rs) \<Rightarrow> size_list size ls + size_list size rs)", goal_cases)
  case (3 schema row op l r)
  then show ?case using size_tuple_kids[of l] size_tuple_kids[of r] by (cases l; cases r) auto
qed auto

fun edepth :: "expr \<Rightarrow> nat" where
  "edepth (EUnOp op kid) = Suc (edepth kid)"
| "edepth (EBinOp op l r) = Suc (max (edepth l) (edepth r))"
| "edepth (ETuple kids) = foldr max (map edepth kids) 0"
| "edepth _ = 0"

lemma evalExprAt_reference:
  "d + edepth e \<le> maxExprDepth \<Longrightarrow> evalExprAt s row e d = denote s row e"
  "(\<forall>e\<in>set ls \<union> set rs. d + 1 + edepth e \<le> maxExprDepth) \<Longrightarrow> evalTuple s row ls rs d = denoteTuple s row ls rs"
proof (induction s row e d and s row ls rs d rule: evalExprAt_evalTuple.induct)
  case (4 schema row op l r depth)
  have kid: "edepth e \<le> edepth t" if "e \<in> set (tuple_kids t)" for e t
  proof (cases t)
    case (ETuple ks)
    then show ?thesis using that by (induction ks arbitrary: t) auto
  qed (use that in auto)
  have "\<forall>e\<in>set (tuple_kids l) \<union> set (tuple_kids r). depth + 1 + edepth e \<le> maxExprDepth"
    using "4.prems" kid[of _ l] kid[of _ r] by fastforce
  then show ?case using 4 by auto
qed (auto simp: rbind_def split: sum.splits)


lemma evalExprAt_sound:
  "evalExprAt s row e d = Inr c \<Longrightarrow> denote s row e = Inr c"
  "evalTuple s row ls rs d = Inr n \<Longrightarrow> denoteTuple s row ls rs = Inr n"
proof (induction s row e d and s row ls rs d arbitrary: c and n rule: evalExprAt_evalTuple.induct)
  case (4 schema row op l r depth)
  then show ?case by (auto simp: rbind_Inr_iff split: if_splits)
qed (auto simp: rbind_Inr_iff split: if_splits)

section \<open>Types\<close>

text \<open>Every literal of the tree is a cell the code builds.\<close>

fun expr_ok :: "expr \<Rightarrow> bool" where
  "expr_ok (ECell c) = cell_wf c"
| "expr_ok (EUnOp op kid) = expr_ok kid"
| "expr_ok (EBinOp op l r) = (expr_ok l \<and> expr_ok r)"
| "expr_ok (ETuple kids) = list_all expr_ok kids"
| "expr_ok _ = True"

lemma boolCell_simps [simp]: "cell_wf (boolCell b)" "cell_Type (boolCell b) = TypeI64" "cell_I64 (boolCell b) = (if b then 1 else 0)"
  by (simp_all add: boolCell_def)

lemma column_index_SomeD:
  "column_index s name = Some i \<Longrightarrow> i < length (sc_Cols s) \<and> col_Name (sc_Cols s ! i) = name"
  unfolding column_index_def by (drule slices_IndexFunc_SomeD) simp

lemma binop_cells_type:
  assumes "binop_cells op l r = Inr c"
  shows "cell_wf c \<and> cell_Type r = cell_Type l \<and> cell_Type c = (if op \<in> {OP_ADD, OP_SUB, OP_MUL, OP_DIV} then cell_Type l else TypeI64)"
  using assms by (cases op) (auto simp: binop_cells_def isCmpOp_def rbind_Inr_iff Let_def split: if_splits)

lemma unop_cell_type: "unop_cell op k = Inr c \<Longrightarrow> cell_wf c \<and> cell_Type c = TypeI64"
  by (auto simp: unop_cell_def split: if_splits)

text \<open>The depth of the leftmost leaf along arithmetic.\<close>

fun left_depth :: "expr \<Rightarrow> nat" where
  "left_depth (EBinOp op l r) = (if op \<in> {OP_ADD, OP_SUB, OP_MUL, OP_DIV} then Suc (left_depth l) else 0)"
| "left_depth _ = 0"

lemma denote_type:
  assumes "row_ok s row" and "expr_ok e" and "denote s row e = Inr c"
  shows "cell_wf c" and "left_depth e < n \<Longrightarrow> cell_Type c = exprType_loop n s e"
  using assms(2,3)
proof (atomize (full), induction e arbitrary: c n)
  case (EName name)
  then obtain i where i: "column_index s name = Some i" "go_index row (int i) = Inr c" by (auto split: option.splits)
  note ci = column_index_SomeD[OF i(1)]
  then have "c = row ! i" using i(2) row_ok_length[OF assms(1)] by simp
  then show ?case using row_ok_nth[OF assms(1), of i] ci i(1) by (cases n) (auto simp: cell_ok_def)
next
  case (ECell x)
  then show ?case by (cases n) auto
next
  case (EUnOp op kid)
  then show ?case using unop_cell_type by (cases n) (auto simp: rbind_Inr_iff)
next
  case (EBinOp op l r)
  show ?case
  proof (cases "isCmpOp op \<and> (is_tuple l \<or> is_tuple r)")
    case True
    then have "\<exists>b. c = boolCell b" using EBinOp.prems by (auto simp: rbind_Inr_iff split: if_splits)
    then show ?thesis using True by (cases n) (auto simp: isCmpOp_def)
  next
    case False
    then obtain lc rc where e: "denote s row l = Inr lc" "denote s row r = Inr rc" "binop_cells op lc rc = Inr c"
      using EBinOp.prems by (auto simp: rbind_Inr_iff split: if_splits)
    note t = binop_cells_type[OF e(3)]
    show ?thesis using t EBinOp.IH(1)[OF _ e(1)] EBinOp.prems(1) by (cases n) auto
  qed
qed auto


section \<open>Properties\<close>

text \<open>
  C23: the column type announced for a projected expression is the type of the value it
  yields on every row of the schema, and the value is a well-formed cell, as long as the leftmost
  operand of its arithmetic lies within the iterations of \<open>exprType\<close>.
\<close>

theorem exprType_sound:
  assumes "row_ok s row" and "expr_ok e" and "evalExpr s row e = Inr c" and "left_depth e < maxExprDepth"
  shows "cell_wf c \<and> cell_Type c = exprType s e"
proof -
  have "denote s row e = Inr c" using evalExprAt_sound(1) assms(3) by (simp add: evalExpr_def)
  from denote_type[OF assms(1,2) this] assms(4) show ?thesis by (simp add: exprType_def)
qed

theorem exprType_sound_witness:
  "evalExpr demo_schema demo_row (EBinOp OP_ADD (EName [98]) (ECell (cell_str [33]))) = Inr (cell_str [120, 0, 33]) \<and>
   exprType demo_schema (EBinOp OP_ADD (EName [98]) (ECell (cell_str [33]))) = TypeStr"
proof -
  let ?e = "EBinOp OP_ADD (EName [98]) (ECell (cell_str [33]))"
  have e: "evalExpr demo_schema demo_row ?e = Inr (cell_str [120, 0, 33])"
    by (simp add: evalExpr_def maxExprDepth_def isCmpOp_def column_index_def demo_schema_def demo_row_def go_index_def binop_cells_def
        MaxEntrySize_def)
  have "left_depth ?e < maxExprDepth" by (simp add: maxExprDepth_def)
  from exprType_sound[OF demo_schema_ok(2) _ e this] show ?thesis using e by simp
qed

text \<open>
  C26: \<open>evalExpr\<close> accepts a leaf at depth \<open>maxExprDepth\<close>, but \<open>exprType\<close> gives up one
  level earlier: a concatenation of strings nested exactly that deep evaluates to a string, while
  its result column is announced as an integer.
\<close>

fun concat_chain :: "nat \<Rightarrow> expr" where
  "concat_chain 0 = ECell (cell_str [])"
| "concat_chain (Suc n) = EBinOp OP_ADD (concat_chain n) (ECell (cell_str []))"

lemma eval_concat_chain: "d + n \<le> maxExprDepth \<Longrightarrow> evalExprAt s row (concat_chain n) d = Inr (cell_str [])"
  by (induction n arbitrary: d) (auto simp: isCmpOp_def binop_cells_def)

lemma exprType_concat_chain: "exprType_loop n s (concat_chain m) = (if m < n then TypeStr else TypeI64)"
proof (induction m arbitrary: n)
  case 0
  show ?case by (cases n) simp_all
next
  case (Suc m)
  then show ?case by (cases n) simp_all
qed

theorem exprType_off_by_one:
  "evalExpr s row (concat_chain maxExprDepth) = Inr (cell_str []) \<and> cell_Type (cell_str []) = TypeStr \<and>
   exprType s (concat_chain maxExprDepth) = TypeI64"
  using eval_concat_chain[of 0 maxExprDepth s row] by (simp add: evalExpr_def exprType_def exprType_concat_chain)

end
