(* ===== verification/Sql.thy ===== *)
theory Sql
  imports Json Expr
begin

text \<open>
  \<open>src/db/sql_parser.go\<close>: the recursive descent parser.  A parsing step takes the parser state and
  returns its result with the state after it; an error ends the parse, so no state comes with it.
  Recursion into sub-expressions is bounded by the parser's own depth counter, and each loop consumes
  input, so the fuel given here is always enough, which \<open>ParseStmt\<close> not running out of it shows.
\<close>

unbundle bit_operations_syntax

section \<open>State and statements\<close>

record Parser =
  p_buf :: bytes
  p_pos :: nat
  p_depth :: nat

definition NewParser :: "bytes \<Rightarrow> Parser" where
  "NewParser s = \<lparr>p_buf = s, p_pos = 0, p_depth = 0\<rparr>"

record StmtSelect =
  sel_table :: bytes
  sel_cols :: "expr list"
  sel_cond :: "expr option"
  sel_limit :: int
  sel_offset :: int

record NamedCell =
  nc_column :: bytes
  nc_value :: cell

record ExprAssign =
  as_column :: bytes
  as_expr :: expr

record StmtCreatTable =
  ct_table :: bytes
  ct_cols :: "Column list"
  ct_pkey :: "bytes list"
  ct_indices :: "bytes list list"

record StmtInsert =
  ins_table :: bytes
  ins_value :: "cell list"

record StmtUpdate =
  upd_table :: bytes
  upd_cond :: "expr option"
  upd_value :: "ExprAssign list"

record StmtDelete =
  del_table :: bytes
  del_cond :: "expr option"

record StmtDropTable =
  drop_table :: bytes

datatype stmt =
    SSelect StmtSelect
  | SCreateTable StmtCreatTable
  | SInsert StmtInsert
  | SUpdate StmtUpdate
  | SDelete StmtDelete
  | SDropTable StmtDropTable

section \<open>Characters and tokens\<close>

definition isSpace :: "byte \<Rightarrow> bool" where
  "isSpace ch \<longleftrightarrow> ch \<in> {9, 10, 11, 12, 13, 32}"

definition isAlpha :: "byte \<Rightarrow> bool" where
  "isAlpha ch \<longleftrightarrow> 97 \<le> ch OR 32 \<and> ch OR 32 \<le> 122"

definition isDigit :: "byte \<Rightarrow> bool" where
  "isDigit ch \<longleftrightarrow> 48 \<le> ch \<and> ch \<le> 57"

definition isNameStart :: "byte \<Rightarrow> bool" where
  "isNameStart ch \<longleftrightarrow> isAlpha ch \<or> ch = 95"

definition isNameContinue :: "byte \<Rightarrow> bool" where
  "isNameContinue ch \<longleftrightarrow> isAlpha ch \<or> isDigit ch \<or> ch = 95"

definition isSeparator :: "byte \<Rightarrow> bool" where
  "isSeparator ch \<longleftrightarrow> ch < 128 \<and> \<not> isNameContinue ch"

text \<open>The input from the cursor on, and moving the cursor.\<close>

definition p_rest :: "Parser \<Rightarrow> bytes" where
  "p_rest p = drop (p_pos p) (p_buf p)"

definition advance :: "nat \<Rightarrow> Parser \<Rightarrow> Parser" where
  "advance n p = p\<lparr>p_pos := p_pos p + n\<rparr>"

definition skipSpaces :: "Parser \<Rightarrow> Parser" where
  "skipSpaces p = advance (length (takeWhile isSpace (p_rest p))) p"

text \<open>
  \<open>strings.EqualFold\<close> against an ASCII keyword of the same length: a non-ASCII rune would make the
  input shorter than the keyword, so only the case of letters matters.
\<close>

definition ascii_lower :: "byte \<Rightarrow> byte" where
  "ascii_lower ch = (if 65 \<le> ch \<and> ch \<le> 90 then ch + 32 else ch)"

definition EqualFold :: "bytes \<Rightarrow> bytes \<Rightarrow> bool" where
  "EqualFold s t \<longleftrightarrow> map ascii_lower s = map ascii_lower t"

fun tryKeyword_loop :: "bytes list \<Rightarrow> Parser \<Rightarrow> Parser option" where
  "tryKeyword_loop [] p = Some p"
| "tryKeyword_loop (kw # kws) p =
     (let p = skipSpaces p; rest = p_rest p in
      if length rest < length kw \<or> \<not> EqualFold (take (length kw) rest) kw then None
      else if length kw < length rest \<and> \<not> isSeparator (rest ! length kw) then None
      else tryKeyword_loop kws (advance (length kw) p))"

definition tryKeyword :: "string list \<Rightarrow> Parser \<Rightarrow> bool \<times> Parser" where
  "tryKeyword kws p = (case tryKeyword_loop (map str_bytes kws) p of None \<Rightarrow> (False, p) | Some p' \<Rightarrow> (True, p'))"

definition tryPunctuation :: "string \<Rightarrow> Parser \<Rightarrow> bool \<times> Parser" where
  "tryPunctuation tok p =
     (let p = skipSpaces p; t = str_bytes tok in
      if has_prefix (p_rest p) t then (True, advance (length t) p) else (False, p))"

definition tryName :: "Parser \<Rightarrow> bytes option \<times> Parser" where
  "tryName p =
     (let p = skipSpaces p in
      case p_rest p of [] \<Rightarrow> (None, p)
      | ch # cs \<Rightarrow> if \<not> isNameStart ch then (None, p)
          else let name = ch # takeWhile isNameContinue cs in (Some name, advance (length name) p))"

section \<open>Values\<close>

text \<open>The loop of \<open>parseString\<close>: the content, and the number of bytes with the closing quote.\<close>

fun parseString_loop :: "byte \<Rightarrow> bytes \<Rightarrow> bytes \<Rightarrow> nat \<Rightarrow> (bytes \<times> nat) res" where
  "parseString_loop quote [] str n = Inl (Error ''string is not terminated'')"
| "parseString_loop quote (ch # cs) str n =
     (if ch = 92 then
        (case cs of [] \<Rightarrow> Inl (Error ''bad escape'')
         | c # cs' \<Rightarrow> if c = 34 \<or> c = 39 then parseString_loop quote cs' (str @ [c]) (n + 2)
             else Inl (Error ''bad escape''))
      else if ch = quote then Inr (str, n + 1)
      else parseString_loop quote cs (str @ [ch]) (n + 1))"

definition parseString :: "Parser \<Rightarrow> (cell \<times> Parser) res" where
  "parseString p =
     rbind (parseString_loop (hd (p_rest p)) (tl (p_rest p)) [] 1) (\<lambda>(str, n). Inr (cell_str str, advance n p))"

definition parseInt :: "Parser \<Rightarrow> (cell \<times> Parser) res" where
  "parseInt p =
     (let rest = p_rest p; sign = (if hd rest = 45 \<or> hd rest = 43 then 1 else 0);
          n = sign + length (takeWhile isDigit (drop sign rest)) in
      rbind (ParseInt (take n rest)) (\<lambda>i. Inr (cell_int (word_of_int i), advance n p)))"

definition parseValue :: "Parser \<Rightarrow> (cell \<times> Parser) res" where
  "parseValue p =
     (let p = skipSpaces p in
      case p_rest p of [] \<Rightarrow> Inl (Error ''expect value'')
      | ch # _ \<Rightarrow>
          if ch = 34 \<or> ch = 39 then parseString p
          else if isDigit ch \<or> ch = 45 \<or> ch = 43 then parseInt p
          else Inl (Error ''expect value''))"

section \<open>Lists\<close>

text \<open>
  \<open>parseCommaList\<close> with the variables its callback assigns as an accumulator.  \<open>comma\<close> says that an
  item has been read.
\<close>

fun parseCommaList_loop :: "nat \<Rightarrow> ('a \<Rightarrow> Parser \<Rightarrow> ('a \<times> Parser) res) \<Rightarrow> bool \<Rightarrow> 'a \<Rightarrow> Parser \<Rightarrow> ('a \<times> Parser) res" where
  "parseCommaList_loop 0 item comma acc p = Inl out_of_fuel"
| "parseCommaList_loop (Suc fuel) item comma acc p =
     (case tryPunctuation '')'' p of (True, p) \<Rightarrow> Inr (acc, p)
      | (False, p) \<Rightarrow>
          (case (if comma then tryPunctuation '','' p else (True, p)) of
             (False, p) \<Rightarrow> Inl (Error ''expect ,'')
           | (True, p) \<Rightarrow> rbind (item acc p) (\<lambda>(acc, p). parseCommaList_loop fuel item True acc p)))"

definition parseCommaList :: "('a \<Rightarrow> Parser \<Rightarrow> ('a \<times> Parser) res) \<Rightarrow> 'a \<Rightarrow> Parser \<Rightarrow> ('a \<times> Parser) res" where
  "parseCommaList item acc p =
     (case tryPunctuation ''('' p of (False, p) \<Rightarrow> Inl (Error ''expect ('')
      | (True, p) \<Rightarrow> parseCommaList_loop (Suc (length (p_buf p))) item False acc p)"

definition parseNameItem :: "bytes list \<Rightarrow> Parser \<Rightarrow> (bytes list \<times> Parser) res" where
  "parseNameItem out p = (case tryName p of (None, p) \<Rightarrow> Inl (Error ''expect name'') | (Some name, p) \<Rightarrow> Inr (out @ [name], p))"

definition parseValueItem :: "cell list \<Rightarrow> Parser \<Rightarrow> (cell list \<times> Parser) res" where
  "parseValueItem out p = rbind (parseValue p) (\<lambda>(c, p). Inr (out @ [c], p))"

section \<open>Expressions\<close>

definition enter :: "Parser \<Rightarrow> Parser res" where
  "enter p = (if maxExprDepth < p_depth p + 1 then Inl errTooDeep else Inr (p\<lparr>p_depth := p_depth p + 1\<rparr>))"

definition leave :: "Parser \<Rightarrow> Parser" where
  "leave p = p\<lparr>p_depth := p_depth p - 1\<rparr>"

definition parseTuple :: "(Parser \<Rightarrow> (expr \<times> Parser) res) \<Rightarrow> Parser \<Rightarrow> (expr \<times> Parser) res" where
  "parseTuple parseExpr p =
     rbind (parseCommaList (\<lambda>kids p. rbind (parseExpr p) (\<lambda>(e, p). Inr (kids @ [e], p))) [] p) (\<lambda>(kids, p).
       case kids of [] \<Rightarrow> Inl (Error ''empty tuple'')
       | [e] \<Rightarrow> Inr (e, p)
       | _ \<Rightarrow> Inr (ETuple kids, p))"

definition parseAtom :: "(Parser \<Rightarrow> (expr \<times> Parser) res) \<Rightarrow> Parser \<Rightarrow> (expr \<times> Parser) res" where
  "parseAtom parseExpr p =
     (case tryPunctuation ''('' p of
        (True, p) \<Rightarrow>
          rbind (enter (p\<lparr>p_pos := p_pos p - 1\<rparr>)) (\<lambda>p.
            rbind (parseTuple parseExpr p) (\<lambda>(e, p). Inr (e, leave p)))
      | (False, p) \<Rightarrow>
          (case tryName p of
             (Some name, p) \<Rightarrow> Inr (EName name, p)
           | (None, p) \<Rightarrow> rbind (parseValue p) (\<lambda>(c, p). Inr (ECell c, p))))"

text \<open>The inner loop of \<open>parseBinop\<close>: the first token, in the given order, that the input continues with.\<close>

fun tryTokens :: "(string \<times> ExprOp) list \<Rightarrow> Parser \<Rightarrow> ExprOp option \<times> Parser" where
  "tryTokens [] p = (None, p)"
| "tryTokens ((tok, op) # toks) p =
     (case tryPunctuation tok p of (True, p) \<Rightarrow> (Some op, p)
      | (False, p) \<Rightarrow>
          (case tryKeyword [tok] p of (True, p) \<Rightarrow> (Some op, p)
           | (False, p) \<Rightarrow> tryTokens toks p))"

fun parseBinop_loop ::
    "nat \<Rightarrow> (string \<times> ExprOp) list \<Rightarrow> (Parser \<Rightarrow> (expr \<times> Parser) res) \<Rightarrow> expr \<Rightarrow> Parser \<Rightarrow> (expr \<times> Parser) res" where
  "parseBinop_loop 0 toks inner left p = Inl out_of_fuel"
| "parseBinop_loop (Suc fuel) toks inner left p =
     (case tryTokens toks p of (None, p) \<Rightarrow> Inr (left, p)
      | (Some op, p) \<Rightarrow> rbind (inner p) (\<lambda>(right, p). parseBinop_loop fuel toks inner (EBinOp op left right) p))"

definition parseBinop ::
    "(string \<times> ExprOp) list \<Rightarrow> (Parser \<Rightarrow> (expr \<times> Parser) res) \<Rightarrow> Parser \<Rightarrow> (expr \<times> Parser) res" where
  "parseBinop toks inner p =
     rbind (inner p) (\<lambda>(left, p). parseBinop_loop (Suc (length (p_buf p))) toks inner left p)"

abbreviation "or_tokens \<equiv> [(''OR'', OP_OR)]"
abbreviation "and_tokens \<equiv> [(''AND'', OP_AND)]"
abbreviation "cmp_tokens \<equiv>
  [(''='', OP_EQ), (''!='', OP_NE), (''<>'', OP_NE), (''<='', OP_LE), (''>='', OP_GE), (''<'', OP_LT), (''>'', OP_GT)]"
abbreviation "add_tokens \<equiv> [(''+'', OP_ADD), (''-'', OP_SUB)]"
abbreviation "mul_tokens \<equiv> [(''*'', OP_MUL), (''/'', OP_DIV)]"

definition parseMul :: "(Parser \<Rightarrow> (expr \<times> Parser) res) \<Rightarrow> Parser \<Rightarrow> (expr \<times> Parser) res" where
  "parseMul parseNeg = parseBinop mul_tokens parseNeg"

definition parseAdd :: "(Parser \<Rightarrow> (expr \<times> Parser) res) \<Rightarrow> Parser \<Rightarrow> (expr \<times> Parser) res" where
  "parseAdd parseNeg = parseBinop add_tokens (parseMul parseNeg)"

definition parseCmp :: "(Parser \<Rightarrow> (expr \<times> Parser) res) \<Rightarrow> Parser \<Rightarrow> (expr \<times> Parser) res" where
  "parseCmp parseNeg = parseBinop cmp_tokens (parseAdd parseNeg)"

definition parseAnd :: "(Parser \<Rightarrow> (expr \<times> Parser) res) \<Rightarrow> Parser \<Rightarrow> (expr \<times> Parser) res" where
  "parseAnd parseNot = parseBinop and_tokens parseNot"

definition parseOr :: "(Parser \<Rightarrow> (expr \<times> Parser) res) \<Rightarrow> Parser \<Rightarrow> (expr \<times> Parser) res" where
  "parseOr parseNot = parseBinop or_tokens (parseAnd parseNot)"

fun parseNeg :: "nat \<Rightarrow> Parser \<Rightarrow> (expr \<times> Parser) res"
and parseNot :: "nat \<Rightarrow> Parser \<Rightarrow> (expr \<times> Parser) res"
and parseExprAt :: "nat \<Rightarrow> Parser \<Rightarrow> (expr \<times> Parser) res" where
  "parseNeg 0 = (\<lambda>p. Inl out_of_fuel)"
| "parseNeg (Suc fuel) = (\<lambda>p.
     case tryPunctuation ''-'' p of
       (True, p) \<Rightarrow> rbind (enter p) (\<lambda>p. rbind (parseNeg fuel p) (\<lambda>(e, p). Inr (EUnOp OP_NEG e, leave p)))
     | (False, p) \<Rightarrow> parseAtom (parseExprAt fuel) p)"
| "parseNot 0 = (\<lambda>p. Inl out_of_fuel)"
| "parseNot (Suc fuel) = (\<lambda>p.
     case tryKeyword [''NOT''] p of
       (True, p) \<Rightarrow> rbind (enter p) (\<lambda>p. rbind (parseNot fuel p) (\<lambda>(e, p). Inr (EUnOp OP_NOT e, leave p)))
     | (False, p) \<Rightarrow> parseCmp (parseNeg fuel) p)"
| "parseExprAt 0 = (\<lambda>p. Inl out_of_fuel)"
| "parseExprAt (Suc fuel) = parseOr (parseNot fuel)"

text \<open>A round of parseExpr, parseNot and parseNeg enters at least one level, so three steps per level.\<close>

definition parseExpr :: "Parser \<Rightarrow> (expr \<times> Parser) res" where
  "parseExpr = parseExprAt (3 * maxExprDepth + 3)"

section \<open>Statements\<close>

definition parseEnd :: "'a \<Rightarrow> Parser \<Rightarrow> ('a \<times> Parser) res" where
  "parseEnd out p = (case tryPunctuation '';'' p of (False, _) \<Rightarrow> Inl (Error ''expect ;'') | (True, p) \<Rightarrow> Inr (out, p))"

definition parseWhere :: "Parser \<Rightarrow> (expr option \<times> Parser) res" where
  "parseWhere p =
     (case tryKeyword [''WHERE''] p of (False, p) \<Rightarrow> Inr (None, p)
      | (True, p) \<Rightarrow> rbind (parseExpr p) (\<lambda>(e, p). Inr (Some e, p)))"

definition parseCount :: "Parser \<Rightarrow> (int \<times> Parser) res" where
  "parseCount p =
     rbind (parseValue p) (\<lambda>(c, p).
       if cell_Type c \<noteq> TypeI64 \<or> sint (cell_I64 c) < 0 then Inl (Error ''expect a non-negative integer'')
       else Inr (sint (cell_I64 c), p))"

definition parseLimit :: "StmtSelect \<Rightarrow> Parser \<Rightarrow> (StmtSelect \<times> Parser) res" where
  "parseLimit out p =
     (case tryKeyword [''LIMIT''] p of (False, p) \<Rightarrow> Inr (out, p)
      | (True, p) \<Rightarrow>
          rbind (parseCount p) (\<lambda>(n, p).
            let out = out\<lparr>sel_limit := n\<rparr> in
            case tryKeyword [''OFFSET''] p of (False, p) \<Rightarrow> Inr (out, p)
            | (True, p) \<Rightarrow> rbind (parseCount p) (\<lambda>(m, p). Inr (out\<lparr>sel_offset := m\<rparr>, p))))"

definition tryStar :: "Parser \<Rightarrow> bool \<times> Parser" where
  "tryStar p =
     (case tryPunctuation ''*'' p of (False, p) \<Rightarrow> (False, p)
      | (True, p1) \<Rightarrow>
          (case tryPunctuation '','' p1 of (True, _) \<Rightarrow> (True, p1)
           | (False, p2) \<Rightarrow> (case tryKeyword [''FROM''] p2 of (True, _) \<Rightarrow> (True, p1) | (False, _) \<Rightarrow> (False, p))))"

fun parseSelect_cols :: "nat \<Rightarrow> expr list \<Rightarrow> Parser \<Rightarrow> (expr list \<times> Parser) res" where
  "parseSelect_cols 0 cols p = Inl out_of_fuel"
| "parseSelect_cols (Suc fuel) cols p =
     (case tryKeyword [''FROM''] p of (True, p) \<Rightarrow> Inr (cols, p)
      | (False, p) \<Rightarrow>
          (case (if cols \<noteq> [] then tryPunctuation '','' p else (True, p)) of
             (False, p) \<Rightarrow> Inl (Error ''expect comma'')
           | (True, p) \<Rightarrow>
               (case tryStar p of
                  (True, p) \<Rightarrow> parseSelect_cols fuel (cols @ [EStar]) p
                | (False, p) \<Rightarrow> rbind (parseExpr p) (\<lambda>(e, p). parseSelect_cols fuel (cols @ [e]) p))))"

definition parseSelect :: "Parser \<Rightarrow> (StmtSelect \<times> Parser) res" where
  "parseSelect p =
     rbind (parseSelect_cols (Suc (length (p_buf p))) [] p) (\<lambda>(cols, p).
       if cols = [] then Inl (Error ''expect column list'')
       else case tryName p of (None, p) \<Rightarrow> Inl (Error ''expect table name'')
       | (Some table, p) \<Rightarrow>
           rbind (parseWhere p) (\<lambda>(cond, p).
             rbind (parseLimit \<lparr>sel_table = table, sel_cols = cols, sel_cond = cond, sel_limit = - 1, sel_offset = 0\<rparr> p)
               (\<lambda>(out, p). parseEnd out p)))"

definition parseCreateTableItem :: "StmtCreatTable \<Rightarrow> Parser \<Rightarrow> (StmtCreatTable \<times> Parser) res" where
  "parseCreateTableItem out p =
     (case tryKeyword [''PRIMARY'', ''KEY''] p of
        (True, p) \<Rightarrow>
          rbind (parseCommaList parseNameItem (ct_pkey out) p) (\<lambda>(pkey, p). Inr (out\<lparr>ct_pkey := pkey\<rparr>, p))
      | (False, p) \<Rightarrow>
        (case tryKeyword [''INDEX''] p of
           (True, p) \<Rightarrow>
             rbind (parseCommaList parseNameItem [] p) (\<lambda>(index, p). Inr (out\<lparr>ct_indices := ct_indices out @ [index]\<rparr>, p))
         | (False, p) \<Rightarrow>
           (case tryName p of (None, p) \<Rightarrow> Inl (Error ''expect name'')
            | (Some name, p) \<Rightarrow>
              (case tryName p of (None, p) \<Rightarrow> Inl (Error ''expect name'')
               | (Some kind, p) \<Rightarrow>
                   if kind = str_bytes ''int64'' then
                     Inr (out\<lparr>ct_cols := ct_cols out @ [\<lparr>col_Name = name, col_Type = TypeI64\<rparr>]\<rparr>, p)
                   else if kind = str_bytes ''string'' then
                     Inr (out\<lparr>ct_cols := ct_cols out @ [\<lparr>col_Name = name, col_Type = TypeStr\<rparr>]\<rparr>, p)
                   else Inl (Error ''unknown column type'')))))"

definition parseCreateTable :: "Parser \<Rightarrow> (StmtCreatTable \<times> Parser) res" where
  "parseCreateTable p =
     (case tryName p of (None, p) \<Rightarrow> Inl (Error ''expect table name'')
      | (Some table, p) \<Rightarrow>
          rbind (parseCommaList parseCreateTableItem \<lparr>ct_table = table, ct_cols = [], ct_pkey = [], ct_indices = []\<rparr> p)
            (\<lambda>(out, p). parseEnd out p))"

definition parseInsert :: "Parser \<Rightarrow> (StmtInsert \<times> Parser) res" where
  "parseInsert p =
     (case tryName p of (None, p) \<Rightarrow> Inl (Error ''expect table name'')
      | (Some table, p) \<Rightarrow>
          (case tryKeyword [''VALUES''] p of (False, p) \<Rightarrow> Inl (Error ''expect VALUES'')
           | (True, p) \<Rightarrow>
               rbind (parseCommaList parseValueItem [] p) (\<lambda>(value, p).
                 parseEnd \<lparr>ins_table = table, ins_value = value\<rparr> p)))"

definition parseAssign :: "Parser \<Rightarrow> (ExprAssign \<times> Parser) res" where
  "parseAssign p =
     (case tryName p of (None, p) \<Rightarrow> Inl (Error ''expect column'')
      | (Some column, p) \<Rightarrow>
          (case tryPunctuation ''='' p of (False, p) \<Rightarrow> Inl (Error ''expect ='')
           | (True, p) \<Rightarrow> rbind (parseExpr p) (\<lambda>(e, p). Inr (\<lparr>as_column = column, as_expr = e\<rparr>, p))))"

fun parseUpdate_loop :: "nat \<Rightarrow> ExprAssign list \<Rightarrow> Parser \<Rightarrow> (ExprAssign list \<times> Parser) res" where
  "parseUpdate_loop 0 out p = Inl out_of_fuel"
| "parseUpdate_loop (Suc fuel) out p =
     rbind (parseAssign p) (\<lambda>(a, p).
       case tryPunctuation '','' p of (True, p) \<Rightarrow> parseUpdate_loop fuel (out @ [a]) p
       | (False, p) \<Rightarrow> Inr (out @ [a], p))"

definition parseUpdate :: "Parser \<Rightarrow> (StmtUpdate \<times> Parser) res" where
  "parseUpdate p =
     (case tryName p of (None, p) \<Rightarrow> Inl (Error ''expect table name'')
      | (Some table, p) \<Rightarrow>
          (case tryKeyword [''SET''] p of (False, p) \<Rightarrow> Inl (Error ''expect SET'')
           | (True, p) \<Rightarrow>
               rbind (parseUpdate_loop (Suc (length (p_buf p))) [] p) (\<lambda>(value, p).
                 rbind (parseWhere p) (\<lambda>(cond, p).
                   parseEnd \<lparr>upd_table = table, upd_cond = cond, upd_value = value\<rparr> p))))"

definition parseDelete :: "Parser \<Rightarrow> (StmtDelete \<times> Parser) res" where
  "parseDelete p =
     (case tryName p of (None, p) \<Rightarrow> Inl (Error ''expect table name'')
      | (Some table, p) \<Rightarrow>
          rbind (parseWhere p) (\<lambda>(cond, p). parseEnd \<lparr>del_table = table, del_cond = cond\<rparr> p))"

definition parseDropTable :: "Parser \<Rightarrow> (StmtDropTable \<times> Parser) res" where
  "parseDropTable p =
     (case tryName p of (None, p) \<Rightarrow> Inl (Error ''expect table name'')
      | (Some table, p) \<Rightarrow> parseEnd \<lparr>drop_table = table\<rparr> p)"

definition parseStmt :: "Parser \<Rightarrow> (stmt \<times> Parser) res" where
  "parseStmt p =
     (case tryKeyword [''SELECT''] p of (True, p) \<Rightarrow> rbind (parseSelect p) (\<lambda>(s, p). Inr (SSelect s, p)) | (False, p) \<Rightarrow>
     (case tryKeyword [''CREATE'', ''TABLE''] p of (True, p) \<Rightarrow> rbind (parseCreateTable p) (\<lambda>(s, p). Inr (SCreateTable s, p)) | (False, p) \<Rightarrow>
     (case tryKeyword [''INSERT'', ''INTO''] p of (True, p) \<Rightarrow> rbind (parseInsert p) (\<lambda>(s, p). Inr (SInsert s, p)) | (False, p) \<Rightarrow>
     (case tryKeyword [''UPDATE''] p of (True, p) \<Rightarrow> rbind (parseUpdate p) (\<lambda>(s, p). Inr (SUpdate s, p)) | (False, p) \<Rightarrow>
     (case tryKeyword [''DELETE'', ''FROM''] p of (True, p) \<Rightarrow> rbind (parseDelete p) (\<lambda>(s, p). Inr (SDelete s, p)) | (False, p) \<Rightarrow>
     (case tryKeyword [''DROP'', ''TABLE''] p of (True, p) \<Rightarrow> rbind (parseDropTable p) (\<lambda>(s, p). Inr (SDropTable s, p)) | (False, p) \<Rightarrow>
       Inl (Error ''unknown statement'')))))))"

definition isEnd :: "Parser \<Rightarrow> bool" where
  "isEnd p \<longleftrightarrow> length (p_buf p) \<le> p_pos (skipSpaces p)"

definition ParseStmt :: "bytes \<Rightarrow> stmt res" where
  "ParseStmt s =
     rbind (parseStmt (NewParser s)) (\<lambda>(out, p).
       if \<not> isEnd p then Inl (Error ''trailing garbage after the statement'') else Inr out)"

end
