(* ===== verification/Plan.thy ===== *)
theory Plan
  imports Sql
begin

text \<open>
  The planner of \<open>src/db/table.go\<close>: which key range a \<open>WHERE\<close> clause allows, and what is left of the
  clause as a filter.  Indexing into the schema is checked as Go checks it, so a planner run on a
  schema that was never validated may panic; on a valid one it never does.
\<close>

section \<open>Ranges\<close>

record RangeReq =
  rr_StartCmp :: ExprOp
  rr_StopCmp :: ExprOp
  rr_Start :: "cell list"
  rr_Stop :: "cell list"
  rr_IndexNo :: int

definition suffixPositive :: "ExprOp \<Rightarrow> bool \<times> bool" where
  "suffixPositive op =
     (if op \<in> {OP_LE, OP_GT} then (True, True) else if op \<in> {OP_GE, OP_LT} then (False, True) else (False, False))"

definition isDescending :: "ExprOp \<Rightarrow> bool \<times> bool" where
  "isDescending op =
     (if op \<in> {OP_LE, OP_LT} then (True, True) else if op \<in> {OP_GE, OP_GT} then (False, True) else (False, False))"

section \<open>Columns\<close>

definition addPKeyToIndex :: "int list \<Rightarrow> int list \<Rightarrow> int list" where
  "addPKeyToIndex index pkey = fold (\<lambda>idx index. if idx \<in> set index then index else index @ [idx]) pkey index"

fun lookupColumns :: "Column list \<Rightarrow> bytes list \<Rightarrow> int list res" where
  "lookupColumns cols [] = Inr []"
| "lookupColumns cols (name # names) =
     (case slices_IndexFunc (\<lambda>col. col_Name col = name) cols of
        None \<Rightarrow> Inl (Error ''column is not found'')
      | Some idx \<Rightarrow> rbind (lookupColumns cols names) (\<lambda>indices. Inr (int idx # indices)))"

section \<open>Conjunctions\<close>

definition maxPlanConjuncts :: nat where "maxPlanConjuncts = 32"

text \<open>The stack of \<open>flattenAnd\<close> has its top at the head of the list.\<close>

function (sequential) flattenAnd_loop :: "expr list \<Rightarrow> expr list \<Rightarrow> expr list" where
  "flattenAnd_loop [] out = out"
| "flattenAnd_loop (EBinOp op l r # stack) out =
     (if op = OP_AND \<and> length out + length stack + 2 \<le> maxPlanConjuncts then flattenAnd_loop (l # r # stack) out
      else flattenAnd_loop stack (out @ [EBinOp op l r]))"
| "flattenAnd_loop (node # stack) out = flattenAnd_loop stack (out @ [node])"
  by pat_completeness auto
termination by (relation "measure (\<lambda>(stack, out). sum_list (map (\<lambda>e. 2 * size e + 1) stack))") auto

definition flattenAnd :: "expr \<Rightarrow> expr list" where
  "flattenAnd cond = flattenAnd_loop [cond] []"

fun andExcept_loop :: "nat \<Rightarrow> expr list \<Rightarrow> nat list \<Rightarrow> expr option \<Rightarrow> expr option" where
  "andExcept_loop i [] used out = out"
| "andExcept_loop i (node # nodes) used out =
     andExcept_loop (Suc i) nodes used
       (if i \<in> set used then out else case out of None \<Rightarrow> Some node | Some e \<Rightarrow> Some (EBinOp OP_AND e node))"

definition andExcept :: "expr list \<Rightarrow> nat list \<Rightarrow> expr option" where
  "andExcept nodes used = andExcept_loop 0 nodes used None"

section \<open>Matching predicates\<close>

fun eq_operands :: "expr \<Rightarrow> expr \<Rightarrow> NamedCell option" where
  "eq_operands (EName name) (ECell c) = Some \<lparr>nc_column = name, nc_value = c\<rparr>"
| "eq_operands _ _ = None"

fun matchEq :: "expr \<Rightarrow> NamedCell option" where
  "matchEq (EBinOp op left right) =
     (if op \<noteq> OP_EQ then None
      else case left of EName _ \<Rightarrow> eq_operands left right | _ \<Rightarrow> eq_operands right left)"
| "matchEq _ = None"

fun name_kids :: "expr list \<Rightarrow> bytes list option" where
  "name_kids [] = Some []"
| "name_kids (EName s # kids) = map_option ((#) s) (name_kids kids)"
| "name_kids (_ # kids) = None"

fun asNameList :: "expr \<Rightarrow> bytes list option" where
  "asNameList (EName s) = Some [s]"
| "asNameList (ETuple kids) = name_kids kids"
| "asNameList _ = None"

fun cell_kids :: "expr list \<Rightarrow> cell list option" where
  "cell_kids [] = Some []"
| "cell_kids (ECell c # kids) = map_option ((#) c) (cell_kids kids)"
| "cell_kids (_ # kids) = None"

fun asCellList :: "expr \<Rightarrow> cell list option" where
  "asCellList (ECell c) = Some [c]"
| "asCellList (ETuple kids) = cell_kids kids"
| "asCellList _ = None"

fun flip_cmp :: "ExprOp \<Rightarrow> ExprOp" where
  "flip_cmp OP_LE = OP_GE"
| "flip_cmp OP_GE = OP_LE"
| "flip_cmp OP_LT = OP_GT"
| "flip_cmp OP_GT = OP_LT"
| "flip_cmp op = op"

fun matchCmp :: "expr \<Rightarrow> (ExprOp \<times> bytes list \<times> cell list) option" where
  "matchCmp (EBinOp op left right) =
     (if op \<notin> {OP_LE, OP_GE, OP_LT, OP_GT} then None
      else case asNameList left of
        Some names \<Rightarrow> map_option (\<lambda>cells. (op, names, cells)) (asCellList right)
      | None \<Rightarrow> (case asNameList right of None \<Rightarrow> None
          | Some names \<Rightarrow> map_option (\<lambda>cells. (flip_cmp op, names, cells)) (asCellList left)))"
| "matchCmp _ = None"

text \<open>The loop of \<open>isPKeyPrefix\<close> over the columns, the cells and the index positions.\<close>

fun isPKeyPrefix_loop :: "Schema \<Rightarrow> int list \<Rightarrow> bytes list \<Rightarrow> cell list \<Rightarrow> bool res" where
  "isPKeyPrefix_loop schema (idx # index) (name # cols) (c # cells) =
     rbind (go_index (sc_Cols schema) idx) (\<lambda>col.
       if col_Name col \<noteq> name \<or> col_Type col \<noteq> cell_Type c then Inr False
       else isPKeyPrefix_loop schema index cols cells)"
| "isPKeyPrefix_loop schema index cols cells = Inr True"

definition isPKeyPrefix :: "Schema \<Rightarrow> int \<Rightarrow> bytes list \<Rightarrow> cell list \<Rightarrow> bool res" where
  "isPKeyPrefix schema indexNo cols cells =
     (if indexNo < 0 \<or> indexNo \<ge> int (length (sc_Indices schema)) then Inr False
      else rbind (go_index (sc_Indices schema) indexNo) (\<lambda>index.
        if length cols \<noteq> length cells \<or> length cols = 0 \<or> length cols > length index then Inr False
        else isPKeyPrefix_loop schema index cols cells))"

text \<open>One side of a range: a comparison over a prefix of the index.\<close>

definition match_bound :: "Schema \<Rightarrow> int \<Rightarrow> expr \<Rightarrow> (ExprOp \<times> cell list) option res" where
  "match_bound schema indexNo cond =
     (case matchCmp cond of None \<Rightarrow> Inr None
      | Some (op, cols, cells) \<Rightarrow> rbind (isPKeyPrefix schema indexNo cols cells) (\<lambda>ok. Inr (if ok then Some (op, cells) else None)))"

definition match_pair :: "Schema \<Rightarrow> int \<Rightarrow> expr \<Rightarrow> expr \<Rightarrow> RangeReq option res" where
  "match_pair schema indexNo left right =
     rbind (match_bound schema indexNo left) (\<lambda>b1. case b1 of None \<Rightarrow> Inr None
     | Some (op1, cells1) \<Rightarrow>
     rbind (match_bound schema indexNo right) (\<lambda>b2. case b2 of None \<Rightarrow> Inr None
     | Some (op2, cells2) \<Rightarrow>
       (if fst (isDescending op1) = fst (isDescending op2) then Inr None
        else if fst (isDescending op1) then
          Inr (Some \<lparr>rr_StartCmp = op2, rr_StopCmp = op1, rr_Start = cells2, rr_Stop = cells1, rr_IndexNo = indexNo\<rparr>)
        else
          Inr (Some \<lparr>rr_StartCmp = op1, rr_StopCmp = op2, rr_Start = cells1, rr_Stop = cells2, rr_IndexNo = indexNo\<rparr>))))"

fun matchRangeByIndex :: "Schema \<Rightarrow> int \<Rightarrow> expr \<Rightarrow> RangeReq option res" where
  "matchRangeByIndex schema indexNo (EBinOp op left right) =
     (if op = OP_AND then match_pair schema indexNo left right
      else rbind (match_bound schema indexNo (EBinOp op left right)) (\<lambda>b. case b of None \<Rightarrow> Inr None
        | Some (op1, cells1) \<Rightarrow>
            Inr (Some \<lparr>rr_StartCmp = op1, rr_StopCmp = (if fst (isDescending op1) then OP_GE else OP_LE),
              rr_Start = cells1, rr_Stop = [], rr_IndexNo = indexNo\<rparr>)))"
| "matchRangeByIndex schema indexNo _ = Inr None"

section \<open>The plan\<close>

record scanPlan =
  sp_req :: RangeReq
  sp_residual :: "expr option"
  sp_indexed :: bool

definition fullScanReq :: RangeReq where
  "fullScanReq = \<lparr>rr_StartCmp = OP_GE, rr_StopCmp = OP_LE, rr_Start = [], rr_Stop = [], rr_IndexNo = 0\<rparr>"

text \<open>The first operand, not used yet, that pins the column down.\<close>

fun find_eq :: "Column \<Rightarrow> nat list \<Rightarrow> nat \<Rightarrow> expr list \<Rightarrow> (cell \<times> nat) option" where
  "find_eq col used i [] = None"
| "find_eq col used i (node # nodes) =
     (if i \<in> set used then find_eq col used (Suc i) nodes
      else case matchEq node of
        Some named \<Rightarrow> if nc_column named = col_Name col \<and> cell_Type (nc_value named) = col_Type col then Some (nc_value named, i)
          else find_eq col used (Suc i) nodes
      | None \<Rightarrow> find_eq col used (Suc i) nodes)"

fun pickEqPrefix_loop :: "Schema \<Rightarrow> expr list \<Rightarrow> int list \<Rightarrow> cell list \<Rightarrow> nat list \<Rightarrow> (cell list \<times> nat list) res" where
  "pickEqPrefix_loop schema nodes [] cells used = Inr (cells, used)"
| "pickEqPrefix_loop schema nodes (idx # index) cells used =
     rbind (go_index (sc_Cols schema) idx) (\<lambda>col.
       case find_eq col used 0 nodes of None \<Rightarrow> Inr (cells, used)
       | Some (c, i) \<Rightarrow> pickEqPrefix_loop schema nodes index (cells @ [c]) (used @ [i]))"

definition pickEqPrefix :: "Schema \<Rightarrow> nat \<Rightarrow> expr list \<Rightarrow> (cell list \<times> nat list) res" where
  "pickEqPrefix schema indexNo nodes =
     rbind (go_index (sc_Indices schema) (int indexNo)) (\<lambda>index. pickEqPrefix_loop schema nodes index [] [])"

fun best_prefix :: "Schema \<Rightarrow> expr list \<Rightarrow> nat list \<Rightarrow> (nat \<times> cell list \<times> nat list) option \<Rightarrow>
    (nat \<times> cell list \<times> nat list) option res" where
  "best_prefix schema nodes [] best = Inr best"
| "best_prefix schema nodes (indexNo # rest) best =
     rbind (pickEqPrefix schema indexNo nodes) (\<lambda>(cells, used).
       best_prefix schema nodes rest
         (if length cells > (case best of None \<Rightarrow> 0 | Some (_, bestCells, _) \<Rightarrow> length bestCells)
          then Some (indexNo, cells, used) else best))"

fun first_match :: "('a \<Rightarrow> 'b option res) \<Rightarrow> 'a list \<Rightarrow> ('a \<times> 'b) option res" where
  "first_match f [] = Inr None"
| "first_match f (x # xs) = rbind (f x) (\<lambda>r. case r of Some y \<Rightarrow> Inr (Some (x, y)) | None \<Rightarrow> first_match f xs)"

definition index_pairs :: "nat \<Rightarrow> (nat \<times> nat) list" where
  "index_pairs n = filter (\<lambda>(i, j). i \<noteq> j) (List.product [0..<n] [0..<n])"

text \<open>The ranges one index allows: pairs of operands first, then single ones.\<close>

definition plan_index :: "Schema \<Rightarrow> expr list \<Rightarrow> nat \<Rightarrow> scanPlan option res" where
  "plan_index schema nodes indexNo =
     rbind (first_match (\<lambda>(i, j). matchRangeByIndex schema (int indexNo) (EBinOp OP_AND (nodes ! i) (nodes ! j)))
         (index_pairs (length nodes))) (\<lambda>r. case r of
       Some ((i, j), req) \<Rightarrow> Inr (Some \<lparr>sp_req = req, sp_residual = andExcept nodes [i, j], sp_indexed = True\<rparr>)
     | None \<Rightarrow>
     rbind (first_match (\<lambda>i. matchRangeByIndex schema (int indexNo) (nodes ! i)) [0..<length nodes]) (\<lambda>r. case r of
       Some (i, req) \<Rightarrow> Inr (Some \<lparr>sp_req = req, sp_residual = andExcept nodes [i], sp_indexed = True\<rparr>)
     | None \<Rightarrow> Inr None))"

definition planScan :: "Schema \<Rightarrow> expr option \<Rightarrow> scanPlan res" where
  "planScan schema cond = (case cond of
     None \<Rightarrow> Inr \<lparr>sp_req = fullScanReq, sp_residual = None, sp_indexed = False\<rparr>
   | Some c \<Rightarrow>
       let nodes = flattenAnd c; indices = [0..<length (sc_Indices schema)] in
       rbind (best_prefix schema nodes indices None) (\<lambda>best. case best of
         Some (indexNo, cells, used) \<Rightarrow>
           Inr \<lparr>sp_req = \<lparr>rr_StartCmp = OP_GE, rr_StopCmp = OP_LE, rr_Start = cells, rr_Stop = cells, rr_IndexNo = int indexNo\<rparr>,
             sp_residual = andExcept nodes used, sp_indexed = True\<rparr>
       | None \<Rightarrow>
           rbind (first_match (plan_index schema nodes) indices) (\<lambda>r. case r of
             Some (_, plan) \<Rightarrow> Inr plan
           | None \<Rightarrow> Inr \<lparr>sp_req = fullScanReq, sp_residual = cond, sp_indexed = False\<rparr>)))"

definition matchRow :: "Schema \<Rightarrow> row \<Rightarrow> expr option \<Rightarrow> bool res" where
  "matchRow schema row residual = (case residual of None \<Rightarrow> Inr True
   | Some e \<Rightarrow> rbind (evalExpr schema row e) (\<lambda>c.
       if cell_Type c \<noteq> TypeI64 then Inl (Error ''WHERE clause is not a boolean'') else Inr (cell_I64 c \<noteq> 0)))"

section \<open>Projections\<close>

record ColumnDesc =
  cd_Name :: bytes
  cd_Type :: byte

fun expandProjection_loop :: "Schema \<Rightarrow> expr list \<Rightarrow> expr list \<Rightarrow> ColumnDesc list \<Rightarrow> expr list \<times> ColumnDesc list" where
  "expandProjection_loop schema [] proj desc = (proj, desc)"
| "expandProjection_loop schema (e # cols) proj desc =
     (if e = EStar then
        expandProjection_loop schema cols (proj @ map (\<lambda>col. EName (col_Name col)) (sc_Cols schema))
          (desc @ map (\<lambda>col. \<lparr>cd_Name = col_Name col, cd_Type = col_Type col\<rparr>) (sc_Cols schema))
      else expandProjection_loop schema cols (proj @ [e]) (desc @ [\<lparr>cd_Name = expr2str e, cd_Type = exprType schema e\<rparr>]))"

definition expandProjection :: "Schema \<Rightarrow> expr list \<Rightarrow> (expr list \<times> ColumnDesc list) res" where
  "expandProjection schema cols =
     (case expandProjection_loop schema cols [] [] of (proj, desc) \<Rightarrow>
        if proj = [] then Inl (Error ''expect column list'') else Inr (proj, desc))"

end
