(* ===== verification/Catalog.thy ===== *)
theory Catalog
  imports Plan Meta
begin

text \<open>
  The catalogue of \<open>src/db/table.go\<close>: the keys under which table schemas are stored, and the
  JSON form of a schema, as \<open>json.Marshal\<close> writes it and \<open>json.Unmarshal\<close> reads it.  The theorems:
  every tree of values that \<open>json_print\<close> writes is read back, and so is every schema.
\<close>

section \<open>Writing JSON\<close>

fun json_print :: "json \<Rightarrow> bytes" where
  "json_print JNull = str_bytes ''null''"
| "json_print (JBool b) = (if b then str_bytes ''true'' else str_bytes ''false'')"
| "json_print (JNum n) = n"
| "json_print (JStr s) = json_quote s"
| "json_print (JArr vs) = 91 # strings_Join (map json_print vs) [44] @ [93]"
| "json_print (JObj ms) = 123 # strings_Join (map (\<lambda>(k, v). json_quote k @ 58 # json_print v) ms) [44] @ [125]"

fun json_depth :: "json \<Rightarrow> nat" where
  "json_depth (JArr vs) = Suc (fold max (map json_depth vs) 0)"
| "json_depth (JObj ms) = Suc (fold max (map (\<lambda>(k, v). json_depth v) ms) 0)"
| "json_depth _ = 0"

text \<open>Trees with ASCII strings and decimal numbers.\<close>

fun json_plain :: "json \<Rightarrow> bool" where
  "json_plain (JNum n) \<longleftrightarrow> (\<exists>m. n = FormatUint m)"
| "json_plain (JStr s) \<longleftrightarrow> ascii s"
| "json_plain (JArr vs) \<longleftrightarrow> (\<forall>v\<in>set vs. json_plain v)"
| "json_plain (JObj ms) \<longleftrightarrow> (\<forall>(k, v)\<in>set ms. ascii k \<and> json_plain v)"
| "json_plain _ \<longleftrightarrow> True"

section \<open>Reading back what was written\<close>

lemma le_fold_max: "x \<in> set xs \<Longrightarrow> x \<le> fold max xs (a::nat)"
proof (induction xs arbitrary: a)
  case (Cons y ys)
  have "a \<le> fold max zs a" for zs and a :: nat
    by (induction zs arbitrary: a) (auto intro: order_trans[OF max.cobounded2])
  from this[of "max y a" ys] Cons show ?case by auto
qed simp

lemma strings_Join_Cons: "strings_Join (x # xs) sep = x @ (if xs = [] then [] else sep @ strings_Join xs sep)"
  by (cases xs) simp_all

lemma member_length: "x \<in> set xs \<Longrightarrow> length x \<le> length (strings_Join xs sep)"
  by (induction xs) (auto simp: strings_Join_Cons)

definition json_reads :: "json \<Rightarrow> bool" where
  "json_reads v \<longleftrightarrow> (\<forall>fuel depth r. 2 * length (json_print v) < fuel \<longrightarrow> depth + json_depth v \<le> maxNestingDepth \<longrightarrow>
     ends_number r \<longrightarrow> json_value fuel depth (json_print v @ r) = Inr (v, r))"

lemma json_readsD:
  "json_reads v \<Longrightarrow> 2 * length (json_print v) < fuel \<Longrightarrow> depth + json_depth v \<le> maxNestingDepth \<Longrightarrow>
     ends_number r \<Longrightarrow> json_value fuel depth (json_print v @ r) = Inr (v, r)"
  by (simp add: json_reads_def)

lemma ends_number_punct [simp]: "ends_number (44 # r)" "ends_number (93 # r)" "ends_number (125 # r)"
  by (simp_all add: ends_number_def is_digit_def)

lemma json_elems_print:
  assumes "vs \<noteq> []" and "\<forall>v\<in>set vs. json_reads v" and "\<forall>v\<in>set vs. depth + json_depth v \<le> maxNestingDepth"
    and "2 * length (strings_Join (map json_print vs) [44]) + 1 < fuel"
  shows "json_elems fuel depth (strings_Join (map json_print vs) [44] @ 93 # r) = Inr (vs, r)"
  using assms
proof (induction vs arbitrary: fuel)
  case (Cons v vs)
  obtain f where f: "fuel = Suc f" using Cons.prems(4) by (cases fuel) auto
  have v: "json_value f depth (json_print v @ r') = Inr (v, r')" if "ends_number r'" for r'
    using Cons.prems f that by (intro json_readsD) (auto simp: strings_Join_Cons)
  show ?case
  proof (cases "vs = []")
    case True
    then show ?thesis by (simp add: f v is_ws_def del: json_value.simps)
  next
    case False
    then have "json_elems f depth (strings_Join (map json_print vs) [44] @ 93 # r) = Inr (vs, r)"
      using Cons.prems f by (intro Cons.IH) (auto simp: strings_Join_Cons)
    then show ?thesis using False by (simp add: f strings_Join_Cons v is_ws_def del: json_value.simps)
  qed
qed simp

lemma json_members_print:
  assumes "ms \<noteq> []" and "\<forall>(k, v)\<in>set ms. ascii k \<and> json_reads v" and "\<forall>(k, v)\<in>set ms. depth + json_depth v \<le> maxNestingDepth"
    and "2 * length (strings_Join (map (\<lambda>(k, v). json_quote k @ 58 # json_print v) ms) [44]) + 1 < fuel"
  shows "json_members fuel depth (strings_Join (map (\<lambda>(k, v). json_quote k @ 58 # json_print v) ms) [44] @ 125 # r) = Inr (ms, r)"
  using assms
proof (induction ms arbitrary: fuel)
  case (Cons m ms)
  obtain k v where m: "m = (k, v)" by force
  obtain f where f: "fuel = Suc f" using Cons.prems(4) by (cases fuel) auto
  have v: "json_value f depth (json_print v @ [c] @ r') = Inr (v, [c] @ r')" if "ends_number (c # r')" for c r'
    using Cons.prems f that m json_readsD[of v f depth "[c] @ r'"] by (auto simp: strings_Join_Cons)
  have k: "ascii k" using Cons.prems m by simp
  show ?case
  proof (cases "ms = []")
    case True
    then show ?thesis using json_member[OF k v[of 125 r]] by (simp add: f m is_ws_def del: json_members.simps)
  next
    case False
    let ?r = "strings_Join (map (\<lambda>(k, v). json_quote k @ 58 # json_print v) ms) [44] @ 125 # r"
    have "json_members f depth ?r = Inr (ms, r)"
      using False Cons.prems f by (intro Cons.IH) (auto simp: strings_Join_Cons)
    then show ?thesis using False json_member[OF k v[of 44 ?r]] by (simp add: f m strings_Join_Cons is_ws_def del: json_members.simps)
  qed
qed simp

lemma json_reads_empty: "json_reads (JArr [])" "json_reads (JObj [])"
proof -
  have "json_value fuel depth (91 # 93 # r) = Inr (JArr [], r) \<and> json_value fuel depth (123 # 125 # r) = Inr (JObj [], r)"
    if "0 < fuel" "depth < maxNestingDepth" for fuel depth r
    using that by (cases fuel) (simp_all add: is_ws_def)
  then show "json_reads (JArr [])" "json_reads (JObj [])" by (simp_all add: json_reads_def)
qed

lemma json_reads_leaf: "json_reads JNull" "json_reads (JBool b)"
proof -
  have "json_value fuel depth (json_print JNull @ r) = Inr (JNull, r) \<and> json_value fuel depth (json_print (JBool b) @ r) = Inr (JBool b, r)"
    if "0 < fuel" for fuel depth r
    using that by (cases fuel) (simp_all add: is_ws_def str_bytes_def has_prefix_def)
  then show "json_reads JNull" "json_reads (JBool b)" by (simp_all add: json_reads_def)
qed

lemma json_print_hd:
  "json_plain v \<Longrightarrow> \<exists>c t. json_print v = c # t \<and> \<not> is_ws c \<and> c \<noteq> 93"
proof (cases v)
  case (JNum n)
  assume "json_plain v"
  then obtain m where m: "n = FormatUint m" using JNum by auto
  obtain c t where "FormatUint m = c # t" by (cases "FormatUint m") auto
  then show ?thesis using JNum m FormatUint_digits[of m] by (auto simp: is_digit_def is_ws_def)
qed (auto simp: json_quote_def str_bytes_def is_ws_def)

lemma json_print_reads: "json_plain v \<Longrightarrow> json_reads v"
proof (induction v rule: json_print.induct)
  case (3 n)
  then obtain m where "n = FormatUint m" by auto
  then show ?case unfolding json_reads_def by (auto simp: gr0_conv_Suc json_value_FormatUint simp del: json_value.simps dest!: less_imp_Suc_add)
next
  case (4 s)
  then show ?case unfolding json_reads_def by (auto simp: json_quote_value simp del: json_value.simps dest!: less_imp_Suc_add)
next
  case (5 vs)
  show ?case
  proof (cases "vs = []")
    case False
    have hd: "\<exists>c t. strings_Join (map json_print vs) [44] = c # t \<and> \<not> is_ws c \<and> c \<noteq> 93"
      using False json_print_hd[of "hd vs"] 5(2) by (cases vs) (auto simp: strings_Join_Cons)
    have "json_elems f (Suc d) (strings_Join (map json_print vs) [44] @ 93 # r) = Inr (vs, r)"
      if "2 * length (strings_Join (map json_print vs) [44]) + 1 < f" "d + json_depth (JArr vs) \<le> maxNestingDepth" for f d r
      using that 5 le_fold_max[of _ "map json_depth vs" 0] False
      by (intro json_elems_print) (fastforce simp: image_iff)+
    then show ?thesis using hd unfolding json_reads_def
      by (auto simp: is_ws_def simp del: json_elems.simps dest!: less_imp_Suc_add)
  qed (simp add: json_reads_empty)
next
  case (6 ms)
  show ?case
  proof (cases "ms = []")
    case False
    have hd: "\<exists>t. strings_Join (map (\<lambda>(k, v). json_quote k @ 58 # json_print v) ms) [44] = 34 # t"
      using False by (cases ms) (auto simp: strings_Join_Cons json_quote_def)
    have "json_members f (Suc d) (strings_Join (map (\<lambda>(k, v). json_quote k @ 58 # json_print v) ms) [44] @ 125 # r) = Inr (ms, r)"
      if "2 * length (strings_Join (map (\<lambda>(k, v). json_quote k @ 58 # json_print v) ms) [44]) + 1 < f"
        "d + json_depth (JObj ms) \<le> maxNestingDepth" for f d r
      using that 6 le_fold_max[of _ "map (\<lambda>(k, v). json_depth v) ms" 0] False
      by (intro json_members_print) (fastforce simp: image_iff)+
    then show ?thesis using hd unfolding json_reads_def
      by (auto simp: is_ws_def simp del: json_members.simps dest!: less_imp_Suc_add)
  qed (simp add: json_reads_empty)
qed (simp_all add: json_reads_leaf)

lemma json_parse_print:
  assumes "json_plain v" and "json_depth v \<le> maxNestingDepth"
  shows "json_parse (json_print v) = Inr v"
  using json_readsD[OF json_print_reads[OF assms(1)], of "Suc (2 * length (json_print v))" 0 "[]"] assms(2)
  by (simp add: json_parse_def ends_number_def skip_ws_def del: json_value.simps)

section \<open>Schemas as JSON\<close>

definition column_json :: "Column \<Rightarrow> json" where
  "column_json col = JObj [(str_bytes ''Name'', JStr (col_Name col)), (str_bytes ''Type'', JNum (FormatUint (unat (col_Type col))))]"

text \<open>A nil slice is written as \<open>null\<close>.\<close>

definition slice_json :: "('a \<Rightarrow> json) \<Rightarrow> 'a list \<Rightarrow> json" where
  "slice_json f xs = (if xs = [] then JNull else JArr (map f xs))"

definition schema_json :: "Schema \<Rightarrow> json" where
  "schema_json s = JObj [(str_bytes ''Version'', JNum (FormatInt (sc_Version s))), (str_bytes ''Table'', JStr (sc_Table s)),
     (str_bytes ''Cols'', slice_json column_json (sc_Cols s)),
     (str_bytes ''Indices'', slice_json (slice_json (\<lambda>i. JNum (FormatInt i))) (sc_Indices s))]"

definition marshal_schema :: "Schema \<Rightarrow> bytes" where
  "marshal_schema s = json_print (schema_json s)"

text \<open>
  Decoding fills what is there: a repeated member overwrites, and the elements of a slice are
  decoded over the elements that its backing array holds.  A slice under construction is the backing
  array with the length.
\<close>

type_synonym 'a slice = "'a list \<times> nat"

definition slice_list :: "'a slice \<Rightarrow> 'a list" where "slice_list sl = take (snd sl) (fst sl)"

fun decode_elems :: "('a \<Rightarrow> json \<Rightarrow> 'a res) \<Rightarrow> 'a \<Rightarrow> 'a list \<Rightarrow> json list \<Rightarrow> 'a list res" where
  "decode_elems f zero backing [] = Inr backing"
| "decode_elems f zero backing (v # vs) =
     rbind (f (case backing of [] \<Rightarrow> zero | x # _ \<Rightarrow> x) v) (\<lambda>x.
     rbind (decode_elems f zero (tl backing) vs) (\<lambda>xs. Inr (x # xs)))"

definition decode_slice :: "('a \<Rightarrow> json \<Rightarrow> 'a res) \<Rightarrow> 'a \<Rightarrow> 'a slice \<Rightarrow> json \<Rightarrow> 'a slice res" where
  "decode_slice f zero sl v = (case v of
     JNull \<Rightarrow> Inr ([], 0)
   | JArr [] \<Rightarrow> Inr ([], 0)
   | JArr vs \<Rightarrow> rbind (decode_elems f zero (fst sl) vs) (\<lambda>xs. Inr (xs, length vs))
   | _ \<Rightarrow> Inl json_type_error)"

definition decode_string :: "bytes \<Rightarrow> json \<Rightarrow> bytes res" where
  "decode_string old v = (case v of JStr s \<Rightarrow> Inr s | JNull \<Rightarrow> Inr old | _ \<Rightarrow> Inl json_type_error)"

definition decode_int :: "int \<Rightarrow> json \<Rightarrow> int res" where
  "decode_int old v = (case v of JNum n \<Rightarrow> ParseInt n | JNull \<Rightarrow> Inr old | _ \<Rightarrow> Inl json_type_error)"

definition decode_uint8 :: "byte \<Rightarrow> json \<Rightarrow> byte res" where
  "decode_uint8 old v = (case v of
     JNum n \<Rightarrow> rbind (ParseUint n) (\<lambda>x. if x < 256 then Inr (word_of_nat x) else Inl json_type_error)
   | JNull \<Rightarrow> Inr old | _ \<Rightarrow> Inl json_type_error)"

fun decode_members :: "('a \<Rightarrow> bytes \<times> json \<Rightarrow> 'a res) \<Rightarrow> 'a \<Rightarrow> (bytes \<times> json) list \<Rightarrow> 'a res" where
  "decode_members f x [] = Inr x"
| "decode_members f x (m # ms) = rbind (f x m) (\<lambda>x. decode_members f x ms)"

definition decode_struct :: "('a \<Rightarrow> bytes \<times> json \<Rightarrow> 'a res) \<Rightarrow> 'a \<Rightarrow> json \<Rightarrow> 'a res" where
  "decode_struct f x v = (case v of JObj ms \<Rightarrow> decode_members f x ms | JNull \<Rightarrow> Inr x | _ \<Rightarrow> Inl json_type_error)"

definition column_fields :: "string list" where "column_fields = [''Name'', ''Type'']"
definition schema_fields :: "string list" where "schema_fields = [''Version'', ''Table'', ''Cols'', ''Indices'']"

definition decode_column :: "Column \<Rightarrow> json \<Rightarrow> Column res" where
  "decode_column = decode_struct (\<lambda>col (k, v).
     if field_matches column_fields ''Name'' k then rbind (decode_string (col_Name col) v) (\<lambda>x. Inr (col\<lparr>col_Name := x\<rparr>))
     else if field_matches column_fields ''Type'' k then rbind (decode_uint8 (col_Type col) v) (\<lambda>x. Inr (col\<lparr>col_Type := x\<rparr>))
     else Inr col)"

record schema_target =
  st_Version :: int
  st_Table :: bytes
  st_Cols :: "Column slice"
  st_Indices :: "int slice slice"

definition decode_schema :: "schema_target \<Rightarrow> json \<Rightarrow> schema_target res" where
  "decode_schema = decode_struct (\<lambda>s (k, v).
     if field_matches schema_fields ''Version'' k then rbind (decode_int (st_Version s) v) (\<lambda>x. Inr (s\<lparr>st_Version := x\<rparr>))
     else if field_matches schema_fields ''Table'' k then rbind (decode_string (st_Table s) v) (\<lambda>x. Inr (s\<lparr>st_Table := x\<rparr>))
     else if field_matches schema_fields ''Cols'' k then
       rbind (decode_slice decode_column \<lparr>col_Name = [], col_Type = 0\<rparr> (st_Cols s) v) (\<lambda>x. Inr (s\<lparr>st_Cols := x\<rparr>))
     else if field_matches schema_fields ''Indices'' k then
       rbind (decode_slice (decode_slice decode_int 0) ([], 0) (st_Indices s) v) (\<lambda>x. Inr (s\<lparr>st_Indices := x\<rparr>))
     else Inr s)"

definition unmarshal_schema :: "bytes \<Rightarrow> Schema res" where
  "unmarshal_schema b = rbind (json_parse b) (\<lambda>v.
     rbind (decode_schema \<lparr>st_Version = 0, st_Table = [], st_Cols = ([], 0), st_Indices = ([], 0)\<rparr> v) (\<lambda>s.
     Inr \<lparr>sc_Version = st_Version s, sc_Table = st_Table s, sc_Cols = slice_list (st_Cols s),
       sc_Indices = map slice_list (slice_list (st_Indices s))\<rparr>))"

section \<open>Keys of the catalogue\<close>

definition ReservedKeyPrefix :: bytes where
  "ReservedKeyPrefix = 0 # str_bytes ''pallasdb'' @ [0]"

definition IsReservedKey :: "bytes \<Rightarrow> bool" where
  "IsReservedKey key \<longleftrightarrow> has_prefix key ReservedKeyPrefix"

definition schemaKey :: "bytes \<Rightarrow> bytes" where
  "schemaKey table = ReservedKeyPrefix @ str_bytes ''schema'' @ [0] @ table"

section \<open>A stored schema is read back\<close>

definition schema_plain :: "Schema \<Rightarrow> bool" where
  "schema_plain s \<longleftrightarrow> ascii (sc_Table s) \<and> list_all (\<lambda>col. ascii (col_Name col)) (sc_Cols s) \<and> 0 \<le> sc_Version s \<and> sc_Version s < 2 ^ 63 \<and>
     list_all (list_all (\<lambda>i. 0 \<le> i \<and> i < 2 ^ 63)) (sc_Indices s)"

lemma FormatInt_nonneg: "0 \<le> i \<Longrightarrow> FormatInt i = FormatUint (nat i)"
  by (simp add: FormatInt_def)

lemma ascii_str_bytes: "list_all (\<lambda>c. of_char c < (128 :: byte)) x \<Longrightarrow> ascii (str_bytes x)"
  by (simp add: ascii_def str_bytes_def list_all_iff)

lemma fold_max_le: "\<forall>x\<in>set xs. x \<le> n \<Longrightarrow> a \<le> n \<Longrightarrow> fold max xs a \<le> (n::nat)"
  by (induction xs arbitrary: a) auto

lemma json_depth_le:
  "\<forall>v\<in>set vs. json_depth v \<le> n \<Longrightarrow> json_depth (JArr vs) \<le> Suc n"
  "\<forall>(k, v)\<in>set ms. json_depth v \<le> n \<Longrightarrow> json_depth (JObj ms) \<le> Suc n"
  by (auto intro!: fold_max_le)

lemma slice_json_depth: "\<forall>x\<in>set xs. json_depth (f x) \<le> n \<Longrightarrow> json_depth (slice_json f xs) \<le> Suc n"
  by (auto simp: slice_json_def simp del: json_depth.simps(1) intro!: json_depth_le)

lemma schema_json_plain:
  assumes "schema_plain s"
  shows "json_plain (schema_json s)" and "json_depth (schema_json s) \<le> maxNestingDepth"
proof -
  show "json_plain (schema_json s)" using assms
    by (auto simp: schema_json_def schema_plain_def slice_json_def column_json_def list_all_iff ascii_str_bytes FormatInt_nonneg)
  have "json_depth (slice_json column_json (sc_Cols s)) \<le> Suc (Suc 0)"
    by (intro slice_json_depth ballI) (simp add: column_json_def)
  moreover have "json_depth (slice_json (slice_json (\<lambda>i. JNum (FormatInt i))) (sc_Indices s)) \<le> Suc (Suc 0)"
    by (intro slice_json_depth ballI) simp
  ultimately have "json_depth (schema_json s) \<le> Suc (Suc (Suc 0))"
    unfolding schema_json_def by (intro json_depth_le) simp
  then show "json_depth (schema_json s) \<le> maxNestingDepth" by (simp add: maxNestingDepth_def)
qed

lemma decode_elems_map: "\<forall>x\<in>set xs. f zero (g x) = Inr (h x) \<Longrightarrow> decode_elems f zero [] (map g xs) = Inr (map h xs)"
  by (induction xs) simp_all

lemma decode_slice_json:
  "\<forall>x\<in>set xs. f zero (g x) = Inr (h x) \<Longrightarrow> decode_slice f zero ([], 0) (slice_json g xs) = Inr (map h xs, length xs)"
  using decode_elems_map[of xs f zero g h] by (cases xs) (auto simp: decode_slice_def slice_json_def simp del: decode_elems.simps)

lemma column_field [simp]:
  "field_matches column_fields ''Name'' (str_bytes ''Name'')" "\<not> field_matches column_fields ''Name'' (str_bytes ''Type'')"
  "field_matches column_fields ''Type'' (str_bytes ''Type'')"
  by (simp_all add: field_matches_def column_fields_def str_bytes_def)

lemma schema_field [simp]:
  "field_matches schema_fields ''Version'' (str_bytes ''Version'')" "field_matches schema_fields ''Table'' (str_bytes ''Table'')"
  "field_matches schema_fields ''Cols'' (str_bytes ''Cols'')" "field_matches schema_fields ''Indices'' (str_bytes ''Indices'')"
  "\<not> field_matches schema_fields ''Version'' (str_bytes ''Table'')" "\<not> field_matches schema_fields ''Version'' (str_bytes ''Cols'')"
  "\<not> field_matches schema_fields ''Version'' (str_bytes ''Indices'')" "\<not> field_matches schema_fields ''Table'' (str_bytes ''Cols'')"
  "\<not> field_matches schema_fields ''Table'' (str_bytes ''Indices'')" "\<not> field_matches schema_fields ''Cols'' (str_bytes ''Indices'')"
  by (simp_all add: field_matches_def schema_fields_def str_bytes_def)

lemma decode_column_json: "decode_column c (column_json col) = Inr col"
  by (simp add: decode_column_def column_json_def decode_struct_def decode_string_def decode_uint8_def
      unat_byte_less order.strict_trans[OF unat_byte_less])

lemma slice_list_pair [simp]: "slice_list (xs, length xs) = xs"
  by (simp add: slice_list_def)

lemma unmarshal_marshal_schema:
  assumes "schema_plain s"
  shows "unmarshal_schema (marshal_schema s) = Inr s"
proof -
  have cols: "decode_slice decode_column \<lparr>col_Name = [], col_Type = 0\<rparr> ([], 0) (slice_json column_json (sc_Cols s)) =
      Inr (sc_Cols s, length (sc_Cols s))"
    using decode_slice_json[of "sc_Cols s" decode_column _ column_json id] by (simp add: decode_column_json)
  have "\<forall>i\<in>set xs. ParseInt (FormatInt i) = Inr i" if "xs \<in> set (sc_Indices s)" for xs
  proof
    fix i assume "i \<in> set xs"
    then have "0 \<le> i \<and> i < 2 ^ 63" using assms that by (auto simp: schema_plain_def list_all_iff)
    then show "ParseInt (FormatInt i) = Inr i" by (intro ParseInt_FormatInt) auto
  qed
  then have "decode_slice decode_int 0 ([], 0) (slice_json (\<lambda>i. JNum (FormatInt i)) xs) = Inr (xs, length xs)"
    if "xs \<in> set (sc_Indices s)" for xs
    using decode_slice_json[of xs decode_int 0 "\<lambda>i. JNum (FormatInt i)" id] that by (simp add: decode_int_def)
  then have idx: "decode_slice (decode_slice decode_int 0) ([], 0) ([], 0) (slice_json (slice_json (\<lambda>i. JNum (FormatInt i))) (sc_Indices s)) =
      Inr (map (\<lambda>xs. (xs, length xs)) (sc_Indices s), length (sc_Indices s))"
    by (intro decode_slice_json) simp
  have m: "map slice_list (slice_list (map (\<lambda>xs. (xs, length xs)) (sc_Indices s), length (sc_Indices s))) = sc_Indices s"
    by (simp add: slice_list_def comp_def)
  show ?thesis using schema_json_plain[OF assms] assms m
    by (simp add: unmarshal_schema_def marshal_schema_def json_parse_print)
      (simp add: schema_json_def decode_schema_def decode_struct_def cols idx decode_int_def
        decode_string_def schema_plain_def)
qed

end
