(* ===== verification/Table.thy ===== *)
theory Table
  imports Catalog StoreOps
begin

text \<open>
  \<open>src/db/table.go\<close>, rows over the store: point operations with the maintenance of the secondary
  indices, and iteration over an index.  A transaction of this layer is the index of a transaction
  of the store with a cache of schemas.  A Go panic leaves a function without running what follows
  it, so an error that is a panic is passed on where the code would otherwise abort and return.
\<close>

section \<open>Transactions\<close>

record DBTX =
  dtx_kv :: nat
  dtx_tables :: "bytes \<rightharpoonup> Schema"

fun is_panic :: "err \<Rightarrow> bool" where
  "is_panic (Panic _) = True"
| "is_panic _ = False"

definition DB_NewTX :: "'c KV \<Rightarrow> 'c KV \<times> DBTX" where
  "DB_NewTX kv = (case KV_NewTX kv of (kv, i) \<Rightarrow> (kv, \<lparr>dtx_kv = i, dtx_tables = Map.empty\<rparr>))"

definition DBTX_NewTX :: "DBTX \<Rightarrow> 'c KV \<Rightarrow> 'c KV \<times> DBTX" where
  "DBTX_NewTX tx kv = (case KVTX_NewTX (dtx_kv tx) kv of (kv, i) \<Rightarrow> (kv, \<lparr>dtx_kv = i, dtx_tables = Map.empty\<rparr>))"

definition DBTX_Abort :: "DBTX \<Rightarrow> 'c KV \<Rightarrow> 'c KV \<times> unit res" where
  "DBTX_Abort tx kv = KVTX_Abort (dtx_kv tx) kv"

definition DBTX_Commit :: "'c cacheLib \<Rightarrow> DBTX \<Rightarrow> 'c KV \<Rightarrow> 'c KV \<times> unit res" where
  "DBTX_Commit cl tx kv = KVTX_Commit cl (dtx_kv tx) kv"

text \<open>\<open>abortOrCommit\<close> after an operation that returned.\<close>

definition finish_op :: "'c cacheLib \<Rightarrow> DBTX \<Rightarrow> 'c KV \<times> bool res \<Rightarrow> 'c KV \<times> bool res" where
  "finish_op cl tx m = (case m of
     (kv, Inl e) \<Rightarrow> if is_panic e then (kv, Inl e) else abortOrCommit cl (dtx_kv tx) m
   | _ \<Rightarrow> abortOrCommit cl (dtx_kv tx) m)"

section \<open>Point operations\<close>

definition DBTX_Select :: "'c KV \<Rightarrow> DBTX \<Rightarrow> Schema \<Rightarrow> row \<Rightarrow> row \<times> bool res" where
  "DBTX_Select kv tx schema row =
     (case Row_EncodeKey row schema 0 of Inl e \<Rightarrow> (row, Inl e)
      | Inr key \<Rightarrow> (case KVTX_Get kv (dtx_kv tx) key of Inl e \<Rightarrow> (row, Inl e)
          | Inr None \<Rightarrow> (row, Inr False)
          | Inr (Some val) \<Rightarrow> sbind (Row_DecodeVal schema val row) (\<lambda>row _. (row, Inr True))))"

definition DB_Select :: "Schema \<Rightarrow> row \<Rightarrow> 'c KV \<Rightarrow> 'c KV \<times> (row \<times> bool res) res" where
  "DB_Select schema row kv =
     (case DB_NewTX kv of (kv, tx) \<Rightarrow>
      let r = DBTX_Select kv tx schema row in sbind (DBTX_Abort tx kv) (\<lambda>kv _. (kv, Inr r)))"

fun delete_loop :: "DBTX \<Rightarrow> Schema \<Rightarrow> row \<Rightarrow> nat list \<Rightarrow> bool \<Rightarrow> 'c KV \<Rightarrow> 'c KV \<times> bool res" where
  "delete_loop tx schema row [] deleted kv = (kv, Inr deleted)"
| "delete_loop tx schema row (i # is) deleted kv =
     (case Row_EncodeKey row schema (int i) of Inl e \<Rightarrow> (kv, Inl e)
      | Inr key \<Rightarrow> sbind (KVTX_Del (dtx_kv tx) key kv) (\<lambda>kv deleted.
          if \<not> deleted then (kv, if i \<noteq> 0 then Inl (Error ''inconsistent index'') else Inr False)
          else delete_loop tx schema row is deleted kv))"

definition DBTX_delete :: "DBTX \<Rightarrow> Schema \<Rightarrow> row \<Rightarrow> 'c KV \<Rightarrow> 'c KV \<times> bool res" where
  "DBTX_delete tx schema row kv = delete_loop tx schema row [0..<length (sc_Indices schema)] False kv"

text \<open>The entries of a row: its value under the primary key, nothing under the secondary ones.\<close>

fun insert_loop :: "DBTX \<Rightarrow> Schema \<Rightarrow> row \<Rightarrow> bytes \<Rightarrow> nat list \<Rightarrow> bool \<Rightarrow> 'c KV \<Rightarrow> 'c KV \<times> bool res" where
  "insert_loop tx schema row val [] updated kv = (kv, Inr updated)"
| "insert_loop tx schema row val (i # is) updated kv =
     (case Row_EncodeKey row schema (int i) of Inl e \<Rightarrow> (kv, Inl e)
      | Inr key \<Rightarrow> sbind (KVTX_SetEx (dtx_kv tx) key (if i = 0 then val else []) ModeInsert kv) (\<lambda>kv updated.
          if \<not> updated then (kv, Inl (Error ''inconsistent index''))
          else insert_loop tx schema row val is updated kv))"

definition update_wanted :: "int \<Rightarrow> bytes option \<Rightarrow> bytes \<Rightarrow> bool res" where
  "update_wanted mode old val =
     (if mode = ModeUpsert then Inr (old = None \<or> old \<noteq> Some val)
      else if mode = ModeInsert then Inr (old = None)
      else if mode = ModeUpdate then Inr (old \<noteq> None \<and> old \<noteq> Some val)
      else Inl (Error ''invalid update mode''))"

definition DBTX_update :: "DBTX \<Rightarrow> Schema \<Rightarrow> row \<Rightarrow> int \<Rightarrow> 'c KV \<Rightarrow> 'c KV \<times> bool res" where
  "DBTX_update tx schema row mode kv =
     (case rbind (Row_EncodeKey row schema 0) (\<lambda>key. rbind (Row_EncodeVal row schema) (\<lambda>val.
         rbind (KVTX_Get kv (dtx_kv tx) key) (\<lambda>old. rbind (update_wanted mode old val) (\<lambda>updated. Inr (val, old, updated))))) of
        Inl e \<Rightarrow> (kv, Inl e)
      | Inr (val, old, updated) \<Rightarrow>
          if \<not> updated then (kv, Inr False)
          else sbind (case old of None \<Rightarrow> (kv, Inr False)
              | Some oldVal \<Rightarrow> (case Row_DecodeVal schema oldVal row of
                  (oldRow, Inl e) \<Rightarrow> (kv, Inl e)
                | (oldRow, Inr _) \<Rightarrow> DBTX_delete tx schema oldRow kv))
            (\<lambda>kv _. insert_loop tx schema row val [0..<length (sc_Indices schema)] updated kv))"

definition DBTX_modify :: "'c cacheLib \<Rightarrow> DBTX \<Rightarrow> Schema \<Rightarrow> row \<Rightarrow> int \<Rightarrow> 'c KV \<Rightarrow> 'c KV \<times> bool res" where
  "DBTX_modify cl tx schema row mode kv =
     (case DBTX_NewTX tx kv of (kv, tx) \<Rightarrow> finish_op cl tx (DBTX_update tx schema row mode kv))"

definition DBTX_Insert :: "'c cacheLib \<Rightarrow> DBTX \<Rightarrow> Schema \<Rightarrow> row \<Rightarrow> 'c KV \<Rightarrow> 'c KV \<times> bool res" where
  "DBTX_Insert cl tx schema row kv = DBTX_modify cl tx schema row ModeInsert kv"

definition DBTX_Upsert :: "'c cacheLib \<Rightarrow> DBTX \<Rightarrow> Schema \<Rightarrow> row \<Rightarrow> 'c KV \<Rightarrow> 'c KV \<times> bool res" where
  "DBTX_Upsert cl tx schema row kv = DBTX_modify cl tx schema row ModeUpsert kv"

definition DBTX_Update :: "'c cacheLib \<Rightarrow> DBTX \<Rightarrow> Schema \<Rightarrow> row \<Rightarrow> 'c KV \<Rightarrow> 'c KV \<times> bool res" where
  "DBTX_Update cl tx schema row kv = DBTX_modify cl tx schema row ModeUpdate kv"

definition DBTX_Delete :: "'c cacheLib \<Rightarrow> DBTX \<Rightarrow> Schema \<Rightarrow> row \<Rightarrow> 'c KV \<Rightarrow> 'c KV \<times> bool res" where
  "DBTX_Delete cl tx schema row kv =
     (case DBTX_NewTX tx kv of (kv, tx) \<Rightarrow> finish_op cl tx (DBTX_delete tx schema row kv))"

definition DB_modify :: "'c cacheLib \<Rightarrow> Schema \<Rightarrow> row \<Rightarrow> int \<Rightarrow> 'c KV \<Rightarrow> 'c KV \<times> bool res" where
  "DB_modify cl schema row mode kv =
     (case DB_NewTX kv of (kv, tx) \<Rightarrow> finish_op cl tx (DBTX_update tx schema row mode kv))"

definition DB_Insert :: "'c cacheLib \<Rightarrow> Schema \<Rightarrow> row \<Rightarrow> 'c KV \<Rightarrow> 'c KV \<times> bool res" where
  "DB_Insert cl schema row kv = DB_modify cl schema row ModeInsert kv"

definition DB_Upsert :: "'c cacheLib \<Rightarrow> Schema \<Rightarrow> row \<Rightarrow> 'c KV \<Rightarrow> 'c KV \<times> bool res" where
  "DB_Upsert cl schema row kv = DB_modify cl schema row ModeUpsert kv"

definition DB_Update :: "'c cacheLib \<Rightarrow> Schema \<Rightarrow> row \<Rightarrow> 'c KV \<Rightarrow> 'c KV \<times> bool res" where
  "DB_Update cl schema row kv = DB_modify cl schema row ModeUpdate kv"

definition DB_Delete :: "'c cacheLib \<Rightarrow> Schema \<Rightarrow> row \<Rightarrow> 'c KV \<Rightarrow> 'c KV \<times> bool res" where
  "DB_Delete cl schema row kv =
     (case DB_NewTX kv of (kv, tx) \<Rightarrow> finish_op cl tx (DBTX_delete tx schema row kv))"

section \<open>Row iterators\<close>

abbreviation range_ops :: "level_iter MergedSortedKVIter iter_ops" where
  "range_ops \<equiv> nodel_ops stack_ops"

record RowIterator =
  ri_tx :: DBTX
  ri_schema :: Schema
  ri_indexNo :: int
  ri_iter :: "level_iter MergedSortedKVIter RangedKVIter"
  ri_valid :: bool
  ri_row :: row

text \<open>The row of the current entry: read through the primary key when the index is a secondary one.\<close>

definition decode_entry :: "'c KV \<Rightarrow> RowIterator \<Rightarrow> bytes \<Rightarrow> row \<times> bool res" where
  "decode_entry kv it key =
     sbind (Row_DecodeKey (ri_schema it) (ri_indexNo it) key (ri_row it)) (\<lambda>row _.
       if ri_indexNo it > 0 then
         sbind (DBTX_Select kv (ri_tx it) (ri_schema it) row) (\<lambda>row ok.
           (row, if ok then Inr True else Inl (Error ''inconsistent index'')))
       else (case Ranged_Val range_ops (ri_iter it) of Inl e \<Rightarrow> (row, Inl e)
         | Inr val \<Rightarrow> sbind (Row_DecodeVal (ri_schema it) val row) (\<lambda>row _. (row, Inr True))))"

definition RowIterator_decodeKVIter :: "'c KV \<Rightarrow> RowIterator \<Rightarrow> RowIterator \<times> bool res" where
  "RowIterator_decodeKVIter kv it =
     (case Ranged_Valid range_ops (ri_iter it) of Inl e \<Rightarrow> (it, Inl e)
      | Inr False \<Rightarrow> (it, Inr False)
      | Inr True \<Rightarrow> (case Ranged_Key range_ops (ri_iter it) of Inl e \<Rightarrow> (it, Inl e)
          | Inr key \<Rightarrow> (case decode_entry kv it key of (row, r) \<Rightarrow> (it\<lparr>ri_row := row\<rparr>, r))))"

definition RowIterator_Row :: "RowIterator \<Rightarrow> row res" where
  "RowIterator_Row it = (if ri_valid it then Inr (ri_row it) else Inl check_failed)"

definition RowIterator_Next :: "'c KV \<Rightarrow> RowIterator \<Rightarrow> RowIterator \<times> unit res" where
  "RowIterator_Next kv it =
     (case Ranged_Next range_ops (ri_iter it) of Inl e \<Rightarrow> (it, Inl e)
      | Inr rit \<Rightarrow> (case RowIterator_decodeKVIter kv (it\<lparr>ri_iter := rit\<rparr>) of
          (it, Inl e) \<Rightarrow> (it\<lparr>ri_valid := False\<rparr>, Inl e)
        | (it, Inr valid) \<Rightarrow> (it\<lparr>ri_valid := valid\<rparr>, Inr ())))"

definition DBTX_Range :: "'c KV \<Rightarrow> DBTX \<Rightarrow> Schema \<Rightarrow> RangeReq \<Rightarrow> RowIterator res" where
  "DBTX_Range kv tx schema req =
     (let (startPos, ok1) = suffixPositive (rr_StartCmp req); (stopPos, ok2) = suffixPositive (rr_StopCmp req);
          desc = fst (isDescending (rr_StartCmp req)); stopDesc = fst (isDescending (rr_StopCmp req)) in
      if \<not> ok1 \<or> \<not> ok2 \<or> desc = stopDesc then Inl (Error ''invalid range request'')
      else rbind (EncodeKeyPrefix schema (rr_IndexNo req) (rr_Start req) startPos) (\<lambda>start.
        rbind (EncodeKeyPrefix schema (rr_IndexNo req) (rr_Stop req) stopPos) (\<lambda>stop.
        rbind (KVTX_Range kv (dtx_kv tx) start stop desc) (\<lambda>rit.
        case RowIterator_decodeKVIter kv \<lparr>ri_tx = tx, ri_schema = schema, ri_indexNo = rr_IndexNo req, ri_iter = rit,
            ri_valid = False, ri_row = Schema_NewRow schema\<rparr> of
          (it, Inl e) \<Rightarrow> Inl e
        | (it, Inr valid) \<Rightarrow> Inr (it\<lparr>ri_valid := valid\<rparr>)))))"

text \<open>The cells of the primary key, refused when a type differs from its column's.\<close>

fun seek_cells :: "Schema \<Rightarrow> row \<Rightarrow> int list \<Rightarrow> cell list res" where
  "seek_cells schema row [] = Inr []"
| "seek_cells schema row (idx # index) =
     rbind (go_index row idx) (\<lambda>c. rbind (go_index (sc_Cols schema) idx) (\<lambda>col.
       if cell_Type c \<noteq> col_Type col then Inl (Error ''row does not match the schema'')
       else rbind (seek_cells schema row index) (\<lambda>cs. Inr (c # cs))))"

definition DBTX_Seek :: "'c KV \<Rightarrow> DBTX \<Rightarrow> Schema \<Rightarrow> row \<Rightarrow> RowIterator res" where
  "DBTX_Seek kv tx schema row =
     (if length row \<noteq> length (sc_Cols schema) then Inl (Error ''row does not match the schema'')
      else rbind (go_index (sc_Indices schema) 0) (\<lambda>pkey. rbind (seek_cells schema row pkey) (\<lambda>start.
        DBTX_Range kv tx schema \<lparr>rr_StartCmp = OP_GE, rr_StopCmp = OP_LE, rr_Start = start, rr_Stop = [], rr_IndexNo = 0\<rparr>)))"

section \<open>Schemas\<close>

definition DBTX_GetSchema :: "'c KV \<Rightarrow> DBTX \<Rightarrow> bytes \<Rightarrow> DBTX \<times> Schema res" where
  "DBTX_GetSchema kv tx table =
     (case dtx_tables tx table of Some schema \<Rightarrow> (tx, Inr schema)
      | None \<Rightarrow>
        (case rbind (KVTX_Get kv (dtx_kv tx) (schemaKey table)) (\<lambda>val. case val of
             None \<Rightarrow> Inl (Error ''table is not found'')
           | Some val \<Rightarrow> rbind (unmarshal_schema val) (\<lambda>schema. rbind (Schema_Validate schema) (\<lambda>_. Inr schema))) of
           Inl e \<Rightarrow> (tx, Inl e)
         | Inr schema \<Rightarrow> (tx\<lparr>dtx_tables := (dtx_tables tx)(table \<mapsto> schema)\<rparr>, Inr schema)))"

definition DB_GetSchema :: "bytes \<Rightarrow> 'c KV \<Rightarrow> 'c KV \<times> Schema res" where
  "DB_GetSchema table kv =
     (case DB_NewTX kv of (kv, tx) \<Rightarrow>
      let r = snd (DBTX_GetSchema kv tx table) in sbind (DBTX_Abort tx kv) (\<lambda>kv _. (kv, r)))"

end
