(* ===== verification/PlanOk.thy ===== *)
theory PlanOk
  imports Plan
begin

text \<open>
  The plan of a condition is equivalent to it: on every row on which the condition evaluates, the row's
  key lies in the planned range and the residual holds exactly when the condition does.
\<close>

section \<open>Comparing index cells\<close>

lemma compareCells_cases:
  assumes "cell_wf a" and "cell_wf b" and "cell_Type a = cell_Type b"
  obtains c where "compareCells a b = Inr c" "c < 0 \<longleftrightarrow> cell_less a b" "c = 0 \<longleftrightarrow> a = b" "0 < c \<longleftrightarrow> cell_less b a"
  using assms(1)
proof (cases rule: cell_wf_cases)
  case (I64 i)
  with assms(2,3) obtain j where "b = cell_int j" by (auto elim: cell_wf_cases)
  moreover have "cmp_int (sint i) (sint j) = 0 \<longleftrightarrow> i = j" using word_eq_iff_signed[of i j] by (auto simp: cmp_int_def)
  ultimately show ?thesis using I64 that[of "cmp_int (sint i) (sint j)"]
    by (simp add: compareCells_def cell_less_def) (simp add: cmp_int_def)
next
  case (Str s)
  with assms(2,3) obtain t where "b = cell_str t" by (auto elim: cell_wf_cases)
  then show ?thesis using Str that[of "bytes_Compare s t"]
    by (auto simp: compareCells_def cell_less_def bytes_Compare_simps)
qed

text \<open>What a bound on a prefix of the index says of the row's cells.\<close>

fun cmp_holds :: "ExprOp \<Rightarrow> cell list \<Rightarrow> cell list \<Rightarrow> bool" where
  "cmp_holds OP_LE c cells = (\<not> cells_less cells c)"
| "cmp_holds OP_LT c cells = cells_less c cells"
| "cmp_holds OP_GE c cells = (\<not> cells_less c cells)"
| "cmp_holds OP_GT c cells = cells_less cells c"
| "cmp_holds _ c cells = False"

lemma denoteTuple_compare:
  assumes "list_all2 (\<lambda>l c. denote s row l = Inr c) ls as" and "list_all2 (\<lambda>r c. denote s row r = Inr c) rs bs"
    and "cells_of as ts" and "cells_of bs ts"
  shows "\<exists>n. denoteTuple s row ls rs = Inr n \<and> (n < 0 \<longleftrightarrow> cells_less as bs) \<and> (0 < n \<longleftrightarrow> cells_less bs as)"
  using assms
proof (induction as arbitrary: ls rs bs ts rule: list.induct)
  case Nil
  then show ?case by auto
next
  case (Cons a as)
  then obtain l ls' where l: "ls = l # ls'" "denote s row l = Inr a" "list_all2 (\<lambda>l c. denote s row l = Inr c) ls' as"
    by (cases ls) auto
  obtain us where ts: "ts = cell_Type a # us" "cell_wf a" "cells_of as us" using cells_of_ConsD[OF Cons.prems(3)] by blast
  then obtain b bs' where b: "bs = b # bs'" "cell_wf b" "cell_Type b = cell_Type a" "cells_of bs' us"
    using Cons.prems(4) by (cases bs) auto
  then obtain r rs' where r: "rs = r # rs'" "denote s row r = Inr b" "list_all2 (\<lambda>l c. denote s row l = Inr c) rs' bs'"
    using Cons.prems(2) by (cases rs) auto
  obtain c where c: "compareCells a b = Inr c" "c < 0 \<longleftrightarrow> cell_less a b" "c = 0 \<longleftrightarrow> a = b" "0 < c \<longleftrightarrow> cell_less b a"
    using compareCells_cases[OF ts(2) b(2) b(3)[symmetric]] .
  obtain n where "denoteTuple s row ls' rs' = Inr n" "n < 0 \<longleftrightarrow> cells_less as bs'" "0 < n \<longleftrightarrow> cells_less bs' as"
    using Cons.IH[OF l(3) r(3) ts(3) b(4)] by blast
  then show ?case using l r b c by (auto simp: not_less_iff_gr_or_eq)
qed

section \<open>Bounds\<close>

text \<open>Every index column is the one its name resolves to, as \<open>lookupColumns\<close> makes it.\<close>

definition names_ok :: "Schema \<Rightarrow> bool" where
  "names_ok s \<longleftrightarrow> (\<forall>index \<in> set (sc_Indices s). \<forall>idx \<in> set index. column_index s (col_Name (sc_Cols s ! nat idx)) = Some (nat idx))"

lemma denote_column:
  assumes "row_ok s row" and "column_index s (col_Name (sc_Cols s ! nat idx)) = Some (nat idx)" and "0 \<le> idx" and "idx < int (length (sc_Cols s))"
  shows "denote s row (EName (col_Name (sc_Cols s ! nat idx))) = Inr (row ! nat idx)"
  using assms row_ok_length[OF assms(1)] by simp

lemma isPKeyPrefix_loop_ok:
  assumes "row_ok s row" and "index_in s index" and "\<forall>idx \<in> set index. column_index s (col_Name (sc_Cols s ! nat idx)) = Some (nat idx)"
    and "isPKeyPrefix_loop s index names cells = Inr True" and "length names = length cells" and "length names \<le> length index"
    and "list_all cell_wf cells"
  shows "list_all2 (\<lambda>l c. denote s row l = Inr c) (map EName names) (take (length cells) (row_cells row index)) \<and>
    cells_of cells (take (length cells) (map (\<lambda>i. col_Type (sc_Cols s ! nat i)) index))"
  using assms
proof (induction s index names cells rule: isPKeyPrefix_loop.induct)
  case (1 schema idx index name cols c cells)
  have i: "0 \<le> idx" "idx < int (length (sc_Cols schema))" using "1.prems"(2) by auto
  then have n: "col_Name (sc_Cols schema ! nat idx) = name" "col_Type (sc_Cols schema ! nat idx) = cell_Type c"
    "isPKeyPrefix_loop schema index cols cells = Inr True"
    using "1.prems"(4) by (auto split: if_splits)
  moreover have "denote schema row (EName name) = Inr (row ! nat idx)"
    using denote_column[OF "1.prems"(1) _ i] "1.prems"(3) n(1) by auto
  ultimately show ?case using "1.IH"[of "sc_Cols schema ! nat idx"] "1.prems" i by auto
qed auto

lemma isPKeyPrefix_ok:
  assumes "schema_ok s" and "names_ok s" and "row_ok s row" and "n < length (sc_Indices s)"
    and "isPKeyPrefix s (int n) names cells = Inr True" and "list_all cell_wf cells"
  shows "prefix_ok s n cells"
    and "list_all2 (\<lambda>l c. denote s row l = Inr c) (map EName names) (take (length cells) (row_cells row (index_of s n)))"
proof -
  have p: "length names = length cells" "length names \<le> length (index_of s n)" "isPKeyPrefix_loop s (index_of s n) names cells = Inr True"
    using assms(4,5) by (auto simp: isPKeyPrefix_def split: if_splits)
  have "\<forall>idx \<in> set (index_of s n). column_index s (col_Name (sc_Cols s ! nat idx)) = Some (nat idx)"
    using assms(2,4) by (auto simp: names_ok_def)
  from isPKeyPrefix_loop_ok[OF assms(3) index_of_in[OF assms(1,4)] this p(3,1,2) assms(6)] p assms(4)
  show "prefix_ok s n cells"
    and "list_all2 (\<lambda>l c. denote s row l = Inr c) (map EName names) (take (length cells) (row_cells row (index_of s n)))"
    by (auto simp: prefix_ok_def index_types_def)
qed

lemma name_kids_Some: "name_kids kids = Some names \<Longrightarrow> kids = map EName names"
  by (induction kids arbitrary: names rule: name_kids.induct) auto

lemma cell_kids_Some: "cell_kids kids = Some cells \<Longrightarrow> kids = map ECell cells"
  by (induction kids arbitrary: cells rule: cell_kids.induct) auto

lemma asNameList_Some: "asNameList e = Some names \<Longrightarrow> e = ETuple (map EName names) \<or> (\<exists>n. names = [n] \<and> e = EName n)"
  by (cases e) (auto dest: name_kids_Some)

lemma asCellList_Some: "asCellList e = Some cells \<Longrightarrow> e = ETuple (map ECell cells) \<or> (\<exists>c. cells = [c] \<and> e = ECell c)"
  by (cases e) (auto dest: cell_kids_Some)

lemma denote_cells: "list_all2 (\<lambda>r c. denote s row r = Inr c) (map ECell cells) cells"
  by (induction cells) auto

lemma cmp_holds_flip: "op \<in> {OP_LE, OP_GE, OP_LT, OP_GT} \<Longrightarrow> n < 0 \<longleftrightarrow> cells_less as bs \<Longrightarrow> 0 < n \<longleftrightarrow> cells_less bs as \<Longrightarrow>
    cmpResult op n = cmp_holds op as bs \<and> cmpResult op n = cmp_holds (flip_cmp op) bs as"
  by (auto simp: not_less[symmetric])

text \<open>A comparison of names with cells that evaluates compares the cells lexicographically.\<close>

lemma denote_names_cells:
  assumes "asNameList l = Some names" and "asCellList r = Some cells" and "isCmpOp op"
    and "list_all2 (\<lambda>l c. denote s row l = Inr c) (map EName names) as" and "cells_of as ts" and "cells_of cells ts"
  shows "denote s row (EBinOp op l r) = Inr x \<Longrightarrow> \<exists>n. x = boolCell (cmpResult op n) \<and> (n < 0 \<longleftrightarrow> cells_less as cells) \<and> (0 < n \<longleftrightarrow> cells_less cells as)"
    and "denote s row (EBinOp op r l) = Inr x \<Longrightarrow> \<exists>n. x = boolCell (cmpResult op n) \<and> (n < 0 \<longleftrightarrow> cells_less cells as) \<and> (0 < n \<longleftrightarrow> cells_less as cells)"
proof -
  obtain n m where n: "denoteTuple s row (map EName names) (map ECell cells) = Inr n" "n < 0 \<longleftrightarrow> cells_less as cells" "0 < n \<longleftrightarrow> cells_less cells as"
    and m: "denoteTuple s row (map ECell cells) (map EName names) = Inr m" "m < 0 \<longleftrightarrow> cells_less cells as" "0 < m \<longleftrightarrow> cells_less as cells"
    using denoteTuple_compare[OF assms(4) denote_cells assms(5,6)] denoteTuple_compare[OF denote_cells assms(4,6,5)] by blast
  have bin: "binop_cells op a b = rbind (compareCells a b) (\<lambda>c. Inr (boolCell (cmpResult op c)))" for a b
    using assms(3) by (auto simp: binop_cells_def compareCells_def)
  show "denote s row (EBinOp op l r) = Inr x \<Longrightarrow> \<exists>n. x = boolCell (cmpResult op n) \<and> (n < 0 \<longleftrightarrow> cells_less as cells) \<and> (0 < n \<longleftrightarrow> cells_less cells as)"
    using asNameList_Some[OF assms(1)] asCellList_Some[OF assms(2)] assms(3) n
    by (auto simp: rbind_Inr_iff bin split: if_splits)
  show "denote s row (EBinOp op r l) = Inr x \<Longrightarrow> \<exists>n. x = boolCell (cmpResult op n) \<and> (n < 0 \<longleftrightarrow> cells_less cells as) \<and> (0 < n \<longleftrightarrow> cells_less as cells)"
    using asNameList_Some[OF assms(1)] asCellList_Some[OF assms(2)] assms(3) m
    by (auto simp: rbind_Inr_iff bin split: if_splits)
qed

abbreviation index_prefix :: "Schema \<Rightarrow> nat \<Rightarrow> row \<Rightarrow> cell list \<Rightarrow> cell list" where
  "index_prefix s n row cells \<equiv> take (length cells) (row_cells row (index_of s n))"

abbreviation bound_ops :: "ExprOp set" where "bound_ops \<equiv> {OP_LE, OP_GE, OP_LT, OP_GT}"

lemma expr_ok_cells: "asCellList e = Some cells \<Longrightarrow> expr_ok e \<Longrightarrow> list_all cell_wf cells"
  by (auto dest!: asCellList_Some simp: list_all_iff)

lemma match_bound_cases:
  assumes "match_bound s n cond = Inr (Some (op, cells))"
  obtains l r names op0 where "cond = EBinOp op0 l r" "op0 \<in> bound_ops" "isPKeyPrefix s n names cells = Inr True"
    "asNameList l = Some names \<and> asCellList r = Some cells \<and> op = op0 \<or>
     asNameList r = Some names \<and> asCellList l = Some cells \<and> op = flip_cmp op0"
  using assms unfolding match_bound_def
  by (cases cond) (auto simp: rbind_Inr_iff split: option.splits if_splits)

lemma flip_bound: "op \<in> bound_ops \<Longrightarrow> flip_cmp op \<in> bound_ops"
  by auto

lemma match_bound_ok:
  assumes "schema_ok s" and "names_ok s" and "row_ok s row" and "n < length (sc_Indices s)" and "expr_ok cond"
    and "match_bound s (int n) cond = Inr (Some (op, cells))"
  shows "prefix_ok s n cells" and "op \<in> bound_ops"
    and "denote s row cond = Inr x \<Longrightarrow> x = boolCell (cmp_holds op (index_prefix s n row cells) cells)"
proof -
  obtain l r names op0 where c: "cond = EBinOp op0 l r" "op0 \<in> bound_ops" "isPKeyPrefix s (int n) names cells = Inr True"
    "asNameList l = Some names \<and> asCellList r = Some cells \<and> op = op0 \<or>
     asNameList r = Some names \<and> asCellList l = Some cells \<and> op = flip_cmp op0"
    using match_bound_cases[OF assms(6)] .
  have wf: "list_all cell_wf cells" using c assms(5) expr_ok_cells by auto
  note p = isPKeyPrefix_ok[OF assms(1-4) c(3) wf]
  show "prefix_ok s n cells" by (rule p)
  show "op \<in> bound_ops" using c(2,4) flip_bound by blast
  have ts: "cells_of (index_prefix s n row cells) (take (length cells) (index_types s n))" "cells_of cells (take (length cells) (index_types s n))"
    using cells_of_take[OF row_index_cells_of[OF assms(1,3,4)], of "length cells"] p(1) by (auto simp: prefix_ok_def)
  have cmp: "isCmpOp op0" using c(2) by (auto simp: isCmpOp_def)
  assume x: "denote s row cond = Inr x"
  from c(4) show "x = boolCell (cmp_holds op (index_prefix s n row cells) cells)"
  proof
    assume d: "asNameList l = Some names \<and> asCellList r = Some cells \<and> op = op0"
    from denote_names_cells(1)[OF conjunct1[OF d] _ cmp p(2) ts] d x c(1)
    obtain m where "x = boolCell (cmpResult op0 m)" "m < 0 \<longleftrightarrow> cells_less (index_prefix s n row cells) cells"
      "0 < m \<longleftrightarrow> cells_less cells (index_prefix s n row cells)" by auto
    then show ?thesis using cmp_holds_flip[OF c(2), of m "index_prefix s n row cells" cells] d by simp
  next
    assume d: "asNameList r = Some names \<and> asCellList l = Some cells \<and> op = flip_cmp op0"
    from denote_names_cells(2)[OF conjunct1[OF d] _ cmp p(2) ts] d x c(1)
    obtain m where "x = boolCell (cmpResult op0 m)" "m < 0 \<longleftrightarrow> cells_less cells (index_prefix s n row cells)"
      "0 < m \<longleftrightarrow> cells_less (index_prefix s n row cells) cells" by auto
    then show ?thesis using cmp_holds_flip[OF c(2), of m cells "index_prefix s n row cells", THEN conjunct2] d by simp
  qed
qed

section \<open>Ranges of rows\<close>

definition req_ok :: "Schema \<Rightarrow> RangeReq \<Rightarrow> bool" where
  "req_ok s req \<longleftrightarrow> 0 \<le> rr_IndexNo req \<and> rr_StartCmp req \<in> bound_ops \<and> rr_StopCmp req \<in> bound_ops \<and>
     fst (isDescending (rr_StartCmp req)) \<noteq> fst (isDescending (rr_StopCmp req)) \<and>
     prefix_ok s (nat (rr_IndexNo req)) (rr_Start req) \<and> prefix_ok s (nat (rr_IndexNo req)) (rr_Stop req)"

definition start_key :: "Schema \<Rightarrow> RangeReq \<Rightarrow> bytes" where
  "start_key s req = prefix_key s (nat (rr_IndexNo req)) (rr_Start req) (fst (suffixPositive (rr_StartCmp req)))"

definition stop_key :: "Schema \<Rightarrow> RangeReq \<Rightarrow> bytes" where
  "stop_key s req = prefix_key s (nat (rr_IndexNo req)) (rr_Stop req) (fst (suffixPositive (rr_StopCmp req)))"

text \<open>The rows whose key in the scanned index lies between the two encoded bounds.\<close>

definition in_range :: "Schema \<Rightarrow> RangeReq \<Rightarrow> row \<Rightarrow> bool" where
  "in_range s req row \<longleftrightarrow>
     (let key = row_key s (nat (rr_IndexNo req)) row in
      if fst (isDescending (rr_StartCmp req)) then stop_key s req \<le> key \<and> key \<le> start_key s req
      else start_key s req \<le> key \<and> key \<le> stop_key s req)"

lemma in_range_iff:
  assumes "schema_ok s" and "row_ok s row" and "req_ok s req"
  defines "n \<equiv> nat (rr_IndexNo req)"
  shows "in_range s req row \<longleftrightarrow>
    cmp_holds (rr_StartCmp req) (index_prefix s n row (rr_Start req)) (rr_Start req) \<and>
    cmp_holds (rr_StopCmp req) (index_prefix s n row (rr_Stop req)) (rr_Stop req)"
proof -
  have p: "prefix_ok s n (rr_Start req)" "prefix_ok s n (rr_Stop req)" using assms(3) by (auto simp: req_ok_def n_def)
  note b = prefix_bounds[OF assms(1,2) p(1)] prefix_bounds[OF assms(1,2) p(2)]
  have "rr_StartCmp req \<in> bound_ops" "rr_StopCmp req \<in> bound_ops"
    "fst (isDescending (rr_StartCmp req)) \<noteq> fst (isDescending (rr_StopCmp req))" using assms(3) by (auto simp: req_ok_def)
  then show ?thesis unfolding in_range_def start_key_def stop_key_def n_def[symmetric] Let_def
    by (cases "rr_StartCmp req"; cases "rr_StopCmp req") (auto simp: b isDescending_def suffixPositive_def)
qed

section \<open>Conjunctions\<close>

text \<open>The truth value of an expression that evaluates to an integer.\<close>

definition truth :: "Schema \<Rightarrow> row \<Rightarrow> expr \<Rightarrow> bool option" where
  "truth s row e = (case denote s row e of Inl _ \<Rightarrow> None
     | Inr c \<Rightarrow> if cell_Type c = TypeI64 then Some (cell_I64 c \<noteq> 0) else None)"

fun and2 :: "bool option \<Rightarrow> bool option \<Rightarrow> bool option" where
  "and2 (Some a) (Some b) = Some (a \<and> b)"
| "and2 _ _ = None"

fun all_truth :: "Schema \<Rightarrow> row \<Rightarrow> expr list \<Rightarrow> bool option" where
  "all_truth s row [] = Some True"
| "all_truth s row (e # es) = and2 (truth s row e) (all_truth s row es)"

lemma and2_assoc: "and2 (and2 a b) c = and2 a (and2 b c)" and and2_True [simp]: "and2 (Some True) a = a" "and2 a (Some True) = a"
  by (cases a; cases b; cases c; simp) (cases a; simp)+

lemma and2_eq_Some: "and2 a b = Some c \<longleftrightarrow> (\<exists>x y. a = Some x \<and> b = Some y \<and> c = (x \<and> y))"
  by (cases a; cases b) auto

lemma truth_and: "truth s row (EBinOp OP_AND l r) = and2 (truth s row l) (truth s row r)"
  by (auto simp: truth_def binop_cells_def isCmpOp_def Let_def rbind_def split: sum.splits)

lemma all_truth_append: "all_truth s row (es @ fs) = and2 (all_truth s row es) (all_truth s row fs)"
  by (induction es) (auto simp: and2_assoc)

lemma flattenAnd_loop_truth: "all_truth s row (flattenAnd_loop stack out) = all_truth s row (out @ stack)"
proof (induction stack out rule: flattenAnd_loop.induct)
  case (2 op l r stack out)
  then show ?case by (auto simp: all_truth_append truth_and and2_assoc)
qed (auto simp: all_truth_append)

lemma flattenAnd_truth: "all_truth s row (flattenAnd cond) = truth s row cond"
  by (simp add: flattenAnd_def flattenAnd_loop_truth)

lemma all_truth_SomeD:
  "all_truth s row es = Some b \<Longrightarrow> (\<forall>e \<in> set es. \<exists>x. truth s row e = Some x) \<and> b = (\<forall>e \<in> set es. truth s row e = Some True)"
  by (induction es arbitrary: b) (auto simp: and2_eq_Some)

text \<open>What \<open>andExcept\<close> leaves.\<close>

definition left_over :: "expr list \<Rightarrow> nat list \<Rightarrow> expr list" where
  "left_over nodes used = map snd (filter (\<lambda>(i, _). i \<notin> set used) (enumerate 0 nodes))"

definition opt_truth :: "Schema \<Rightarrow> row \<Rightarrow> expr option \<Rightarrow> bool option" where
  "opt_truth s row e = (case e of None \<Rightarrow> Some True | Some e \<Rightarrow> truth s row e)"

lemma andExcept_loop_truth:
  "opt_truth s row (andExcept_loop i nodes used out) =
     and2 (opt_truth s row out) (all_truth s row (map snd (filter (\<lambda>(i, _). i \<notin> set used) (enumerate i nodes))))"
proof (induction i nodes used out rule: andExcept_loop.induct)
  case (2 i node nodes used out)
  then show ?case by (cases out) (auto simp: opt_truth_def truth_and and2_assoc)
qed (simp add: opt_truth_def)

lemma andExcept_truth: "opt_truth s row (andExcept nodes used) = all_truth s row (left_over nodes used)"
  by (simp add: andExcept_def left_over_def andExcept_loop_truth) (simp add: opt_truth_def)

lemma set_left_over: "set (left_over nodes used) = {nodes ! i | i. i < length nodes \<and> i \<notin> set used}"
  by (force simp: left_over_def enumerate_eq_zip set_zip)

lemma residual_truth:
  assumes "all_truth s row nodes = Some b" and "\<forall>i \<in> set used. i < length nodes"
  shows "\<exists>r. opt_truth s row (andExcept nodes used) = Some r \<and> (b \<longleftrightarrow> (\<forall>i \<in> set used. truth s row (nodes ! i) = Some True) \<and> r)"
proof -
  note a = all_truth_SomeD[OF assms(1)]
  have sub: "set (left_over nodes used) \<subseteq> set nodes" by (auto simp: set_left_over)
  have ex: "\<exists>r. all_truth s row es = Some r" if "set es \<subseteq> set nodes" for es
    using that
  proof (induction es)
    case (Cons e es)
    then obtain r where "all_truth s row es = Some r" by auto
    moreover obtain x where "truth s row e = Some x" using a Cons.prems by auto
    ultimately show ?case by simp
  qed auto
  obtain r where r: "all_truth s row (left_over nodes used) = Some r" using ex[OF sub] by blast
  have "r \<longleftrightarrow> (\<forall>i < length nodes. i \<notin> set used \<longrightarrow> truth s row (nodes ! i) = Some True)"
    using all_truth_SomeD[OF r] by (auto simp: set_left_over)
  moreover have "b \<longleftrightarrow> (\<forall>i < length nodes. truth s row (nodes ! i) = Some True)" using a by (auto simp: all_set_conv_all_nth)
  ultimately show ?thesis using r assms(2) by (auto simp: andExcept_truth)
qed

section \<open>Depth\<close>

lemma flattenAnd_loop_inherits:
  assumes "\<And>l r. P (EBinOp OP_AND l r) \<Longrightarrow> P l \<and> P r"
  shows "\<forall>e \<in> set (stack @ out). P e \<Longrightarrow> \<forall>e \<in> set (flattenAnd_loop stack out). P e"
proof (induction stack out rule: flattenAnd_loop.induct)
  case (2 op l r stack out)
  then show ?case using assms[of l r]
    by (cases "op = OP_AND \<and> length out + length stack + 2 \<le> maxPlanConjuncts") simp_all
qed simp_all

lemma flattenAnd_loop_length:
  "length stack + length out \<le> maxPlanConjuncts \<Longrightarrow> length (flattenAnd_loop stack out) \<le> maxPlanConjuncts"
  by (induction stack out rule: flattenAnd_loop.induct) simp_all

lemma flattenAnd_facts:
  shows "e \<in> set (flattenAnd cond) \<Longrightarrow> edepth e \<le> edepth cond" and "length (flattenAnd cond) \<le> maxPlanConjuncts"
    and "e \<in> set (flattenAnd cond) \<Longrightarrow> expr_ok cond \<Longrightarrow> expr_ok e"
proof -
  have "\<forall>e \<in> set (flattenAnd_loop [cond] []). edepth e \<le> edepth cond" by (rule flattenAnd_loop_inherits) auto
  then show "e \<in> set (flattenAnd cond) \<Longrightarrow> edepth e \<le> edepth cond" by (simp add: flattenAnd_def)
  show "length (flattenAnd cond) \<le> maxPlanConjuncts"
    using flattenAnd_loop_length[of "[cond]" "[]"] by (simp add: flattenAnd_def maxPlanConjuncts_def)
  assume "expr_ok cond"
  then have "\<forall>e \<in> set (flattenAnd_loop [cond] []). expr_ok e" by (intro flattenAnd_loop_inherits) simp_all
  then show "e \<in> set (flattenAnd cond) \<Longrightarrow> expr_ok e" by (simp add: flattenAnd_def)
qed

lemma andExcept_loop_depth:
  "(\<forall>e \<in> set nodes. edepth e \<le> d) \<Longrightarrow> (case out of None \<Rightarrow> True | Some e \<Rightarrow> edepth e \<le> d + k) \<Longrightarrow>
   andExcept_loop i nodes used out = Some e \<Longrightarrow> edepth e \<le> d + k + length nodes"
proof (induction i nodes used out arbitrary: k rule: andExcept_loop.induct)
  case (2 i node nodes used out)
  let ?out = "if i \<in> set used then out else case out of None \<Rightarrow> Some node | Some e \<Rightarrow> Some (EBinOp OP_AND e node)"
  have "case ?out of None \<Rightarrow> True | Some e \<Rightarrow> edepth e \<le> d + Suc k" using "2.prems"(1,2) by (auto split: option.splits)
  from "2.IH"[OF _ this] "2.prems" show ?case by simp
qed simp

lemma residual_depth:
  assumes "andExcept (flattenAnd cond) used = Some e"
  shows "edepth e \<le> edepth cond + maxPlanConjuncts"
proof -
  have "edepth e \<le> edepth cond + 0 + length (flattenAnd cond)"
    using assms flattenAnd_facts(1) unfolding andExcept_def by (intro andExcept_loop_depth) auto
  then show ?thesis using flattenAnd_facts(2)[of cond] by simp
qed

lemma matchRow_truth:
  assumes "case e of None \<Rightarrow> True | Some e \<Rightarrow> edepth e \<le> maxExprDepth"
  shows "matchRow s row e = Inr b \<longleftrightarrow> opt_truth s row e = Some b"
  using assms evalExprAt_reference(1)[of 0 _ s row]
  by (auto simp: matchRow_def opt_truth_def truth_def evalExpr_def rbind_def split: option.splits sum.splits)

section \<open>Equality prefixes\<close>

lemma matchEq_Some: "matchEq node = Some named \<Longrightarrow>
    node = EBinOp OP_EQ (EName (nc_column named)) (ECell (nc_value named)) \<or>
    node = EBinOp OP_EQ (ECell (nc_value named)) (EName (nc_column named))"
  by (cases node) (auto split: if_splits expr.splits elim: eq_operands.elims)

lemma find_eq_Some:
  "find_eq col used i nodes = Some (c, j) \<Longrightarrow> i \<le> j \<and> j < i + length nodes \<and> j \<notin> set used \<and>
     (nodes ! (j - i) = EBinOp OP_EQ (EName (col_Name col)) (ECell c) \<or> nodes ! (j - i) = EBinOp OP_EQ (ECell c) (EName (col_Name col))) \<and>
     cell_Type c = col_Type col"
proof (induction nodes arbitrary: i)
  case (Cons node nodes)
  show ?case
  proof (cases "i \<notin> set used \<and> (\<exists>named. matchEq node = Some named \<and> nc_column named = col_Name col \<and> cell_Type (nc_value named) = col_Type col)")
    case True
    then show ?thesis using Cons.prems matchEq_Some[of node] by auto
  next
    case False
    then have f: "find_eq col used (Suc i) nodes = Some (c, j)" using Cons.prems by (auto split: if_splits option.splits)
    note IH = Cons.IH[OF f]
    have "j - i = Suc (j - Suc i)" using conjunct1[OF IH] by linarith
    then show ?thesis using IH by simp
  qed
qed simp

lemma denote_eq:
  assumes "denote s row (EName name) = Inr a" and "cell_wf a" and "cell_wf c" and "cell_Type a = cell_Type c"
    and "node = EBinOp OP_EQ (EName name) (ECell c) \<or> node = EBinOp OP_EQ (ECell c) (EName name)"
  shows "truth s row node = Some (a = c)"
proof -
  obtain n m where "compareCells a c = Inr n" "n = 0 \<longleftrightarrow> a = c" "compareCells c a = Inr m" "m = 0 \<longleftrightarrow> c = a"
    using compareCells_cases[OF assms(2-4)] compareCells_cases[OF assms(3,2) assms(4)[symmetric]] by metis
  then show ?thesis using assms(1,4,5)
    by (auto simp: truth_def binop_cells_def isCmpOp_def simp del: denote.simps(1))
qed

definition eq_picked :: "Schema \<Rightarrow> row \<Rightarrow> expr list \<Rightarrow> int list \<Rightarrow> cell list \<Rightarrow> nat list \<Rightarrow> bool" where
  "eq_picked s row nodes index cells used \<longleftrightarrow> length cells \<le> length index \<and> length used = length cells \<and>
     cells_of cells (take (length cells) (map (\<lambda>i. col_Type (sc_Cols s ! nat i)) index)) \<and> (\<forall>i \<in> set used. i < length nodes) \<and>
     ((\<forall>i \<in> set used. truth s row (nodes ! i) = Some True) \<longleftrightarrow> take (length cells) (row_cells row index) = cells)"

lemma pickEqPrefix_loop_ok:
  assumes "row_ok s row" and "index_in s (pre @ index)"
    and "\<forall>idx \<in> set (pre @ index). column_index s (col_Name (sc_Cols s ! nat idx)) = Some (nat idx)"
    and "\<forall>e \<in> set nodes. expr_ok e"
    and "eq_picked s row nodes pre cells used" and "length cells = length pre"
  shows "\<exists>cells' used'. pickEqPrefix_loop s nodes index cells used = Inr (cells', used') \<and>
    eq_picked s row nodes (pre @ index) cells' used'"
  using assms
proof (induction index arbitrary: pre cells used)
  case Nil
  then show ?case by simp
next
  case (Cons idx index)
  have i: "0 \<le> idx" "idx < int (length (sc_Cols s))" using Cons.prems(2) by (auto simp: index_in_def)
  let ?col = "sc_Cols s ! nat idx"
  show ?case
  proof (cases "find_eq ?col used 0 nodes")
    case None
    then show ?thesis using Cons.prems(5,6) i by (auto simp: eq_picked_def row_cells_def)
  next
    case (Some ci)
    then obtain c j where f: "find_eq ?col used 0 nodes = Some (c, j)" by (cases ci) auto
    note fs = find_eq_Some[OF f]
    have a: "denote s row (EName (col_Name ?col)) = Inr (row ! nat idx)"
      using denote_column[OF Cons.prems(1) _ i] Cons.prems(3) by auto
    have wf: "cell_wf (row ! nat idx)" "cell_Type (row ! nat idx) = col_Type ?col"
      using row_ok_nth[OF Cons.prems(1), of "nat idx"] i by (auto simp: cell_ok_def)
    have "nodes ! j \<in> set nodes" using fs by auto
    then have "cell_wf c" using Cons.prems(4) fs by (metis expr_ok.simps(1,3) diff_zero)
    then have t: "truth s row (nodes ! j) = Some (row ! nat idx = c)"
      using denote_eq[OF a wf(1)] wf(2) fs by auto
    have "eq_picked s row nodes (pre @ [idx]) (cells @ [c]) (used @ [j])"
      using Cons.prems(5,6) t fs \<open>cell_wf c\<close> by (auto simp: eq_picked_def row_cells_def cells_of_def list_all2_append)
    from Cons.IH[OF Cons.prems(1) _ _ Cons.prems(4) this] Cons.prems(2,3,6) i f show ?thesis by auto
  qed
qed

lemma pickEqPrefix_ok:
  assumes "schema_ok s" and "names_ok s" and "row_ok s row" and "n < length (sc_Indices s)" and "\<forall>e \<in> set nodes. expr_ok e"
  obtains cells used where "pickEqPrefix s n nodes = Inr (cells, used)" "eq_picked s row nodes (index_of s n) cells used"
proof -
  have "\<forall>idx \<in> set (index_of s n). column_index s (col_Name (sc_Cols s ! nat idx)) = Some (nat idx)"
    using assms(2,4) by (auto simp: names_ok_def)
  from pickEqPrefix_loop_ok[OF assms(3), of "[]" "index_of s n" nodes "[]" "[]"] this index_of_in[OF assms(1,4)] assms(5)
  obtain cells used where "pickEqPrefix_loop s nodes (index_of s n) [] [] = Inr (cells, used)" "eq_picked s row nodes (index_of s n) cells used"
    by (auto simp: eq_picked_def)
  then show thesis using that assms(4) by (simp add: pickEqPrefix_def)
qed

section \<open>Plans\<close>

text \<open>The range of \<open>req\<close> is what the operands at \<open>used\<close> say, on rows on which they all evaluate.\<close>

definition covers :: "Schema \<Rightarrow> row \<Rightarrow> expr list \<Rightarrow> RangeReq \<Rightarrow> nat list \<Rightarrow> bool" where
  "covers s row nodes req used \<longleftrightarrow> req_ok s req \<and> (\<forall>i \<in> set used. i < length nodes) \<and>
     ((\<forall>e \<in> set nodes. truth s row e \<noteq> None) \<longrightarrow> ((\<forall>i \<in> set used. truth s row (nodes ! i) = Some True) \<longleftrightarrow> in_range s req row))"

lemma index_types_eq: "map (\<lambda>i. col_Type (sc_Cols s ! nat i)) (index_of s n) = index_types s n"
  by (simp add: index_types_def)

lemma eq_covers:
  assumes "schema_ok s" and "row_ok s row" and "n < length (sc_Indices s)" and "eq_picked s row nodes (index_of s n) cells used"
  shows "covers s row nodes \<lparr>rr_StartCmp = OP_GE, rr_StopCmp = OP_LE, rr_Start = cells, rr_Stop = cells, rr_IndexNo = int n\<rparr> used"
proof -
  let ?req = "\<lparr>rr_StartCmp = OP_GE, rr_StopCmp = OP_LE, rr_Start = cells, rr_Stop = cells, rr_IndexNo = int n\<rparr>"
  have p: "prefix_ok s n cells" using assms(3,4) by (auto simp: eq_picked_def prefix_ok_def index_types_eq)
  then have ok: "req_ok s ?req" by (simp add: req_ok_def isDescending_def)
  have ts: "cells_of (index_prefix s n row cells) (take (length cells) (index_types s n))" "cells_of cells (take (length cells) (index_types s n))"
    using cells_of_take[OF row_index_cells_of[OF assms(1-3)], of "length cells"] p by (auto simp: prefix_ok_def)
  have "in_range s ?req row \<longleftrightarrow> index_prefix s n row cells = cells"
    using in_range_iff[OF assms(1,2) ok] cells_less_linear[OF ts] by auto
  then show ?thesis using ok assms(4) by (auto simp: covers_def eq_picked_def)
qed

lemma truth_bound:
  assumes "schema_ok s" and "names_ok s" and "row_ok s row" and "n < length (sc_Indices s)" and "expr_ok e"
    and "match_bound s (int n) e = Inr (Some (op, cells))" and "truth s row e \<noteq> None"
  shows "truth s row e = Some (cmp_holds op (index_prefix s n row cells) cells)"
  using assms(7) match_bound_ok(3)[OF assms(1-6)] by (auto simp: truth_def split: sum.splits if_splits)

lemma pair_range:
  assumes "schema_ok s" and "names_ok s" and "row_ok s row" and "n < length (sc_Indices s)" and "expr_ok l" and "expr_ok r"
    and "match_pair s (int n) l r = Inr (Some req)"
  shows "req_ok s req" and "truth s row l \<noteq> None \<Longrightarrow> truth s row r \<noteq> None \<Longrightarrow>
    (truth s row l = Some True \<and> truth s row r = Some True \<longleftrightarrow> in_range s req row)"
proof -
  obtain b1 where m1: "match_bound s (int n) l = Inr b1" using assms(7) by (cases "match_bound s (int n) l") (auto simp: match_pair_def)
  obtain op1 c1 where b1: "b1 = Some (op1, c1)" using assms(7) m1 by (cases b1) (auto simp: match_pair_def)
  obtain b2 where m2: "match_bound s (int n) r = Inr b2"
    using assms(7) m1 b1 by (cases "match_bound s (int n) r") (auto simp: match_pair_def)
  obtain op2 c2 where b2: "b2 = Some (op2, c2)" using assms(7) m1 b1 m2 by (cases b2) (auto simp: match_pair_def)
  have d: "fst (isDescending op1) \<noteq> fst (isDescending op2)"
    and req: "req = (if fst (isDescending op1)
      then \<lparr>rr_StartCmp = op2, rr_StopCmp = op1, rr_Start = c2, rr_Stop = c1, rr_IndexNo = int n\<rparr>
      else \<lparr>rr_StartCmp = op1, rr_StopCmp = op2, rr_Start = c1, rr_Stop = c2, rr_IndexNo = int n\<rparr>)"
    using assms(7) by (auto simp: match_pair_def m1 m2 b1 b2 split: if_splits)
  note p1 = match_bound_ok[OF assms(1-5) m1[unfolded b1]] and p2 = match_bound_ok[OF assms(1-4,6) m2[unfolded b2]]
  show ok: "req_ok s req" using p1(1,2) p2(1,2) d unfolding req by (auto simp: req_ok_def)
  have "in_range s req row \<longleftrightarrow> cmp_holds op1 (index_prefix s n row c1) c1 \<and> cmp_holds op2 (index_prefix s n row c2) c2"
    using in_range_iff[OF assms(1,3) ok] unfolding req by auto
  then show "truth s row l \<noteq> None \<Longrightarrow> truth s row r \<noteq> None \<Longrightarrow>
    (truth s row l = Some True \<and> truth s row r = Some True \<longleftrightarrow> in_range s req row)"
    using truth_bound[OF assms(1-5) m1[unfolded b1]] truth_bound[OF assms(1-4,6) m2[unfolded b2]] by simp
qed

lemma pair_covers:
  assumes "schema_ok s" and "names_ok s" and "row_ok s row" and "n < length (sc_Indices s)" and "\<forall>e \<in> set nodes. expr_ok e"
    and "i < length nodes" and "j < length nodes" and "match_pair s (int n) (nodes ! i) (nodes ! j) = Inr (Some req)"
  shows "covers s row nodes req [i, j]"
  using pair_range[OF assms(1-4) _ _ assms(8)] assms(5-7) by (auto simp: covers_def)

lemma single_covers:
  assumes "schema_ok s" and "names_ok s" and "row_ok s row" and "n < length (sc_Indices s)" and "\<forall>e \<in> set nodes. expr_ok e"
    and "i < length nodes" and "matchRangeByIndex s (int n) (nodes ! i) = Inr (Some req)"
  shows "covers s row nodes req [i]"
proof -
  obtain op l r where nd: "nodes ! i = EBinOp op l r" using assms(7) by (cases "nodes ! i") auto
  have e: "expr_ok (nodes ! i)" using assms(5,6) by auto
  show ?thesis
  proof (cases "op = OP_AND")
    case True
    have lr: "expr_ok l" "expr_ok r" using e nd by auto
    have mp: "match_pair s (int n) l r = Inr (Some req)" using assms(7) nd True by simp
    note pr = pair_range[OF assms(1-4) lr mp]
    have "truth s row (nodes ! i) = and2 (truth s row l) (truth s row r)" by (simp add: nd True truth_and)
    then have "truth s row (nodes ! i) \<noteq> None \<Longrightarrow> truth s row (nodes ! i) = Some True \<longleftrightarrow> in_range s req row"
      using pr(2) by (cases "truth s row l"; cases "truth s row r") auto
    then show ?thesis using pr(1) assms(6) by (auto simp: covers_def)
  next
    case False
    obtain b where b: "match_bound s (int n) (nodes ! i) = Inr b"
      using assms(7) nd False by (cases "match_bound s (int n) (nodes ! i)") auto
    obtain op1 c1 where b1: "b = Some (op1, c1)" using assms(7) nd False b by (cases b) auto
    have req: "req = \<lparr>rr_StartCmp = op1, rr_StopCmp = (if fst (isDescending op1) then OP_GE else OP_LE), rr_Start = c1, rr_Stop = [], rr_IndexNo = int n\<rparr>"
      using assms(7) nd False b b1 by simp
    note m = b[unfolded b1]
    note p = match_bound_ok[OF assms(1-4) e m]
    have ok: "req_ok s req" using p(1,2) assms(4) unfolding req by (auto simp: req_ok_def isDescending_def prefix_ok_def)
    have "in_range s req row \<longleftrightarrow> cmp_holds op1 (index_prefix s n row c1) c1"
      using in_range_iff[OF assms(1,3) ok] unfolding req by auto
    then have "truth s row (nodes ! i) \<noteq> None \<Longrightarrow> truth s row (nodes ! i) = Some True \<longleftrightarrow> in_range s req row"
      using truth_bound[OF assms(1-4) e m] by simp
    then show ?thesis using ok assms(6) by (auto simp: covers_def)
  qed
qed

lemma match_bound_total:
  assumes "schema_ok s" and "n < length (sc_Indices s)"
  shows "\<exists>b. match_bound s (int n) e = Inr b"
proof -
  have "\<exists>b. isPKeyPrefix_loop s index names cells = Inr b" if "index_in s index" for index names cells
    using that by (induction s index names cells rule: isPKeyPrefix_loop.induct) auto
  then have "\<exists>b. isPKeyPrefix s (int n) names cells = Inr b" for names cells
    using index_of_in[OF assms] assms(2) by (auto simp: isPKeyPrefix_def)
  then show ?thesis by (auto simp: match_bound_def rbind_Inr_iff split: option.splits)
qed

lemma matchRangeByIndex_total:
  assumes "schema_ok s" and "n < length (sc_Indices s)"
  shows "\<exists>r. matchRangeByIndex s (int n) e = Inr r"
proof (cases e)
  case (EBinOp op l r)
  obtain b bl br where "match_bound s (int n) e = Inr b" "match_bound s (int n) l = Inr bl" "match_bound s (int n) r = Inr br"
    using match_bound_total[OF assms] by metis
  then show ?thesis unfolding EBinOp
    by (auto simp: match_pair_def split: option.splits prod.splits)
qed auto

lemma first_match_total:
  assumes "\<And>x. x \<in> set xs \<Longrightarrow> \<exists>r. f x = Inr r"
  shows "\<exists>r. first_match f xs = Inr r \<and> (case r of None \<Rightarrow> True | Some (x, y) \<Rightarrow> x \<in> set xs \<and> f x = Inr (Some y))"
  using assms
proof (induction xs)
  case (Cons x xs)
  obtain r where r: "f x = Inr r" using Cons.prems[of x] by auto
  show ?case
  proof (cases r)
    case None
    then show ?thesis using Cons r by (fastforce split: option.splits)
  qed (use r in auto)
qed simp

lemma index_pairs_set: "(i, j) \<in> set (index_pairs n) \<longleftrightarrow> i < n \<and> j < n \<and> i \<noteq> j"
  by (auto simp: index_pairs_def)

lemma plan_index_ok:
  assumes "schema_ok s" and "names_ok s" and "n < length (sc_Indices s)" and "\<forall>e \<in> set nodes. expr_ok e"
  shows "\<exists>r. plan_index s nodes n = Inr r \<and> (case r of None \<Rightarrow> True | Some plan \<Rightarrow>
    \<exists>used. sp_residual plan = andExcept nodes used \<and> (\<forall>row. row_ok s row \<longrightarrow> covers s row nodes (sp_req plan) used))"
proof -
  let ?f = "\<lambda>(i, j). matchRangeByIndex s (int n) (EBinOp OP_AND (nodes ! i) (nodes ! j))"
  let ?g = "\<lambda>i. matchRangeByIndex s (int n) (nodes ! i)"
  have f: "\<exists>r. ?f x = Inr r" for x by (cases x) (simp only: prod.case matchRangeByIndex_total[OF assms(1,3)])
  obtain r1 where r1: "first_match ?f (index_pairs (length nodes)) = Inr r1"
    "case r1 of None \<Rightarrow> True | Some (x, y) \<Rightarrow> x \<in> set (index_pairs (length nodes)) \<and> ?f x = Inr (Some y)"
    using first_match_total[of "index_pairs (length nodes)" ?f, OF f] by blast
  obtain r2 where r2: "first_match ?g [0..<length nodes] = Inr r2"
    "case r2 of None \<Rightarrow> True | Some (x, y) \<Rightarrow> x \<in> set [0..<length nodes] \<and> ?g x = Inr (Some y)"
    using first_match_total[of "[0..<length nodes]" ?g, OF matchRangeByIndex_total[OF assms(1,3)]] by blast
  show ?thesis
  proof (cases r1)
    case (Some p)
    then obtain i j req where p: "p = ((i, j), req)" by (cases p) auto
    have ij: "i < length nodes" "j < length nodes" "match_pair s (int n) (nodes ! i) (nodes ! j) = Inr (Some req)"
      using r1(2) Some p by (auto simp: index_pairs_set)
    then have "\<forall>row. row_ok s row \<longrightarrow> covers s row nodes req [i, j]"
      using pair_covers[OF assms(1,2) _ assms(3,4)] by blast
    then show ?thesis using r1(1) Some p by (auto simp: plan_index_def)
  next
    case None
    show ?thesis
    proof (cases r2)
      case (Some p)
      then obtain i req where p: "p = (i, req)" by (cases p) auto
      then have "\<forall>row. row_ok s row \<longrightarrow> covers s row nodes req [i]"
        using single_covers[OF assms(1,2) _ assms(3,4)] r2(2) Some by auto
      then show ?thesis using r1(1) r2(1) None Some p by (auto simp: plan_index_def)
    qed (use r1(1) r2(1) None in \<open>auto simp: plan_index_def\<close>)
  qed
qed

lemma best_prefix_ok:
  assumes "schema_ok s" and "names_ok s" and "\<forall>e \<in> set nodes. expr_ok e" and "\<exists>row. row_ok s row"
    and "\<forall>n \<in> set ns. n < length (sc_Indices s)"
    and "case best of None \<Rightarrow> True | Some (n, cells, used) \<Rightarrow> n < length (sc_Indices s) \<and> pickEqPrefix s n nodes = Inr (cells, used)"
  shows "\<exists>r. best_prefix s nodes ns best = Inr r \<and>
    (case r of None \<Rightarrow> True | Some (n, cells, used) \<Rightarrow> n < length (sc_Indices s) \<and> pickEqPrefix s n nodes = Inr (cells, used))"
  using assms(5,6)
proof (induction ns arbitrary: best)
  case (Cons n ns)
  obtain row where "row_ok s row" using assms(4) by blast
  then obtain cells used where p: "pickEqPrefix s n nodes = Inr (cells, used)"
    using pickEqPrefix_ok[OF assms(1,2) _ _ assms(3)] Cons.prems(1) by (metis list.set_intros(1))
  let ?best = "if length cells > (case best of None \<Rightarrow> 0 | Some (_, bestCells, _) \<Rightarrow> length bestCells) then Some (n, cells, used) else best"
  have "case ?best of None \<Rightarrow> True | Some (n, cells, used) \<Rightarrow> n < length (sc_Indices s) \<and> pickEqPrefix s n nodes = Inr (cells, used)"
    using Cons.prems p by simp
  from Cons.IH[OF _ this] Cons.prems(1) p show ?case by simp
qed simp

text \<open>Some row exists under every valid schema.\<close>

lemma row_exists:
  assumes "schema_ok s"
  shows "\<exists>row. row_ok s row"
proof -
  let ?c = "\<lambda>t. if t = TypeI64 then cell_int 0 else cell_str []"
  have "\<forall>col \<in> set (sc_Cols s). cell_ok (?c (col_Type col)) (col_Type col)"
    using assms by (auto simp: schema_ok_iff cell_ok_def cell_int_def cell_str_def cell_wf_def)
  then have "row_ok s (map (\<lambda>col. ?c (col_Type col)) (sc_Cols s))"
    by (auto simp: row_ok_def list_all2_conv_all_nth)
  then show ?thesis by blast
qed

lemma full_scan:
  assumes "schema_ok s" and "row_ok s row"
  shows "req_ok s fullScanReq" and "in_range s fullScanReq row"
proof -
  show ok: "req_ok s fullScanReq"
    using schema_ok_indices[OF assms(1)] by (simp add: req_ok_def fullScanReq_def isDescending_def prefix_ok_def)
  show "in_range s fullScanReq row" using in_range_iff[OF assms ok] by (simp add: fullScanReq_def)
qed

text \<open>What a plan for \<open>cond\<close> is: a range, and the operands left to check.\<close>

lemma planScan_cases:
  assumes "schema_ok s" and "names_ok s" and "expr_ok cond"
  obtains (ranged) plan used where "planScan s (Some cond) = Inr plan" "sp_residual plan = andExcept (flattenAnd cond) used"
      "\<forall>row. row_ok s row \<longrightarrow> covers s row (flattenAnd cond) (sp_req plan) used"
  | (full) "planScan s (Some cond) = Inr \<lparr>sp_req = fullScanReq, sp_residual = Some cond, sp_indexed = False\<rparr>"
proof -
  let ?nodes = "flattenAnd cond" and ?ns = "[0..<length (sc_Indices s)]"
  have ok: "\<forall>e \<in> set ?nodes. expr_ok e" using flattenAnd_facts(3) assms(3) by blast
  obtain best where best: "best_prefix s ?nodes ?ns None = Inr best"
    "case best of None \<Rightarrow> True | Some (n, cells, used) \<Rightarrow> n < length (sc_Indices s) \<and> pickEqPrefix s n ?nodes = Inr (cells, used)"
    using best_prefix_ok[OF assms(1,2) ok row_exists[OF assms(1)], of ?ns None] by auto
  show thesis
  proof (cases best)
    case (Some p)
    obtain n cells used where p: "p = (n, cells, used)" by (cases p) auto
    have n: "n < length (sc_Indices s)" "pickEqPrefix s n ?nodes = Inr (cells, used)" using best(2) Some p by auto
    have "covers s row ?nodes \<lparr>rr_StartCmp = OP_GE, rr_StopCmp = OP_LE, rr_Start = cells, rr_Stop = cells, rr_IndexNo = int n\<rparr> used"
      if rw: "row_ok s row" for row
    proof -
      obtain c u where "pickEqPrefix s n ?nodes = Inr (c, u)" "eq_picked s row ?nodes (index_of s n) c u"
        using pickEqPrefix_ok[OF assms(1,2) rw n(1) ok] .
      then show ?thesis using eq_covers[OF assms(1) rw n(1)] n(2) by simp
    qed
    then show thesis using best(1) Some p by (intro ranged) (auto simp: planScan_def)
  next
    case None
    have pi: "\<exists>r. plan_index s ?nodes n = Inr r" if "n \<in> set ?ns" for n using plan_index_ok[OF assms(1,2) _ ok, of n] that by auto
    obtain r where r: "first_match (plan_index s ?nodes) ?ns = Inr r"
      "case r of None \<Rightarrow> True | Some (x, y) \<Rightarrow> x \<in> set ?ns \<and> plan_index s ?nodes x = Inr (Some y)"
      using first_match_total[of ?ns "plan_index s ?nodes", OF pi] by blast
    show thesis
    proof (cases r)
      case (Some q)
      obtain n plan where q: "q = (n, plan)" by (cases q) auto
      then have n: "n < length (sc_Indices s)" "plan_index s ?nodes n = Inr (Some plan)" using r(2) Some by auto
      from plan_index_ok[OF assms(1,2) n(1) ok] n(2) obtain used where
        "sp_residual plan = andExcept ?nodes used" "\<forall>row. row_ok s row \<longrightarrow> covers s row ?nodes (sp_req plan) used" by auto
      then show thesis using best(1) None r(1) Some q by (intro ranged) (auto simp: planScan_def)
    qed (use best(1) None r(1) full in \<open>auto simp: planScan_def\<close>)
  qed
qed

section \<open>Equivalence\<close>

lemma planScan_total:
  assumes "schema_ok s" and "names_ok s" and "pred_option expr_ok cond"
  shows "\<exists>plan. planScan s cond = Inr plan \<and> req_ok s (sp_req plan)"
proof (cases cond)
  case None
  then show ?thesis using full_scan(1)[OF assms(1)] row_exists[OF assms(1)] by (auto simp: planScan_def)
next
  case (Some c)
  obtain row where "row_ok s row" using row_exists[OF assms(1)] by blast
  from planScan_cases[OF assms(1,2), of c] show ?thesis
    using full_scan(1)[OF assms(1) \<open>row_ok s row\<close>] assms(3) Some \<open>row_ok s row\<close> by (fastforce simp: covers_def)
qed

lemma plan_matches:
  assumes "schema_ok s" and "names_ok s" and "row_ok s row" and "pred_option expr_ok cond" and "planScan s cond = Inr plan"
    and "pred_option (\<lambda>e. edepth e + maxPlanConjuncts \<le> maxExprDepth) cond"
    and "matchRow s row cond = Inr b"
  shows "if in_range s (sp_req plan) row then matchRow s row (sp_residual plan) = Inr b else \<not> b"
proof (cases cond)
  case None
  then show ?thesis using assms(5,7) full_scan(2)[OF assms(1,3)] by (auto simp: planScan_def matchRow_def)
next
  case (Some c)
  have tb: "truth s row c = Some b" using assms(6,7) Some matchRow_truth[of cond s row b] by (simp add: opt_truth_def)
  have ok: "expr_ok c" using assms(4) Some by simp
  show ?thesis
  proof (rule planScan_cases[OF assms(1,2) ok], goal_cases)
    case (1 plan' used)
    note ranged = 1
    then have pl: "plan' = plan" using assms(5) Some by simp
    have cov: "covers s row (flattenAnd c) (sp_req plan) used" using ranged(3) assms(3) pl by blast
    have at: "all_truth s row (flattenAnd c) = Some b" using tb by (simp add: flattenAnd_truth)
    obtain r where r: "opt_truth s row (sp_residual plan) = Some r"
      "b \<longleftrightarrow> (\<forall>i \<in> set used. truth s row (flattenAnd c ! i) = Some True) \<and> r"
      using residual_truth[OF at, of used] cov ranged(2) pl by (auto simp: covers_def)
    have "\<forall>e \<in> set (flattenAnd c). truth s row e \<noteq> None" using all_truth_SomeD[OF at] by auto
    then have b: "b \<longleftrightarrow> in_range s (sp_req plan) row \<and> r" using cov r(2) by (auto simp: covers_def)
    have "case sp_residual plan of None \<Rightarrow> True | Some e \<Rightarrow> edepth e \<le> maxExprDepth"
      using residual_depth[of c used] ranged(2) pl assms(6) Some by (auto split: option.splits)
    from matchRow_truth[OF this, of s row r] r(1) b show ?thesis by auto
  next
    case 2
    then show ?thesis using assms(5,7) Some full_scan(2)[OF assms(1,3)] by auto
  qed
qed

text \<open>
  C29: on a valid schema whose indexed columns are the ones their names lead to, for a
  condition with well-formed literals whose nesting stays \<open>maxPlanConjuncts\<close> levels below the limit:
  planning does not fail, and the plan means the condition.  On every row on which the condition has a
  truth value, the condition holds exactly when the row's key in the planned index lies between the
  planned bounds and the residual holds, and on the rows in between the residual has a truth value too.
\<close>

theorem planScan_equivalent:
  assumes "schema_ok s" and "names_ok s" and "pred_option expr_ok cond"
    and "pred_option (\<lambda>e. edepth e + maxPlanConjuncts \<le> maxExprDepth) cond"
  shows "\<exists>plan. planScan s cond = Inr plan \<and> (\<forall>row b. row_ok s row \<longrightarrow> matchRow s row cond = Inr b \<longrightarrow>
    (if in_range s (sp_req plan) row then matchRow s row (sp_residual plan) = Inr b else \<not> b))"
  using planScan_total[OF assms(1-3)] plan_matches[OF assms(1,2) _ assms(3) _ assms(4)] by blast

text \<open>Two bounds on the primary key, in either order of the operands, and a filter on the other column.\<close>

definition demo_cond :: expr where
  "demo_cond = EBinOp OP_AND (EBinOp OP_AND (EBinOp OP_GT (EName [97]) (ECell (cell_int 1))) (EBinOp OP_NE (EName [98]) (ECell (cell_str []))))
     (EBinOp OP_GE (ECell (cell_int 9)) (EName [97]))"

theorem planScan_equivalent_witness:
  "planScan demo_schema (Some demo_cond) = Inr \<lparr>sp_req = \<lparr>rr_StartCmp = OP_GT, rr_StopCmp = OP_LE,
     rr_Start = [cell_int 1], rr_Stop = [cell_int 9], rr_IndexNo = 0\<rparr>,
     sp_residual = Some (EBinOp OP_NE (EName [98]) (ECell (cell_str []))), sp_indexed = True\<rparr> \<and>
   (\<exists>plan. planScan demo_schema (Some demo_cond) = Inr plan \<and> (\<forall>row b. row_ok demo_schema row \<longrightarrow> matchRow demo_schema row (Some demo_cond) = Inr b \<longrightarrow>
    (if in_range demo_schema (sp_req plan) row then matchRow demo_schema row (sp_residual plan) = Inr b else \<not> b)))"
proof (rule conjI, code_simp, rule planScan_equivalent)
  show "schema_ok demo_schema" by code_simp
  show "names_ok demo_schema" by code_simp
  show "pred_option expr_ok (Some demo_cond)" by (simp add: demo_cond_def)
  show "pred_option (\<lambda>e. edepth e + maxPlanConjuncts \<le> maxExprDepth) (Some demo_cond)"
    by (simp add: demo_cond_def maxPlanConjuncts_def maxExprDepth_def)
qed

text \<open>A condition nested as deeply as evaluation allows.\<close>

fun negs :: "nat \<Rightarrow> expr \<Rightarrow> expr" where
  "negs 0 e = e"
| "negs (Suc n) e = EUnOp OP_NEG (negs n e)"

definition deep_cond :: expr where
  "deep_cond = EBinOp OP_AND (negs 999 (ECell (cell_int 1))) (EBinOp OP_AND (ECell (cell_int 1))
     (EBinOp OP_AND (ECell (cell_int 1)) (EBinOp OP_EQ (EName [97]) (ECell (cell_int 7)))))"

definition deep_row :: row where "deep_row = [cell_int 7, cell_str []]"

lemma eval_negs:
  "evalExprAt s row (negs n (ECell (cell_int i))) d =
     (if d + n \<le> maxExprDepth then Inr (cell_int (if even n then i else - i)) else Inl errTooDeep)"
  by (induction n arbitrary: d) (auto simp: unop_cell_def)

text \<open>
  C30: the residual is rebuilt left-nested, which can move an operand deeper than it was
  in the condition: a condition that evaluates to true on a row in the planned range is answered with the
  nesting error.
\<close>

theorem residual_too_deep:
  "\<exists>plan. planScan demo_schema (Some deep_cond) = Inr plan \<and> in_range demo_schema (sp_req plan) deep_row \<and>
     matchRow demo_schema deep_row (Some deep_cond) = Inr True \<and>
     matchRow demo_schema deep_row (sp_residual plan) = Inl errTooDeep"
proof -
  define e where "e = negs 998 (ECell (cell_int 1))"
  have n: "negs 999 (ECell (cell_int 1)) = EUnOp OP_NEG e" by (simp add: e_def numeral_eq_Suc)
  let ?plan = "\<lparr>sp_req = \<lparr>rr_StartCmp = OP_GE, rr_StopCmp = OP_LE, rr_Start = [cell_int 7], rr_Stop = [cell_int 7], rr_IndexNo = 0\<rparr>,
     sp_residual = Some (EBinOp OP_AND (EBinOp OP_AND (EUnOp OP_NEG e) (ECell (cell_int 1))) (ECell (cell_int 1))), sp_indexed = True\<rparr>"
  have "planScan demo_schema (Some deep_cond) = Inr ?plan"
    by (simp add: planScan_def deep_cond_def n flattenAnd_def maxPlanConjuncts_def demo_schema_def pickEqPrefix_def andExcept_def go_index_def)
  moreover have "in_range demo_schema (sp_req ?plan) deep_row"
  proof (subst in_range_iff)
    show "schema_ok demo_schema" by code_simp
    show "row_ok demo_schema deep_row" by (simp add: row_ok_def cell_ok_def deep_row_def demo_schema_def) (simp add: cell_int_def)
    show "req_ok demo_schema (sp_req ?plan)" by (simp add: req_ok_def isDescending_def prefix_ok_def index_types_def demo_schema_def)
  qed (simp add: demo_schema_def deep_row_def cell_less_def)
  moreover have "matchRow demo_schema deep_row (Some deep_cond) = Inr True"
    by (simp add: matchRow_def evalExpr_def deep_cond_def eval_negs maxExprDepth_def binop_cells_def isCmpOp_def compareCells_def cmp_int_def
        column_index_def demo_schema_def deep_row_def)
  moreover have "matchRow demo_schema deep_row (sp_residual ?plan) = Inl errTooDeep"
    by (simp add: matchRow_def evalExpr_def n[symmetric] eval_negs maxExprDepth_def isCmpOp_def)
  ultimately show ?thesis by blast
qed

end
