(* ===== verification/Exec.thy ===== *)
theory Exec
  imports Table PlanOk
begin

text \<open>
  \<open>src/db/table.go\<close>, statements: the streaming SELECT cursor, the statements that change rows in
  batches, the catalogue statements, and the results that own their transaction.  The loops are
  partial functions: a loop that would not return has no value.
\<close>

section \<open>SELECT\<close>

record selectCursor =
  cu_schema :: Schema
  cu_plan :: scanPlan
  cu_proj :: "expr list"
  cu_iter :: RowIterator
  cu_started :: bool
  cu_remaining :: int
  cu_skip :: int
  cu_out :: row
  cu_scanned :: int

fun eval_list :: "Schema \<Rightarrow> row \<Rightarrow> expr list \<Rightarrow> cell list res" where
  "eval_list schema row [] = Inr []"
| "eval_list schema row (e # es) = rbind (evalExpr schema row e) (\<lambda>c. rbind (eval_list schema row es) (\<lambda>cs. Inr (c # cs)))"

text \<open>The step to the next row of the scan: none on the first round.\<close>

definition cursor_advance :: "'c KV \<Rightarrow> selectCursor \<Rightarrow> selectCursor \<times> unit res" where
  "cursor_advance kv c =
     (if \<not> cu_started c then (c\<lparr>cu_started := True\<rparr>, Inr ())
      else case RowIterator_Next kv (cu_iter c) of (it, r) \<Rightarrow> (c\<lparr>cu_iter := it\<rparr>, r))"

definition cursor_emit :: "selectCursor \<Rightarrow> row \<Rightarrow> selectCursor \<times> bool res" where
  "cursor_emit c row =
     (case eval_list (cu_schema c) row (cu_proj c) of Inl e \<Rightarrow> (c, Inl e)
      | Inr out \<Rightarrow> (c\<lparr>cu_out := out, cu_remaining := (if cu_remaining c > 0 then cu_remaining c - 1 else cu_remaining c)\<rparr>, Inr True))"

partial_function (option) cursor_loop :: "'c KV \<Rightarrow> selectCursor \<Rightarrow> (selectCursor \<times> bool res) option" where
  "cursor_loop kv c =
     (case cursor_advance kv c of (c, Inl e) \<Rightarrow> Some (c, Inl e)
      | (c, Inr _) \<Rightarrow>
        if \<not> ri_valid (cu_iter c) then Some (c, Inr False)
        else let c = c\<lparr>cu_scanned := cu_scanned c + 1\<rparr>; row = ri_row (cu_iter c) in
          (case matchRow (cu_schema c) row (sp_residual (cu_plan c)) of Inl e \<Rightarrow> Some (c, Inl e)
           | Inr ok \<Rightarrow>
             if \<not> ok then cursor_loop kv c
             else if cu_skip c > 0 then cursor_loop kv (c\<lparr>cu_skip := cu_skip c - 1\<rparr>)
             else Some (cursor_emit c row)))"

declare cursor_loop.simps [code]

definition cursor_next :: "'c KV \<Rightarrow> selectCursor \<Rightarrow> (selectCursor \<times> bool res) option" where
  "cursor_next kv c = (if cu_remaining c = 0 then Some (c, Inr False) else cursor_loop kv c)"

record SQLResult =
  sr_tx :: "DBTX option"
  sr_cols :: "ColumnDesc list"
  sr_cursor :: "selectCursor option"
  sr_affected :: nat
  sr_err :: "err option"
  sr_closed :: bool

definition empty_result :: SQLResult where
  "empty_result = \<lparr>sr_tx = None, sr_cols = [], sr_cursor = None, sr_affected = 0, sr_err = None, sr_closed = False\<rparr>"

definition SQLResult_Next :: "'c KV \<Rightarrow> SQLResult \<Rightarrow> (SQLResult \<times> bool res) option" where
  "SQLResult_Next kv r =
     (if sr_closed r \<or> sr_err r \<noteq> None then Some (r, Inr False)
      else case sr_cursor r of None \<Rightarrow> Some (r, Inr False)
      | Some c \<Rightarrow> map_option (\<lambda>(c, res).
          (case res of
             Inl e \<Rightarrow> if is_panic e then (r\<lparr>sr_cursor := Some c\<rparr>, Inl e) else (r\<lparr>sr_cursor := Some c, sr_err := Some e\<rparr>, Inr False)
           | Inr ok \<Rightarrow> (r\<lparr>sr_cursor := Some c\<rparr>, Inr ok))) (cursor_next kv c))"

definition SQLResult_Row :: "SQLResult \<Rightarrow> row" where
  "SQLResult_Row r = (case sr_cursor r of None \<Rightarrow> [] | Some c \<Rightarrow> cu_out c)"

partial_function (option) SQLResult_Rows :: "'c KV \<Rightarrow> SQLResult \<Rightarrow> row list \<Rightarrow> (SQLResult \<times> row list res) option" where
  "SQLResult_Rows kv r out =
     Option.bind (SQLResult_Next kv r) (\<lambda>(r, res). case res of Inl e \<Rightarrow> Some (r, Inl e)
       | Inr ok \<Rightarrow> if ok then SQLResult_Rows kv r (out @ [SQLResult_Row r])
           else Some (r, case sr_err r of None \<Rightarrow> Inr out | Some e \<Rightarrow> Inl e))"

declare SQLResult_Rows.simps [code]

definition SQLResult_Close :: "'c cacheLib \<Rightarrow> SQLResult \<Rightarrow> 'c KV \<Rightarrow> 'c KV \<times> SQLResult \<times> unit res" where
  "SQLResult_Close cl r kv =
     (if sr_closed r then (kv, r, Inr ())
      else let r' = r\<lparr>sr_closed := True, sr_cursor := None, sr_tx := None\<rparr> in
        case sr_tx r of None \<Rightarrow> (kv, r', Inr ())
        | Some tx \<Rightarrow>
            if sr_err r \<noteq> None then (case DBTX_Abort tx kv of (kv, res) \<Rightarrow> (kv, r', res))
            else (case DBTX_Commit cl tx kv of (kv, res) \<Rightarrow> (kv, r', res)))"

definition execSelect :: "'c KV \<Rightarrow> DBTX \<Rightarrow> StmtSelect \<Rightarrow> DBTX \<times> SQLResult res" where
  "execSelect kv tx stmt =
     sbind (DBTX_GetSchema kv tx (sel_table stmt)) (\<lambda>tx schema.
       (tx, rbind (expandProjection schema (sel_cols stmt)) (\<lambda>(proj, cols).
         rbind (planScan schema (sel_cond stmt)) (\<lambda>plan.
         rbind (DBTX_Range kv tx schema (sp_req plan)) (\<lambda>it.
         Inr (empty_result\<lparr>sr_cols := cols, sr_cursor := Some \<lparr>cu_schema = schema, cu_plan = plan, cu_proj = proj, cu_iter = it,
           cu_started = False, cu_remaining = (if sel_limit stmt < 0 then -1 else sel_limit stmt), cu_skip = sel_offset stmt,
           cu_out = [], cu_scanned = 0\<rparr>\<rparr>))))))"

section \<open>INSERT\<close>

definition execInsert :: "'c cacheLib \<Rightarrow> DBTX \<Rightarrow> StmtInsert \<Rightarrow> 'c KV \<Rightarrow> ('c KV \<times> DBTX) \<times> nat res" where
  "execInsert cl tx stmt kv =
     (case DBTX_GetSchema kv tx (ins_table stmt) of (tx, Inl e) \<Rightarrow> ((kv, tx), Inl e)
      | (tx, Inr schema) \<Rightarrow>
        if length (sc_Cols schema) \<noteq> length (ins_value stmt) \<or>
           \<not> list_all2 (\<lambda>col c. col_Type col = cell_Type c) (sc_Cols schema) (ins_value stmt)
        then ((kv, tx), Inl (Error ''schema mismatch''))
        else case DBTX_Insert cl tx schema (ins_value stmt) kv of (kv, Inl e) \<Rightarrow> ((kv, tx), Inl e)
          | (kv, Inr updated) \<Rightarrow> ((kv, tx), Inr (if updated then 1 else 0)))"

fun fillNonPKey :: "Schema \<Rightarrow> NamedCell list \<Rightarrow> row \<Rightarrow> row res" where
  "fillNonPKey schema [] out = Inr out"
| "fillNonPKey schema (expr # updates) out =
     (case slices_IndexFunc (\<lambda>col. col_Name col = nc_column expr) (sc_Cols schema) of
        None \<Rightarrow> Inl (Error ''unknown column'')
      | Some idx \<Rightarrow>
          if col_Type (sc_Cols schema ! idx) \<noteq> cell_Type (nc_value expr) then Inl (Error ''column type mismatch'')
          else rbind (go_index (sc_Indices schema) 0) (\<lambda>pkey.
            if int idx \<in> set pkey then Inl (Error ''cannot update a primary key column'')
            else rbind (go_index out (int idx)) (\<lambda>_. fillNonPKey schema updates (out[idx := nc_value expr]))))"

section \<open>Statements over matching rows\<close>

definition mutateBatchSize :: nat where "mutateBatchSize = 512"

partial_function (option) collect_loop ::
  "'c KV \<Rightarrow> Schema \<Rightarrow> expr option \<Rightarrow> RowIterator \<Rightarrow> row list \<Rightarrow> (row list \<times> bool) res option" where
  "collect_loop kv schema residual it batch =
     (if \<not> ri_valid it then Some (Inr (batch, True))
      else case matchRow schema (ri_row it) residual of Inl e \<Rightarrow> Some (Inl e)
      | Inr ok \<Rightarrow>
          let batch = (if ok then batch @ [ri_row it] else batch) in
          if ok \<and> mutateBatchSize \<le> length batch then Some (Inr (batch, False))
          else (case RowIterator_Next kv it of (it, Inl e) \<Rightarrow> Some (Inl e)
            | (it, Inr _) \<Rightarrow> collect_loop kv schema residual it batch))"

declare collect_loop.simps [code]

definition collectBatch :: "'c KV \<Rightarrow> DBTX \<Rightarrow> Schema \<Rightarrow> scanPlan \<Rightarrow> cell list option \<Rightarrow> (row list \<times> bool) res option" where
  "collectBatch kv tx schema plan resume =
     (let req = (case resume of None \<Rightarrow> sp_req plan
        | Some cells \<Rightarrow> (sp_req plan)\<lparr>rr_StartCmp := OP_GT, rr_Start := cells\<rparr>) in
      case DBTX_Range kv tx schema req of Inl e \<Rightarrow> Some (Inl e)
      | Inr it \<Rightarrow> collect_loop kv schema (sp_residual plan) it [])"

fun cells_at :: "row \<Rightarrow> int list \<Rightarrow> cell list res" where
  "cells_at row [] = Inr []"
| "cells_at row (idx # index) = rbind (go_index row idx) (\<lambda>c. rbind (cells_at row index) (\<lambda>cs. Inr (c # cs)))"

definition pkeyCells :: "Schema \<Rightarrow> row \<Rightarrow> cell list res" where
  "pkeyCells schema row = rbind (go_index (sc_Indices schema) 0) (cells_at row)"

text \<open>The state of a statement: the store and the number of rows changed so far.\<close>

type_synonym 'c mstate = "'c KV \<times> nat"

fun apply_rows :: "(row \<Rightarrow> 'c mstate \<Rightarrow> 'c mstate \<times> unit res) \<Rightarrow> row list \<Rightarrow> 'c mstate \<Rightarrow> 'c mstate \<times> unit res" where
  "apply_rows fn [] st = (st, Inr ())"
| "apply_rows fn (row # rows) st = sbind (fn row st) (\<lambda>st _. apply_rows fn rows st)"

partial_function (option) batch_loop ::
  "DBTX \<Rightarrow> Schema \<Rightarrow> scanPlan \<Rightarrow> (row \<Rightarrow> 'c mstate \<Rightarrow> 'c mstate \<times> unit res) \<Rightarrow> cell list option \<Rightarrow> 'c mstate \<Rightarrow> ('c mstate \<times> unit res) option" where
  "batch_loop tx schema scan fn resume st =
     Option.bind (collectBatch (fst st) tx schema scan resume) (\<lambda>res. case res of Inl e \<Rightarrow> Some (st, Inl e)
       | Inr (batch, done) \<Rightarrow>
           if batch = [] then Some (st, Inr ())
           else case pkeyCells schema (last batch) of Inl e \<Rightarrow> Some (st, Inl e)
             | Inr resume \<Rightarrow> (case apply_rows fn batch st of (st, Inl e) \<Rightarrow> Some (st, Inl e)
                 | (st, Inr _) \<Rightarrow> if done then Some (st, Inr ()) else batch_loop tx schema scan fn (Some resume) st))"

declare batch_loop.simps [code]

definition forEachMatch ::
  "DBTX \<Rightarrow> Schema \<Rightarrow> expr option \<Rightarrow> (row \<Rightarrow> 'c mstate \<Rightarrow> 'c mstate \<times> unit res) \<Rightarrow> 'c mstate \<Rightarrow> ('c mstate \<times> unit res) option" where
  "forEachMatch tx schema cond fn st =
     (case planScan schema cond of Inl e \<Rightarrow> Some (st, Inl e)
      | Inr plan \<Rightarrow> Option.bind (collectBatch (fst st) tx schema plan None) (\<lambda>res. case res of Inl e \<Rightarrow> Some (st, Inl e)
          | Inr (batch, done) \<Rightarrow>
              if done then Some (apply_rows fn batch st)
              else batch_loop tx schema \<lparr>sp_req = fullScanReq, sp_residual = cond, sp_indexed = False\<rparr> fn None st))"

fun eval_assigns :: "Schema \<Rightarrow> row \<Rightarrow> ExprAssign list \<Rightarrow> NamedCell list res" where
  "eval_assigns schema row [] = Inr []"
| "eval_assigns schema row (a # as) = rbind (evalExpr schema row (as_expr a)) (\<lambda>c.
     rbind (eval_assigns schema row as) (\<lambda>cs. Inr (\<lparr>nc_column = as_column a, nc_value = c\<rparr> # cs)))"

definition count_change :: "nat \<Rightarrow> 'c KV \<times> bool res \<Rightarrow> 'c mstate \<times> unit res" where
  "count_change count m = (case m of (kv, Inl e) \<Rightarrow> ((kv, count), Inl e)
     | (kv, Inr changed) \<Rightarrow> ((kv, if changed then Suc count else count), Inr ()))"

definition update_row :: "'c cacheLib \<Rightarrow> DBTX \<Rightarrow> Schema \<Rightarrow> ExprAssign list \<Rightarrow> row \<Rightarrow> 'c mstate \<Rightarrow> 'c mstate \<times> unit res" where
  "update_row cl tx schema value row st =
     (case rbind (eval_assigns schema row value) (\<lambda>updates. fillNonPKey schema updates row) of Inl e \<Rightarrow> (st, Inl e)
      | Inr row \<Rightarrow> count_change (snd st) (DBTX_Update cl tx schema row (fst st)))"

definition delete_row :: "'c cacheLib \<Rightarrow> DBTX \<Rightarrow> Schema \<Rightarrow> row \<Rightarrow> 'c mstate \<Rightarrow> 'c mstate \<times> unit res" where
  "delete_row cl tx schema row st = count_change (snd st) (DBTX_Delete cl tx schema row (fst st))"

text \<open>A statement that resolves its table and changes the matching rows.\<close>

definition mutate :: "(DBTX \<Rightarrow> Schema \<Rightarrow> row \<Rightarrow> 'c mstate \<Rightarrow> 'c mstate \<times> unit res) \<Rightarrow> bytes \<Rightarrow> expr option \<Rightarrow> DBTX \<Rightarrow> 'c KV \<Rightarrow>
    (('c KV \<times> DBTX) \<times> nat res) option" where
  "mutate fn table cond tx kv =
     (case DBTX_GetSchema kv tx table of (tx, Inl e) \<Rightarrow> Some ((kv, tx), Inl e)
      | (tx, Inr schema) \<Rightarrow> map_option (\<lambda>((kv, count), r). ((kv, tx), case r of Inl e \<Rightarrow> Inl e | Inr _ \<Rightarrow> Inr count))
          (forEachMatch tx schema cond (fn tx schema) (kv, 0)))"

definition execUpdate :: "'c cacheLib \<Rightarrow> DBTX \<Rightarrow> StmtUpdate \<Rightarrow> 'c KV \<Rightarrow> (('c KV \<times> DBTX) \<times> nat res) option" where
  "execUpdate cl tx stmt kv = mutate (\<lambda>tx schema. update_row cl tx schema (upd_value stmt)) (upd_table stmt) (upd_cond stmt) tx kv"

definition execDelete :: "'c cacheLib \<Rightarrow> DBTX \<Rightarrow> StmtDelete \<Rightarrow> 'c KV \<Rightarrow> (('c KV \<times> DBTX) \<times> nat res) option" where
  "execDelete cl tx stmt kv = mutate (delete_row cl) (del_table stmt) (del_cond stmt) tx kv"

section \<open>CREATE TABLE and DROP TABLE\<close>

text \<open>The primary key first, then the secondary indices, each completed with the primary key.\<close>

fun create_indices :: "Column list \<Rightarrow> bytes list list \<Rightarrow> int list list \<Rightarrow> int list list res" where
  "create_indices cols [] indices = Inr indices"
| "create_indices cols (names # rest) indices =
     rbind (lookupColumns cols names) (\<lambda>index.
       if index = [] then Inl (Error ''expect at least one key column'')
       else create_indices cols rest (indices @ [if indices \<noteq> [] then addPKeyToIndex index (hd indices) else index]))"

definition execCreateTable :: "DBTX \<Rightarrow> StmtCreatTable \<Rightarrow> 'c KV \<Rightarrow> ('c KV \<times> DBTX) \<times> unit res" where
  "execCreateTable tx stmt kv =
     (case DBTX_GetSchema kv tx (ct_table stmt) of
        (tx, Inr _) \<Rightarrow> ((kv, tx), Inl (Error ''duplicate table name''))
      | (tx, Inl e) \<Rightarrow>
        if is_panic e then ((kv, tx), Inl e)
        else if ct_cols stmt = [] then ((kv, tx), Inl (Error ''expect at least one column''))
        else (case rbind (create_indices (ct_cols stmt) (ct_pkey stmt # ct_indices stmt) []) (\<lambda>indices.
              let schema = \<lparr>sc_Version = SchemaVersion, sc_Table = ct_table stmt, sc_Cols = ct_cols stmt, sc_Indices = indices\<rparr> in
              rbind (Schema_Validate schema) (\<lambda>_. Inr schema)) of
            Inl e \<Rightarrow> ((kv, tx), Inl e)
          | Inr schema \<Rightarrow> (case KVTX_Set (dtx_kv tx) (schemaKey (ct_table stmt)) (marshal_schema schema) kv of
              (kv, Inl e) \<Rightarrow> ((kv, tx), Inl e)
            | (kv, Inr _) \<Rightarrow> ((kv, tx\<lparr>dtx_tables := (dtx_tables tx)(sc_Table schema \<mapsto> schema)\<rparr>), Inr ()))))"

definition execDropTable :: "'c cacheLib \<Rightarrow> DBTX \<Rightarrow> StmtDropTable \<Rightarrow> 'c KV \<Rightarrow> (('c KV \<times> DBTX) \<times> unit res) option" where
  "execDropTable cl tx stmt kv =
     (case DBTX_GetSchema kv tx (drop_table stmt) of (tx, Inl e) \<Rightarrow> Some ((kv, tx), Inl e)
      | (tx, Inr schema) \<Rightarrow> map_option (\<lambda>((kv, _), r). case r of Inl e \<Rightarrow> ((kv, tx), Inl e)
          | Inr _ \<Rightarrow> (case KVTX_Del (dtx_kv tx) (schemaKey (drop_table stmt)) kv of (kv, Inl e) \<Rightarrow> ((kv, tx), Inl e)
              | (kv, Inr _) \<Rightarrow> ((kv, tx\<lparr>dtx_tables := (dtx_tables tx)(drop_table stmt := None)\<rparr>), Inr ())))
          (forEachMatch tx schema None (\<lambda>row st. case DBTX_Delete cl tx schema row (fst st) of
             (kv, Inl e) \<Rightarrow> ((kv, snd st), Inl e) | (kv, Inr _) \<Rightarrow> ((kv, snd st), Inr ())) (kv, 0)))"

section \<open>Statements\<close>

definition affected :: "(('c KV \<times> DBTX) \<times> nat res) \<Rightarrow> ('c KV \<times> DBTX) \<times> SQLResult res" where
  "affected m = (case m of (st, r) \<Rightarrow> (st, rbind r (\<lambda>n. Inr (empty_result\<lparr>sr_affected := n\<rparr>))))"

definition execStmt :: "'c cacheLib \<Rightarrow> DBTX \<Rightarrow> stmt \<Rightarrow> 'c KV \<Rightarrow> (('c KV \<times> DBTX) \<times> SQLResult res) option" where
  "execStmt cl tx stmt kv = (case stmt of
     SCreateTable ptr \<Rightarrow> (case execCreateTable tx ptr kv of (st, r) \<Rightarrow> Some (st, rbind r (\<lambda>_. Inr empty_result)))
   | SDropTable ptr \<Rightarrow> map_option (\<lambda>(st, r). (st, rbind r (\<lambda>_. Inr empty_result))) (execDropTable cl tx ptr kv)
   | SSelect ptr \<Rightarrow> (case execSelect kv tx ptr of (tx, r) \<Rightarrow> Some ((kv, tx), r))
   | SInsert ptr \<Rightarrow> Some (affected (execInsert cl tx ptr kv))
   | SUpdate ptr \<Rightarrow> map_option affected (execUpdate cl tx ptr kv)
   | SDelete ptr \<Rightarrow> map_option affected (execDelete cl tx ptr kv))"

definition execStmtOwned :: "'c cacheLib \<Rightarrow> DBTX \<Rightarrow> stmt \<Rightarrow> 'c KV \<Rightarrow> ('c KV \<times> SQLResult res) option" where
  "execStmtOwned cl tx stmt kv = map_option (\<lambda>((kv, tx), r). case r of
       Inl e \<Rightarrow> if is_panic e then (kv, Inl e) else sbind (DBTX_Abort tx kv) (\<lambda>kv _. (kv, Inl e))
     | Inr res \<Rightarrow>
         if sr_cursor res = None then sbind (DBTX_Commit cl tx kv) (\<lambda>kv _. (kv, Inr res))
         else (kv, Inr (res\<lparr>sr_tx := Some tx\<rparr>))) (execStmt cl tx stmt kv)"

definition DBTX_ExecStmt :: "'c cacheLib \<Rightarrow> DBTX \<Rightarrow> stmt \<Rightarrow> 'c KV \<Rightarrow> ('c KV \<times> SQLResult res) option" where
  "DBTX_ExecStmt cl tx stmt kv = (case DBTX_NewTX tx kv of (kv, tx) \<Rightarrow> execStmtOwned cl tx stmt kv)"

definition DB_ExecStmt :: "'c cacheLib \<Rightarrow> stmt \<Rightarrow> 'c KV \<Rightarrow> ('c KV \<times> SQLResult res) option" where
  "DB_ExecStmt cl stmt kv = (case DB_NewTX kv of (kv, tx) \<Rightarrow> execStmtOwned cl tx stmt kv)"

definition DB_Query :: "'c cacheLib \<Rightarrow> bytes \<Rightarrow> 'c KV \<Rightarrow> ('c KV \<times> SQLResult res) option" where
  "DB_Query cl statement kv = (case ParseStmt statement of Inl e \<Rightarrow> Some (kv, Inl e) | Inr stmt \<Rightarrow> DB_ExecStmt cl stmt kv)"

definition DBTX_Query :: "'c cacheLib \<Rightarrow> DBTX \<Rightarrow> bytes \<Rightarrow> 'c KV \<Rightarrow> ('c KV \<times> SQLResult res) option" where
  "DBTX_Query cl tx statement kv = (case ParseStmt statement of Inl e \<Rightarrow> Some (kv, Inl e) | Inr stmt \<Rightarrow> DBTX_ExecStmt cl tx stmt kv)"

end
