(* ===== verification/TxView.thy ===== *)
theory TxView
  imports StoreOps
begin

text \<open>
  What a transaction of the store sees, whether it is at the top or nested: the laws of reading,
  writing and scanning through it, of opening a nested transaction, and of committing one into its
  parent.
\<close>

section \<open>The view of a transaction\<close>

text \<open>
  A transaction that has not failed, whose first level is its own pending writes and whose other
  levels refer to older transactions only, sees its pending writes over the levels below.
\<close>

definition tx_sees :: "'c KV \<Rightarrow> nat \<Rightarrow> (bytes \<rightharpoonup> bytes) \<Rightarrow> bool" where
  "tx_sees kv i m \<longleftrightarrow> i < length (kv_txs kv) \<and> tx_err (tx_of kv i) = None \<and> arr_wf (tx_updates (tx_of kv i)) \<and>
     (\<exists>ls. tx_levels (tx_of kv i) = RUpd i # ls \<and> (\<forall>j. RUpd j \<in> set ls \<longrightarrow> j < i)) \<and>
     list_all level_ok (tx_base kv i) \<and> m = overlay (tx_view kv i) (arr_map (tx_updates (tx_of kv i)))"

definition tombs :: "'c KV \<Rightarrow> nat \<Rightarrow> bytes set" where
  "tombs kv i = {k. \<exists>v. arr_map (tx_updates (tx_of kv i)) k = Some (v, True)}"

lemma tx_seesD:
  assumes "tx_sees kv i m"
  shows "i < length (kv_txs kv)" "tx_err (tx_of kv i) = None" "arr_wf (tx_updates (tx_of kv i))"
    "list_all level_ok (tx_base kv i)" "m = overlay (tx_view kv i) (arr_map (tx_updates (tx_of kv i)))"
    "tx_stack kv i = LArr (tx_updates (tx_of kv i)) # tx_base kv i"
  using assms by (auto simp: tx_sees_def tx_stack_def tx_base_def deref_def)

lemma tx_sees_root:
  assumes "store_inv kv pend" and "i \<in> set (kv_ongoing kv)"
  shows "tx_sees kv i (overlay (tx_view kv i) (arr_map (tx_updates (tx_of kv i))))"
  using tx_base_ok(1)[OF assms] store_invE(7)[OF assms] by (auto simp: tx_sees_def tx_inv_def)

lemma tx_sees_stack:
  assumes "tx_sees kv i m"
  shows "list_all level_ok (tx_stack kv i)" and "live (stack_map (tx_stack kv i)) = m"
proof -
  note d = tx_seesD[OF assms]
  show "list_all level_ok (tx_stack kv i)" using d(3,4,6) by simp
  show "live (stack_map (tx_stack kv i)) = m" using d(3,5,6) by (simp add: live_overlay tx_view_def)
qed

lemma tx_sees_unique: "tx_sees kv i m \<Longrightarrow> tx_sees kv i m' \<Longrightarrow> m = m'"
  by (simp add: tx_sees_def)

section \<open>Reading and scanning\<close>

lemma sees_get: "tx_sees kv i m \<Longrightarrow> KVTX_Get kv i k = Inr (m k)"
  using KVTX_Get_live[of kv i k] tx_seesD(2)[of kv i m] tx_sees_stack[of kv i m] by simp

lemma sees_finite: "tx_sees kv i m \<Longrightarrow> finite (dom m)"
proof -
  assume s: "tx_sees kv i m"
  have "dom (live (stack_map (tx_stack kv i))) \<subseteq> dom (stack_map (tx_stack kv i))" by (auto simp: live_SomeD)
  then show "finite (dom m)"
    using finite_stack_map[OF tx_sees_stack(1)[OF s]] tx_sees_stack(2)[OF s] finite_subset by metis
qed

text \<open>A range iterator as the list of the pairs it delivers.\<close>

inductive delivers :: "'i iter_ops \<Rightarrow> 'i RangedKVIter \<Rightarrow> (bytes \<times> bytes) list \<Rightarrow> bool" for ops where
  delivers_end: "Ranged_Valid ops it = Inr False \<Longrightarrow> delivers ops it []"
| delivers_next: "Ranged_Valid ops it = Inr True \<Longrightarrow> Ranged_Key ops it = Inr k \<Longrightarrow> Ranged_Val ops it = Inr v \<Longrightarrow>
    Ranged_Next ops it = Inr it' \<Longrightarrow> delivers ops it' ps \<Longrightarrow> delivers ops it ((k, v) # ps)"

inductive_cases delivers_NilE: "delivers ops it []"
inductive_cases delivers_ConsE: "delivers ops it (p # ps)"

lemma collect_delivers: "Ranged_collect fuel ops it = Some (Inr ps) \<Longrightarrow> delivers ops it ps"
proof (induction fuel arbitrary: it ps)
  case (Suc fuel)
  then show ?case
    by (auto split: sum.splits bool.splits simp: rbind_Inr_iff intro: delivers.intros elim!: rbind_Inr_iff[THEN iffD1, elim_format])
qed simp

lemma sees_range:
  assumes "tx_sees kv i m"
  obtains rit where "KVTX_Range kv i start stop desc = Inr rit"
    "delivers (nodel_ops stack_ops) rit (if desc then rev (pairs_between m stop start) else pairs_between m start stop)"
proof -
  obtain rit where "KVTX_Range kv i start stop desc = Inr rit"
    "Ranged_collect (Suc (length (sorted_entries m))) (nodel_ops stack_ops) rit =
      Some (Inr (if desc then rev (pairs_between m stop start) else pairs_between m start stop))"
    using KVTX_Range_collect[OF tx_seesD(2)[OF assms] tx_sees_stack(1)[OF assms] lessI, of start stop desc]
    unfolding tx_sees_stack(2)[OF assms] Let_def by blast
  then show thesis using that collect_delivers by blast
qed

section \<open>Writing\<close>

lemma tx_base_with_updates:
  assumes "tx_sees kv i m"
  shows "tx_base (with_updates i u kv) i = tx_base kv i"
proof -
  obtain ls where l: "tx_levels (tx_of kv i) = RUpd i # ls" "\<forall>j. RUpd j \<in> set ls \<longrightarrow> j < i" and i: "i < length (kv_txs kv)"
    using assms by (auto simp: tx_sees_def)
  have "deref (with_updates i u kv) r = deref kv r" if "r \<in> set ls" for r
  proof (cases r)
    case (RUpd j)
    then have "j \<noteq> i" using that l(2) by auto
    then show ?thesis using RUpd by (simp add: deref_def with_updates_def)
  qed (simp_all add: deref_def with_updates_def)
  then show ?thesis using i l(1) by (simp add: tx_base_def with_updates_def)
qed

lemma sees_with_updates:
  assumes "tx_sees kv i m" and "arr_wf u"
  shows "tx_sees (with_updates i u kv) i (overlay (tx_view kv i) (arr_map u))"
proof -
  have i: "i < length (kv_txs kv)" using tx_seesD(1)[OF assms(1)] .
  have "tx_of (with_updates i u kv) i = (tx_of kv i)\<lparr>tx_updates := u\<rparr>" using i by (simp add: with_updates_def)
  then show ?thesis using assms tx_base_with_updates[OF assms(1), of u] by (auto simp: tx_sees_def tx_view_def with_updates_def)
qed

lemma with_updates_twice: "with_updates i u (with_updates i u' kv) = with_updates i u kv"
  by (simp add: with_updates_def tx_update_def nth_list_update list_update_beyond split: if_splits)
     (cases "i < length (kv_txs kv)"; simp add: list_update_beyond)

text \<open>Nested transactions add to the heap of transactions; nothing else refers to them.\<close>

definition grow :: "KVTX list \<Rightarrow> 'c KV \<Rightarrow> 'c KV" where
  "grow xs kv = kv\<lparr>kv_txs := kv_txs kv @ xs\<rparr>"

lemma grow_sel [simp]:
  "kv_ongoing (grow xs kv) = kv_ongoing kv" "kv_history (grow xs kv) = kv_history kv" "kv_tables (grow xs kv) = kv_tables kv"
  "kv_mem (grow xs kv) = kv_mem kv" "kv_imm (grow xs kv) = kv_imm kv" "kv_main (grow xs kv) = kv_main kv"
  "kv_snapshot (grow xs kv) = kv_snapshot kv" "kv_closed (grow xs kv) = kv_closed kv" "kv_log (grow xs kv) = kv_log kv"
  "kv_txs (grow xs kv) = kv_txs kv @ xs" "grow ys (grow xs kv) = grow (xs @ ys) kv" "grow [] kv = kv"
  by (simp_all add: grow_def)

lemma grow_with_updates: "i < length (kv_txs kv) \<Longrightarrow> grow xs (with_updates i u kv) = with_updates i u (grow xs kv)"
  by (simp add: grow_def with_updates_def tx_update_def list_update_append nth_append)

lemma with_updates_new: "with_updates (length (kv_txs kv)) u (grow (x # xs) kv) = grow (x\<lparr>tx_updates := u\<rparr> # xs) kv"
  by (simp add: grow_def with_updates_def tx_update_def)

lemma sees_grow:
  assumes "tx_sees kv i m"
  shows "tx_sees (grow xs kv) i m" and "tx_base (grow xs kv) i = tx_base kv i" and "tx_of (grow xs kv) i = tx_of kv i"
    and "tx_stack (grow xs kv) i = tx_stack kv i"
proof -
  obtain ls where l: "tx_levels (tx_of kv i) = RUpd i # ls" "\<forall>j. RUpd j \<in> set ls \<longrightarrow> j < i" and i: "i < length (kv_txs kv)"
    using assms by (auto simp: tx_sees_def)
  show t: "tx_of (grow xs kv) i = tx_of kv i" using i by (simp add: nth_append)
  have "deref (grow xs kv) r = deref kv r" if "r \<in> set ls" for r
  proof (cases r)
    case (RUpd j)
    then have "j < length (kv_txs kv)" using that l(2) i by fastforce
    then show ?thesis using RUpd by (simp add: deref_def nth_append)
  qed (simp_all add: deref_def)
  then show b: "tx_base (grow xs kv) i = tx_base kv i" using l(1) t by (simp add: tx_base_def)
  show s: "tx_sees (grow xs kv) i m" using assms t b by (simp add: tx_sees_def tx_view_def)
  show "tx_stack (grow xs kv) i = tx_stack kv i" using tx_seesD(6)[OF s] tx_seesD(6)[OF assms] t b by simp
qed

text \<open>
  A step of writing: only the pending writes of the transaction change, it sees \<open>m\<close> afterwards, and
  the keys it has newly deleted are in \<open>D\<close>.
\<close>

definition wrote :: "'c KV \<Rightarrow> nat \<Rightarrow> bytes set \<Rightarrow> 'c KV \<Rightarrow> (bytes \<rightharpoonup> bytes) \<Rightarrow> bool" where
  "wrote kv i D kv' m \<longleftrightarrow> i < length (kv_txs kv) \<and> (\<exists>u xs. arr_wf u \<and> kv' = with_updates i u (grow xs kv)) \<and> tx_sees kv' i m \<and>
     tombs kv' i \<subseteq> tombs kv i \<union> D"

lemma wrote_refl: "tx_sees kv i m \<Longrightarrow> wrote kv i D kv m"
  unfolding wrote_def using with_updates_id[of i kv] tx_seesD(1,3)[of kv i m] by (metis Un_upper1 grow_sel(12))

lemma wrote_sees: "wrote kv i D kv' m \<Longrightarrow> tx_sees kv' i m"
  by (simp add: wrote_def)

lemma wrote_trans:
  assumes "wrote kv i D kv1 m1" and "wrote kv1 i D kv2 m2"
  shows "wrote kv i D kv2 m2"
proof -
  obtain u xs where 1: "kv1 = with_updates i u (grow xs kv)" "i < length (kv_txs kv)" using assms(1) by (auto simp: wrote_def)
  obtain u' ys where 2: "kv2 = with_updates i u' (grow ys kv1)" "arr_wf u'" using assms(2) by (auto simp: wrote_def)
  have "kv2 = with_updates i u' (grow (xs @ ys) kv)" using 1 2 by (simp add: grow_with_updates with_updates_twice)
  then show ?thesis using assms 1(2) 2(2) by (auto simp: wrote_def)
qed

lemma wrote_mono: "wrote kv i D kv' m \<Longrightarrow> D \<subseteq> D' \<Longrightarrow> wrote kv i D' kv' m"
  by (auto simp: wrote_def)

lemma sees_set:
  assumes s: "tx_sees kv i m"
  obtains kv' where "KVTX_SetEx i k v mode kv = (kv', case mode_writes mode (m k) v of
      None \<Rightarrow> Inl (Error ''invalid update mode'') | Some b \<Rightarrow> Inr b)"
    "wrote kv i {} kv' (if mode_writes mode (m k) v = Some True then m(k \<mapsto> v) else m)"
proof -
  note d = tx_seesD[OF s]
  note e = SetEx_step[OF sees_get[OF s], of k v mode]
  let ?u = "fst (Array_Set (tx_updates (tx_of kv i)) k v)"
  note w = Array_Set_wf[OF d(3), of k v]
  have "wrote kv i {} (with_updates i ?u kv) (m(k \<mapsto> v))" unfolding wrote_def
    using sees_with_updates[OF s w(1)] w d(1,5) by (intro conjI exI[of _ ?u] exI[of _ "[]"]) (auto simp: tombs_def with_updates_def)
  then show thesis using that[of "if mode_writes mode (m k) v = Some True then with_updates i ?u kv else kv"] e wrote_refl[OF s]
    by (auto split: option.splits)
qed

lemma sees_del:
  assumes s: "tx_sees kv i m"
  obtains kv' where "KVTX_Del i k kv = (kv', Inr (m k \<noteq> None))" "wrote kv i {k} kv' (m(k := None))"
proof (cases "m k")
  case None
  then have "m(k := None) = m" by auto
  then show thesis using that[of kv] Del_step[OF sees_get[OF s], of k] None wrote_refl[OF s] by auto
next
  case (Some v)
  note d = tx_seesD[OF s]
  let ?u = "fst (Array_Del (tx_updates (tx_of kv i)) k)"
  have "\<nexists>w. arr_map (tx_updates (tx_of kv i)) k = Some (w, True)" using Some d(5) by (auto simp: overlay_def)
  note w = Array_Del_wf[OF d(3) this]
  have "wrote kv i {k} (with_updates i ?u kv) (m(k := None))" unfolding wrote_def
    using sees_with_updates[OF s w(1)] w d(1,5) by (intro conjI exI[of _ ?u] exI[of _ "[]"]) (auto simp: tombs_def with_updates_def split: if_splits)
  then show thesis using that[of "with_updates i ?u kv"] Del_step[OF sees_get[OF s], of k] Some by auto
qed

section \<open>Nested transactions\<close>

lemma sees_NewTX:
  assumes s: "tx_sees kv i m" and n: "KVTX_NewTX i kv = (kv', j)"
  obtains x where "j = length (kv_txs kv)" "kv' = grow [x] kv" "tx_target x = TTX i" "tx_sees kv' j m" "tombs kv' j = {}"
    "tx_levels x = RUpd j # tx_levels (tx_of kv i)"
proof -
  let ?x = "\<lparr>tx_snapshot = 0, tx_target = TTX i, tx_updates = empty_array, tx_levels = RUpd (length (kv_txs kv)) # tx_levels (tx_of kv i),
    tx_mainSnap = [], tx_err = tx_err (tx_of kv i)\<rparr>"
  have j: "j = length (kv_txs kv)" and k: "kv' = grow [?x] kv" using n by (auto simp: KVTX_NewTX_def Let_def grow_def)
  note d = tx_seesD[OF s] and g = sees_grow[OF s, of "[?x]"]
  have b: "tx_base kv' j = tx_stack kv i"
    using g(3,4) d(1) j unfolding k by (simp add: tx_base_def tx_stack_def nth_append)
  have "tx_sees kv' j m" unfolding tx_sees_def
    using s d j b tx_sees_stack[OF s] by (auto simp: tx_sees_def k nth_append tx_view_def)
  moreover have "tombs kv' j = {}" using j by (simp add: tombs_def k nth_append)
  ultimately show thesis using that[of ?x] j k by simp
qed

text \<open>The pending writes of a nested transaction, applied to those of its parent.\<close>

lemma apply_updates_ok:
  assumes "arr_wf u" and "distinct (map fst es)" and "\<forall>(k, v, d)\<in>set es. d \<longrightarrow> (\<nexists>w. arr_map u k = Some (w, True))"
  shows "arr_wf (fold apply_update es u) \<and>
    overlay b (arr_map (fold apply_update es u)) = overlay (overlay b (arr_map u)) (map_of es) \<and>
    (\<forall>k w. arr_map (fold apply_update es u) k = Some (w, True) \<longrightarrow>
      (\<exists>w. map_of es k = Some (w, True)) \<or> (\<exists>w. arr_map u k = Some (w, True)))"
  using assms
proof (induction es arbitrary: u)
  case (Cons e es)
  obtain k v d where e: "e = (k, v, d)" by (cases e)
  have u: "arr_wf (apply_update e u) \<and> arr_map (apply_update e u) = (arr_map u)(k \<mapsto> (if d then [] else v, d))"
    using Cons.prems Array_Del_wf[of u k] Array_Set_wf[of u k v] by (auto simp: e apply_update_def)
  have "\<forall>(k', v, d)\<in>set es. k' \<noteq> k" using Cons.prems(2) by (force simp: e)
  then have "\<forall>(k', v, d)\<in>set es. d \<longrightarrow> (\<nexists>w. arr_map (apply_update e u) k' = Some (w, True))"
    using Cons.prems(3) u by (fastforce simp: e)
  note IH = Cons.IH[OF conjunct1[OF u] _ this]
  have k: "map_of es k = None" using Cons.prems(2) by (simp add: e map_of_eq_None_iff)
  have o: "overlay (overlay b (arr_map (apply_update e u))) (map_of es) = overlay (overlay b (arr_map u)) (map_of (e # es))"
    using u k by (auto simp: e overlay_def fun_eq_iff split: option.splits)
  have "distinct (map fst es)" using Cons.prems(2) by simp
  note IH = IH[OF this]
  have "overlay b (arr_map (fold apply_update (e # es) u)) = overlay (overlay b (arr_map u)) (map_of (e # es))"
    using IH o by simp
  moreover have "(\<exists>w. map_of (e # es) k' = Some (w, True)) \<or> (\<exists>w. arr_map u k' = Some (w, True))"
    if "arr_map (fold apply_update (e # es) u) k' = Some (w, True)" for k' w
  proof -
    have "(\<exists>w. map_of es k' = Some (w, True)) \<or> (\<exists>w. arr_map (apply_update e u) k' = Some (w, True))"
      using IH that by auto
    then show ?thesis using u k by (cases "k' = k") (auto simp: e)
  qed
  moreover have "arr_wf (fold apply_update (e # es) u)" using IH by simp
  ultimately show ?case by blast
qed (simp add: overlay_def fun_eq_iff)

lemma nested_commit:
  assumes s: "tx_sees kv i m0" and n: "KVTX_NewTX i kv = (kv1, j)" and w: "wrote kv1 j D kv2 m" and D: "D \<subseteq> dom m0"
  obtains kv' where "KVTX_Commit cl j kv2 = (kv', Inr ())" "wrote kv i D kv' m"
proof -
  obtain x where x: "j = length (kv_txs kv)" "kv1 = grow [x] kv" "tx_target x = TTX i" "tx_sees kv1 j m0" "tombs kv1 j = {}"
    "tx_levels x = RUpd j # tx_levels (tx_of kv i)" using sees_NewTX[OF s n] .
  obtain u xs where u: "arr_wf u" "kv2 = with_updates j u (grow xs kv1)" using w by (auto simp: wrote_def)
  have kv2: "kv2 = grow (x\<lparr>tx_updates := u\<rparr> # xs) kv" using u(2) x(1,2) with_updates_new by simp
  note d = tx_seesD[OF s] and d2 = tx_seesD[OF wrote_sees[OF w]] and g = sees_grow[OF s, of "x\<lparr>tx_updates := u\<rparr> # xs", folded kv2]
  have uj: "tx_updates (tx_of kv2 j) = u" "tx_target (tx_of kv2 j) = TTX i" using x by (simp_all add: kv2 nth_append)
  have base: "tx_base kv2 j = tx_stack kv2 i"
    using g(3) x(1,6) by (simp add: tx_base_def tx_stack_def kv2 nth_append)
  let ?u = "fold apply_update (arr_entries u) (tx_updates (tx_of kv i))"
  have me: "map_of (arr_entries u) = arr_map u" by (simp add: arr_map_def)
  have t: "tombs kv2 j \<subseteq> D" using w x(5) by (auto simp: wrote_def)
  have "\<forall>(k, v, d)\<in>set (arr_entries u). d \<longrightarrow> (\<nexists>w. arr_map (tx_updates (tx_of kv i)) k = Some (w, True))"
  proof (safe)
    fix k v d w assume e: "(k, v, d) \<in> set (arr_entries u)" and d: d and a: "arr_map (tx_updates (tx_of kv i)) k = Some (w, True)"
    have "arr_map u k = Some (v, True)" using e d arr_entries_sorted[OF u(1)] ssorted_distinct unfolding me[symmetric] by (intro map_of_is_SomeI) auto
    then have "k \<in> D" using t uj(1) by (auto simp: tombs_def)
    then show False using D a tx_seesD(5)[OF s] by (auto simp: overlay_def)
  qed
  note ok = apply_updates_ok[OF d(3) _ this, of "tx_view kv i"]
  have dist: "distinct (map fst (arr_entries u))" using arr_entries_sorted[OF u(1)] ssorted_distinct by auto
  have c: "KVTX_Commit cl j kv2 = (with_updates i ?u kv2, Inr ())"
    using d2(2) uj g(3) by (simp add: KVTX_Commit_def KVTX_applyTX_def with_updates_def tx_update_def)
  have m: "m = overlay (overlay (tx_view kv i) (arr_map (tx_updates (tx_of kv i)))) (arr_map u)"
    using d2(5) uj(1) base tx_sees_stack(2)[OF g(1)] d(5) by (simp add: tx_view_def)
  have "tx_sees (with_updates i ?u kv2) i m"
    using sees_with_updates[OF g(1), of ?u] ok[OF dist] g(2) m me by (simp add: tx_view_def)
  moreover have "tombs (with_updates i ?u kv2) i \<subseteq> tombs kv i \<union> D"
  proof
    fix k assume "k \<in> tombs (with_updates i ?u kv2) i"
    then obtain w where "arr_map ?u k = Some (w, True)" using tx_seesD(1)[OF g(1)] by (auto simp: tombs_def with_updates_def)
    then have "(\<exists>w. arr_map u k = Some (w, True)) \<or> (\<exists>w. arr_map (tx_updates (tx_of kv i)) k = Some (w, True))"
      using ok[OF dist] me by metis
    then show "k \<in> tombs kv i \<union> D" using t uj(1) by (auto simp: tombs_def)
  qed
  ultimately have "wrote kv i D (with_updates i ?u kv2) m"
    using d(1) kv2 ok[OF dist] by (auto simp: wrote_def)
  then show thesis using that c by blast
qed

lemma nested_abort:
  assumes s: "tx_sees kv i m0" and n: "KVTX_NewTX i kv = (kv1, j)" and w: "wrote kv1 j D kv2 m"
  shows "KVTX_Abort j kv2 = (kv2, Inr ())" and "wrote kv i {} kv2 m0"
proof -
  obtain x where x: "j = length (kv_txs kv)" "kv1 = grow [x] kv" "tx_target x = TTX i" using sees_NewTX[OF s n] by metis
  obtain u xs where u: "arr_wf u" "kv2 = with_updates j u (grow xs kv1)" using w by (auto simp: wrote_def)
  have kv2: "kv2 = grow (x\<lparr>tx_updates := u\<rparr> # xs) kv" using u(2) x(1,2) with_updates_new by simp
  show "KVTX_Abort j kv2 = (kv2, Inr ())" using x(1,3) by (simp add: KVTX_Abort_def kv2 nth_append)
  have "kv2 = with_updates i (tx_updates (tx_of kv i)) (grow (x\<lparr>tx_updates := u\<rparr> # xs) kv)"
    using with_updates_id[of i kv2] sees_grow(3)[OF s] kv2 by metis
  then show "wrote kv i {} kv2 m0" using sees_grow[OF s, of "x\<lparr>tx_updates := u\<rparr> # xs"] tx_seesD[OF s] kv2
    by (auto simp: wrote_def tombs_def)
qed

section \<open>Transactions at the top\<close>

lemma grow_inv:
  assumes "store_inv kv pend"
  shows "store_inv (grow xs kv) pend" and "kv_view (grow xs kv) = kv_view kv"
    and "i \<in> set (kv_ongoing kv) \<Longrightarrow> tx_base (grow xs kv) i = tx_base kv i \<and> tx_of (grow xs kv) i = tx_of kv i"
proof -
  have t: "tx_of (grow xs kv) i = tx_of kv i" if "i \<in> set (kv_ongoing kv)" for i
    using store_invE(7)[OF assms that] by (simp add: tx_inv_def nth_append)
  then show "i \<in> set (kv_ongoing kv) \<Longrightarrow> tx_base (grow xs kv) i = tx_base kv i \<and> tx_of (grow xs kv) i = tx_of kv i"
    using sees_grow(2)[OF tx_sees_root[OF assms]] by blast
  show "kv_view (grow xs kv) = kv_view kv" by (simp add: kv_view_def store_levels_def)
  have "snap_refs (grow xs kv) f = snap_refs kv f" for f
    unfolding snap_refs_def by (intro arg_cong[of _ _ sum_list]) (simp add: t del: grow_sel(10))
  moreover have "sorted (map (\<lambda>i. tx_snapshot (tx_of (grow xs kv) i)) (kv_ongoing kv))"
    using store_invE(8)[OF assms] t by (simp cong: map_cong del: grow_sel(10))
  moreover have "tx_inv (grow xs kv) i" if "i \<in> set (kv_ongoing kv)" for i
    using store_invE(7)[OF assms that] t[OF that] by (simp add: tx_inv_def trans_less_add1)
  ultimately show "store_inv (grow xs kv) pend" using assms by (auto simp: store_inv_def refs_ok_def simp del: grow_sel(10))
qed

lemma wrote_root:
  assumes inv: "store_inv kv pend" and i: "i \<in> set (kv_ongoing kv)" and w: "wrote kv i D kv' m"
  obtains u where "arr_wf u" "store_inv kv' pend" "i \<in> set (kv_ongoing kv')" "kv_view kv' = kv_view kv"
    "m = overlay (tx_view kv i) (arr_map u)" "tx_updates (tx_of kv' i) = u" "kv_ongoing kv' = kv_ongoing kv" "kv_history kv' = kv_history kv"
    "kv_log kv' = kv_log kv" "kv_snapshot kv' = kv_snapshot kv" "kv_closed kv' = kv_closed kv" "tx_snapshot (tx_of kv' i) = tx_snapshot (tx_of kv i)"
proof -
  obtain u xs where u: "arr_wf u" "kv' = with_updates i u (grow xs kv)" using w by (auto simp: wrote_def)
  have i': "i \<in> set (kv_ongoing (grow xs kv))" using i by simp
  note g = grow_inv[OF inv, where xs = xs] and v = with_updates_inv[OF grow_inv(1)[OF inv, of xs] i' u(1), folded u(2)]
  have il: "i < length (kv_txs (grow xs kv))" using store_invE(7)[OF g(1) i'] by (simp add: tx_inv_def)
  have "m = overlay (tx_view kv i) (arr_map u)"
    using tx_seesD(5)[OF wrote_sees[OF w]] v(3)[OF i'] v(4) g(3)[OF i] by (simp add: tx_view_def)
  moreover have "tx_snapshot (tx_of kv' i) = tx_snapshot (tx_of kv i)"
    using g(3)[OF i] il unfolding u(2) with_updates_def by simp
  ultimately show thesis using that[of u] u v g(2) i by (simp add: with_updates_def)
qed

end
