(* ===== verification/TableInv.thy ===== *)
theory TableInv
  imports Table TxView PlanOk
begin

text \<open>
  The invariant of a table: the entries of the store in the key ranges of the table's indices are
  exactly those of a set of rows.  The point operations keep it, and change the set of rows the way
  their mode says.
\<close>

section \<open>Rows and their entries\<close>

text \<open>A map holds the rows \<open>R\<close>: per index, the keys of the rows and nothing else.\<close>

definition holds_rows ::
  "(nat \<Rightarrow> 'r \<Rightarrow> bytes) \<Rightarrow> ('r \<Rightarrow> bytes) \<Rightarrow> (nat \<Rightarrow> bytes set) \<Rightarrow> nat \<Rightarrow> 'r set \<Rightarrow> (bytes \<rightharpoonup> bytes) \<Rightarrow> bool" where
  "holds_rows key val region n R m \<longleftrightarrow> (\<forall>i<n. \<forall>k\<in>region i. \<forall>v.
     m k = Some v \<longleftrightarrow> (\<exists>r\<in>R. k = key i r \<and> v = (if i = 0 then val r else [])))"

definition row_keys :: "(nat \<Rightarrow> 'r \<Rightarrow> bytes) \<Rightarrow> nat set \<Rightarrow> 'r \<Rightarrow> bytes set" where
  "row_keys key I r = (\<lambda>i. key i r) ` I"

definition row_entries :: "(nat \<Rightarrow> 'r \<Rightarrow> bytes) \<Rightarrow> ('r \<Rightarrow> bytes) \<Rightarrow> nat set \<Rightarrow> 'r \<Rightarrow> bytes \<rightharpoonup> bytes" where
  "row_entries key val I r k = (if k \<in> row_keys key I r then Some (if k = key 0 r then val r else []) else None)"

text \<open>
  What the table layer relies on in the encoding of rows: the keys of each index lie in a range of
  their own, a key of any index determines the primary key, and primary key and value determine the
  row.
\<close>

locale row_codec =
  fixes sok :: "'s \<Rightarrow> bool" and rok :: "'s \<Rightarrow> 'r \<Rightarrow> bool" and nidx :: "'s \<Rightarrow> nat"
    and key :: "'s \<Rightarrow> nat \<Rightarrow> 'r \<Rightarrow> bytes" and val :: "'s \<Rightarrow> 'r \<Rightarrow> bytes" and region :: "'s \<Rightarrow> nat \<Rightarrow> bytes set"
  assumes nidx_pos: "sok s \<Longrightarrow> 0 < nidx s"
    and key_region: "sok s \<Longrightarrow> rok s r \<Longrightarrow> i < nidx s \<Longrightarrow> key s i r \<in> region s i"
    and region_disjoint: "sok s \<Longrightarrow> i < nidx s \<Longrightarrow> j < nidx s \<Longrightarrow> k \<in> region s i \<Longrightarrow> k \<in> region s j \<Longrightarrow> i = j"
    and key_primary: "sok s \<Longrightarrow> rok s r \<Longrightarrow> rok s r' \<Longrightarrow> i < nidx s \<Longrightarrow> key s i r = key s i r' \<Longrightarrow> key s 0 r = key s 0 r'"
    and row_determined: "sok s \<Longrightarrow> rok s r \<Longrightarrow> rok s r' \<Longrightarrow> key s 0 r = key s 0 r' \<Longrightarrow> val s r = val s r' \<Longrightarrow> r = r'"
begin

abbreviation holds :: "'s \<Rightarrow> 'r set \<Rightarrow> (bytes \<rightharpoonup> bytes) \<Rightarrow> bool" where
  "holds s R m \<equiv> (\<forall>r\<in>R. rok s r) \<and> holds_rows (key s) (val s) (region s) (nidx s) R m"

lemma key_index:
  assumes "sok s" and "rok s r" and "rok s r'" and "i < nidx s" and "j < nidx s" and "key s i r = key s j r'"
  shows "i = j"
  using assms key_region region_disjoint by metis

lemma rows_lookup:
  assumes "sok s" and "holds s R m" and "rok s r"
  shows "m (key s 0 r) = Some v \<longleftrightarrow> (\<exists>r'\<in>R. key s 0 r' = key s 0 r \<and> v = val s r')"
  using assms key_region[OF assms(1,3) nidx_pos[OF assms(1)]] nidx_pos[OF assms(1)]
  unfolding holds_rows_def by (metis (full_types))

lemma rows_primary:
  assumes "sok s" and "holds s R m" and "r \<in> R" and "r' \<in> R" and "key s 0 r = key s 0 r'"
  shows "r = r'"
proof -
  have "m (key s 0 r) = Some (val s r)" "m (key s 0 r') = Some (val s r')" using rows_lookup[OF assms(1,2)] assms by blast+
  then show ?thesis using assms row_determined by (metis option.inject)
qed

lemma rows_entry:
  assumes "sok s" and "holds s R m" and "r \<in> R" and "i < nidx s"
  shows "m (key s i r) = Some (if i = 0 then val s r else [])"
  using assms key_region[OF assms(1) _ assms(4), of r] unfolding holds_rows_def by blast

lemma rows_free:
  assumes "sok s" and "holds s R m" and "rok s r" and "\<forall>r'\<in>R. key s 0 r' \<noteq> key s 0 r" and "i < nidx s"
  shows "m (key s i r) = None"
proof (cases "m (key s i r)")
  case (Some v)
  then obtain r' where "r' \<in> R" "key s i r = key s i r'"
    using assms(2,5) key_region[OF assms(1,3,5)] unfolding holds_rows_def by blast
  then show ?thesis using assms key_primary by metis
qed

lemma rows_remove:
  assumes s: "sok s" and h: "holds s R m" and r: "r \<in> R"
  shows "holds s (R - {r}) (m |` (- row_keys (key s) {..<nidx s} r))"
proof -
  have other: "key s i r' \<notin> row_keys (key s) {..<nidx s} r" if "r' \<in> R" "r' \<noteq> r" "i < nidx s" for i r'
  proof
    assume "key s i r' \<in> row_keys (key s) {..<nidx s} r"
    then obtain j where j: "j < nidx s" "key s i r' = key s j r" by (auto simp: row_keys_def)
    then have "i = j" using key_index[OF s _ _ that(3) j(1)] h that r by blast
    then show False using j rows_primary[OF s h that(1) r] key_primary[OF s _ _ j(1)] h that r by metis
  qed
  have "(m |` (- row_keys (key s) {..<nidx s} r)) k = Some v \<longleftrightarrow> (\<exists>r'\<in>R - {r}. k = key s i r' \<and> v = (if i = 0 then val s r' else []))"
    if i: "i < nidx s" and k: "k \<in> region s i" for i k v
  proof -
    let ?K = "row_keys (key s) {..<nidx s} r" and ?v = "\<lambda>r. if i = 0 then val s r else []"
    have m: "m k = Some v \<longleftrightarrow> (\<exists>r'\<in>R. k = key s i r' \<and> v = ?v r')" using h i k unfolding holds_rows_def by blast
    have self: "key s i r \<in> ?K" using i by (auto simp: row_keys_def)
    show ?thesis
    proof (cases "k \<in> ?K")
      case True
      then have "\<not> (\<exists>r'\<in>R - {r}. k = key s i r')" using other[OF _ _ i] by blast
      then show ?thesis using True by auto
    next
      case False
      then have "(\<exists>r'\<in>R. k = key s i r' \<and> v = ?v r') \<longleftrightarrow> (\<exists>r'\<in>R - {r}. k = key s i r' \<and> v = ?v r')" using self by blast
      then show ?thesis using m False by simp
    qed
  qed
  then show ?thesis using h by (simp add: holds_rows_def)
qed

lemma rows_add:
  assumes s: "sok s" and h: "holds s R m" and r: "rok s r" and new: "\<forall>r'\<in>R. key s 0 r' \<noteq> key s 0 r"
  shows "holds s (insert r R) (m ++ row_entries (key s) (val s) {..<nidx s} r)"
proof -
  have "(m ++ row_entries (key s) (val s) {..<nidx s} r) k = Some v \<longleftrightarrow>
      (\<exists>r'\<in>insert r R. k = key s i r' \<and> v = (if i = 0 then val s r' else []))"
    if i: "i < nidx s" and k: "k \<in> region s i" for i k v
  proof (cases "k = key s i r")
    case True
    have "key s i r = key s 0 r \<longleftrightarrow> i = 0" using key_index[OF s r r i nidx_pos[OF s]] by auto
    moreover have "k \<noteq> key s i r'" if "r' \<in> R" for r' using that True new key_primary[OF s _ r i, of r'] h by metis
    ultimately show ?thesis using True i by (auto simp: row_entries_def row_keys_def map_add_def)
  next
    case False
    have "k \<noteq> key s j r" if "j < nidx s" for j
      using False key_region[OF s r that] region_disjoint[OF s i that k] by metis
    then have "k \<notin> row_keys (key s) {..<nidx s} r" by (auto simp: row_keys_def)
    then have "(m ++ row_entries (key s) (val s) {..<nidx s} r) k = m k" by (simp add: row_entries_def map_add_def)
    then have "(m ++ row_entries (key s) (val s) {..<nidx s} r) k = Some v \<longleftrightarrow> (\<exists>r'\<in>R. k = key s i r' \<and> v = (if i = 0 then val s r' else []))"
      using h i k unfolding holds_rows_def by metis
    then show ?thesis using False by simp
  qed
  then show ?thesis using h r by (simp add: holds_rows_def)
qed

end

section \<open>The encoding of rows keeps the contract\<close>

text \<open>Every index ends with the primary key, as \<open>addPKeyToIndex\<close> makes it.\<close>

definition table_ok :: "Schema \<Rightarrow> bool" where
  "table_ok s \<longleftrightarrow> schema_ok s \<and> list_all (\<lambda>index. set (index_of s 0) \<subseteq> set index) (sc_Indices s)"

definition index_region :: "Schema \<Rightarrow> nat \<Rightarrow> bytes set" where
  "index_region s n = {k. \<exists>z. k = key_head s n @ z}"

definition pkey_of :: "Schema \<Rightarrow> row \<Rightarrow> cell list" where
  "pkey_of s row = row_cells row (index_of s 0)"

lemma row_key_eq_iff:
  assumes "schema_ok s" and "row_ok s r" and "row_ok s r'" and "n < length (sc_Indices s)"
  shows "row_key s n r = row_key s n r' \<longleftrightarrow> row_cells r (index_of s n) = row_cells r' (index_of s n)"
proof
  assume e: "row_key s n r = row_key s n r'"
  note c = row_index_cells_of[OF assms(1,2,4)] row_index_cells_of[OF assms(1,3,4)]
  show "row_cells r (index_of s n) = row_cells r' (index_of s n)"
    using e cells_less_linear(1)[OF c] cells_key_less_iff[OF c, of "[0]" "[0]"] cells_key_less_iff[OF c(2,1), of "[0]" "[0]"]
    by (auto simp: row_key_def)
qed (simp add: row_key_def)

lemma row_cells_eq_iff: "row_cells r index = row_cells r' index \<longleftrightarrow> (\<forall>i\<in>set index. r ! nat i = r' ! nat i)"
  by (simp add: row_cells_def)

lemma region_index:
  assumes "schema_ok s" and "i < length (sc_Indices s)" and "j < length (sc_Indices s)" and "k \<in> index_region s i" and "k \<in> index_region s j"
  shows "i = j"
proof -
  have b: "i < 256" "j < 256" using schema_ok_indices[OF assms(1)] assms(2,3) by simp_all
  obtain x y where x: "k = sc_Table s @ 0 # word_of_nat i # x" and y: "k = sc_Table s @ 0 # word_of_nat j # y"
    using assms(4,5) by (auto simp: index_region_def key_head_def)
  have "sc_Table s @ 0 # word_of_nat i # x = sc_Table s @ 0 # word_of_nat j # y" using x y by (rule subst)
  then have "word_of_nat i = (word_of_nat j :: byte)" by simp
  then have "unat (word_of_nat i :: byte) = unat (word_of_nat j :: byte)" by simp
  then show ?thesis using b by (simp add: unat_word_of_nat_byte)
qed

lemma key_primary_cells:
  assumes s: "table_ok s" and r: "row_ok s r" "row_ok s r'" and i: "i < length (sc_Indices s)" and e: "row_key s i r = row_key s i r'"
  shows "row_key s 0 r = row_key s 0 r'"
proof -
  have so: "schema_ok s" using s by (simp add: table_ok_def)
  have "row_cells r (index_of s i) = row_cells r' (index_of s i)" using row_key_eq_iff[OF so r i] e by simp
  moreover have "set (index_of s 0) \<subseteq> set (index_of s i)" using s i by (auto simp: table_ok_def list_all_length)
  ultimately have "row_cells r (index_of s 0) = row_cells r' (index_of s 0)" by (auto simp: row_cells_eq_iff)
  then show ?thesis by (simp add: row_key_def)
qed

lemma row_determined_cells:
  assumes so: "schema_ok s" and r: "row_ok s r" "row_ok s r'" and e: "row_key s 0 r = row_key s 0 r'" "row_val s r = row_val s r'"
  shows "r = r'"
proof (rule nth_equalityI)
  have l: "length r = length (sc_Cols s)" "length r' = length (sc_Cols s)" using r by (simp_all add: row_ok_length)
  then show "length r = length r'" by simp
  have eq: "mix (- set (index_of s 0)) r' r = mix (- set (index_of s 0)) r r"
    using Row_DecodeVal_ok[OF so r(1) l(1)] Row_DecodeVal_ok[OF so r(2) l(1)] e(2) by simp
  have v: "r' ! i = r ! i" if "int i \<notin> set (index_of s 0)" "i < length r" for i
  proof -
    have "mix (- set (index_of s 0)) r' r ! i = mix (- set (index_of s 0)) r r ! i" unfolding eq ..
    then show ?thesis using that by (simp add: mix_def)
  qed
  have "row_cells r (index_of s 0) = row_cells r' (index_of s 0)"
    using row_key_eq_iff[OF so r] schema_ok_indices[OF so] e(1) by simp
  then have "r ! i = r' ! i" if "int i \<in> set (index_of s 0)" for i using that by (fastforce simp: row_cells_eq_iff)
  then show "r ! i = r' ! i" if "i < length r" for i using v[of i] that by (cases "int i \<in> set (index_of s 0)") auto
qed

interpretation rows: row_codec table_ok row_ok "\<lambda>s. length (sc_Indices s)" row_key row_val index_region
proof
  show "table_ok s \<Longrightarrow> 0 < length (sc_Indices s)" for s using schema_ok_indices by (auto simp: table_ok_def)
  show "row_key s i r \<in> index_region s i" for s i r by (auto simp: index_region_def row_key_def)
  show "i = j" if "table_ok s" "i < length (sc_Indices s)" "j < length (sc_Indices s)" "k \<in> index_region s i" "k \<in> index_region s j" for s i j k
    using that region_index[of s i j k] by (simp add: table_ok_def)
  show "row_key s 0 r = row_key s 0 r'" if "table_ok s" "row_ok s r" "row_ok s r'" "i < length (sc_Indices s)"
    "row_key s i r = row_key s i r'" for s r r' i using that by (rule key_primary_cells)
  show "r = r'" if "table_ok s" "row_ok s r" "row_ok s r'" "row_key s 0 r = row_key s 0 r'" "row_val s r = row_val s r'" for s r r'
    using that row_determined_cells[of s r r'] by (simp add: table_ok_def)
qed

section \<open>Point operations\<close>

definition table_holds :: "Schema \<Rightarrow> row set \<Rightarrow> (bytes \<rightharpoonup> bytes) \<Rightarrow> bool" where
  "table_holds s R m \<longleftrightarrow> (\<forall>r\<in>R. row_ok s r) \<and> holds_rows (row_key s) (row_val s) (index_region s) (length (sc_Indices s)) R m"

definition table_region :: "Schema \<Rightarrow> bytes set" where
  "table_region s = (\<Union>n<length (sc_Indices s). index_region s n)"

abbreviation entry_keys :: "Schema \<Rightarrow> row \<Rightarrow> bytes set" where
  "entry_keys s r \<equiv> row_keys (row_key s) {..<length (sc_Indices s)} r"

lemma pkey_iff:
  "table_ok s \<Longrightarrow> row_ok s r \<Longrightarrow> row_ok s r' \<Longrightarrow> pkey_of s r = pkey_of s r' \<longleftrightarrow> row_key s 0 r = row_key s 0 r'"
  using row_key_eq_iff[of s r r' 0] schema_ok_indices[of s] by (auto simp: table_ok_def pkey_of_def)

lemma entry_keys_region: "entry_keys s r \<subseteq> table_region s"
  by (auto simp: row_keys_def table_region_def index_region_def row_key_def)

lemma row_keys_insert: "row_keys key (insert i I) r = insert (key i r) (row_keys key I r)"
  by (simp add: row_keys_def)

lemma delete_loop_ok:
  assumes "table_ok s" and "row_ok s r" and "distinct is" and "set is \<subseteq> {..<length (sc_Indices s)}"
    and "tx_sees kv (dtx_kv tx) m" and "\<forall>i\<in>set is. m (row_key s i r) \<noteq> None"
  shows "\<exists>kv'. delete_loop tx s r is d kv = (kv', Inr (if is = [] then d else True)) \<and>
    wrote kv (dtx_kv tx) (row_keys (row_key s) (set is) r) kv' (m |` (- row_keys (row_key s) (set is) r))"
  using assms(3-6)
proof (induction "is" arbitrary: kv m d)
  case Nil
  then show ?case using wrote_refl[OF Nil(3)] by (simp add: row_keys_def)
next
  case (Cons i "is")
  let ?k = "row_key s i r" and ?K = "row_keys (row_key s) (set is) r"
  have dis: "distinct is" "set is \<subseteq> {..<length (sc_Indices s)}" using Cons.prems by simp_all
  have k: "Row_EncodeKey r s (int i) = Inr ?k" using Row_EncodeKey_ok assms(1,2) Cons.prems(2) by (simp add: table_ok_def)
  obtain kv1 where d: "KVTX_Del (dtx_kv tx) ?k kv = (kv1, Inr (m ?k \<noteq> None))" "wrote kv (dtx_kv tx) {?k} kv1 (m(?k := None))"
    using sees_del[OF Cons.prems(3)] .
  have "row_key s j r \<noteq> ?k" if "j \<in> set is" for j
    using that Cons.prems(1,2) rows.key_index[OF assms(1,2,2), of j i] by auto
  then have "\<forall>j\<in>set is. (m(?k := None)) (row_key s j r) \<noteq> None" using Cons.prems(4) by simp
  from Cons.IH[OF dis wrote_sees[OF d(2)] this, of True, unfolded if_cancel] obtain kv2 where
    2: "delete_loop tx s r is True kv1 = (kv2, Inr True)" "wrote kv1 (dtx_kv tx) ?K kv2 (m(?k := None) |` (- ?K))"
    by blast
  have "m(?k := None) |` (- ?K) = m |` (- insert ?k ?K)" by (auto simp: restrict_map_def)
  then have "wrote kv (dtx_kv tx) (insert ?k ?K) kv2 (m |` (- insert ?k ?K))"
    using wrote_trans[OF wrote_mono[OF d(2)] wrote_mono[OF 2(2)], of "insert ?k ?K"] by auto
  then show ?case using k d(1) 2(1) Cons.prems(4) by (simp add: row_keys_insert)
qed

lemma insert_loop_ok:
  assumes "table_ok s" and "row_ok s r" and "distinct is" and "set is \<subseteq> {..<length (sc_Indices s)}"
    and "tx_sees kv (dtx_kv tx) m" and "\<forall>i\<in>set is. m (row_key s i r) = None"
  shows "\<exists>kv'. insert_loop tx s r (row_val s r) is d kv = (kv', Inr (if is = [] then d else True)) \<and>
    wrote kv (dtx_kv tx) {} kv' (m ++ row_entries (row_key s) (row_val s) (set is) r)"
  using assms(3-6)
proof (induction "is" arbitrary: kv m d)
  case Nil
  have "row_entries (row_key s) (row_val s) {} r = Map.empty" by (auto simp: row_entries_def row_keys_def)
  then show ?case using wrote_refl[OF Nil(3)] by simp
next
  case (Cons i "is")
  let ?k = "row_key s i r" and ?E = "row_entries (row_key s) (row_val s)" and ?v = "if i = 0 then row_val s r else []"
  have i: "i < length (sc_Indices s)" using Cons.prems(2) by simp
  have dis: "distinct is" "set is \<subseteq> {..<length (sc_Indices s)}" using Cons.prems by simp_all
  have k: "Row_EncodeKey r s (int i) = Inr ?k" using Row_EncodeKey_ok assms(1,2) i by (simp add: table_ok_def)
  have w: "mode_writes ModeInsert (m ?k) v = Some True" for v using Cons.prems(4) by (simp add: mode_writes_def ModeUpsert_def ModeInsert_def)
  obtain kv1 where d: "KVTX_SetEx (dtx_kv tx) ?k ?v ModeInsert kv = (kv1, Inr True)" "wrote kv (dtx_kv tx) {} kv1 (m(?k \<mapsto> ?v))"
    using sees_set[OF Cons.prems(3), of ?k ?v ModeInsert] unfolding w by auto
  have ne: "row_key s j r \<noteq> ?k" if "j \<in> set is" for j
    using that Cons.prems(1,2) rows.key_index[OF assms(1,2,2), of j i] by auto
  then have "\<forall>j\<in>set is. (m(?k \<mapsto> ?v)) (row_key s j r) = None" using Cons.prems(4) by simp
  from Cons.IH[OF dis wrote_sees[OF d(2)] this, of True, unfolded if_cancel] obtain kv2 where
    2: "insert_loop tx s r (row_val s r) is True kv1 = (kv2, Inr True)" "wrote kv1 (dtx_kv tx) {} kv2 (m(?k \<mapsto> ?v) ++ ?E (set is) r)"
    by blast
  have "?k = row_key s 0 r \<longleftrightarrow> i = 0" using rows.key_index[OF assms(1,2,2) i rows.nidx_pos[OF assms(1)]] by auto
  moreover have "?k \<notin> row_keys (row_key s) (set is) r" using ne unfolding row_keys_def image_iff by metis
  ultimately have "m(?k \<mapsto> ?v) ++ ?E (set is) r = m ++ ?E (set (i # is)) r"
    by (auto simp: row_entries_def row_keys_insert map_add_def fun_eq_iff split: option.splits)
  then show ?case using k d(1) 2 wrote_trans[OF d(2) 2(2)] by simp
qed

text \<open>What an update means for the rows of the table.\<close>

definition row_wanted :: "Schema \<Rightarrow> int \<Rightarrow> row \<Rightarrow> row set \<Rightarrow> bool" where
  "row_wanted s mode r R \<longleftrightarrow>
     (if mode = ModeUpsert then r \<notin> R
      else if mode = ModeInsert then \<forall>r'\<in>R. pkey_of s r' \<noteq> pkey_of s r
      else r \<notin> R \<and> (\<exists>r'\<in>R. pkey_of s r' = pkey_of s r))"

definition row_put :: "Schema \<Rightarrow> row \<Rightarrow> row set \<Rightarrow> row set" where
  "row_put s r R = insert r {r'\<in>R. pkey_of s r' \<noteq> pkey_of s r}"

lemma update_wanted_rows:
  assumes s: "table_ok s" and h: "table_holds s R m" and r: "row_ok s r" and mode: "mode \<in> {ModeUpsert, ModeInsert, ModeUpdate}"
  shows "update_wanted mode (m (row_key s 0 r)) (row_val s r) = Inr (row_wanted s mode r R)"
proof -
  note H = h[unfolded table_holds_def]
  note l = rows.rows_lookup[OF s H r]
  have val: "m (row_key s 0 r) = Some (row_val s r) \<longleftrightarrow> r \<in> R"
    using l rows.row_determined[OF s _ r] H by metis
  have none: "m (row_key s 0 r) = None \<longleftrightarrow> (\<forall>r'\<in>R. pkey_of s r' \<noteq> pkey_of s r)"
    using l pkey_iff[OF s _ r] H by (metis not_Some_eq)
  have "r \<in> R \<Longrightarrow> m (row_key s 0 r) \<noteq> None" using val by auto
  then show ?thesis using mode val none by (auto simp: update_wanted_def row_wanted_def ModeUpsert_def ModeInsert_def ModeUpdate_def)
qed

lemma DBTX_delete_ok:
  assumes s: "table_ok s" and h: "table_holds s R m" and r: "r \<in> R" and v: "tx_sees kv (dtx_kv tx) m"
  obtains kv' where "DBTX_delete tx s r kv = (kv', Inr True)" "wrote kv (dtx_kv tx) (dom m) kv' (m |` (- entry_keys s r))"
    "table_holds s (R - {r}) (m |` (- entry_keys s r))"
proof -
  note H = h[unfolded table_holds_def]
  have ro: "row_ok s r" using H r by blast
  have e: "\<forall>i\<in>set [0..<length (sc_Indices s)]. m (row_key s i r) \<noteq> None" using rows.rows_entry[OF s H r] by simp
  have ne: "[0..<length (sc_Indices s)] \<noteq> []" using rows.nidx_pos[OF s] by simp
  obtain kv' where d: "DBTX_delete tx s r kv = (kv', Inr True)" "wrote kv (dtx_kv tx) (entry_keys s r) kv' (m |` (- entry_keys s r))"
    using delete_loop_ok[OF s ro distinct_upt _ v e, of False] ne by (auto simp: DBTX_delete_def atLeast0LessThan)
  have "entry_keys s r \<subseteq> dom m" using e by (auto simp: row_keys_def)
  then show thesis using that[OF d(1) wrote_mono[OF d(2)]] rows.rows_remove[OF s H r] by (simp add: table_holds_def)
qed

lemma DBTX_delete_absent:
  assumes s: "table_ok s" and h: "table_holds s R m" and r: "row_ok s r" "\<forall>r'\<in>R. pkey_of s r' \<noteq> pkey_of s r"
    and v: "tx_sees kv (dtx_kv tx) m"
  obtains kv' where "DBTX_delete tx s r kv = (kv', Inr False)" "wrote kv (dtx_kv tx) {} kv' m"
proof -
  note H = h[unfolded table_holds_def]
  have "\<forall>r'\<in>R. row_key s 0 r' \<noteq> row_key s 0 r" using pkey_iff[OF s _ r(1)] r(2) H by blast
  then have m: "m (row_key s 0 r) = None" using rows.rows_free[OF s H r(1) _ rows.nidx_pos[OF s]] by simp
  have k: "Row_EncodeKey r s 0 = Inr (row_key s 0 r)"
    using Row_EncodeKey_ok[of s r 0] s r(1) rows.nidx_pos[OF s] by (simp add: table_ok_def)
  have "[0..<length (sc_Indices s)] = 0 # [1..<length (sc_Indices s)]" using rows.nidx_pos[OF s] by (simp add: upt_rec)
  then have "DBTX_delete tx s r kv = (kv, Inr False)"
    using k m Del_step[OF sees_get[OF v], of "row_key s 0 r"] by (simp add: DBTX_delete_def)
  then show thesis using that wrote_refl[OF v] by blast
qed

lemma row_cells_mix:
  "set index \<inter> A = {} \<Longrightarrow> index_in s index \<Longrightarrow> length row0 = length (sc_Cols s) \<Longrightarrow> row_cells (mix A row row0) index = row_cells row0 index"
  by (auto simp: row_cells_eq_iff index_in_def mix_def nat_less_iff)

text \<open>The row stored under the primary key of \<open>r\<close>, decoded over \<open>r\<close>.\<close>

lemma decode_stored:
  assumes s: "table_ok s" and r: "row_ok s r" "row_ok s r'" and e: "pkey_of s r' = pkey_of s r"
  shows "Row_DecodeVal s (row_val s r') r = (r', Inr ())"
proof -
  have so: "schema_ok s" using s by (simp add: table_ok_def)
  have l: "length r = length (sc_Cols s)" "length r' = length (sc_Cols s)" using r by (simp_all add: row_ok_length)
  have "mix (- set (index_of s 0)) r' r = r'"
  proof (rule nth_equalityI)
    fix i assume "i < length (mix (- set (index_of s 0)) r' r)"
    moreover have "r ! i = r' ! i" if "int i \<in> set (index_of s 0)" using that e by (fastforce simp: pkey_of_def row_cells_eq_iff)
    ultimately show "mix (- set (index_of s 0)) r' r ! i = r' ! i" by (simp add: mix_def)
  qed (simp add: l)
  then show ?thesis using Row_DecodeVal_ok[OF so r(2) l(1)] by simp
qed

lemma insert_entries_ok:
  assumes s: "table_ok s" and h: "table_holds s R m" and r: "row_ok s r" "\<forall>r'\<in>R. pkey_of s r' \<noteq> pkey_of s r"
    and v: "tx_sees kv (dtx_kv tx) m"
  obtains kv' m' where "insert_loop tx s r (row_val s r) [0..<length (sc_Indices s)] True kv = (kv', Inr True)"
    "wrote kv (dtx_kv tx) {} kv' m'" "table_holds s (insert r R) m'" "\<forall>k. k \<notin> entry_keys s r \<longrightarrow> m' k = m k"
proof -
  note H = h[unfolded table_holds_def]
  have free: "\<forall>r'\<in>R. row_key s 0 r' \<noteq> row_key s 0 r" using pkey_iff[OF s _ r(1)] r(2) H by blast
  then have "\<forall>i\<in>set [0..<length (sc_Indices s)]. m (row_key s i r) = None" using rows.rows_free[OF s H r(1)] by simp
  from insert_loop_ok[OF s r(1) distinct_upt _ v this, of True, unfolded if_cancel] obtain kv' where
    "insert_loop tx s r (row_val s r) [0..<length (sc_Indices s)] True kv = (kv', Inr True)"
    "wrote kv (dtx_kv tx) {} kv' (m ++ row_entries (row_key s) (row_val s) {..<length (sc_Indices s)} r)"
    by (auto simp: atLeast0LessThan)
  moreover have "\<forall>k. k \<notin> entry_keys s r \<longrightarrow> (m ++ row_entries (row_key s) (row_val s) {..<length (sc_Indices s)} r) k = m k"
    by (simp add: row_entries_def map_add_def)
  ultimately show thesis using that rows.rows_add[OF s H r(1) free] by (simp add: table_holds_def)
qed

lemma DBTX_update_ok:
  assumes s: "table_ok s" and h: "table_holds s R m" and r: "row_ok s r" and mode: "mode \<in> {ModeUpsert, ModeInsert, ModeUpdate}"
    and v: "tx_sees kv (dtx_kv tx) m"
  obtains kv' m' where "DBTX_update tx s r mode kv = (kv', Inr (row_wanted s mode r R))" "wrote kv (dtx_kv tx) (dom m) kv' m'"
    "table_holds s (if row_wanted s mode r R then row_put s r R else R) m'" "\<forall>k. k \<notin> table_region s \<longrightarrow> m' k = m k"
proof -
  note H = h[unfolded table_holds_def]
  have so: "schema_ok s" using s by (simp add: table_ok_def)
  have enc: "Row_EncodeKey r s 0 = Inr (row_key s 0 r)" "Row_EncodeVal r s = Inr (row_val s r)"
    using Row_EncodeKey_ok[OF so r, of 0] rows.nidx_pos[OF s] Row_EncodeVal_ok[OF so r] by simp_all
  have start: "DBTX_update tx s r mode kv = (if \<not> row_wanted s mode r R then (kv, Inr False)
      else sbind (case m (row_key s 0 r) of None \<Rightarrow> (kv, Inr False)
          | Some oldVal \<Rightarrow> (case Row_DecodeVal s oldVal r of (oldRow, Inl e) \<Rightarrow> (kv, Inl e) | (oldRow, Inr _) \<Rightarrow> DBTX_delete tx s oldRow kv))
        (\<lambda>kv _. insert_loop tx s r (row_val s r) [0..<length (sc_Indices s)] True kv))"
    using update_wanted_rows[OF s h r mode] by (simp add: DBTX_update_def enc sees_get[OF v])
  show thesis
  proof (cases "row_wanted s mode r R")
    case False
    then have "DBTX_update tx s r mode kv = (kv, Inr False)" by (simp add: start)
    then show thesis using that[of kv m] False h wrote_refl[OF v] by simp
  next
    case wanted: True
    show thesis
    proof (cases "\<exists>r'\<in>R. pkey_of s r' = pkey_of s r")
      case False
      then have new: "\<forall>r'\<in>R. pkey_of s r' \<noteq> pkey_of s r" by blast
      then have "m (row_key s 0 r) = None" using rows.rows_free[OF s H r _ rows.nidx_pos[OF s]] pkey_iff[OF s _ r] H by metis
      moreover obtain kv' m' where i: "insert_loop tx s r (row_val s r) [0..<length (sc_Indices s)] True kv = (kv', Inr True)"
        "wrote kv (dtx_kv tx) {} kv' m'" "table_holds s (insert r R) m'" "\<forall>k. k \<notin> entry_keys s r \<longrightarrow> m' k = m k"
        using insert_entries_ok[OF s h r new v] .
      moreover have "row_put s r R = insert r R" using new by (auto simp: row_put_def)
      ultimately show thesis using that[of kv' m'] wanted wrote_mono[OF i(2)] entry_keys_region[of s r] by (auto simp: start)
    next
      case True
      then obtain r' where r': "r' \<in> R" "pkey_of s r' = pkey_of s r" by blast
      then have ro: "row_ok s r'" and old: "m (row_key s 0 r) = Some (row_val s r')"
        using H rows.rows_lookup[OF s H r] pkey_iff[OF s _ r] by blast+
      let ?m = "m |` (- entry_keys s r')"
      obtain kv1 where d: "DBTX_delete tx s r' kv = (kv1, Inr True)" "wrote kv (dtx_kv tx) (dom m) kv1 ?m" "table_holds s (R - {r'}) ?m"
        using DBTX_delete_ok[OF s h r'(1) v] .
      have same: "R - {r'} = {x\<in>R. pkey_of s x \<noteq> pkey_of s r}"
        using r' rows.rows_primary[OF s H _ r'(1)] pkey_iff[OF s _ ro] H by auto
      then have "\<forall>x\<in>R - {r'}. pkey_of s x \<noteq> pkey_of s r" by blast
      from insert_entries_ok[OF s d(3) r this wrote_sees[OF d(2)]] obtain kv' m' where
        i: "insert_loop tx s r (row_val s r) [0..<length (sc_Indices s)] True kv1 = (kv', Inr True)"
        "wrote kv1 (dtx_kv tx) {} kv' m'" "table_holds s (insert r (R - {r'})) m'" "\<forall>k. k \<notin> entry_keys s r \<longrightarrow> m' k = ?m k" .
      have "wrote kv (dtx_kv tx) (dom m) kv' m'" using wrote_trans[OF d(2) wrote_mono[OF i(2)]] by blast
      moreover have "DBTX_update tx s r mode kv = (kv', Inr True)"
        using wanted old decode_stored[OF s r ro r'(2)] d(1) i(1) by (simp add: start)
      moreover have "\<forall>k. k \<notin> table_region s \<longrightarrow> m' k = m k"
      proof (intro allI impI)
        fix k assume "k \<notin> table_region s"
        then have "k \<notin> entry_keys s r" "k \<notin> entry_keys s r'" using entry_keys_region by blast+
        then show "m' k = m k" using i(4) by simp
      qed
      ultimately show thesis using that[of kv' m'] wanted i(3) same by (simp add: row_put_def)
    qed
  qed
qed

section \<open>Operations in a transaction of their own\<close>

lemma DBTX_NewTX_sees:
  assumes v: "tx_sees kv (dtx_kv tx) m" and n: "DBTX_NewTX tx kv = (kv1, tx1)"
  shows "KVTX_NewTX (dtx_kv tx) kv = (kv1, dtx_kv tx1)" and "tx_sees kv1 (dtx_kv tx1) m"
proof -
  show k: "KVTX_NewTX (dtx_kv tx) kv = (kv1, dtx_kv tx1)" using n by (auto simp: DBTX_NewTX_def split: prod.splits)
  show "tx_sees kv1 (dtx_kv tx1) m" by (rule sees_NewTX[OF v k])
qed

lemma finish_commit:
  assumes v: "tx_sees kv (dtx_kv tx) m0" and n: "DBTX_NewTX tx kv = (kv1, tx1)" and w: "wrote kv1 (dtx_kv tx1) (dom m0) kv2 m"
  obtains kv' where "finish_op cl tx1 (kv2, Inr b) = (kv', Inr b)" "wrote kv (dtx_kv tx) (dom m0) kv' m"
proof -
  obtain kv' where "KVTX_Commit cl (dtx_kv tx1) kv2 = (kv', Inr ())" "wrote kv (dtx_kv tx) (dom m0) kv' m"
    using nested_commit[OF v DBTX_NewTX_sees(1)[OF v n] w order_refl] .
  then show thesis using that[of kv'] by (simp add: finish_op_def abortOrCommit_def)
qed

lemma DBTX_modify_ok:
  assumes s: "table_ok s" and h: "table_holds s R m" and r: "row_ok s r" and mode: "mode \<in> {ModeUpsert, ModeInsert, ModeUpdate}"
    and v: "tx_sees kv (dtx_kv tx) m"
  obtains kv' m' where "DBTX_modify cl tx s r mode kv = (kv', Inr (row_wanted s mode r R))" "wrote kv (dtx_kv tx) (dom m) kv' m'"
    "table_holds s (if row_wanted s mode r R then row_put s r R else R) m'" "\<forall>k. k \<notin> table_region s \<longrightarrow> m' k = m k"
proof -
  obtain kv1 tx1 where n: "DBTX_NewTX tx kv = (kv1, tx1)" by fastforce
  obtain kv2 m' where u: "DBTX_update tx1 s r mode kv1 = (kv2, Inr (row_wanted s mode r R))" "wrote kv1 (dtx_kv tx1) (dom m) kv2 m'"
    "table_holds s (if row_wanted s mode r R then row_put s r R else R) m'" "\<forall>k. k \<notin> table_region s \<longrightarrow> m' k = m k"
    using DBTX_update_ok[OF s h r mode DBTX_NewTX_sees(2)[OF v n]] .
  obtain kv' where "finish_op cl tx1 (kv2, Inr (row_wanted s mode r R)) = (kv', Inr (row_wanted s mode r R))" "wrote kv (dtx_kv tx) (dom m) kv' m'"
    using finish_commit[OF v n u(2)] .
  then show thesis using that u n by (simp add: DBTX_modify_def)
qed

lemma DBTX_Delete_ok:
  assumes s: "table_ok s" and h: "table_holds s R m" and r: "r \<in> R" and v: "tx_sees kv (dtx_kv tx) m"
  obtains kv' where "DBTX_Delete cl tx s r kv = (kv', Inr True)" "wrote kv (dtx_kv tx) (dom m) kv' (m |` (- entry_keys s r))"
    "table_holds s (R - {r}) (m |` (- entry_keys s r))"
proof -
  obtain kv1 tx1 where n: "DBTX_NewTX tx kv = (kv1, tx1)" by fastforce
  obtain kv2 where u: "DBTX_delete tx1 s r kv1 = (kv2, Inr True)" "wrote kv1 (dtx_kv tx1) (dom m) kv2 (m |` (- entry_keys s r))"
    "table_holds s (R - {r}) (m |` (- entry_keys s r))"
    using DBTX_delete_ok[OF s h r DBTX_NewTX_sees(2)[OF v n]] .
  obtain kv' where "finish_op cl tx1 (kv2, Inr True) = (kv', Inr True)" "wrote kv (dtx_kv tx) (dom m) kv' (m |` (- entry_keys s r))"
    using finish_commit[OF v n u(2)] .
  then show thesis using that u n by (simp add: DBTX_Delete_def)
qed

lemma DBTX_Delete_absent:
  assumes s: "table_ok s" and h: "table_holds s R m" and r: "row_ok s r" "\<forall>r'\<in>R. pkey_of s r' \<noteq> pkey_of s r"
    and v: "tx_sees kv (dtx_kv tx) m"
  obtains kv' where "DBTX_Delete cl tx s r kv = (kv', Inr False)" "wrote kv (dtx_kv tx) (dom m) kv' m"
proof -
  obtain kv1 tx1 where n: "DBTX_NewTX tx kv = (kv1, tx1)" by fastforce
  obtain kv2 where u: "DBTX_delete tx1 s r kv1 = (kv2, Inr False)" "wrote kv1 (dtx_kv tx1) {} kv2 m"
    using DBTX_delete_absent[OF s h r DBTX_NewTX_sees(2)[OF v n]] .
  obtain kv' where "finish_op cl tx1 (kv2, Inr False) = (kv', Inr False)" "wrote kv (dtx_kv tx) (dom m) kv' m"
    using finish_commit[OF v n wrote_mono[OF u(2)]] by blast
  then show thesis using that u n by (simp add: DBTX_Delete_def)
qed

text \<open>
  C31: in a transaction that sees a table as the entries of a set of rows, every point
  operation succeeds and leaves it seeing the table as the entries of the right set of rows: with
  the primary key and every secondary index in step, and nothing else changed.  Insert, upsert and
  update put the row in place of the one with its primary key when their mode asks for it, and
  report whether it did; delete removes the row, or reports that its primary key is not there.
\<close>

theorem table_rows_kept:
  assumes "table_ok s" and "table_holds s R m" and "tx_sees kv (dtx_kv tx) m" and "row_ok s r"
  shows "(\<forall>mode\<in>{ModeUpsert, ModeInsert, ModeUpdate}. \<exists>kv' m'. DBTX_modify cl tx s r mode kv = (kv', Inr (row_wanted s mode r R)) \<and>
      tx_sees kv' (dtx_kv tx) m' \<and> table_holds s (if row_wanted s mode r R then row_put s r R else R) m' \<and>
      (\<forall>k. k \<notin> table_region s \<longrightarrow> m' k = m k)) \<and>
    (r \<in> R \<longrightarrow> (\<exists>kv' m'. DBTX_Delete cl tx s r kv = (kv', Inr True) \<and> tx_sees kv' (dtx_kv tx) m' \<and> table_holds s (R - {r}) m' \<and>
      (\<forall>k. k \<notin> table_region s \<longrightarrow> m' k = m k))) \<and>
    ((\<forall>r'\<in>R. pkey_of s r' \<noteq> pkey_of s r) \<longrightarrow> (\<exists>kv'. DBTX_Delete cl tx s r kv = (kv', Inr False) \<and> tx_sees kv' (dtx_kv tx) m))"
proof (intro conjI ballI impI)
  fix mode assume mode: "mode \<in> {ModeUpsert, ModeInsert, ModeUpdate}"
  obtain kv' m' where "DBTX_modify cl tx s r mode kv = (kv', Inr (row_wanted s mode r R))" "wrote kv (dtx_kv tx) (dom m) kv' m'"
    "table_holds s (if row_wanted s mode r R then row_put s r R else R) m'" "\<forall>k. k \<notin> table_region s \<longrightarrow> m' k = m k"
    using DBTX_modify_ok[OF assms(1,2,4) mode assms(3)] .
  then show "\<exists>kv' m'. DBTX_modify cl tx s r mode kv = (kv', Inr (row_wanted s mode r R)) \<and> tx_sees kv' (dtx_kv tx) m' \<and>
      table_holds s (if row_wanted s mode r R then row_put s r R else R) m' \<and> (\<forall>k. k \<notin> table_region s \<longrightarrow> m' k = m k)"
    using wrote_sees by blast
next
  assume r: "r \<in> R"
  obtain kv' where d: "DBTX_Delete cl tx s r kv = (kv', Inr True)" "wrote kv (dtx_kv tx) (dom m) kv' (m |` (- entry_keys s r))"
    "table_holds s (R - {r}) (m |` (- entry_keys s r))" using DBTX_Delete_ok[OF assms(1,2) r assms(3)] .
  moreover have "\<forall>k. k \<notin> table_region s \<longrightarrow> (m |` (- entry_keys s r)) k = m k" using entry_keys_region[of s r] by (auto simp: restrict_map_def)
  ultimately show "\<exists>kv' m'. DBTX_Delete cl tx s r kv = (kv', Inr True) \<and> tx_sees kv' (dtx_kv tx) m' \<and> table_holds s (R - {r}) m' \<and>
      (\<forall>k. k \<notin> table_region s \<longrightarrow> m' k = m k)" using wrote_sees[OF d(2)] by blast
next
  assume "\<forall>r'\<in>R. pkey_of s r' \<noteq> pkey_of s r"
  from DBTX_Delete_absent[OF assms(1,2,4) this assms(3)] obtain kv' where
    "DBTX_Delete cl tx s r kv = (kv', Inr False)" "wrote kv (dtx_kv tx) (dom m) kv' m" .
  then show "\<exists>kv'. DBTX_Delete cl tx s r kv = (kv', Inr False) \<and> tx_sees kv' (dtx_kv tx) m" using wrote_sees by blast
qed

text \<open>An empty store with the table of the examples.\<close>

abbreviation demo_db :: "unit KV" where
  "demo_db \<equiv> demo_kv (fst (Log_Open (clean []))) empty_array 0 [] [] []"

lemma table_holds_empty: "table_holds s {} Map.empty"
  by (simp add: table_holds_def holds_rows_def)

lemma demo_table_ok: "table_ok demo_schema"
  using demo_schema_ok(1) by (simp add: table_ok_def demo_schema_def)

lemma DB_NewTX_sees:
  assumes "store_inv kv pend" and "\<not> kv_closed kv" and "DB_NewTX kv = (kv1, tx)"
  shows "tx_sees kv1 (dtx_kv tx) (kv_view kv)" and "KV_NewTX kv = (kv1, dtx_kv tx)"
proof -
  show n: "KV_NewTX kv = (kv1, dtx_kv tx)" using assms(3) by (auto simp: DB_NewTX_def split: prod.splits)
  note N = NewTX_ok[OF assms(1,2) n]
  have "dtx_kv tx \<in> set (kv_ongoing kv1)" using N(9) by simp
  from tx_sees_root[OF N(2) this] show "tx_sees kv1 (dtx_kv tx) (kv_view kv)" using N(4,5) by simp
qed

theorem table_rows_kept_witness:
  "\<exists>kv tx kv' m'. DB_NewTX demo_db = (kv, tx) \<and> DBTX_modify no_cache tx demo_schema demo_row ModeInsert kv = (kv', Inr True) \<and>
     tx_sees kv' (dtx_kv tx) m' \<and> table_holds demo_schema {demo_row} m'"
proof -
  obtain kv tx where n: "DB_NewTX demo_db = (kv, tx)" by fastforce
  have "tx_sees kv (dtx_kv tx) Map.empty" using DB_NewTX_sees(1)[OF demo_store_ok(1,3) n] by (simp add: demo_store_ok)
  from table_rows_kept[OF demo_table_ok table_holds_empty this demo_schema_ok(2), of no_cache, THEN conjunct1, THEN bspec, of ModeInsert]
  obtain kv' m' where "DBTX_modify no_cache tx demo_schema demo_row ModeInsert kv = (kv', Inr True)" "tx_sees kv' (dtx_kv tx) m'"
    "table_holds demo_schema {demo_row} m'" by (auto simp: row_wanted_def row_put_def ModeInsert_def ModeUpsert_def)
  with n show ?thesis by blast
qed

end
