(* ===== verification/TableScan.thy ===== *)
theory TableScan
  imports TableInv
begin

text \<open>
  Reading a table: a row is found through its primary key, and a range over any index delivers
  exactly the rows in the range, in the order of the index.
\<close>

section \<open>Rows that are known in part\<close>

lemma EncodeKey_loop_cong:
  assumes "length row = length r" and "\<forall>i\<in>set index. row ! nat i = r ! nat i"
  shows "EncodeKey_loop s row index key = EncodeKey_loop s r index key"
  using assms(2)
proof (induction index arbitrary: key)
  case (Cons i index)
  have "go_index row i = go_index r i" using assms(1) Cons.prems by (simp add: go_index_def)
  then show ?case using Cons by (simp add: rbind_def split: sum.splits)
qed simp

lemma EncodeKey_partial:
  assumes "schema_ok s" and "row_ok s r" and "n < length (sc_Indices s)" and "length row = length (sc_Cols s)"
    and "row_cells row (index_of s n) = row_cells r (index_of s n)"
  shows "Row_EncodeKey row s (int n) = Inr (row_key s n r)"
proof -
  have l: "length row = length r" using assms(4) row_ok_length[OF assms(2)] by simp
  have "EncodeKey_loop s row (index_of s n) key = EncodeKey_loop s r (index_of s n) key" for key
    using EncodeKey_loop_cong[OF l] assms(5) by (simp add: row_cells_eq_iff)
  then have "Row_EncodeKey row s (int n) = Row_EncodeKey r s (int n)"
    using assms(3) l row_ok_length[OF assms(2)] by (simp add: Row_EncodeKey_def)
  then show ?thesis using Row_EncodeKey_ok[OF assms(1-3)] by simp
qed

lemma mix_complete:
  assumes "row_ok s r" and "length row = length (sc_Cols s)" and "row_cells row index = row_cells r index" and "- set index \<subseteq> A"
  shows "mix A r row = r"
proof (rule nth_equalityI)
  fix i assume "i < length (mix A r row)"
  moreover have "row ! i = r ! i" if "int i \<in> set index" using that assms(3) by (fastforce simp: row_cells_eq_iff)
  ultimately show "mix A r row ! i = r ! i" using assms(4) by (auto simp: mix_def)
qed (use assms(2) row_ok_length[OF assms(1)] in simp)

lemma Select_found:
  assumes s: "table_ok s" and h: "table_holds s R m" and v: "tx_sees kv (dtx_kv tx) m" and r: "r \<in> R"
    and row: "length row = length (sc_Cols s)" "pkey_of s row = pkey_of s r"
  shows "DBTX_Select kv tx s row = (r, Inr True)"
proof -
  note H = h[unfolded table_holds_def]
  have so: "schema_ok s" and ro: "row_ok s r" using s H r by (auto simp: table_ok_def)
  have k: "Row_EncodeKey row s 0 = Inr (row_key s 0 r)"
    using EncodeKey_partial[OF so ro rows.nidx_pos[OF s] row(1)] row(2) by (simp add: pkey_of_def)
  have "m (row_key s 0 r) = Some (row_val s r)" using rows.rows_entry[OF s H r rows.nidx_pos[OF s]] by simp
  moreover have "Row_DecodeVal s (row_val s r) row = (r, Inr ())"
    using Row_DecodeVal_ok[OF so ro row(1)] mix_complete[OF ro row(1)] row(2) by (simp add: pkey_of_def)
  ultimately show ?thesis by (simp add: DBTX_Select_def k sees_get[OF v])
qed

lemma Select_absent:
  assumes s: "table_ok s" and h: "table_holds s R m" and v: "tx_sees kv (dtx_kv tx) m" and r: "row_ok s r"
    and row: "length row = length (sc_Cols s)" "pkey_of s row = pkey_of s r" and no: "\<forall>r'\<in>R. pkey_of s r' \<noteq> pkey_of s r"
  shows "DBTX_Select kv tx s row = (row, Inr False)"
proof -
  note H = h[unfolded table_holds_def]
  have so: "schema_ok s" using s by (simp add: table_ok_def)
  have k: "Row_EncodeKey row s 0 = Inr (row_key s 0 r)"
    using EncodeKey_partial[OF so r rows.nidx_pos[OF s] row(1)] row(2) by (simp add: pkey_of_def)
  have "m (row_key s 0 r) = None" using rows.rows_free[OF s H r _ rows.nidx_pos[OF s]] pkey_iff[OF s _ r] no H by metis
  then show ?thesis by (simp add: DBTX_Select_def k sees_get[OF v])
qed

section \<open>Row iterators\<close>

text \<open>The rows an iterator delivers from where it stands.\<close>

inductive yields :: "'c KV \<Rightarrow> RowIterator \<Rightarrow> row list \<Rightarrow> bool" for kv where
  yields_end: "\<not> ri_valid it \<Longrightarrow> yields kv it []"
| yields_row: "ri_valid it \<Longrightarrow> ri_row it = r \<Longrightarrow> RowIterator_Next kv it = (it', Inr ()) \<Longrightarrow> yields kv it' rs \<Longrightarrow> yields kv it (r # rs)"

inductive_cases yields_NilE: "yields kv it []"
inductive_cases yields_ConsE: "yields kv it (r # rs)"

definition index_entry :: "Schema \<Rightarrow> nat \<Rightarrow> row \<Rightarrow> bytes \<times> bytes" where
  "index_entry s n r = (row_key s n r, if n = 0 then row_val s r else [])"

lemma row_cells_mix_in:
  "index_in s index \<Longrightarrow> set index \<subseteq> A \<Longrightarrow> length row0 = length (sc_Cols s) \<Longrightarrow> row_cells (mix A row row0) index = row_cells row index"
  by (auto simp: row_cells_eq_iff index_in_def mix_def nat_less_iff)

lemma decode_entry_ok:
  assumes s: "table_ok s" and h: "table_holds s R m" and v: "tx_sees kv (dtx_kv (ri_tx it)) m" and r: "r \<in> R"
    and n: "n < length (sc_Indices s)" "n < 128" and it: "ri_schema it = s" "ri_indexNo it = int n" "length (ri_row it) = length (sc_Cols s)"
    and val: "n = 0 \<Longrightarrow> Ranged_Val range_ops (ri_iter it) = Inr (row_val s r)"
  shows "decode_entry kv it (row_key s n r) = (r, Inr True)"
proof -
  note H = h[unfolded table_holds_def]
  have so: "schema_ok s" and ro: "row_ok s r" using s H r by (auto simp: table_ok_def)
  let ?row = "mix (set (index_of s n)) r (ri_row it)"
  have d: "Row_DecodeKey s (int n) (row_key s n r) (ri_row it) = (?row, Inr ())" by (rule Row_DecodeKey_ok[OF so ro n it(3)])
  have "set (index_of s 0) \<subseteq> set (index_of s n)" using s n(1) by (auto simp: table_ok_def list_all_length)
  then have pk: "pkey_of s ?row = pkey_of s r"
    using row_cells_mix_in[OF index_of_in[OF so rows.nidx_pos[OF s]] _ it(3)] by (simp add: pkey_of_def)
  show ?thesis
  proof (cases "n = 0")
    case True
    have "Row_DecodeVal s (row_val s r) ?row = (r, Inr ())"
      using Row_DecodeVal_ok[OF so ro, of ?row] mix_complete[OF ro, of ?row "index_of s 0"] pk it(3) by (simp add: pkey_of_def)
    then show ?thesis using d val[OF True] True it by (simp add: decode_entry_def)
  next
    case False
    have "DBTX_Select kv (ri_tx it) s ?row = (r, Inr True)" using Select_found[OF s h v r _ pk] it(3) by simp
    then show ?thesis using d False it by (simp add: decode_entry_def)
  qed
qed

lemma decode_delivers:
  assumes s: "table_ok s" and h: "table_holds s R m" and n: "n < length (sc_Indices s)" "n < 128"
    and v: "tx_sees kv (dtx_kv (ri_tx it)) m" and it: "ri_schema it = s" "ri_indexNo it = int n" "length (ri_row it) = length (sc_Cols s)"
    and d: "delivers range_ops (ri_iter it) (map (index_entry s n) rs)" and R: "set rs \<subseteq> R"
  shows "\<exists>row. RowIterator_decodeKVIter kv it = (it\<lparr>ri_row := row\<rparr>, Inr (rs \<noteq> [])) \<and> length row = length (sc_Cols s) \<and> (rs \<noteq> [] \<longrightarrow> row = hd rs)"
proof (cases rs)
  case Nil
  then have "Ranged_Valid range_ops (ri_iter it) = Inr False" using d by (auto elim: delivers_NilE)
  then show ?thesis using Nil it(3) by (intro exI[of _ "ri_row it"]) (simp add: RowIterator_decodeKVIter_def)
next
  case (Cons r rs')
  then have e: "Ranged_Valid range_ops (ri_iter it) = Inr True" "Ranged_Key range_ops (ri_iter it) = Inr (row_key s n r)"
    "Ranged_Val range_ops (ri_iter it) = Inr (if n = 0 then row_val s r else [])"
    using d by (auto simp: index_entry_def elim!: delivers_ConsE)
  have r: "r \<in> R" using R Cons by simp
  have "decode_entry kv it (row_key s n r) = (r, Inr True)" using decode_entry_ok[OF s h v r n it] e(3) by simp
  moreover have "length r = length (sc_Cols s)" using r h row_ok_length by (auto simp: table_holds_def)
  ultimately show ?thesis using e(1,2) Cons by (intro exI[of _ r]) (simp add: RowIterator_decodeKVIter_def)
qed

lemma delivers_yields:
  assumes s: "table_ok s" and h: "table_holds s R m" and n: "n < length (sc_Indices s)" "n < 128"
    and "tx_sees kv (dtx_kv (ri_tx it)) m" and "ri_schema it = s" and "ri_indexNo it = int n" and "length (ri_row it) = length (sc_Cols s)"
    and "delivers range_ops (ri_iter it) (map (index_entry s n) rs)" and "set rs \<subseteq> R"
    and "ri_valid it \<longleftrightarrow> rs \<noteq> []" and "rs \<noteq> [] \<longrightarrow> ri_row it = hd rs"
  shows "yields kv it rs"
  using assms(5-)
proof (induction rs arbitrary: it)
  case Nil
  then show ?case by (auto intro: yields_end)
next
  case (Cons r rs)
  from Cons.prems(5) obtain rit where next_: "Ranged_Next range_ops (ri_iter it) = Inr rit" "delivers range_ops rit (map (index_entry s n) rs)"
    by (auto elim!: delivers_ConsE)
  let ?it = "it\<lparr>ri_iter := rit\<rparr>"
  have "\<exists>row. RowIterator_decodeKVIter kv ?it = (?it\<lparr>ri_row := row\<rparr>, Inr (rs \<noteq> [])) \<and> length row = length (sc_Cols s) \<and> (rs \<noteq> [] \<longrightarrow> row = hd rs)"
    by (rule decode_delivers[OF s h n]) (use Cons.prems next_ in simp_all)
  then obtain row where d: "RowIterator_decodeKVIter kv ?it = (?it\<lparr>ri_row := row\<rparr>, Inr (rs \<noteq> []))" "length row = length (sc_Cols s)"
    "rs \<noteq> [] \<longrightarrow> row = hd rs" by blast
  let ?it' = "?it\<lparr>ri_row := row, ri_valid := rs \<noteq> []\<rparr>"
  have "RowIterator_Next kv it = (?it', Inr ())" using next_(1) d(1) by (simp add: RowIterator_Next_def)
  moreover have "yields kv ?it' rs" by (rule Cons.IH) (use Cons.prems next_ d in simp_all)
  ultimately show ?case using Cons.prems by (intro yields_row) simp_all
qed

section \<open>Ranges\<close>

text \<open>The order in which an index delivers rows.\<close>

definition scan_order :: "Schema \<Rightarrow> RangeReq \<Rightarrow> row list \<Rightarrow> bool" where
  "scan_order s req rs \<longleftrightarrow>
     (let key = row_key s (nat (rr_IndexNo req)) in
      sorted_wrt (\<lambda>a b. if fst (isDescending (rr_StartCmp req)) then key b < key a else key a < key b) rs)"

lemma pairs_between_rows:
  assumes s: "table_ok s" and h: "table_holds s R m" and n: "n < length (sc_Indices s)" and fin: "finite (dom m)"
    and lo: "\<exists>a p. lo = prefix_key s n a p" and hi: "\<exists>a p. hi = prefix_key s n a p"
  obtains rs where "pairs_between m lo hi = map (index_entry s n) rs" "set rs = {r\<in>R. lo \<le> row_key s n r \<and> row_key s n r \<le> hi}"
    "sorted_wrt (\<lambda>a b. row_key s n a < row_key s n b) rs"
proof -
  note H = h[unfolded table_holds_def]
  have mem: "(k, w) \<in> set (pairs_between m lo hi) \<longleftrightarrow> m k = Some w \<and> lo \<le> k \<and> k \<le> hi" for k w
  proof -
    have "(k, w) \<in> set (sorted_entries m) \<longleftrightarrow> m k = Some w"
      using fin by (force simp: sorted_entries_def)
    then show ?thesis by (auto simp: pairs_between_def)
  qed
  have reg: "k \<in> index_region s n" if "lo \<le> k" "k \<le> hi" for k
    using that lo hi between_prefix_keys unfolding index_region_def by blast
  have ent: "m k = Some w \<longleftrightarrow> (\<exists>r\<in>R. (k, w) = index_entry s n r)" if "lo \<le> k" "k \<le> hi" for k w
    using H n reg[OF that] unfolding holds_rows_def index_entry_def by auto
  have "pairs_between m lo hi \<in> lists (index_entry s n ` R)" using mem ent by auto
  then obtain rs where rs: "pairs_between m lo hi = map (index_entry s n) rs" "set rs \<subseteq> R" by (auto simp: lists_image)
  have "map fst (filter (\<lambda>(k, v). lo \<le> k \<and> k \<le> hi) es) = filter (\<lambda>k. lo \<le> k \<and> k \<le> hi) (map fst es)" for es :: "(bytes \<times> bytes) list"
    by (induction es) auto
  then have "ssorted (map fst (pairs_between m lo hi))" by (simp add: pairs_between_def sorted_wrt_filter)
  then have ord: "sorted_wrt (\<lambda>a b. row_key s n a < row_key s n b) rs"
    unfolding rs(1) by (simp add: sorted_wrt_map index_entry_def comp_def)
  have "set rs = {r\<in>R. lo \<le> row_key s n r \<and> row_key s n r \<le> hi}"
  proof (intro set_eqI iffI)
    fix r assume r: "r \<in> set rs"
    then have "index_entry s n r \<in> set (pairs_between m lo hi)" using rs(1) by simp
    then show "r \<in> {r\<in>R. lo \<le> row_key s n r \<and> row_key s n r \<le> hi}" using r rs(2) mem by (auto simp: index_entry_def)
  next
    fix r assume r: "r \<in> {r\<in>R. lo \<le> row_key s n r \<and> row_key s n r \<le> hi}"
    then have "index_entry s n r \<in> set (pairs_between m lo hi)" using mem ent by (auto simp: index_entry_def)
    then obtain r' where "r' \<in> set rs" "index_entry s n r = index_entry s n r'" using rs(1) by auto
    moreover have "r' = r" using calculation r rs(2) H rows.key_primary[OF s _ _ n] rows.rows_primary[OF s H] unfolding index_entry_def
      by (metis (no_types, lifting) Pair_inject mem_Collect_eq subsetD)
    ultimately show "r \<in> set rs" by simp
  qed
  then show thesis using that rs(1) ord by blast
qed

lemma Range_ok:
  assumes s: "table_ok s" and h: "table_holds s R m" and v: "tx_sees kv (dtx_kv tx) m" and q: "req_ok s req" and n: "rr_IndexNo req < 128"
  obtains it rs where "DBTX_Range kv tx s req = Inr it" "yields kv it rs" "set rs = {r\<in>R. in_range s req r}" "scan_order s req rs"
proof -
  define n where "n = nat (rr_IndexNo req)"
  have so: "schema_ok s" using s by (simp add: table_ok_def)
  have q': "rr_IndexNo req = int n" "rr_StartCmp req \<in> bound_ops" "rr_StopCmp req \<in> bound_ops" "prefix_ok s n (rr_Start req)" "prefix_ok s n (rr_Stop req)"
    "fst (isDescending (rr_StartCmp req)) \<noteq> fst (isDescending (rr_StopCmp req))" using q by (auto simp: req_ok_def n_def)
  have n': "n < length (sc_Indices s)" "n < 128" using q'(1,4) n by (auto simp: prefix_ok_def)
  let ?desc = "fst (isDescending (rr_StartCmp req))" and ?lo = "start_key s req" and ?hi = "stop_key s req"
  have enc: "EncodeKeyPrefix s (rr_IndexNo req) (rr_Start req) (fst (suffixPositive (rr_StartCmp req))) = Inr ?lo"
    "EncodeKeyPrefix s (rr_IndexNo req) (rr_Stop req) (fst (suffixPositive (rr_StopCmp req))) = Inr ?hi"
    using EncodeKeyPrefix_ok[OF so q'(4)] EncodeKeyPrefix_ok[OF so q'(5)] by (simp_all add: q'(1) start_key_def stop_key_def)
  have ops: "snd (suffixPositive (rr_StartCmp req))" "snd (suffixPositive (rr_StopCmp req))" using q'(2,3) by (auto simp: suffixPositive_def)
  have keys: "\<exists>a p. ?lo = prefix_key s n a p" "\<exists>a p. ?hi = prefix_key s n a p" by (auto simp: start_key_def stop_key_def n_def)
  obtain rit where rit: "KVTX_Range kv (dtx_kv tx) ?lo ?hi ?desc = Inr rit"
    "delivers range_ops rit (if ?desc then rev (pairs_between m ?hi ?lo) else pairs_between m ?lo ?hi)" using sees_range[OF v] .
  note fin = sees_finite[OF v]
  obtain rs where rs: "(if ?desc then rev (pairs_between m ?hi ?lo) else pairs_between m ?lo ?hi) = map (index_entry s n) rs"
    "set rs = {r\<in>R. in_range s req r}" "scan_order s req rs"
  proof (cases ?desc)
    case True
    obtain rs where "pairs_between m ?hi ?lo = map (index_entry s n) rs" "set rs = {r\<in>R. ?hi \<le> row_key s n r \<and> row_key s n r \<le> ?lo}"
      "sorted_wrt (\<lambda>a b. row_key s n a < row_key s n b) rs" using pairs_between_rows[OF s h n'(1) fin keys(2,1)] .
    then show thesis using that[of "rev rs"] True by (simp add: rev_map in_range_def scan_order_def Let_def sorted_wrt_rev flip: n_def)
  next
    case False
    obtain rs where "pairs_between m ?lo ?hi = map (index_entry s n) rs" "set rs = {r\<in>R. ?lo \<le> row_key s n r \<and> row_key s n r \<le> ?hi}"
      "sorted_wrt (\<lambda>a b. row_key s n a < row_key s n b) rs" using pairs_between_rows[OF s h n'(1) fin keys] .
    then show thesis using that[of rs] False by (simp add: in_range_def scan_order_def Let_def flip: n_def)
  qed
  let ?it = "\<lparr>ri_tx = tx, ri_schema = s, ri_indexNo = rr_IndexNo req, ri_iter = rit, ri_valid = False, ri_row = Schema_NewRow s\<rparr>"
  have d: "delivers range_ops rit (map (index_entry s n) rs)" using rit(2) unfolding rs(1) .
  have R: "set rs \<subseteq> R" using rs(2) by blast
  have "\<exists>row. RowIterator_decodeKVIter kv ?it = (?it\<lparr>ri_row := row\<rparr>, Inr (rs \<noteq> [])) \<and> length row = length (sc_Cols s) \<and> (rs \<noteq> [] \<longrightarrow> row = hd rs)"
    by (rule decode_delivers[OF s h n']) (use v q'(1) d R in \<open>simp_all add: Schema_NewRow_def\<close>)
  then obtain row where row: "RowIterator_decodeKVIter kv ?it = (?it\<lparr>ri_row := row\<rparr>, Inr (rs \<noteq> []))" "length row = length (sc_Cols s)"
    "rs \<noteq> [] \<longrightarrow> row = hd rs" by blast
  let ?it' = "?it\<lparr>ri_row := row, ri_valid := rs \<noteq> []\<rparr>"
  have "DBTX_Range kv tx s req = Inr ?it'"
    using enc ops q'(6) rit(1) row(1) by (simp add: DBTX_Range_def split_beta Let_def)
  moreover have "yields kv ?it' rs" by (rule delivers_yields[OF s h n']) (use v q'(1) d R row in simp_all)
  ultimately show thesis using that rs(2,3) by blast
qed

end
