(* ===== verification/SelectOk.thy ===== *)
theory SelectOk
  imports Exec TableScan
begin

text \<open>
  SELECT: the rows a statement returns are the projections of exactly the rows of the table that
  satisfy its condition, in the order of the index the planner chose, from the offset on, up to the
  limit.
\<close>

section \<open>Schemas of the catalogue\<close>

definition in_catalog :: "Schema \<Rightarrow> (bytes \<rightharpoonup> bytes) \<Rightarrow> bool" where
  "in_catalog s m \<longleftrightarrow> schema_plain s \<and> m (schemaKey (sc_Table s)) = Some (marshal_schema s)"

lemma GetSchema_ok:
  assumes "schema_ok s" and "in_catalog s m" and "tx_sees kv (dtx_kv tx) m" and "dtx_tables tx (sc_Table s) = None"
  shows "DBTX_GetSchema kv tx (sc_Table s) = (tx\<lparr>dtx_tables := (dtx_tables tx)(sc_Table s \<mapsto> s)\<rparr>, Inr s)"
  using assms(1,2,4) unmarshal_marshal_schema[of s]
  by (simp add: DBTX_GetSchema_def sees_get[OF assms(3)] in_catalog_def schema_ok_def)

text \<open>The catalogue lies outside the key ranges of the tables.\<close>

definition plain_table :: "Schema \<Rightarrow> bool" where
  "plain_table s \<longleftrightarrow> sc_Table s \<noteq> [] \<and> hd (sc_Table s) \<noteq> 0"

lemma schemaKey_outside: "plain_table s \<Longrightarrow> schemaKey t \<notin> table_region s"
  by (cases "sc_Table s") (auto simp: plain_table_def table_region_def index_region_def key_head_def schemaKey_def ReservedKeyPrefix_def)

section \<open>The cursor\<close>

abbreviation matches :: "Schema \<Rightarrow> expr option \<Rightarrow> row \<Rightarrow> bool" where
  "matches s e r \<equiv> matchRow s r e = Inr True"

definition project :: "Schema \<Rightarrow> expr list \<Rightarrow> row \<Rightarrow> row" where
  "project s es r = (case eval_list s r es of Inl e \<Rightarrow> [] | Inr out \<Rightarrow> out)"

text \<open>The rows still to come, and that the statement evaluates on them.\<close>

definition cursor_at :: "'c KV \<Rightarrow> selectCursor \<Rightarrow> row list \<Rightarrow> bool" where
  "cursor_at kv c rs \<longleftrightarrow>
     (if cu_started c then \<exists>r0. yields kv (cu_iter c) (r0 # rs) else yields kv (cu_iter c) rs) \<and>
     (\<forall>r\<in>set rs. (\<exists>b. matchRow (cu_schema c) r (sp_residual (cu_plan c)) = Inr b) \<and> (\<exists>out. eval_list (cu_schema c) r (cu_proj c) = Inr out))"

definition query_of :: "selectCursor \<Rightarrow> Schema \<times> scanPlan \<times> expr list" where
  "query_of c = (cu_schema c, cu_plan c, cu_proj c)"

text \<open>What the next row is, given the matching rows still to come.\<close>

definition next_is :: "'c KV \<Rightarrow> Schema \<times> scanPlan \<times> expr list \<Rightarrow> int \<Rightarrow> row list \<Rightarrow> (selectCursor \<times> bool res) option \<Rightarrow> bool" where
  "next_is kv q rem ms res \<longleftrightarrow> (case q of (s, plan, proj) \<Rightarrow> case ms of
      [] \<Rightarrow> \<exists>c'. res = Some (c', Inr False)
    | r # ms \<Rightarrow> \<exists>c' rs'. res = Some (c', Inr True) \<and> cu_out c' = project s proj r \<and> cursor_at kv c' rs' \<and>
        filter (matches s (sp_residual plan)) rs' = ms \<and> cu_skip c' \<le> 0 \<and> query_of c' = q \<and> cu_remaining c' = (if rem > 0 then rem - 1 else rem))"

lemma cursor_advance_ok:
  assumes "cursor_at kv c rs"
  obtains it where "cursor_advance kv c = (c\<lparr>cu_started := True, cu_iter := it\<rparr>, Inr ())" "yields kv it rs"
proof (cases "cu_started c")
  case True
  then obtain it where "RowIterator_Next kv (cu_iter c) = (it, Inr ())" "yields kv it rs"
    using assms by (auto simp: cursor_at_def elim!: yields_ConsE)
  moreover have "c\<lparr>cu_iter := it\<rparr> = c\<lparr>cu_started := True, cu_iter := it\<rparr>" using True by simp
  ultimately show thesis using that[of it] True by (simp add: cursor_advance_def)
next
  case False
  have "c\<lparr>cu_started := True\<rparr> = c\<lparr>cu_started := True, cu_iter := cu_iter c\<rparr>" by simp
  then show thesis using that[of "cu_iter c"] False assms by (simp add: cursor_advance_def cursor_at_def)
qed

lemma cursor_loop_ok:
  assumes "cursor_at kv c rs" and "query_of c = (s, plan, proj)" and "cu_remaining c = rem"
  shows "next_is kv (s, plan, proj) rem (drop (nat (cu_skip c)) (filter (matches s (sp_residual plan)) rs)) (cursor_loop kv c)"
  using assms
proof (induction rs arbitrary: c)
  case Nil
  obtain it where a: "cursor_advance kv c = (c\<lparr>cu_started := True, cu_iter := it\<rparr>, Inr ())" "yields kv it []"
    using cursor_advance_ok[OF Nil(1)] .
  then have "\<not> ri_valid it" by (auto elim: yields_NilE)
  then show ?case using a(1) by (subst cursor_loop.simps) (simp add: next_is_def)
next
  case (Cons r rs)
  obtain it where a: "cursor_advance kv c = (c\<lparr>cu_started := True, cu_iter := it\<rparr>, Inr ())" "yields kv it (r # rs)"
    using cursor_advance_ok[OF Cons.prems(1)] .
  then have it: "ri_valid it" "ri_row it = r" by (auto elim: yields_ConsE)
  have q: "cu_schema c = s" "cu_plan c = plan" "cu_proj c = proj" using Cons.prems(2) by (simp_all add: query_of_def)
  define c1 where "c1 = (\<lambda>k. c\<lparr>cu_started := True, cu_iter := it, cu_scanned := cu_scanned c + 1, cu_skip := k\<rparr>)"
  have c1: "cursor_at kv (c1 k) rs" "query_of (c1 k) = (s, plan, proj)" "cu_remaining (c1 k) = rem" "cu_skip (c1 k) = k" for k
    using Cons.prems a(2) by (auto simp: cursor_at_def c1_def query_of_def)
  obtain b where b: "matchRow s r (sp_residual plan) = Inr b" using Cons.prems(1) q by (auto simp: cursor_at_def)
  obtain out where out: "eval_list s r proj = Inr out" using Cons.prems(1) q by (auto simp: cursor_at_def)
  have step: "cursor_loop kv c = (if \<not> b then cursor_loop kv (c1 (cu_skip c)) else if cu_skip c > 0 then cursor_loop kv (c1 (cu_skip c - 1))
      else Some (cursor_emit (c1 (cu_skip c)) r))"
    by (subst cursor_loop.simps) (simp add: a(1) it b q c1_def Let_def)
  note IH = Cons.IH[OF c1(1-3), unfolded c1(4)]
  consider (no) "\<not> b" | (skip) b "cu_skip c > 0" | (emit) b "\<not> cu_skip c > 0" by blast
  then show ?case
  proof cases
    case no
    then show ?thesis using IH[of "cu_skip c"] step b by simp
  next
    case skip
    have "nat (cu_skip c) = Suc (nat (cu_skip c - 1))" using skip(2) by simp
    then show ?thesis using IH[of "cu_skip c - 1"] step b skip by simp
  next
    case emit
    let ?c = "(c1 (cu_skip c))\<lparr>cu_out := out, cu_remaining := (if rem > 0 then rem - 1 else rem)\<rparr>"
    have "cursor_emit (c1 (cu_skip c)) r = (?c, Inr True)" using out q Cons.prems(3) by (simp add: cursor_emit_def c1_def)
    moreover have "cursor_at kv ?c rs" using c1(1)[of "cu_skip c"] by (simp add: cursor_at_def)
    moreover have "query_of ?c = (s, plan, proj)" using c1(2)[of "cu_skip c"] by (simp add: query_of_def)
    ultimately show ?thesis using emit step b out c1(4) by (auto simp: project_def next_is_def intro!: exI[of _ rs])
  qed
qed

section \<open>The rows of a result\<close>

definition limited :: "int \<Rightarrow> 'a list \<Rightarrow> 'a list" where
  "limited n xs = (if n < 0 then xs else take (nat n) xs)"

lemma SQLResult_Rows_ok:
  assumes "sr_cursor r = Some c" and "\<not> sr_closed r" and "sr_err r = None" and "cursor_at kv c rs" and "query_of c = (s, plan, proj)"
  shows "\<exists>r'. SQLResult_Rows kv r out =
    Some (r', Inr (out @ map (project s proj) (limited (cu_remaining c) (drop (nat (cu_skip c)) (filter (matches s (sp_residual plan)) rs))))) \<and>
    sr_tx r' = sr_tx r \<and> \<not> sr_closed r' \<and> sr_err r' = None"
  using assms
proof (induction "drop (nat (cu_skip c)) (filter (matches s (sp_residual plan)) rs)" arbitrary: r c rs out)
  case Nil
  show ?case
  proof (cases "cu_remaining c = 0")
    case True
    then show ?thesis using Nil by (subst SQLResult_Rows.simps) (simp add: SQLResult_Next_def cursor_next_def limited_def)
  next
    case False
    obtain c' where "cursor_loop kv c = Some (c', Inr False)" using cursor_loop_ok[OF Nil(5,6) refl, folded Nil(1)] by (auto simp: next_is_def)
    then show ?thesis using Nil False by (subst SQLResult_Rows.simps) (simp add: SQLResult_Next_def cursor_next_def limited_def flip: Nil(1))
  qed
next
  case (Cons x ms)
  show ?case
  proof (cases "cu_remaining c = 0")
    case True
    then show ?thesis using Cons.prems by (subst SQLResult_Rows.simps) (simp add: SQLResult_Next_def cursor_next_def limited_def)
  next
    case False
    obtain c' rs' where c': "cursor_loop kv c = Some (c', Inr True)" "cu_out c' = project s proj x" "cursor_at kv c' rs'"
        "filter (matches s (sp_residual plan)) rs' = ms" "cu_skip c' \<le> 0" "query_of c' = (s, plan, proj)"
        "cu_remaining c' = (if cu_remaining c > 0 then cu_remaining c - 1 else cu_remaining c)"
      using cursor_loop_ok[OF Cons.prems(4,5) refl, folded Cons.hyps(2)] by (auto simp: next_is_def)
    let ?r = "r\<lparr>sr_cursor := Some c'\<rparr>"
    have ms: "ms = drop (nat (cu_skip c')) (filter (matches s (sp_residual plan)) rs')" using c'(4,5) by simp
    have "\<exists>r'. SQLResult_Rows kv ?r (out @ [project s proj x]) = Some (r', Inr ((out @ [project s proj x]) @
        map (project s proj) (limited (cu_remaining c') (drop (nat (cu_skip c')) (filter (matches s (sp_residual plan)) rs'))))) \<and>
        sr_tx r' = sr_tx ?r \<and> \<not> sr_closed r' \<and> sr_err r' = None"
      by (rule Cons.hyps(1)[OF ms]) (use Cons.prems c' in simp_all)
    then obtain r' where IH: "SQLResult_Rows kv ?r (out @ [project s proj x]) = Some (r', Inr (out @ project s proj x # map (project s proj) (limited (cu_remaining c') ms)))"
      "sr_tx r' = sr_tx r" "\<not> sr_closed r'" "sr_err r' = None" using ms by auto
    have "limited (cu_remaining c) (x # ms) = x # limited (cu_remaining c') ms"
      using False c'(7) by (cases "nat (cu_remaining c)") (auto simp: limited_def nat_diff_distrib')
    then show ?thesis using Cons.prems False c'(1,2) IH
      by (subst SQLResult_Rows.simps) (simp add: SQLResult_Next_def cursor_next_def SQLResult_Row_def flip: Cons.hyps(2))
  qed
qed

section \<open>The statement\<close>

text \<open>A table of the catalogue, with its rows.\<close>

definition stored_table :: "Schema \<Rightarrow> row set \<Rightarrow> (bytes \<rightharpoonup> bytes) \<Rightarrow> bool" where
  "stored_table s R m \<longleftrightarrow> table_ok s \<and> names_ok s \<and> plain_table s \<and> length (sc_Indices s) \<le> 128 \<and> in_catalog s m \<and> table_holds s R m"

text \<open>A condition that every row answers, nested with the room the planner needs.\<close>

definition cond_total :: "Schema \<Rightarrow> row set \<Rightarrow> expr option \<Rightarrow> bool" where
  "cond_total s R cond \<longleftrightarrow> pred_option expr_ok cond \<and> pred_option (\<lambda>e. edepth e + maxPlanConjuncts \<le> maxExprDepth) cond \<and>
     (\<forall>r\<in>R. \<exists>b. matchRow s r cond = Inr b)"

lemma plan_ok:
  assumes t: "stored_table s R m" and c: "cond_total s R cond"
  obtains plan where "planScan s cond = Inr plan" "req_ok s (sp_req plan)" "rr_IndexNo (sp_req plan) < 128"
    "\<And>r. r \<in> R \<Longrightarrow> (in_range s (sp_req plan) r \<longrightarrow> (\<exists>b. matchRow s r (sp_residual plan) = Inr b)) \<and>
      (in_range s (sp_req plan) r \<and> matches s (sp_residual plan) r \<longleftrightarrow> matches s cond r)"
proof -
  have so: "schema_ok s" "names_ok s" and R: "\<forall>r\<in>R. row_ok s r" using t by (auto simp: stored_table_def table_ok_def table_holds_def)
  obtain plan where p: "planScan s cond = Inr plan" "req_ok s (sp_req plan)" using planScan_total[OF so] c by (auto simp: cond_total_def)
  have "rr_IndexNo (sp_req plan) < 128" using p(2) t by (auto simp: req_ok_def prefix_ok_def stored_table_def)
  moreover have "(in_range s (sp_req plan) r \<longrightarrow> (\<exists>b. matchRow s r (sp_residual plan) = Inr b)) \<and>
      (in_range s (sp_req plan) r \<and> matches s (sp_residual plan) r \<longleftrightarrow> matches s cond r)" if r: "r \<in> R" for r
  proof -
    obtain b where b: "matchRow s r cond = Inr b" using c r by (auto simp: cond_total_def)
    have "if in_range s (sp_req plan) r then matchRow s r (sp_residual plan) = Inr b else \<not> b"
      using plan_matches[OF so _ _ p(1) _ b] R r c by (auto simp: cond_total_def)
    then show ?thesis using b by (auto split: if_splits)
  qed
  ultimately show thesis using that p by blast
qed

lemma scan_order_filter: "scan_order s req rs \<Longrightarrow> scan_order s req (filter P rs)"
  by (simp add: scan_order_def Let_def sorted_wrt_filter)

lemma scan_order_distinct: "scan_order s req rs \<Longrightarrow> distinct rs"
proof -
  assume "scan_order s req rs"
  then have "sorted_wrt (\<lambda>a b. a \<noteq> b) rs" unfolding scan_order_def Let_def by (rule sorted_wrt_mono_rel[rotated]) (auto split: if_splits)
  then show ?thesis by (induction rs) auto
qed

lemma execSelect_ok:
  assumes t: "stored_table s R m" and v: "tx_sees kv (dtx_kv tx) m" and tx: "dtx_tables tx (sc_Table s) = None"
    and st: "sel_table stmt = sc_Table s" "expandProjection s (sel_cols stmt) = Inr (proj, desc)" "cond_total s R (sel_cond stmt)"
    and ev: "\<forall>r\<in>R. \<exists>out. eval_list s r proj = Inr out"
  obtains tx' res rs plan where "execSelect kv tx stmt = (tx', Inr res)" "dtx_kv tx' = dtx_kv tx" "sr_cols res = desc" "sr_cursor res \<noteq> None"
    "distinct rs" "set rs = {r\<in>R. matches s (sel_cond stmt) r}" "planScan s (sel_cond stmt) = Inr plan" "scan_order s (sp_req plan) rs"
    "\<And>tx. \<exists>res'. SQLResult_Rows kv (res\<lparr>sr_tx := Some tx\<rparr>) [] =
      Some (res', Inr (map (project s proj) (limited (sel_limit stmt) (drop (nat (sel_offset stmt)) rs)))) \<and>
      sr_tx res' = Some tx \<and> \<not> sr_closed res' \<and> sr_err res' = None"
proof -
  have T: "table_ok s" "table_holds s R m" "schema_ok s" "in_catalog s m" using t by (auto simp: stored_table_def table_ok_def)
  obtain plan where p: "planScan s (sel_cond stmt) = Inr plan" "req_ok s (sp_req plan)" "rr_IndexNo (sp_req plan) < 128"
    "\<And>r. r \<in> R \<Longrightarrow> (in_range s (sp_req plan) r \<longrightarrow> (\<exists>b. matchRow s r (sp_residual plan) = Inr b)) \<and>
      (in_range s (sp_req plan) r \<and> matches s (sp_residual plan) r \<longleftrightarrow> matches s (sel_cond stmt) r)"
    using plan_ok[OF t st(3)] by blast
  let ?tx = "tx\<lparr>dtx_tables := (dtx_tables tx)(sc_Table s \<mapsto> s)\<rparr>"
  have v': "tx_sees kv (dtx_kv ?tx) m" using v by simp
  obtain it all where r: "DBTX_Range kv ?tx s (sp_req plan) = Inr it" "yields kv it all" "set all = {r\<in>R. in_range s (sp_req plan) r}"
    "scan_order s (sp_req plan) all" using Range_ok[OF T(1,2) v' p(2,3)] .
  define c where "c = \<lparr>cu_schema = s, cu_plan = plan, cu_proj = proj, cu_iter = it, cu_started = False,
    cu_remaining = (if sel_limit stmt < 0 then -1 else sel_limit stmt), cu_skip = sel_offset stmt, cu_out = [], cu_scanned = 0\<rparr>"
  let ?res = "empty_result\<lparr>sr_cols := desc, sr_cursor := Some c\<rparr>" and ?rs = "filter (matches s (sp_residual plan)) all"
  have ex: "execSelect kv tx stmt = (?tx, Inr ?res)"
    using GetSchema_ok[OF T(3,4) v tx] st p(1) r(1) by (simp add: execSelect_def c_def)
  have at: "cursor_at kv c all" "query_of c = (s, plan, proj)" using r(2,3) p(4) ev by (auto simp: cursor_at_def c_def query_of_def)
  have "\<exists>res'. SQLResult_Rows kv (?res\<lparr>sr_tx := Some tx\<rparr>) [] =
      Some (res', Inr ([] @ map (project s proj) (limited (cu_remaining c) (drop (nat (cu_skip c)) ?rs)))) \<and>
      sr_tx res' = sr_tx (?res\<lparr>sr_tx := Some tx\<rparr>) \<and> \<not> sr_closed res' \<and> sr_err res' = None" for tx
    by (rule SQLResult_Rows_ok[OF _ _ _ at]) (simp_all add: empty_result_def)
  moreover have "limited (cu_remaining c) xs = limited (sel_limit stmt) xs" "cu_skip c = sel_offset stmt" for xs :: "row list"
    by (simp_all add: c_def limited_def)
  moreover have "set ?rs = {r\<in>R. matches s (sel_cond stmt) r}" using r(3) p(4) by auto
  moreover have "scan_order s (sp_req plan) ?rs" by (rule scan_order_filter[OF r(4)])
  ultimately show thesis using that[of ?tx ?res ?rs plan] ex p(1) scan_order_distinct[of s "sp_req plan" ?rs] by simp
qed

text \<open>A transaction at the top that has written nothing ends without a trace.\<close>

lemma read_only_commit:
  assumes inv: "store_inv kv pend" and op: "\<not> kv_closed kv" and n: "KV_NewTX kv = (kv1, i)"
  obtains kv' where "KVTX_Commit cl i kv1 = (kv', Inr ())" "store_inv kv' pend" "kv_view kv' = kv_view kv" "kv_ongoing kv' = kv_ongoing kv"
proof -
  note N = NewTX_ok[OF inv op n]
  have i: "i \<in> set (kv_ongoing kv1)" using N(9) by simp
  have k: "with_updates i empty_array kv1 = kv1" using with_updates_id[of i kv1] N(5) by simp
  have t: "tx_target (tx_of kv1 i) = TKV" "tx_err (tx_of kv1 i) = None" using store_invE(7)[OF N(2) i] by (simp_all add: tx_inv_def)
  obtain k2 where u: "KV_untrackTXSync i kv1 = (k2, Inr ())" using untrack_ok[OF N(2) i] by metis
  have "Array_Size (tx_updates (tx_of kv1 i)) = 0" using N(5) by (simp add: Array_Size_def empty_array_def)
  then have c: "KVTX_Commit cl i kv1 = (k2, Inr ())" using t u by (simp add: KVTX_Commit_def KV_applyTXSync_def)
  have wf: "arr_wf empty_array" by simp
  from single_commit(1-3)[OF inv op n wf, of cl k2 "Inr ()"] c show thesis
    using that[of k2] by (simp add: k)
qed

text \<open>
  C32: a SELECT over a stored table (valid schema with at most 128 indices, columns found by
  their names) whose condition and projection evaluate without error on every row of the table, the
  condition nested at least \<open>maxPlanConjuncts\<close> levels below the limit, runs and returns, in the order of
  the index the planner chose and without repetition, the projections of exactly the rows that satisfy
  the condition, from the offset on and up to the limit; closing the result leaves the store as it was.
\<close>

theorem select_exact:
  assumes inv: "store_inv kv pend" and op: "\<not> kv_closed kv" and t: "stored_table s R (kv_view kv)"
    and st: "sel_table stmt = sc_Table s" "expandProjection s (sel_cols stmt) = Inr (proj, desc)" "cond_total s R (sel_cond stmt)"
    and ev: "\<forall>r\<in>R. \<exists>out. eval_list s r proj = Inr out"
  shows "\<exists>kv' res res' rs plan. DB_ExecStmt cl (SSelect stmt) kv = Some (kv', Inr res) \<and> sr_cols res = desc \<and>
    SQLResult_Rows kv' res [] = Some (res', Inr (map (project s proj) (limited (sel_limit stmt) (drop (nat (sel_offset stmt)) rs)))) \<and>
    distinct rs \<and> set rs = {r\<in>R. matches s (sel_cond stmt) r} \<and> planScan s (sel_cond stmt) = Inr plan \<and> scan_order s (sp_req plan) rs \<and>
    (\<exists>kv'' r. SQLResult_Close cl res' kv' = (kv'', r, Inr ()) \<and> store_inv kv'' pend \<and> kv_view kv'' = kv_view kv \<and> kv_ongoing kv'' = kv_ongoing kv)"
proof -
  obtain kv1 tx where n: "DB_NewTX kv = (kv1, tx)" by fastforce
  note N = DB_NewTX_sees[OF inv op n]
  have tx: "dtx_tables tx (sc_Table s) = None" using n by (auto simp: DB_NewTX_def split: prod.splits)
  obtain tx' res rs plan where x: "execSelect kv1 tx stmt = (tx', Inr res)" "dtx_kv tx' = dtx_kv tx" "sr_cols res = desc" "sr_cursor res \<noteq> None"
    "distinct rs" "set rs = {r\<in>R. matches s (sel_cond stmt) r}" "planScan s (sel_cond stmt) = Inr plan" "scan_order s (sp_req plan) rs"
    "\<And>tx. \<exists>res'. SQLResult_Rows kv1 (res\<lparr>sr_tx := Some tx\<rparr>) [] =
      Some (res', Inr (map (project s proj) (limited (sel_limit stmt) (drop (nat (sel_offset stmt)) rs)))) \<and>
      sr_tx res' = Some tx \<and> \<not> sr_closed res' \<and> sr_err res' = None"
    using execSelect_ok[OF t N(1) tx st ev] by blast
  obtain res' where r: "SQLResult_Rows kv1 (res\<lparr>sr_tx := Some tx'\<rparr>) [] =
      Some (res', Inr (map (project s proj) (limited (sel_limit stmt) (drop (nat (sel_offset stmt)) rs))))"
    "sr_tx res' = Some tx'" "\<not> sr_closed res'" "sr_err res' = None" using x(9) by blast
  obtain kv2 where c: "KVTX_Commit cl (dtx_kv tx) kv1 = (kv2, Inr ())" "store_inv kv2 pend" "kv_view kv2 = kv_view kv" "kv_ongoing kv2 = kv_ongoing kv"
    using read_only_commit[OF inv op N(2)] .
  have "DB_ExecStmt cl (SSelect stmt) kv = Some (kv1, Inr (res\<lparr>sr_tx := Some tx'\<rparr>))"
    using n x(1,4) by (auto simp: DB_ExecStmt_def execStmtOwned_def execStmt_def)
  moreover have "\<exists>r'. SQLResult_Close cl res' kv1 = (kv2, r', Inr ())"
    using r c(1) x(2) by (simp add: SQLResult_Close_def DBTX_Commit_def Let_def)
  moreover have "sr_cols (res\<lparr>sr_tx := Some tx'\<rparr>) = desc" using x(3) by simp
  ultimately show ?thesis using r(1) x(5-8) c(2-4) by blast
qed

text \<open>A store with any given contents, and one that holds a row of the table \<^const>\<open>demo_schema\<close>.\<close>

lemma array_of_map:
  "finite (dom m) \<Longrightarrow> \<exists>a. arr_wf a \<and> arr_map a = (\<lambda>k. map_option (\<lambda>v. (v, False)) (m k))"
proof (induction "dom m" arbitrary: m rule: finite_induct)
  case empty
  then have "m = Map.empty" by auto
  then show ?case using arr_wf_empty by (intro exI[of _ empty_array]) simp
next
  case (insert k D)
  have "D = dom (m(k := None))" using insert(2,4) by auto
  then obtain a where a: "arr_wf a" "arr_map a = (\<lambda>j. map_option (\<lambda>v. (v, False)) ((m(k := None)) j))" using insert(3) by blast
  obtain v where v: "m k = Some v" using insert(4) by blast
  show ?case using Array_Set_wf(1,2)[OF a(1), of k v] a(2) v by (intro exI[of _ "fst (Array_Set a k v)"]) (auto simp: fun_eq_iff)
qed

abbreviation demo_at :: "SortedArray \<Rightarrow> unit KV" where
  "demo_at mem \<equiv> demo_kv (fst (Log_Open (clean []))) mem 0 [] [] []"

lemma demo_at_ok:
  assumes "finite (dom m)"
  obtains mem where "store_inv (demo_at mem) []" "history_ok (demo_at mem)" "\<not> kv_closed (demo_at mem)" "kv_view (demo_at mem) = m"
proof -
  obtain a where a: "arr_wf a" "arr_map a = (\<lambda>k. map_option (\<lambda>v. (v, False)) (m k))" using array_of_map[OF assms] by blast
  have "live (arr_map a) = m" by (auto simp: a(2) live_def fun_eq_iff split: option.splits)
  then show thesis using a(1) that[of a] by (simp add: demo_kv_def inv_defs history_ok_def kv_view_def store_levels_def)
qed

lemma demo_stored:
  obtains mem where "store_inv (demo_at mem) []" "history_ok (demo_at mem)" "\<not> kv_closed (demo_at mem)"
    "stored_table demo_schema {demo_row} (kv_view (demo_at mem))"
proof -
  define m where "m = [schemaKey (sc_Table demo_schema) \<mapsto> marshal_schema demo_schema]"
  have pt: "plain_table demo_schema" "names_ok demo_schema" "schema_plain demo_schema" by code_simp+
  have out: "m k = None" if "k \<in> table_region demo_schema" for k using schemaKey_outside[OF pt(1)] that by (auto simp: m_def)
  have h: "table_holds demo_schema {} m" using out by (auto simp: table_holds_def holds_rows_def table_region_def)
  obtain mem where s: "store_inv (demo_at mem) []" "\<not> kv_closed (demo_at mem)" "kv_view (demo_at mem) = m"
    using demo_at_ok[of m] by (auto simp: m_def)
  obtain kv tx where n: "DB_NewTX (demo_at mem) = (kv, tx)" by fastforce
  have v: "tx_sees kv (dtx_kv tx) m" using DB_NewTX_sees(1)[OF s(1,2) n] s(3) by simp
  obtain kv' m' where w: "wrote kv (dtx_kv tx) (dom m) kv' m'" "table_holds demo_schema {demo_row} m'"
    "\<forall>k. k \<notin> table_region demo_schema \<longrightarrow> m' k = m k"
    using DBTX_modify_ok[OF demo_table_ok h demo_schema_ok(2) _ v, of ModeUpsert no_cache] apply (simp add: row_put_def row_wanted_def)
    subgoal premises p by (rule p(2)[OF p(1)])
    done
  have f: "finite (dom m')" using sees_finite[OF wrote_sees[OF w(1)]] .
  have "stored_table demo_schema {demo_row} m'"
    using w(2,3) pt demo_table_ok schemaKey_outside[OF pt(1)] demo_schema_ok(4) by (simp add: stored_table_def in_catalog_def m_def)
  then show thesis using demo_at_ok[OF f] that by (metis (full_types))
qed

definition demo_select :: StmtSelect where
  "demo_select = \<lparr>sel_table = [116], sel_cols = [EName [98]], sel_cond = Some (EBinOp OP_EQ (EName [97]) (ECell (cell_int 5))),
     sel_limit = -1, sel_offset = 0\<rparr>"

theorem select_exact_witness:
  "\<exists>mem kv' res res'. stored_table demo_schema {demo_row} (kv_view (demo_at mem)) \<and>
     DB_ExecStmt no_cache (SSelect demo_select) (demo_at mem) = Some (kv', Inr res) \<and>
     SQLResult_Rows kv' res [] = Some (res', Inr [[cell_str [120, 0]]])"
proof -
  obtain mem where s: "store_inv (demo_at mem) []" "\<not> kv_closed (demo_at mem)" "stored_table demo_schema {demo_row} (kv_view (demo_at mem))"
    using demo_stored by blast
  have p: "sel_table demo_select = sc_Table demo_schema"
    "expandProjection demo_schema (sel_cols demo_select) = Inr ([EName [98]], [\<lparr>cd_Name = [98], cd_Type = TypeStr\<rparr>])" by code_simp+
  have m: "matchRow demo_schema demo_row (sel_cond demo_select) = Inr True"
    and ev: "eval_list demo_schema demo_row [EName [98]] = Inr [cell_str [120, 0]]" by code_simp+
  have c: "cond_total demo_schema {demo_row} (sel_cond demo_select)"
    using m by (auto simp: cond_total_def) (simp_all add: demo_select_def maxPlanConjuncts_def maxExprDepth_def)
  have e: "\<forall>r\<in>{demo_row}. \<exists>out. eval_list demo_schema r [EName [98]] = Inr out" using ev by simp
  obtain kv' res res' rs where x: "DB_ExecStmt no_cache (SSelect demo_select) (demo_at mem) = Some (kv', Inr res)"
    "SQLResult_Rows kv' res [] = Some (res', Inr (map (project demo_schema [EName [98]]) (limited (sel_limit demo_select) (drop (nat (sel_offset demo_select)) rs))))"
    "distinct rs" "set rs = {r\<in>{demo_row}. matches demo_schema (sel_cond demo_select) r}"
    using select_exact[OF s(1,2,3) p c e, of no_cache] by blast
  have rs: "set rs = {demo_row}" using x(4) m by auto
  then have "length rs = 1" using distinct_card[OF x(3)] by simp
  then have rs: "rs = [demo_row]" using rs by (cases rs) auto
  have "map (project demo_schema [EName [98]]) (limited (sel_limit demo_select) (drop (nat (sel_offset demo_select)) rs)) = [[cell_str [120, 0]]]"
    using ev by (simp add: rs demo_select_def limited_def project_def)
  then show ?thesis using x(1,2) s(3) by metis
qed

end
