(* ===== verification/MutateOk.thy ===== *)
theory MutateOk
  imports SelectOk
begin

text \<open>
  UPDATE, DELETE and DROP TABLE: \<open>forEachMatch\<close> of table.go applies its function to every matching row
  exactly once, whether the first batch covers the statement or the scan is resumed batch by batch.
\<close>

section \<open>Changing a set of rows\<close>

text \<open>The rows after those of \<open>S\<close> were changed: \<open>f\<close> tells what a row becomes, \<^const>\<open>None\<close> that it goes.\<close>

definition changed :: "(row \<Rightarrow> row option) \<Rightarrow> row set \<Rightarrow> row set \<Rightarrow> row set" where
  "changed f R S = (R - S) \<union> {r'. \<exists>r\<in>S. f r = Some r'}"

lemma changed_empty [simp]: "changed f R {} = R"
  by (simp add: changed_def)

lemma changed_twice:
  "B \<subseteq> R - A \<Longrightarrow> \<forall>r\<in>A. \<forall>r'. f r = Some r' \<longrightarrow> r' \<notin> B \<Longrightarrow> changed f (changed f R A) B = changed f R (A \<union> B)"
  by (auto simp: changed_def)

text \<open>The effect of a statement on the table as the transaction sees it.\<close>

definition changed_to ::
  "(row \<Rightarrow> row option) \<Rightarrow> Schema \<Rightarrow> nat \<Rightarrow> row set \<Rightarrow> row set \<Rightarrow> 'c KV \<Rightarrow> (bytes \<rightharpoonup> bytes) \<Rightarrow> 'c KV \<Rightarrow> (bytes \<rightharpoonup> bytes) \<Rightarrow> bool" where
  "changed_to f s i R S kv m kv' m' \<longleftrightarrow> wrote kv i UNIV kv' m' \<and> table_holds s (changed f R S) m' \<and> (\<forall>k. k \<notin> table_region s \<longrightarrow> m' k = m k)"

lemma changed_to_trans:
  assumes "changed_to f s i R A kv m kv1 m1" and "changed_to f s i (changed f R A) B kv1 m1 kv2 m2"
    and "B \<subseteq> R - A" and "\<forall>r\<in>A. \<forall>r'. f r = Some r' \<longrightarrow> r' \<notin> B"
  shows "changed_to f s i R (A \<union> B) kv m kv2 m2"
  using assms wrote_trans by (auto simp: changed_to_def changed_twice)

lemma rows_unique:
  "table_ok s \<Longrightarrow> table_holds s R m \<Longrightarrow> r \<in> R \<Longrightarrow> r' \<in> R \<Longrightarrow> pkey_of s r = pkey_of s r' \<Longrightarrow> r = r'"
  using rows.rows_primary[of s R m r r'] pkey_iff[of s r r'] by (auto simp: table_holds_def)

section \<open>Resuming after a primary key\<close>

definition resume_req :: "RangeReq \<Rightarrow> cell list option \<Rightarrow> RangeReq" where
  "resume_req req resume = (case resume of None \<Rightarrow> req | Some cells \<Rightarrow> req\<lparr>rr_StartCmp := OP_GT, rr_Start := cells\<rparr>)"

lemma pkeyCells_ok:
  assumes "schema_ok s" and "row_ok s r"
  shows "pkeyCells s r = Inr (pkey_of s r)" and "prefix_ok s 0 (pkey_of s r)"
proof -
  have i: "0 < length (sc_Indices s)" "index_in s (index_of s 0)" using index_of_in[OF assms(1)] schema_ok_indices[OF assms(1)] by auto
  have "index_in s index \<Longrightarrow> cells_at r index = Inr (row_cells r index)" for index
    using row_ok_length[OF assms(2)] by (induction index) (auto simp: index_in_def row_cells_def go_index_def)
  then show "pkeyCells s r = Inr (pkey_of s r)" using i by (simp add: pkeyCells_def pkey_of_def go_index_def)
  show "prefix_ok s 0 (pkey_of s r)" using i row_cells_of[OF assms(2) i(2)] by (simp add: prefix_ok_def pkey_of_def row_cells_def index_types_def)
qed

lemma resume_ok:
  assumes s: "table_ok s" and l: "row_ok s l" and r: "row_ok s r"
  shows "req_ok s (resume_req fullScanReq (Some (pkey_of s l)))"
    and "in_range s (resume_req fullScanReq (Some (pkey_of s l))) r \<longleftrightarrow> row_key s 0 l < row_key s 0 r"
proof -
  have so: "schema_ok s" using s by (simp add: table_ok_def)
  let ?req = "resume_req fullScanReq (Some (pkey_of s l))" and ?p = "prefix_key s 0 (pkey_of s l)"
  note p = pkeyCells_ok(2)[OF so l]
  show "req_ok s ?req" using full_scan(1)[OF so r] p by (simp add: req_ok_def resume_req_def fullScanReq_def isDescending_def)
  have len: "length (pkey_of s x) = length (index_of s 0)" for x by (simp add: pkey_of_def row_cells_def)
  have t: "take (length (pkey_of s l)) (row_cells x (index_of s 0)) = pkey_of s x" for x by (simp add: len) (simp add: pkey_of_def row_cells_def)
  have cs: "cells_of (pkey_of s x) (index_types s 0)" if "row_ok s x" for x
    using pkeyCells_ok(2)[OF so that] by (simp add: prefix_ok_def len index_types_def)
  note b = prefix_bounds[OF so _ p, unfolded t]
  note lin = cells_less_linear[OF cs[OF l] cs[OF r]]
  have irr: "\<not> cells_less (pkey_of s l) (pkey_of s l)" using cells_less_linear(2)[OF cs[OF l] cs[OF l]] by blast
  have lo: "?p False \<le> row_key s 0 l" "row_key s 0 l \<le> ?p True" using b[OF l] irr by simp_all
  have "?p True \<le> row_key s 0 r \<longleftrightarrow> row_key s 0 l < row_key s 0 r"
  proof
    assume a: "?p True \<le> row_key s 0 r"
    then have "pkey_of s l \<noteq> pkey_of s r" using b(2)[OF r, of True] irr by auto
    then show "row_key s 0 l < row_key s 0 r" using a lo(2) pkey_iff[OF s l r] by auto
  next
    assume a: "row_key s 0 l < row_key s 0 r"
    then have "\<not> cells_less (pkey_of s r) (pkey_of s l)" using b(2)[OF r, of False] order.trans[OF lo(1)] by auto
    moreover have "pkey_of s l \<noteq> pkey_of s r" using a pkey_iff[OF s l r] by auto
    ultimately show "?p True \<le> row_key s 0 r" using lin(1) b(2)[OF r, of True] by auto
  qed
  moreover have "row_key s 0 r \<le> stop_key s ?req"
    using full_scan(2)[OF so r] by (simp add: in_range_def Let_def resume_req_def fullScanReq_def stop_key_def isDescending_def)
  ultimately show "in_range s ?req r \<longleftrightarrow> row_key s 0 l < row_key s 0 r"
    by (simp add: in_range_def Let_def start_key_def resume_req_def fullScanReq_def isDescending_def suffixPositive_def stop_key_def)
qed

section \<open>Collecting a batch\<close>

lemma collect_loop_ok:
  assumes "yields kv it rs" and "\<forall>r\<in>set rs. \<exists>b. matchRow s r e = Inr b" and "length batch < mutateBatchSize"
  defines "all \<equiv> batch @ filter (matches s e) rs"
  shows "collect_loop kv s e it batch = Some (Inr (take mutateBatchSize all, length all < mutateBatchSize))"
  using assms(1-3) unfolding all_def
proof (induction arbitrary: batch rule: yields.induct)
  case (yields_end it)
  then show ?case by (subst collect_loop.simps) simp
next
  case (yields_row it r it' rs)
  obtain b where b: "matchRow s r e = Inr b" using yields_row(6) by auto
  have m: "\<forall>r\<in>set rs. \<exists>b. matchRow s r e = Inr b" using yields_row(6) by simp
  consider (no) "\<not> b" | (more) b "Suc (length batch) < mutateBatchSize" | (full) b "Suc (length batch) = mutateBatchSize"
    using yields_row(7) by linarith
  then show ?case
  proof cases
    case no
    then show ?thesis using yields_row(1-3) yields_row.IH[OF m yields_row(7)] b by (subst collect_loop.simps) (simp add: Let_def)
  next
    case more
    then show ?thesis using yields_row(1-3) yields_row.IH[OF m, of "batch @ [r]"] b by (subst collect_loop.simps) (simp add: Let_def)
  next
    case full
    then show ?thesis using yields_row(1-3) b by (subst collect_loop.simps) (simp add: Let_def flip: full(2))
  qed
qed

lemma collectBatch_ok:
  assumes s: "table_ok s" and h: "table_holds s R m" and v: "tx_sees kv (dtx_kv tx) m"
    and q: "req_ok s (resume_req (sp_req plan) resume)" "rr_IndexNo (sp_req plan) < 128"
    and e: "\<forall>r\<in>R. in_range s (resume_req (sp_req plan) resume) r \<longrightarrow> (\<exists>b. matchRow s r (sp_residual plan) = Inr b)"
  obtains rs where "collectBatch kv tx s plan resume = Some (Inr (take mutateBatchSize rs, length rs < mutateBatchSize))" "distinct rs"
    "set rs = {r\<in>R. in_range s (resume_req (sp_req plan) resume) r \<and> matches s (sp_residual plan) r}"
    "scan_order s (resume_req (sp_req plan) resume) rs"
proof -
  let ?req = "resume_req (sp_req plan) resume"
  have n: "rr_IndexNo ?req < 128" using q(2) by (simp add: resume_req_def split: option.splits)
  obtain it all where r: "DBTX_Range kv tx s ?req = Inr it" "yields kv it all" "set all = {r\<in>R. in_range s ?req r}" "scan_order s ?req all"
    using Range_ok[OF s h v q(1) n] .
  let ?rs = "filter (matches s (sp_residual plan)) all"
  have "collectBatch kv tx s plan resume = Some (Inr (take mutateBatchSize ?rs, length ?rs < mutateBatchSize))"
    using collect_loop_ok[OF r(2), of s "sp_residual plan" "[]"] r(1,3) e
    by (simp add: collectBatch_def Let_def resume_req_def mutateBatchSize_def split: option.splits)
  moreover note so = scan_order_filter[OF r(4)]
  ultimately show thesis using that r(3) scan_order_distinct[OF so] so by auto
qed

lemma sorted_wrt_last:
  fixes key :: "'a \<Rightarrow> 'b :: linorder"
  shows "sorted_wrt (\<lambda>a b. key a < key b) xs \<Longrightarrow> x \<in> set xs \<Longrightarrow> key x \<le> key (last xs)"
  by (induction xs) (auto simp: less_imp_le)

section \<open>Every matching row once\<close>

text \<open>
  The contract of a function that \<open>forEachMatch\<close> applies: on a row of the table it succeeds, turns it
  into what \<open>f\<close> says without touching its primary key, and counts it when that changes something.
\<close>

locale row_change =
  fixes fn :: "DBTX \<Rightarrow> Schema \<Rightarrow> row \<Rightarrow> 'c mstate \<Rightarrow> 'c mstate \<times> unit res" and f :: "Schema \<Rightarrow> row \<Rightarrow> row option"
    and good :: "Schema \<Rightarrow> row \<Rightarrow> bool"
  assumes keeps_key: "table_ok s \<Longrightarrow> row_ok s r \<Longrightarrow> good s r \<Longrightarrow> f s r = Some r' \<Longrightarrow> row_ok s r' \<and> pkey_of s r' = pkey_of s r"
    and changes: "table_ok s \<Longrightarrow> table_holds s R m \<Longrightarrow> tx_sees kv (dtx_kv tx) m \<Longrightarrow> r \<in> R \<Longrightarrow> good s r \<Longrightarrow>
      \<exists>kv' m'. fn tx s r (kv, n) = ((kv', n + (if f s r = Some r then 0 else 1)), Inr ()) \<and> changed_to (f s) s (dtx_kv tx) R {r} kv m kv' m'"
begin

abbreviation count :: "Schema \<Rightarrow> row set \<Rightarrow> nat" where
  "count s S \<equiv> card {r\<in>S. f s r \<noteq> Some r}"

lemma images_apart:
  assumes "table_ok s" and "table_holds s R m" and "A \<subseteq> R" and "B \<subseteq> R - A" and "\<forall>r\<in>A. good s r"
  shows "\<forall>r\<in>A. \<forall>r'. f s r = Some r' \<longrightarrow> r' \<notin> B"
proof (intro ballI allI impI notI)
  fix r r' assume r: "r \<in> A" "f s r = Some r'" "r' \<in> B"
  have "row_ok s r" using assms(2,3) r(1) by (auto simp: table_holds_def)
  then have "pkey_of s r' = pkey_of s r" using keeps_key[OF assms(1)] r assms(5) by blast
  then show False using rows_unique[OF assms(1,2), of r' r] r assms(3,4) by blast
qed

lemma apply_rows_ok:
  assumes s: "table_ok s" and h: "table_holds s R m" and v: "tx_sees kv (dtx_kv tx) m"
    and rs: "distinct rs" "set rs \<subseteq> R" "\<forall>r\<in>set rs. good s r"
  shows "\<exists>kv' m'. apply_rows (fn tx s) rs (kv, n) = ((kv', n + count s (set rs)), Inr ()) \<and>
    changed_to (f s) s (dtx_kv tx) R (set rs) kv m kv' m'"
  using h v rs
proof (induction rs arbitrary: R m kv n)
  case Nil
  then show ?case using wrote_refl[OF Nil(2)] by (auto simp: changed_to_def)
next
  case (Cons r rs)
  obtain kv1 m1 where 1: "fn tx s r (kv, n) = ((kv1, n + (if f s r = Some r then 0 else 1)), Inr ())" "changed_to (f s) s (dtx_kv tx) R {r} kv m kv1 m1"
    using changes[OF s Cons.prems(1,2), of r n] Cons.prems(4,5) by auto
  have ap: "\<forall>x\<in>{r}. \<forall>r'. f s x = Some r' \<longrightarrow> r' \<notin> set rs"
    using images_apart[OF s Cons.prems(1), of "{r}" "set rs"] Cons.prems(3-5) by auto
  have h1: "table_holds s (changed (f s) R {r}) m1" "tx_sees kv1 (dtx_kv tx) m1" using 1(2) wrote_sees by (auto simp: changed_to_def)
  have sub: "set rs \<subseteq> changed (f s) R {r}" and d: "distinct rs" "\<forall>x\<in>set rs. good s x" using Cons.prems(3-5) by (auto simp: changed_def)
  obtain kv' m' where 2: "apply_rows (fn tx s) rs (kv1, n + (if f s r = Some r then 0 else 1)) =
      ((kv', n + (if f s r = Some r then 0 else 1) + count s (set rs)), Inr ())"
    "changed_to (f s) s (dtx_kv tx) (changed (f s) R {r}) (set rs) kv1 m1 kv' m'"
    using Cons.IH[OF h1 d(1) sub d(2), of "n + (if f s r = Some r then 0 else 1)"] by blast
  have "changed_to (f s) s (dtx_kv tx) R (set (r # rs)) kv m kv' m'"
    using changed_to_trans[OF 1(2) 2(2) _ ap] Cons.prems(3,4) by auto
  moreover have "{x\<in>set (r # rs). f s x \<noteq> Some x} = (if f s r = Some r then {} else {r}) \<union> {x\<in>set rs. f s x \<noteq> Some x}" by auto
  then have "count s (set (r # rs)) = (if f s r = Some r then 0 else 1) + count s (set rs)" using Cons.prems(3) by (simp add: card_insert_if)
  ultimately show ?case using 1(1) 2(1) by (auto simp: add.assoc)
qed

text \<open>After a batch, the rows past its last key are the matching rows not yet visited.\<close>

lemma resume_rows:
  assumes s: "table_ok s" and h: "table_holds s R m"
    and res: "case resume of None \<Rightarrow> True | Some cells \<Rightarrow> \<exists>l. row_ok s l \<and> cells = pkey_of s l"
    and rs: "scan_order s (resume_req fullScanReq resume) rs" "set rs = {r\<in>R. in_range s (resume_req fullScanReq resume) r \<and> matches s cond r}"
    and k: "take k rs \<noteq> []" "\<forall>r\<in>set (take k rs). good s r"
  defines "req \<equiv> resume_req fullScanReq (Some (pkey_of s (last (take k rs))))"
  shows "r \<in> changed (f s) R (set (take k rs)) \<Longrightarrow> in_range s req r \<Longrightarrow> r \<in> R - set (take k rs) \<and> in_range s (resume_req fullScanReq resume) r"
    and "{r\<in>changed (f s) R (set (take k rs)). in_range s req r \<and> matches s cond r} = set (drop k rs)"
proof -
  let ?b = "take k rs" and ?req = "resume_req fullScanReq resume" and ?key = "row_key s 0"
  let ?l = "last ?b"
  have so: "schema_ok s" and R: "\<forall>r\<in>R. row_ok s r" using s h by (auto simp: table_ok_def table_holds_def)
  have sub: "set ?b \<subseteq> set rs" "set (drop k rs) \<subseteq> set rs" by (auto dest: in_set_takeD in_set_dropD)
  have l: "?l \<in> set ?b" "?l \<in> set rs" "row_ok s ?l" using k(1) sub R rs(2) last_in_set[OF k(1)] by blast+
  have "sorted_wrt (\<lambda>a b. ?key a < ?key b) (?b @ drop k rs)"
    using rs(1) by (simp add: scan_order_def Let_def resume_req_def fullScanReq_def isDescending_def split: option.splits)
  then have so2: "sorted_wrt (\<lambda>a b. ?key a < ?key b) ?b" "\<forall>x\<in>set ?b. \<forall>y\<in>set (drop k rs). ?key x < ?key y"
    unfolding sorted_wrt_append by blast+
  note le = sorted_wrt_last[OF so2(1)]
  note after = resume_ok(2)[OF s l(3)]
  have mono: "in_range s ?req r" if "row_ok s r" "?key ?l < ?key r" for r
  proof (cases resume)
    case None
    then show ?thesis using full_scan(2)[OF so that(1)] by (simp add: resume_req_def)
  next
    case (Some cells)
    then obtain l0 where l0: "row_ok s l0" "resume = Some (pkey_of s l0)" using res by auto
    have "?key l0 < ?key ?l" using resume_ok(2)[OF s l0(1) l(3)] l(2) rs(2) l0(2) by auto
    then show ?thesis using resume_ok(2)[OF s l0(1) that(1)] that(2) l0(2) by auto
  qed
  have old: "r \<in> R - set ?b \<and> in_range s ?req r" if r: "r \<in> changed (f s) R (set ?b)" "in_range s req r" for r
  proof (cases "r \<in> R - set ?b")
    case True
    then show ?thesis using after[of r] mono[of r] r(2) R by (auto simp: req_def)
  next
    case False
    then obtain r0 where r0: "r0 \<in> set ?b" "f s r0 = Some r" using r(1) by (auto simp: changed_def)
    have ok: "row_ok s r0" using r0(1) sub(1) R rs(2) by blast
    then have ok': "row_ok s r" "pkey_of s r = pkey_of s r0" using keeps_key[OF s ok] k(2) r0 by blast+
    then have "?key r = ?key r0" using pkey_iff[OF s ok'(1) ok] by simp
    then show ?thesis using after[OF ok'(1)] r(2) le[OF r0(1)] by (simp add: req_def)
  qed
  then show "r \<in> changed (f s) R (set ?b) \<Longrightarrow> in_range s req r \<Longrightarrow> r \<in> R - set ?b \<and> in_range s ?req r" .
  have rest: "set rs = set ?b \<union> set (drop k rs)" using set_append[of ?b "drop k rs"] by simp
  show "{r\<in>changed (f s) R (set ?b). in_range s req r \<and> matches s cond r} = set (drop k rs)"
  proof (intro set_eqI iffI)
    fix r assume "r \<in> {r\<in>changed (f s) R (set ?b). in_range s req r \<and> matches s cond r}"
    then show "r \<in> set (drop k rs)" using old[of r] rest rs(2) by blast
  next
    fix r assume r: "r \<in> set (drop k rs)"
    then have R': "r \<in> R" "matches s cond r" using sub(2) rs(2) by blast+
    have "?key ?l < ?key r" using so2(2) l(1) r by blast
    moreover have "r \<notin> set ?b" using le[of r] calculation by auto
    ultimately show "r \<in> {r\<in>changed (f s) R (set ?b). in_range s req r \<and> matches s cond r}"
      using R' after[of r] R by (auto simp: changed_def req_def)
  qed
qed

lemma batch_loop_ok:
  assumes s: "table_ok s" and h: "table_holds s R m" and v: "tx_sees kv (dtx_kv tx) m"
    and res: "case resume of None \<Rightarrow> True | Some cells \<Rightarrow> \<exists>l. row_ok s l \<and> cells = pkey_of s l"
    and e: "\<forall>r\<in>R. in_range s (resume_req fullScanReq resume) r \<longrightarrow> (\<exists>b. matchRow s r cond = Inr b) \<and> (matches s cond r \<longrightarrow> good s r)"
    and S: "S = {r\<in>R. in_range s (resume_req fullScanReq resume) r \<and> matches s cond r}"
  shows "\<exists>kv' m'. batch_loop tx s \<lparr>sp_req = fullScanReq, sp_residual = cond, sp_indexed = False\<rparr> (fn tx s) resume (kv, n) =
      Some ((kv', n + count s S), Inr ()) \<and> changed_to (f s) s (dtx_kv tx) R S kv m kv' m'"
  using h v res e S
proof (induction "card S" arbitrary: R m kv resume n S rule: less_induct)
  case less
  let ?plan = "\<lparr>sp_req = fullScanReq, sp_residual = cond, sp_indexed = False\<rparr>" and ?req = "resume_req fullScanReq resume"
  have so: "schema_ok s" and R: "\<forall>r\<in>R. row_ok s r" using s less.prems(1) by (auto simp: table_ok_def table_holds_def)
  have q: "req_ok s ?req" using resume_ok(1)[OF s] full_scan(1)[OF so] row_exists[OF so] less.prems(3)
    by (auto simp: resume_req_def split: option.splits)
  have n0: "rr_IndexNo fullScanReq < 128" by (simp add: fullScanReq_def)
  obtain rs where c: "collectBatch kv tx s ?plan resume = Some (Inr (take mutateBatchSize rs, length rs < mutateBatchSize))" "distinct rs"
    "set rs = S" "scan_order s ?req rs"
    using collectBatch_ok[OF s less.prems(1,2), of ?plan resume] q n0 less.prems(4,5) by auto
  define b where "b = take mutateBatchSize rs"
  have b: "distinct b" "set b \<subseteq> S" "set b \<subseteq> R" "\<forall>r\<in>set b. good s r"
    using c(2,3) less.prems(4,5) set_take_subset[of mutateBatchSize rs] by (auto simp: b_def)
  obtain kv1 m1 where a: "apply_rows (fn tx s) b (kv, n) = ((kv1, n + count s (set b)), Inr ())"
    "changed_to (f s) s (dtx_kv tx) R (set b) kv m kv1 m1" using apply_rows_ok[OF s less.prems(1,2) b(1,3,4)] by blast
  show ?case
  proof (cases "length rs < mutateBatchSize")
    case True
    then have "b = rs" by (simp add: b_def)
    show ?thesis
    proof (cases "b = []")
      case True
      then show ?thesis using c \<open>b = rs\<close> wrote_refl[OF less.prems(2)] less.prems(1)
        by (subst batch_loop.simps) (auto simp: changed_to_def)
    next
      case False
      then have "row_ok s (last b)" using R b(3) last_in_set by blast
      then show ?thesis using a c True \<open>b = rs\<close> False pkeyCells_ok(1)[OF so] by (subst batch_loop.simps) auto
    qed
  next
    case False
    then have ne: "b \<noteq> []" by (auto simp: b_def mutateBatchSize_def)
    let ?l = "last b" and ?R = "changed (f s) R (set b)"
    have l: "row_ok s ?l" using ne R b(3) last_in_set by blast
    let ?req' = "resume_req fullScanReq (Some (pkey_of s ?l))"
    define S' where "S' = {r\<in>?R. in_range s ?req' r \<and> matches s cond r}"
    note rr = resume_rows[OF s less.prems(1,3) c(4) c(3)[unfolded less.prems(5)], of mutateBatchSize, folded b_def, OF ne b(4)]
    have S': "S' = set (drop mutateBatchSize rs)" using rr(2) by (simp add: S'_def)
    have un: "S = set b \<union> S'" "set b \<inter> S' = {}" "finite S"
      using c(2,3) S' set_take_disj_set_drop_if_distinct[OF c(2), of mutateBatchSize mutateBatchSize]
      by (auto simp: b_def simp flip: set_append)
    have lt: "card S' < card S" using un ne by (intro psubset_card_mono) (auto simp: neq_Nil_conv)
    have h1: "table_holds s ?R m1" "tx_sees kv1 (dtx_kv tx) m1" using a(2) wrote_sees by (auto simp: changed_to_def)
    have e1: "\<forall>r\<in>?R. in_range s ?req' r \<longrightarrow> (\<exists>b. matchRow s r cond = Inr b) \<and> (matches s cond r \<longrightarrow> good s r)"
      using rr(1) less.prems(4) by blast
    obtain kv' m' where i: "batch_loop tx s ?plan (fn tx s) (Some (pkey_of s ?l)) (kv1, n + count s (set b)) =
        Some ((kv', n + count s (set b) + count s S'), Inr ())" "changed_to (f s) s (dtx_kv tx) ?R S' kv1 m1 kv' m'"
      using less.hyps[OF lt h1 _ e1 S'_def, of "n + count s (set b)"] l by auto
    have sub: "S' \<subseteq> R - set b" using un less.prems(5) by blast
    have "changed_to (f s) s (dtx_kv tx) R (set b \<union> S') kv m kv' m'"
      by (rule changed_to_trans[OF a(2) i(2) sub images_apart[OF s less.prems(1) b(3) sub b(4)]])
    moreover have "{r\<in>S. f s r \<noteq> Some r} = {r\<in>set b. f s r \<noteq> Some r} \<union> {r\<in>S'. f s r \<noteq> Some r}" using un(1) by blast
    then have "count s S = count s (set b) + count s S'" using un by (simp add: card_Un_disjoint disjoint_iff)
    moreover have "batch_loop tx s ?plan (fn tx s) resume (kv, n) = batch_loop tx s ?plan (fn tx s) (Some (pkey_of s ?l)) (kv1, n + count s (set b))"
      using c(1) a(1) ne False pkeyCells_ok(1)[OF so l] by (subst batch_loop.simps) (simp add: b_def)
    ultimately show ?thesis using i(1) un(1) by (intro exI[of _ kv'] exI[of _ m']) (simp add: add.assoc)
  qed
qed

lemma forEachMatch_ok:
  assumes t: "stored_table s R m" and v: "tx_sees kv (dtx_kv tx) m" and c: "cond_total s R cond"
    and g: "\<forall>r\<in>R. matches s cond r \<longrightarrow> good s r"
  defines "S \<equiv> {r\<in>R. matches s cond r}"
  shows "\<exists>kv' m'. forEachMatch tx s cond (fn tx s) (kv, n) = Some ((kv', n + count s S), Inr ()) \<and> changed_to (f s) s (dtx_kv tx) R S kv m kv' m'"
proof -
  have T: "table_ok s" "table_holds s R m" "schema_ok s" using t by (auto simp: stored_table_def table_ok_def)
  obtain plan where p: "planScan s cond = Inr plan" "req_ok s (sp_req plan)" "rr_IndexNo (sp_req plan) < 128"
    "\<And>r. r \<in> R \<Longrightarrow> (in_range s (sp_req plan) r \<longrightarrow> (\<exists>b. matchRow s r (sp_residual plan) = Inr b)) \<and>
      (in_range s (sp_req plan) r \<and> matches s (sp_residual plan) r \<longleftrightarrow> matches s cond r)"
    using plan_ok[OF t c] by blast
  have none: "resume_req req None = req" for req by (simp add: resume_req_def)
  obtain rs where b: "collectBatch kv tx s plan None = Some (Inr (take mutateBatchSize rs, length rs < mutateBatchSize))" "distinct rs"
    "set rs = {r\<in>R. in_range s (sp_req plan) r \<and> matches s (sp_residual plan) r}" "scan_order s (sp_req plan) rs"
    using collectBatch_ok[OF T(1,2) v, of plan None, unfolded none, OF p(2,3)] p(4) by blast
  have S: "set rs = S" using b(3) p(4) by (auto simp: S_def)
  show ?thesis
  proof (cases "length rs < mutateBatchSize")
    case True
    have "forEachMatch tx s cond (fn tx s) (kv, n) = Some (apply_rows (fn tx s) rs (kv, n))" using True p(1) b(1) by (simp add: forEachMatch_def)
    then show ?thesis using apply_rows_ok[OF T(1,2) v b(2)] S g by (auto simp: S_def)
  next
    case False
    have R: "in_range s fullScanReq r" if "r \<in> R" for r using full_scan(2)[OF T(3)] T(2) that by (auto simp: table_holds_def)
    have e: "\<forall>r\<in>R. in_range s (resume_req fullScanReq None) r \<longrightarrow> (\<exists>b. matchRow s r cond = Inr b) \<and> (matches s cond r \<longrightarrow> good s r)"
      using c g by (auto simp: cond_total_def)
    have "S = {r\<in>R. in_range s (resume_req fullScanReq None) r \<and> matches s cond r}" using R by (auto simp: S_def none)
    then show ?thesis using batch_loop_ok[OF T(1,2) v _ e] False p(1) b(1) by (simp add: forEachMatch_def)
  qed
qed

lemma mutate_ok:
  assumes t: "stored_table s R m" and v: "tx_sees kv (dtx_kv tx) m" and tx: "dtx_tables tx (sc_Table s) = None" and c: "cond_total s R cond"
    and g: "\<forall>r\<in>R. matches s cond r \<longrightarrow> good s r"
  defines "S \<equiv> {r\<in>R. matches s cond r}"
  shows "\<exists>kv' tx' m'. mutate fn (sc_Table s) cond tx kv = Some ((kv', tx'), Inr (count s S)) \<and> dtx_kv tx' = dtx_kv tx \<and>
    changed_to (f s) s (dtx_kv tx) R S kv m kv' m'"
proof -
  let ?tx = "tx\<lparr>dtx_tables := (dtx_tables tx)(sc_Table s \<mapsto> s)\<rparr>"
  have "DBTX_GetSchema kv tx (sc_Table s) = (?tx, Inr s)" using GetSchema_ok[OF _ _ v tx] t by (simp add: stored_table_def table_ok_def)
  moreover obtain kv' m' where "forEachMatch ?tx s cond (fn ?tx s) (kv, 0) = Some ((kv', 0 + count s S), Inr ())"
    "changed_to (f s) s (dtx_kv ?tx) R S kv m kv' m'" using forEachMatch_ok[OF t _ c g, of kv ?tx 0] v by (auto simp: S_def)
  ultimately show ?thesis by (intro exI[of _ kv'] exI[of _ ?tx] exI[of _ m']) (simp add: mutate_def)
qed

end

lemma changed_to_stored:
  assumes "stored_table s R m" and "changed_to f s i R S kv m kv' m'"
  shows "stored_table s (changed f R S) m'"
  using assms schemaKey_outside[of s "sc_Table s"] by (auto simp: stored_table_def changed_to_def in_catalog_def)

section \<open>The two functions\<close>

interpretation deletes: row_change "delete_row cl" "\<lambda>_ _. None" "\<lambda>_ _. True" for cl :: "'c cacheLib"
proof (unfold_locales, goal_cases)
  case (2 s R m kv tx r n)
  obtain kv' where d: "DBTX_Delete cl tx s r kv = (kv', Inr True)" "wrote kv (dtx_kv tx) (dom m) kv' (m |` (- entry_keys s r))"
    "table_holds s (R - {r}) (m |` (- entry_keys s r))" using DBTX_Delete_ok[OF 2(1,2,4,3)] .
  have "(m |` (- entry_keys s r)) k = m k" if "k \<notin> table_region s" for k using entry_keys_region[of s r] that by (auto simp: restrict_map_def)
  then show ?case using d wrote_mono[OF d(2), of UNIV]
    by (auto simp: delete_row_def count_change_def changed_to_def changed_def)
qed simp

text \<open>What an UPDATE makes of a row.\<close>

definition assigned :: "ExprAssign list \<Rightarrow> Schema \<Rightarrow> row \<Rightarrow> row res" where
  "assigned asg s r = rbind (eval_assigns s r asg) (\<lambda>updates. fillNonPKey s updates r)"

definition updated_row :: "ExprAssign list \<Rightarrow> Schema \<Rightarrow> row \<Rightarrow> row option" where
  "updated_row asg s r = (case assigned asg s r of Inl _ \<Rightarrow> None | Inr r' \<Rightarrow> Some r')"

definition assigns_ok :: "ExprAssign list \<Rightarrow> Schema \<Rightarrow> row \<Rightarrow> bool" where
  "assigns_ok asg s r \<longleftrightarrow> (case assigned asg s r of Inl _ \<Rightarrow> False | Inr r' \<Rightarrow> row_ok s r')"

lemma fillNonPKey_pkey: "schema_ok s \<Longrightarrow> fillNonPKey s updates r = Inr r' \<Longrightarrow> pkey_of s r' = pkey_of s r"
proof (induction updates arbitrary: r)
  case (Cons u updates)
  have i: "go_index (sc_Indices s) 0 = Inr (index_of s 0)" "index_in s (index_of s 0)"
    using schema_ok_indices[OF Cons.prems(1)] index_of_in[OF Cons.prems(1)] by (auto simp: go_index_def)
  obtain idx where idx: "int idx \<notin> set (index_of s 0)" "fillNonPKey s updates (r[idx := nc_value u]) = Inr r'"
    using Cons.prems(2) by (auto simp: i rbind_def split: option.splits if_splits sum.splits)
  have "pkey_of s (r[idx := nc_value u]) = pkey_of s r"
    using idx(1) i(2) by (fastforce simp: pkey_of_def row_cells_eq_iff index_in_def intro: nth_list_update_neq)
  then show ?case using Cons.IH[OF Cons.prems(1) idx(2)] by simp
qed simp

lemma assigned_pkey: "schema_ok s \<Longrightarrow> assigned asg s r = Inr r' \<Longrightarrow> pkey_of s r' = pkey_of s r"
  by (auto simp: assigned_def rbind_def fillNonPKey_pkey split: sum.splits)

interpretation updates: row_change "\<lambda>tx s. update_row cl tx s asg" "updated_row asg" "assigns_ok asg" for cl :: "'c cacheLib" and asg
proof (unfold_locales, goal_cases)
  case (1 s r r')
  then show ?case by (auto simp: updated_row_def assigns_ok_def table_ok_def assigned_pkey split: sum.splits)
next
  case (2 s R m kv tx r n)
  obtain r' where r': "assigned asg s r = Inr r'" "row_ok s r'" using 2(5) by (auto simp: assigns_ok_def split: sum.splits)
  have pk: "pkey_of s r' = pkey_of s r" using 2(1) r'(1) by (auto simp: table_ok_def assigned_pkey)
  let ?w = "row_wanted s ModeUpdate r' R"
  have w: "?w \<longleftrightarrow> r' \<noteq> r" using rows_unique[OF 2(1,2), of r' r] pk 2(4) by (auto simp: row_wanted_def ModeUpdate_def ModeUpsert_def ModeInsert_def)
  obtain kv' m' where m: "DBTX_modify cl tx s r' ModeUpdate kv = (kv', Inr ?w)" "wrote kv (dtx_kv tx) (dom m) kv' m'"
    "table_holds s (if ?w then row_put s r' R else R) m'" "\<forall>k. k \<notin> table_region s \<longrightarrow> m' k = m k"
    using DBTX_modify_ok[OF 2(1,2) r'(2) _ 2(3)] by blast
  have u: "updated_row asg s r = Some r'" using r'(1) by (simp add: updated_row_def)
  have "(if ?w then row_put s r' R else R) = changed (updated_row asg s) R {r}"
    using rows_unique[OF 2(1,2) _ 2(4)] pk 2(4) unfolding w by (auto simp: changed_def row_put_def u)
  then show ?case using m wrote_mono[OF m(2), of UNIV] r'(1) w
    by (auto simp: update_row_def assigned_def count_change_def DBTX_Update_def changed_to_def u)
qed

end
