(* ===== verification/StmtOk.thy ===== *)
theory StmtOk
  imports MutateOk
begin

text \<open>
  The statements of table.go that change data, from \<open>DB.ExecStmt\<close> down to the log: what each means for
  the set of rows of a table, and that executing it commits exactly that.
\<close>

section \<open>Committing a statement\<close>

text \<open>
  A statement that has done its work ends with the commit of its transaction.  Either the commit
  succeeds and the contents become \<open>m\<close>, or it fails and they stay; it succeeds when the log file takes
  the writes and the records of the transaction are within the limits.
\<close>

definition commits :: "'c cacheLib \<Rightarrow> 'c KV \<Rightarrow> nat list \<Rightarrow> (bytes \<rightharpoonup> bytes) \<Rightarrow> 'r \<Rightarrow> 'c KV \<times> 'r res \<Rightarrow> bool" where
  "commits cl kv pend m res out \<longleftrightarrow> (\<exists>kv2 i kv' r. tx_sees kv2 i m \<and> KVTX_Commit cl i kv2 = (kv', r) \<and> out = (kv', rbind r (\<lambda>_. Inr res)) \<and>
     store_inv kv' pend \<and> kv_ongoing kv' = kv_ongoing kv \<and> kv_closed kv' = kv_closed kv \<and> kv_view kv' = (if r = Inr () then m else kv_view kv) \<and>
     (\<forall>f. history_ok kv \<and> l_fp (kv_log kv) = Some f \<and> f_faults f = [] \<and>
        list_all entry_fits (map entry_of (arr_entries (tx_updates (tx_of kv2 i)))) \<longrightarrow> r = Inr ()))"

lemma root_commit_ok:
  assumes inv: "store_inv kv pend" and op: "\<not> kv_closed kv" and n: "KV_NewTX kv = (kv1, i)" and w: "wrote kv1 i UNIV kv2 m"
    and c: "KVTX_Commit cl i kv2 = (kv', r)"
  shows "store_inv kv' pend" and "kv_ongoing kv' = kv_ongoing kv" and "kv_closed kv' = kv_closed kv"
    and "kv_view kv' = (if r = Inr () then m else kv_view kv)" and "arr_wf (tx_updates (tx_of kv2 i))"
    and "history_ok kv \<Longrightarrow> l_fp (kv_log kv) = Some f \<Longrightarrow> f_faults f = [] \<Longrightarrow>
      list_all entry_fits (map entry_of (arr_entries (tx_updates (tx_of kv2 i)))) \<Longrightarrow> r = Inr ()"
proof -
  note N = NewTX_ok[OF inv op n]
  have i1: "i \<in> set (kv_ongoing kv1)" using N(9) by simp
  obtain u where u: "arr_wf u" "store_inv kv2 pend" "i \<in> set (kv_ongoing kv2)" "kv_view kv2 = kv_view kv1"
    "m = overlay (tx_view kv1 i) (arr_map u)" "tx_updates (tx_of kv2 i) = u" "kv_ongoing kv2 = kv_ongoing kv1" "kv_history kv2 = kv_history kv1"
    "kv_log kv2 = kv_log kv1" "kv_snapshot kv2 = kv_snapshot kv1" "kv_closed kv2 = kv_closed kv1" "tx_snapshot (tx_of kv2 i) = tx_snapshot (tx_of kv1 i)"
    using wrote_root[OF N(2) i1 w] .
  have "tx_target (tx_of kv2 i) = TKV" using store_invE(7)[OF u(2,3)] by (simp add: tx_inv_def)
  then have a: "KV_applyTXSync cl i kv2 = (kv', r)" using c by (simp add: KVTX_Commit_def)
  note A = applyTXSync_ok[OF u(2,3) a]
  show "store_inv kv' pend" "arr_wf (tx_updates (tx_of kv2 i))" using A(1) u(1,6) by simp_all
  have "i \<notin> set (kv_ongoing kv)" using N(1) store_invE(7)[OF inv] by (auto simp: tx_inv_def)
  then show "kv_ongoing kv' = kv_ongoing kv" using A(2) u(7) N(9) by (simp add: remove1_append)
  show "kv_view kv' = (if r = Inr () then m else kv_view kv)" using A(4) u(4-6) N(3,4) by simp
  show "kv_closed kv' = kv_closed kv" using A(3) u(11) N(17) by simp
  have "kv_log kv1 = kv_log kv" using n op by (auto simp: KV_NewTX_def Let_def acquire_all)
  then show "r = Inr ()" if "history_ok kv" "l_fp (kv_log kv) = Some f" "f_faults f = []"
    "list_all entry_fits (map entry_of (arr_entries (tx_updates (tx_of kv2 i))))"
    using applyTXSync_total[OF u(2,3), of f cl] that fresh_no_conflict[OF that(1), of kv2 i] u N(6,10) a by auto
qed

lemma root_commit:
  assumes "store_inv kv pend" and "\<not> kv_closed kv" and "KV_NewTX kv = (kv1, i)" and w: "wrote kv1 i UNIV kv2 m"
  shows "commits cl kv pend m res (sbind (KVTX_Commit cl i kv2) (\<lambda>kv _. (kv, Inr res)))"
proof -
  obtain kv' r where c: "KVTX_Commit cl i kv2 = (kv', r)" by fastforce
  note C = root_commit_ok[OF assms c]
  show ?thesis unfolding commits_def using c C(1-4,6) wrote_sees[OF w]
    by (intro exI[of _ kv2] exI[of _ i] exI[of _ kv'] exI[of _ r]) (auto simp: sbind_def rbind_def split: sum.splits)
qed

lemma root_abort:
  assumes inv: "store_inv kv pend" and op: "\<not> kv_closed kv" and n: "KV_NewTX kv = (kv1, i)" and w: "wrote kv1 i UNIV kv2 m"
  obtains kv' where "KVTX_Abort i kv2 = (kv', Inr ())" "store_inv kv' pend" "kv_view kv' = kv_view kv" "kv_closed kv' = kv_closed kv"
    "kv_ongoing kv' = kv_ongoing kv"
proof -
  note N = NewTX_ok[OF inv op n]
  have i1: "i \<in> set (kv_ongoing kv1)" using N(9) by simp
  obtain u where u: "arr_wf u" "store_inv kv2 pend" "i \<in> set (kv_ongoing kv2)" "kv_view kv2 = kv_view kv1"
    "m = overlay (tx_view kv1 i) (arr_map u)" "tx_updates (tx_of kv2 i) = u" "kv_ongoing kv2 = kv_ongoing kv1" "kv_history kv2 = kv_history kv1"
    "kv_log kv2 = kv_log kv1" "kv_snapshot kv2 = kv_snapshot kv1" "kv_closed kv2 = kv_closed kv1" "tx_snapshot (tx_of kv2 i) = tx_snapshot (tx_of kv1 i)"
    using wrote_root[OF N(2) i1 w] .
  obtain kv' where k: "KV_untrackTXSync i kv2 = (kv', Inr ())" "frame (untrack_state i kv2) kv'" "store_inv kv' pend" "kv_view kv' = kv_view kv2"
    using untrack_ok[OF u(2,3)] by blast
  have "tx_target (tx_of kv2 i) = TKV" using store_invE(7)[OF u(2,3)] by (simp add: tx_inv_def)
  then have "KVTX_Abort i kv2 = (kv', Inr ())" using k(1) by (simp add: KVTX_Abort_def)
  moreover have "i \<notin> set (kv_ongoing kv)" using N(1) store_invE(7)[OF inv] by (auto simp: tx_inv_def)
  ultimately show thesis using that[of kv'] k frameD[OF k(2)] u(4,7,11) N(3,9,17) by (simp add: remove1_append)
qed

section \<open>INSERT, UPDATE and DELETE on sets of rows\<close>









section \<open>CREATE TABLE\<close>

text \<open>A column position that its name leads to.\<close>

definition named :: "Column list \<Rightarrow> int \<Rightarrow> bool" where
  "named cols i \<longleftrightarrow> 0 \<le> i \<and> i < int (length cols) \<and> slices_IndexFunc (\<lambda>col. col_Name col = col_Name (cols ! nat i)) cols = Some (nat i)"

lemma lookupColumns_ok:
  assumes "set names \<subseteq> col_Name ` set cols"
  obtains idx where "lookupColumns cols names = Inr idx" "map (\<lambda>i. col_Name (cols ! nat i)) idx = names" "list_all (named cols) idx"
proof -
  have "\<exists>idx. lookupColumns cols names = Inr idx \<and> map (\<lambda>i. col_Name (cols ! nat i)) idx = names \<and> list_all (named cols) idx"
    using assms
  proof (induction names)
    case (Cons name names)
    then obtain idx where idx: "lookupColumns cols names = Inr idx" "map (\<lambda>i. col_Name (cols ! nat i)) idx = names" "list_all (named cols) idx" by auto
    obtain i where i: "slices_IndexFunc (\<lambda>col. col_Name col = name) cols = Some i"
      using Cons.prems slices_IndexFunc_None_iff[of "\<lambda>col. col_Name col = name" cols] by (cases "slices_IndexFunc (\<lambda>col. col_Name col = name) cols") auto
    have n: "i < length cols" "col_Name (cols ! i) = name" using slices_IndexFunc_SomeD[OF i] by simp_all
    then have "named cols (int i)" using i by (simp add: named_def)
    then show ?case using idx i n by auto
  qed simp
  then show thesis using that by blast
qed

text \<open>What \<open>addPKeyToIndex\<close> appends: the primary-key columns that are missing, once each, in their order.\<close>

lemma addPKeyToIndex_parts:
  "\<exists>added. addPKeyToIndex index pkey = index @ added \<and> subseq added pkey \<and> distinct added \<and> set added = set pkey - set index"
proof (induction pkey arbitrary: index)
  case Nil
  then show ?case by (simp add: addPKeyToIndex_def)
next
  case (Cons k pkey)
  let ?index = "if k \<in> set index then index else index @ [k]"
  from Cons[of ?index] obtain added where a: "addPKeyToIndex ?index pkey = ?index @ added" "subseq added pkey" "distinct added"
    "set added = set pkey - set ?index" by blast
  then show ?case
    by (intro exI[of _ "if k \<in> set index then added else k # added"]) (auto simp: addPKeyToIndex_def)
qed

lemma addPKeyToIndex_set: "set (addPKeyToIndex index pkey) = set index \<union> set pkey"
proof -
  from addPKeyToIndex_parts[of index pkey] obtain added where
    "addPKeyToIndex index pkey = index @ added" "set added = set pkey - set index" by blast
  then show ?thesis by simp
qed

abbreviation names_at :: "Column list \<Rightarrow> int list \<Rightarrow> bytes list" where
  "names_at cols \<equiv> map (\<lambda>i. col_Name (cols ! nat i))"

definition completes :: "bytes list \<Rightarrow> bytes list \<Rightarrow> bytes list \<Rightarrow> bool" where
  "completes pkey names all \<longleftrightarrow>
     (\<exists>added. all = names @ added \<and> subseq added pkey \<and> distinct added \<and> set added = set pkey - set names)"

lemma named_inj: "inj_on (\<lambda>i. col_Name (cols ! nat i)) (Collect (named cols))"
proof (rule inj_onI)
  fix i j assume "i \<in> Collect (named cols)" "j \<in> Collect (named cols)" "col_Name (cols ! nat i) = col_Name (cols ! nat j)"
  then have "nat i = nat j" "0 \<le> i" "0 \<le> j" by (simp_all add: named_def)
  then show "i = j" by linarith
qed

lemma addPKeyToIndex_completes:
  assumes "list_all (named cols) index" and "list_all (named cols) pkey"
  shows "completes (names_at cols pkey) (names_at cols index) (names_at cols (addPKeyToIndex index pkey))"
proof -
  let ?f = "\<lambda>i. col_Name (cols ! nat i)"
  from addPKeyToIndex_parts[of index pkey] obtain added where a: "addPKeyToIndex index pkey = index @ added"
    "subseq added pkey" "distinct added" "set added = set pkey - set index" by blast
  have n: "set index \<subseteq> Collect (named cols)" "set pkey \<subseteq> Collect (named cols)" using assms by (auto simp: list_all_iff)
  then have "inj_on ?f (set added)" using a(4) inj_on_subset[OF named_inj] by blast
  moreover have "?f ` (set pkey - set index) = ?f ` set pkey - ?f ` set index"
    using inj_on_image_set_diff[OF named_inj] n by blast
  ultimately show ?thesis using a subseq_map[OF a(2)] unfolding completes_def
    by (intro exI[of _ "names_at cols added"]) (auto simp: distinct_map)
qed

lemma create_indices_ok:
  assumes "\<forall>names\<in>set rest. names \<noteq> [] \<and> set names \<subseteq> col_Name ` set cols" and "acc \<noteq> []" and "hd acc \<noteq> []"
    and "\<forall>index\<in>set acc. list_all (named cols) index \<and> index \<noteq> [] \<and> set (hd acc) \<subseteq> set index"
  shows "\<exists>more. create_indices cols rest acc = Inr (acc @ more) \<and>
    list_all2 (\<lambda>names index. completes (names_at cols (hd acc)) names (names_at cols index)) rest more \<and>
    (\<forall>index\<in>set (acc @ more). list_all (named cols) index \<and> index \<noteq> [] \<and> set (hd acc) \<subseteq> set index)"
  using assms
proof (induction rest arbitrary: acc)
  case (Cons names rest)
  obtain idx where idx: "lookupColumns cols names = Inr idx" "names_at cols idx = names" "list_all (named cols) idx"
    using lookupColumns_ok[of names cols] Cons.prems(1) by auto
  let ?index = "addPKeyToIndex idx (hd acc)"
  have h: "hd (acc @ [?index]) = hd acc" "list_all (named cols) (hd acc)" using Cons.prems(2,4) by auto
  have "\<forall>index\<in>set (acc @ [?index]). list_all (named cols) index \<and> index \<noteq> [] \<and> set (hd (acc @ [?index])) \<subseteq> set index"
    using Cons.prems(3,4) idx(3) h addPKeyToIndex_set[of idx "hd acc"] by (auto simp: list_all_iff)
  from Cons.IH[OF _ _ _ this] Cons.prems(1,2,3) h(1) obtain more where m: "create_indices cols rest (acc @ [?index]) = Inr (acc @ ?index # more)"
    "list_all2 (\<lambda>names index. completes (names_at cols (hd acc)) names (names_at cols index)) rest more"
    "\<forall>index\<in>set (acc @ ?index # more). list_all (named cols) index \<and> index \<noteq> [] \<and> set (hd acc) \<subseteq> set index" by auto
  moreover have "idx \<noteq> []" using idx(2) Cons.prems(1) by auto
  moreover have "completes (names_at cols (hd acc)) names (names_at cols ?index)"
    using addPKeyToIndex_completes[OF idx(3) h(2)] idx(2) by simp
  ultimately show ?case using idx(1) Cons.prems(2) by (intro exI[of _ "?index # more"]) simp
qed simp

text \<open>A statement whose names and types are well-formed, for a table that does not exist yet.\<close>

definition create_ok :: "StmtCreatTable \<Rightarrow> bool" where
  "create_ok p \<longleftrightarrow> ct_table p \<noteq> [] \<and> hd (ct_table p) \<noteq> 0 \<and> ascii (ct_table p) \<and> ct_cols p \<noteq> [] \<and>
     list_all (\<lambda>col. col_Name col \<noteq> [] \<and> ascii (col_Name col) \<and> (col_Type col = TypeI64 \<or> col_Type col = TypeStr)) (ct_cols p) \<and>
     list_all (\<lambda>names. names \<noteq> [] \<and> set names \<subseteq> set (map col_Name (ct_cols p))) (ct_pkey p # ct_indices p) \<and>
     length (ct_indices p) < 128 \<and> length (ct_cols p) < 2 ^ 63"

lemma create_schema:
  assumes "create_ok p"
  obtains indices where "create_indices (ct_cols p) (ct_pkey p # ct_indices p) [] = Inr indices"
    "names_at (ct_cols p) (hd indices) = ct_pkey p"
    "list_all2 (\<lambda>names index. completes (ct_pkey p) names (names_at (ct_cols p) index)) (ct_indices p) (tl indices)" "indices \<noteq> []"
    "\<forall>index\<in>set indices. list_all (named (ct_cols p)) index \<and> index \<noteq> [] \<and> set (hd indices) \<subseteq> set index"
proof -
  have n: "\<forall>names\<in>set (ct_indices p). names \<noteq> [] \<and> set names \<subseteq> col_Name ` set (ct_cols p)" "ct_pkey p \<noteq> []" "set (ct_pkey p) \<subseteq> col_Name ` set (ct_cols p)"
    using assms by (auto simp: create_ok_def list_all_iff)
  obtain idx where idx: "lookupColumns (ct_cols p) (ct_pkey p) = Inr idx" "names_at (ct_cols p) idx = ct_pkey p"
    "list_all (named (ct_cols p)) idx" using lookupColumns_ok[OF n(3)] .
  have ne: "idx \<noteq> []" using idx(2) n(2) by auto
  from create_indices_ok[OF n(1), of "[idx]"] obtain more where "create_indices (ct_cols p) (ct_indices p) [idx] = Inr (idx # more)"
    "list_all2 (\<lambda>names index. completes (ct_pkey p) names (names_at (ct_cols p) index)) (ct_indices p) more"
    "\<forall>index\<in>set (idx # more). list_all (named (ct_cols p)) index \<and> index \<noteq> [] \<and> set idx \<subseteq> set index" using ne idx(2,3) by auto
  then show thesis using that[of "idx # more"] idx ne by simp
qed

lemma created_stored:
  assumes p: "create_ok p"
    and i: "map (\<lambda>i. col_Name (ct_cols p ! nat i)) (hd indices) = ct_pkey p" "length indices = Suc (length (ct_indices p))"
      "\<forall>index\<in>set indices. list_all (named (ct_cols p)) index \<and> index \<noteq> [] \<and> set (hd indices) \<subseteq> set index"
    and s: "s = \<lparr>sc_Version = SchemaVersion, sc_Table = ct_table p, sc_Cols = ct_cols p, sc_Indices = indices\<rparr>"
    and free: "\<forall>k\<in>table_region s. m k = None" and c: "m (schemaKey (ct_table p)) = Some (marshal_schema s)"
  shows "schema_ok s" and "stored_table s {} m"
proof -
  have ne: "indices \<noteq> []" using i(2) by auto
  have r: "\<forall>index\<in>set indices. \<forall>idx\<in>set index. 0 \<le> idx \<and> idx < int (length (ct_cols p)) \<and>
      slices_IndexFunc (\<lambda>col. col_Name col = col_Name (ct_cols p ! nat idx)) (ct_cols p) = Some (nat idx)"
    using i(3) by (auto simp: list_all_iff named_def)
  show ok: "schema_ok s" using p i(2,3) ne r by (auto simp: s schema_ok_iff create_ok_def list_all_iff)
  have hd0: "indices ! 0 = hd indices" using ne by (simp add: hd_conv_nth)
  have "table_ok s" using ok i(3) hd0 by (auto simp: table_ok_def s list_all_iff)
  moreover have "names_ok s" using r by (auto simp: names_ok_def s column_index_def)
  moreover have "plain_table s" "length (sc_Indices s) \<le> 128" using p i(2) by (auto simp: plain_table_def create_ok_def s)
  moreover have "schema_plain s" using p r by (fastforce simp: schema_plain_def s create_ok_def list_all_iff SchemaVersion_def)
  moreover have "table_holds s {} m" using free by (auto simp: table_holds_def holds_rows_def table_region_def)
  ultimately show "stored_table s {} m" using c by (simp add: stored_table_def in_catalog_def s)
qed

text \<open>
  C34: a CREATE TABLE with well-formed names, for a table that is not in the
  catalogue and has no keys, commits a catalogue entry (or its commit fails and the contents stay).
  The schema in it is valid, its columns are those of the statement, its primary index holds the
  primary-key columns, and each secondary index holds the declared columns in their order followed by
  the primary-key columns that are missing, once each, in the order of the primary key.  Every
  transaction that sees the entry reads this schema back, and the table is empty.
\<close>

theorem create_table_ready:
  assumes inv: "store_inv kv pend" and op: "\<not> kv_closed kv" and p: "create_ok p"
    and new: "kv_view kv (schemaKey (ct_table p)) = None" "\<forall>z. kv_view kv (ct_table p @ 0 # z) = None"
  shows "\<exists>s out m. DB_ExecStmt cl (SCreateTable p) kv = Some out \<and> commits cl kv pend m empty_result out \<and> stored_table s {} m \<and>
    m = (kv_view kv)(schemaKey (ct_table p) \<mapsto> marshal_schema s) \<and> sc_Table s = ct_table p \<and> sc_Cols s = ct_cols p \<and>
    names_at (sc_Cols s) (index_of s 0) = ct_pkey p \<and> length (sc_Indices s) = Suc (length (ct_indices p)) \<and>
    (\<forall>n < length (ct_indices p). completes (ct_pkey p) (ct_indices p ! n) (names_at (sc_Cols s) (index_of s (Suc n)))) \<and>
    (\<forall>kv' tx. tx_sees kv' (dtx_kv tx) m \<and> dtx_tables tx (ct_table p) = None \<longrightarrow>
       (\<exists>tx'. DBTX_GetSchema kv' tx (ct_table p) = (tx', Inr s)))"
proof -
  obtain indices where i: "create_indices (ct_cols p) (ct_pkey p # ct_indices p) [] = Inr indices"
    "names_at (ct_cols p) (hd indices) = ct_pkey p"
    "list_all2 (\<lambda>names index. completes (ct_pkey p) names (names_at (ct_cols p) index)) (ct_indices p) (tl indices)" "indices \<noteq> []"
    "\<forall>index\<in>set indices. list_all (named (ct_cols p)) index \<and> index \<noteq> [] \<and> set (hd indices) \<subseteq> set index" using create_schema[OF p] .
  have len: "length indices = Suc (length (ct_indices p))" using list_all2_lengthD[OF i(3)] i(4) by (cases indices) auto
  define s where "s = \<lparr>sc_Version = SchemaVersion, sc_Table = ct_table p, sc_Cols = ct_cols p, sc_Indices = indices\<rparr>"
  let ?k = "schemaKey (ct_table p)" and ?v = "marshal_schema s"
  let ?m = "(kv_view kv)(?k \<mapsto> ?v)"
  have pt: "plain_table s" using p by (simp add: plain_table_def create_ok_def s_def)
  have free: "\<forall>k\<in>table_region s. ?m k = None" using new(2) schemaKey_outside[OF pt]
    by (auto simp: s_def table_region_def index_region_def key_head_def)
  have st: "schema_ok s" "stored_table s {} ?m" by (rule created_stored[OF p i(2) len i(5) s_def free], simp)+
  obtain kv1 tx where n: "DB_NewTX kv = (kv1, tx)" by fastforce
  note N = DB_NewTX_sees[OF inv op n]
  have tx: "dtx_tables tx = Map.empty" using n by (auto simp: DB_NewTX_def split: prod.splits)
  have gs: "DBTX_GetSchema kv1 tx (ct_table p) = (tx, Inl (Error ''table is not found''))"
    using new(1) by (simp add: DBTX_GetSchema_def tx sees_get[OF N(1)])
  have mw: "mode_writes ModeUpsert (kv_view kv ?k) ?v = Some True" using new(1) by (simp add: mode_writes_def)
  obtain kv2 where w: "KVTX_SetEx (dtx_kv tx) ?k ?v ModeUpsert kv1 = (kv2, Inr True)" "wrote kv1 (dtx_kv tx) {} kv2 ?m"
    using sees_set[OF N(1), of ?k ?v ModeUpsert] by (auto simp: mw)
  have cr: "rbind (create_indices (ct_cols p) (ct_pkey p # ct_indices p) []) (\<lambda>indices.
      let schema = \<lparr>sc_Version = SchemaVersion, sc_Table = ct_table p, sc_Cols = ct_cols p, sc_Indices = indices\<rparr> in
      rbind (Schema_Validate schema) (\<lambda>_. Inr schema)) = Inr s" using i(1) st(1) by (simp add: schema_ok_def flip: s_def)
  have "execCreateTable tx p kv1 = ((kv2, tx\<lparr>dtx_tables := (dtx_tables tx)(sc_Table s \<mapsto> s)\<rparr>), Inr ())"
    using gs w(1) p unfolding execCreateTable_def cr by (simp add: KVTX_Set_def create_ok_def)
  then have "DB_ExecStmt cl (SCreateTable p) kv = Some (sbind (KVTX_Commit cl (dtx_kv tx) kv2) (\<lambda>kv _. (kv, Inr empty_result)))"
    using n by (simp add: DB_ExecStmt_def execStmtOwned_def execStmt_def DBTX_Commit_def) (simp add: empty_result_def)
  moreover have "hd indices = index_of s 0" using i(4) by (cases indices) (auto simp: s_def)
  moreover have "sc_Table s = ct_table p" "sc_Cols s = ct_cols p" "sc_Indices s = indices" by (simp_all add: s_def)
  moreover have "\<forall>n < length (ct_indices p). completes (ct_pkey p) (ct_indices p ! n) (names_at (ct_cols p) (indices ! Suc n))"
    using list_all2_nthD[OF i(3)] i(4) by (auto simp: nth_tl list_all2_lengthD[OF i(3)])
  moreover have "\<forall>kv' tx. tx_sees kv' (dtx_kv tx) ?m \<and> dtx_tables tx (ct_table p) = None \<longrightarrow>
       (\<exists>tx'. DBTX_GetSchema kv' tx (ct_table p) = (tx', Inr s))"
    using GetSchema_ok[OF st(1), of ?m] st(2) by (auto simp: stored_table_def s_def)
  ultimately show ?thesis using root_commit[OF inv op N(2) wrote_mono[OF w(2)], of cl empty_result] st(2) i(2) len
    by (intro exI[of _ s]) auto
qed

definition demo_create :: StmtCreatTable where
  "demo_create = \<lparr>ct_table = [116], ct_cols = [\<lparr>col_Name = [97], col_Type = TypeI64\<rparr>, \<lparr>col_Name = [98], col_Type = TypeStr\<rparr>],
     ct_pkey = [[97]], ct_indices = [[[98]]]\<rparr>"

theorem create_table_ready_witness:
  "\<exists>s out m. DB_ExecStmt no_cache (SCreateTable demo_create) demo_db = Some out \<and> commits no_cache demo_db [] m empty_result out \<and>
     stored_table s {} m \<and> names_at (sc_Cols s) (index_of s 1) = [[98], [97]]"
proof -
  have "create_ok demo_create" by (simp add: create_ok_def demo_create_def ascii_def)
  from create_table_ready[OF demo_store_ok(1,3) this, of "fst (Log_Open (clean []))" no_cache]
  obtain s out m where x: "DB_ExecStmt no_cache (SCreateTable demo_create) demo_db = Some out"
    "commits no_cache demo_db [] m empty_result out" "stored_table s {} m"
    "\<forall>n < length (ct_indices demo_create). completes (ct_pkey demo_create) (ct_indices demo_create ! n) (names_at (sc_Cols s) (index_of s (Suc n)))"
    by (auto simp: demo_store_ok)
  have "completes [[97]] [[98]] (names_at (sc_Cols s) (index_of s 1))" using x(4) by (simp add: demo_create_def)
  then obtain added where a: "names_at (sc_Cols s) (index_of s 1) = [98] # added" "distinct added" "set added = {[97]}"
    by (auto simp: completes_def)
  then have "length added = 1" using distinct_card[OF a(2)] by simp
  then have "added = [[97]]" using a(3) by (cases added) auto
  with a(1) have "names_at (sc_Cols s) (index_of s 1) = [[98], [97]]" by simp
  with x(1-3) show ?thesis by (intro exI conjI)
qed

end
