(* ===== verification/SqlTerm.thy ===== *)
theory SqlTerm
  imports Sql
begin

text \<open>
  The parser always returns: every loop iteration consumes input, every recursive descent enters a level,
  so the fuel of \<open>Sql\<close> is never used up.
\<close>

section \<open>Consuming input\<close>

text \<open>
  \<open>moved p k q\<close>: the parser went from \<open>p\<close> to \<open>q\<close> over at least \<open>k\<close> bytes of the same input, at the same
  depth, and stays inside the buffer.
\<close>

definition moved :: "Parser \<Rightarrow> nat \<Rightarrow> Parser \<Rightarrow> bool" where
  "moved p k q \<longleftrightarrow> p_buf q = p_buf p \<and> p_depth q = p_depth p \<and> p_pos p + k \<le> p_pos q \<and> p_pos q \<le> length (p_buf p)"

definition steps :: "Parser \<Rightarrow> nat \<Rightarrow> ('a \<times> Parser) res \<Rightarrow> bool" where
  "steps p k r \<longleftrightarrow> (case r of Inl e \<Rightarrow> e \<noteq> out_of_fuel | Inr (x, q) \<Rightarrow> moved p k q)"

named_theorems parse_steps \<open>rules for the input a parsing step consumes\<close>

lemma steps_simps [simp]:
  "steps p k (Inl e) \<longleftrightarrow> e \<noteq> out_of_fuel"
  "steps p k (Inr (x, q)) \<longleftrightarrow> moved p k q"
  by (simp_all add: steps_def)

lemma out_of_fuel_simps [simp]:
  "Error s \<noteq> out_of_fuel" "errTooDeep \<noteq> out_of_fuel"
  by (simp_all add: out_of_fuel_def errTooDeep_def)

lemma moved_trans: "moved p j q \<Longrightarrow> moved q i r \<Longrightarrow> k \<le> j + i \<Longrightarrow> moved p k r"
  by (auto simp: moved_def)

lemma moved_good: "moved p j q \<Longrightarrow> moved q 0 q"
  by (auto simp: moved_def)

lemma moved_weaken: "moved p j q \<Longrightarrow> k \<le> j \<Longrightarrow> moved p k q"
  by (auto simp: moved_def)

lemma steps_weaken: "steps p j r \<Longrightarrow> k \<le> j \<Longrightarrow> steps p k r"
  by (auto simp: steps_def moved_def split: sum.splits)

lemma steps_after: "moved p j q \<Longrightarrow> steps q i r \<Longrightarrow> k \<le> j + i \<Longrightarrow> steps p k r"
  by (auto simp: steps_def moved_def split: sum.splits)

lemma steps_rbind:
  assumes "steps p j r" and "\<And>x q. moved p j q \<Longrightarrow> steps q i (g (x, q))" and "k \<le> j + i"
  shows "steps p k (rbind r g)"
proof (cases r)
  case (Inr b)
  with assms show ?thesis by (cases b) (auto intro: steps_after)
qed (use assms in simp)

lemma steps_return: "steps p k r \<Longrightarrow> steps p k (rbind r (\<lambda>(x, q). Inr (f x, q)))"
  by (auto simp: steps_def rbind_def split: sum.splits)

section \<open>Tokens\<close>

lemma advance_moved: "moved p 0 p \<Longrightarrow> n \<le> length (p_rest p) \<Longrightarrow> moved p n (advance n p)"
  by (auto simp: moved_def advance_def p_rest_def)

lemma skipSpaces_moved: "moved p 0 p \<Longrightarrow> moved p 0 (skipSpaces p)"
  unfolding skipSpaces_def
  by (rule moved_weaken[OF advance_moved]) (auto simp: length_takeWhile_le)

lemma moved_0_iff: "moved p 0 p \<longleftrightarrow> p_pos p \<le> length (p_buf p)"
  by (auto simp: moved_def)

lemma tryPunctuation_moved:
  assumes "moved p 0 p" and "tryPunctuation tok p = (b, q)"
  shows "moved p (if b then length tok else 0) q"
proof -
  let ?p = "skipSpaces p"
  have m: "moved p 0 ?p" using assms(1) by (rule skipSpaces_moved)
  show ?thesis
  proof (cases b)
    case True
    with assms(2) have q: "q = advance (length tok) ?p" and "take (length tok) (p_rest ?p) = str_bytes tok"
      by (auto simp: tryPunctuation_def Let_def has_prefix_def str_bytes_def split: if_splits)
    then have "length tok \<le> length (p_rest ?p)"
      by (metis length_map str_bytes_def length_take min.absorb_iff2 nle_le min.orderI)
    then have "moved ?p (length tok) q" unfolding q by (rule advance_moved[OF moved_good[OF m]])
    then show ?thesis using True m by (auto intro: moved_trans)
  qed (use assms(2) m in \<open>auto simp: tryPunctuation_def Let_def split: if_splits\<close>)
qed

lemma tryKeyword_loop_moved:
  "moved p 0 p \<Longrightarrow> tryKeyword_loop kws p = Some q \<Longrightarrow> moved p (length (concat kws)) q"
proof (induction kws p rule: tryKeyword_loop.induct)
  case (2 kw kws p)
  let ?p = "skipSpaces p"
  have m: "moved p 0 ?p" using 2(2) by (rule skipSpaces_moved)
  have le: "length kw \<le> length (p_rest ?p)" and q: "tryKeyword_loop kws (advance (length kw) ?p) = Some q"
    using 2(3) by (auto simp: Let_def split: if_splits)
  have a: "moved ?p (length kw) (advance (length kw) ?p)" using moved_good[OF m] le by (rule advance_moved)
  have "moved (advance (length kw) ?p) (length (concat kws)) q"
    using 2(1)[OF refl refl _ _ moved_good[OF a] q] 2(3) by (auto simp: Let_def split: if_splits)
  then show ?case using m a by (auto intro: moved_trans)
qed simp

lemma tryKeyword_moved:
  assumes "moved p 0 p" and "tryKeyword kws p = (b, q)"
  shows "moved p (if b then length (concat kws) else 0) q"
  using assms tryKeyword_loop_moved[of p "map str_bytes kws"]
  by (auto simp: tryKeyword_def str_bytes_def length_concat comp_def split: option.splits)

lemma tryName_moved:
  assumes "moved p 0 p" and "tryName p = (n, q)"
  shows "moved p (if n = None then 0 else 1) q"
proof -
  let ?p = "skipSpaces p"
  have m: "moved p 0 ?p" using assms(1) by (rule skipSpaces_moved)
  show ?thesis
  proof (cases n)
    case (Some name)
    with assms(2) obtain ch cs where r: "p_rest ?p = ch # cs" and q: "q = advance (Suc (length (takeWhile isNameContinue cs))) ?p"
      by (auto simp: tryName_def Let_def split: list.splits if_splits)
    have "moved ?p (Suc (length (takeWhile isNameContinue cs))) q"
      unfolding q by (rule advance_moved[OF moved_good[OF m]]) (simp add: r length_takeWhile_le)
    then show ?thesis using Some m by (auto intro: moved_trans)
  qed (use assms(2) m in \<open>auto simp: tryName_def Let_def split: list.splits if_splits\<close>)
qed

section \<open>Values\<close>

lemma parseString_loop_length:
  "parseString_loop quote cs str n = Inr (str', m) \<Longrightarrow> n < m \<and> m \<le> n + length cs"
  by (induction quote cs str n rule: parseString_loop.induct) (auto split: if_splits list.splits)

lemma parseString_loop_fuel: "parseString_loop quote cs str n \<noteq> Inl out_of_fuel"
  by (induction quote cs str n rule: parseString_loop.induct) (auto split: list.splits)

lemma ParseInt_fuel: "ParseInt bs \<noteq> Inl out_of_fuel"
  by (auto simp: ParseInt_def Let_def)

lemma parseString_steps:
  assumes "moved p 0 p" and "p_rest p \<noteq> []"
  shows "steps p 1 (parseString p)"
proof (cases "parseString_loop (hd (p_rest p)) (tl (p_rest p)) [] 1")
  case (Inl e)
  then show ?thesis using parseString_loop_fuel by (auto simp: parseString_def)
next
  case (Inr b)
  obtain str n where b: "b = (str, n)" by force
  have n: "1 < n" "n \<le> 1 + length (tl (p_rest p))" using parseString_loop_length Inr b by blast+
  then have "moved p n (advance n p)" using assms by (intro advance_moved) (cases "p_rest p"; auto)+
  then show ?thesis using Inr b n(1) by (auto simp: parseString_def intro: moved_weaken)
qed

lemma parseInt_steps:
  assumes "moved p 0 p" and "p_rest p = ch # cs" and "isDigit ch \<or> ch = 45 \<or> ch = 43"
  shows "steps p 1 (parseInt p)"
proof -
  define sign :: nat where "sign = (if ch = 45 \<or> ch = 43 then 1 else 0)"
  let ?n = "sign + length (takeWhile isDigit (drop sign (ch # cs)))"
  have "length (takeWhile isDigit (drop sign (ch # cs))) \<le> length (drop sign (ch # cs))"
    by (rule length_takeWhile_le)
  then have n: "?n \<le> length (p_rest p)" "1 \<le> ?n" using assms by (auto simp: sign_def)
  have "parseInt p = rbind (ParseInt (take ?n (ch # cs))) (\<lambda>i. Inr (cell_int (word_of_int i), advance ?n p))"
    by (simp add: parseInt_def assms(2) sign_def Let_def)
  then show ?thesis
    using ParseInt_fuel advance_moved[OF assms(1) n(1)] n(2)
    by (auto simp: rbind_def split: sum.splits intro: moved_weaken)
qed

lemma parseValue_steps:
  assumes "moved p 0 p"
  shows "steps p 1 (parseValue p)"
proof -
  have m: "moved p 0 (skipSpaces p)" using assms by (rule skipSpaces_moved)
  note g = moved_good[OF m]
  show ?thesis
    using steps_after[OF m parseString_steps[OF g]] steps_after[OF m parseInt_steps[OF g]]
    by (auto simp: parseValue_def Let_def split: list.splits)
qed

section \<open>Lists and operators\<close>

lemma parseCommaList_loop_steps:
  assumes item: "\<And>acc q. moved p 0 q \<Longrightarrow> steps q 1 (item acc q)"
  shows "moved p 0 q \<Longrightarrow> length (p_buf p) - p_pos q < fuel \<Longrightarrow> steps q 0 (parseCommaList_loop fuel item comma acc q)"
proof (induction fuel arbitrary: comma acc q)
  case (Suc fuel)
  note g = moved_good[OF Suc.prems(1)]
  obtain b1 q1 where t1: "tryPunctuation '')'' q = (b1, q1)" by force
  have m1: "moved q 0 q1" using tryPunctuation_moved[OF g t1] by (rule moved_weaken) simp
  obtain b2 q2 where t2: "(if comma then tryPunctuation '','' q1 else (True, q1)) = (b2, q2)" by force
  have m2: "moved q1 0 q2"
    using t2 tryPunctuation_moved[OF moved_good[OF m1]] moved_good[OF m1]
    by (auto split: if_splits intro: moved_weaken)
  have m: "moved q 0 q2" using m1 m2 by (rule moved_trans) simp
  have next_item: "steps q2 0 (rbind (item acc q2) (\<lambda>(acc, q). parseCommaList_loop fuel item True acc q))"
  proof (rule steps_rbind[where j=1 and i=0])
    have "moved p 0 q2" using Suc.prems(1) m by (rule moved_trans) simp
    then show "steps q2 1 (item acc q2)" by (rule item)
  next
    fix acc q' assume m': "moved q2 1 q'"
    have "moved p 0 q'" using moved_trans[OF Suc.prems(1) moved_trans[OF m m' le_refl]] by simp
    moreover have "length (p_buf p) - p_pos q' < fuel" using m m' Suc.prems by (auto simp: moved_def)
    ultimately show "steps q' 0 ((\<lambda>(acc, q). parseCommaList_loop fuel item True acc q) (acc, q'))"
      using Suc.IH by simp
  qed simp
  show ?case using m1 t2 steps_after[OF m next_item] by (auto simp: t1 split: prod.splits bool.splits)
qed simp

lemma parseCommaList_steps:
  assumes "moved p 0 p" and "\<And>acc q. moved p 0 q \<Longrightarrow> steps q 1 (item acc q)"
  shows "steps p 1 (parseCommaList item acc p)"
proof -
  obtain b q where t: "tryPunctuation ''('' p = (b, q)" by force
  note m = tryPunctuation_moved[OF assms(1) t]
  have m0: "moved p 0 q" using m by (rule moved_weaken) simp
  have "steps q 0 (parseCommaList_loop (Suc (length (p_buf q))) item False acc q)"
    by (rule parseCommaList_loop_steps[of p, OF assms(2) m0]) (use m0 in \<open>auto simp: moved_def\<close>)
  then show ?thesis using m by (cases b) (auto simp: parseCommaList_def t intro: steps_after)
qed

lemma tryTokens_moved:
  "moved p 0 p \<Longrightarrow> tryTokens toks p = (op, q) \<Longrightarrow> \<forall>(tok, _) \<in> set toks. tok \<noteq> [] \<Longrightarrow> moved p (if op = None then 0 else 1) q"
proof (induction toks arbitrary: p)
  case (Cons t toks)
  obtain tok o1 where t: "t = (tok, o1)" by force
  obtain b1 q1 where t1: "tryPunctuation tok p = (b1, q1)" by force
  note m1 = tryPunctuation_moved[OF Cons.prems(1) t1]
  obtain b2 q2 where t2: "tryKeyword [tok] q1 = (b2, q2)" by force
  note m2 = tryKeyword_moved[OF moved_good[OF m1] t2]
  have ne: "1 \<le> length tok" using Cons.prems(3) by (auto simp: t Suc_le_eq)
  have m: "moved p (if b2 then length tok else 0) q2" using m1 m2 by (auto intro: moved_trans split: if_splits)
  show ?case
  proof (cases "b1 \<or> b2")
    case True
    then show ?thesis using Cons.prems(2) m1 m ne
      by (auto simp: t t1 t2 split: if_splits bool.splits intro: moved_weaken)
  next
    case False
    then have "tryTokens toks q2 = (op, q)" using Cons.prems(2) by (simp add: t t1 t2)
    from Cons.IH[OF moved_good[OF m] this] Cons.prems(3) have "moved q2 (if op = None then 0 else 1) q" by simp
    then show ?thesis using False m by (auto intro: moved_trans)
  qed
qed simp

lemma parseBinop_loop_steps:
  assumes inner: "\<And>q. moved p 0 q \<Longrightarrow> steps q 1 (inner q)" and toks: "\<forall>(tok, _) \<in> set toks. tok \<noteq> []"
  shows "moved p 0 q \<Longrightarrow> length (p_buf p) - p_pos q < fuel \<Longrightarrow> steps q 0 (parseBinop_loop fuel toks inner left q)"
proof (induction fuel arbitrary: left q)
  case (Suc fuel)
  obtain op q1 where t: "tryTokens toks q = (op, q1)" by force
  note m1 = tryTokens_moved[OF moved_good[OF Suc.prems(1)] t toks]
  have m0: "moved q 0 q1" using m1 by (rule moved_weaken) simp
  have next_op: "steps q1 0 (rbind (inner q1) (\<lambda>(right, q). parseBinop_loop fuel toks inner (EBinOp x left right) q))" for x
  proof (rule steps_rbind[where j=1 and i=0])
    have "moved p 0 q1" using Suc.prems(1) m0 by (rule moved_trans) simp
    then show "steps q1 1 (inner q1)" by (rule inner)
  next
    fix right q' assume m': "moved q1 1 q'"
    have "moved p 0 q'" using moved_trans[OF Suc.prems(1) moved_trans[OF m0 m' le_refl]] by simp
    moreover have "length (p_buf p) - p_pos q' < fuel" using m0 m' Suc.prems by (auto simp: moved_def)
    ultimately show "steps q' 0 ((\<lambda>(right, q). parseBinop_loop fuel toks inner (EBinOp x left right) q) (right, q'))"
      using Suc.IH by simp
  qed simp
  show ?case using m0 steps_after[OF m0 next_op] by (auto simp: t split: option.splits)
qed simp

lemma parseBinop_steps:
  assumes "moved p 0 p" and "\<And>q. moved p 0 q \<Longrightarrow> steps q 1 (inner q)" and "\<forall>(tok, _) \<in> set toks. tok \<noteq> []"
  shows "steps p 1 (parseBinop toks inner p)"
  unfolding parseBinop_def
proof (rule steps_rbind[where j=1 and i=0, OF assms(2)[OF assms(1)]])
  fix left q assume m: "moved p 1 q"
  then have "moved p 0 q" by (rule moved_weaken) simp
  from parseBinop_loop_steps[of p, OF assms(2,3) this, where fuel="Suc (length (p_buf q))"] m
  show "steps q 0 ((\<lambda>(left, q). parseBinop_loop (Suc (length (p_buf q))) toks inner left q) (left, q))"
    by (auto simp: moved_def)
qed simp

section \<open>Expressions\<close>

lemma nested_steps:
  assumes "moved p 0 p" and "\<And>q. moved q 0 q \<Longrightarrow> p_depth q = Suc (p_depth p) \<Longrightarrow> p_depth q \<le> maxExprDepth \<Longrightarrow> steps q k (f q)"
  shows "steps p k (rbind (enter p) (\<lambda>p. rbind (f p) (\<lambda>(e, p). Inr (g e, leave p))))"
proof (cases "enter p")
  case (Inr q)
  then have q: "q = p\<lparr>p_depth := Suc (p_depth p)\<rparr>" "Suc (p_depth p) \<le> maxExprDepth"
    by (auto simp: enter_def split: if_splits)
  have "steps q k (f q)" using assms q by (auto simp: moved_def)
  then show ?thesis using Inr q
    by (auto simp: steps_def rbind_def leave_def moved_def split: sum.splits)
qed (auto simp: enter_def split: if_splits)

lemma parseTuple_steps:
  assumes "moved p 0 p" and "\<And>q. moved p 0 q \<Longrightarrow> steps q 1 (pe q)"
  shows "steps p 1 (parseTuple pe p)"
proof -
  have "steps p 1 (parseCommaList (\<lambda>kids p. rbind (pe p) (\<lambda>(e, p). Inr (kids @ [e], p))) [] p)"
    using assms by (intro parseCommaList_steps steps_return)
  then show ?thesis unfolding parseTuple_def
    by (rule steps_rbind[where i=0]) (auto split: list.splits dest: moved_good)
qed

lemma parseAtom_steps:
  assumes "moved p 0 p"
    and deeper: "\<And>q. moved q 0 q \<Longrightarrow> p_depth q = Suc (p_depth p) \<Longrightarrow> p_depth q \<le> maxExprDepth \<Longrightarrow> steps q 1 (pe q)"
  shows "steps p 1 (parseAtom pe p)"
proof -
  obtain b q where t: "tryPunctuation ''('' p = (b, q)" by force
  note m = tryPunctuation_moved[OF assms(1) t]
  show ?thesis
  proof (cases b)
    case True
    let ?q = "q\<lparr>p_pos := p_pos q - 1\<rparr>"
    have m': "moved p 0 ?q" using m True by (auto simp: moved_def)
    have "steps ?q 1 (rbind (enter ?q) (\<lambda>p. rbind (parseTuple pe p) (\<lambda>(e, p). Inr (e, leave p))))"
      by (rule nested_steps[OF moved_good[OF m']], rule parseTuple_steps, assumption, rule deeper)
         (use m' in \<open>auto simp: moved_def\<close>)
    then show ?thesis using m' True by (auto simp: parseAtom_def t intro: steps_after)
  next
    case False
    obtain n r where n: "tryName q = (n, r)" by force
    note mn = tryName_moved[OF moved_good[OF m] n]
    have "steps r 1 (rbind (parseValue r) (\<lambda>(c, p). Inr (ECell c, p)))"
      by (intro steps_return parseValue_steps moved_good[OF mn])
    then have "steps q 1 (case n of Some name \<Rightarrow> Inr (EName name, r) | None \<Rightarrow> rbind (parseValue r) (\<lambda>(c, p). Inr (ECell c, p)))"
      using mn by (auto split: option.splits intro: steps_after)
    then show ?thesis using False m by (cases n) (auto simp: parseAtom_def t n intro: steps_after moved_trans)
  qed
qed

lemma parseExpr_steps:
  "moved p 0 p \<Longrightarrow> 3 * (maxExprDepth - p_depth p) + 1 \<le> fuel \<Longrightarrow> steps p 1 (parseNeg fuel p)"
  "moved p 0 p \<Longrightarrow> 3 * (maxExprDepth - p_depth p) + 2 \<le> fuel \<Longrightarrow> steps p 1 (parseNot fuel p)"
  "moved p 0 p \<Longrightarrow> 3 * (maxExprDepth - p_depth p) + 3 \<le> fuel \<Longrightarrow> steps p 1 (parseExprAt fuel p)"
proof (induction fuel arbitrary: p)
  case (Suc fuel)
  {
    case 1
    obtain b q where t: "tryPunctuation ''-'' p = (b, q)" by force
    note m = tryPunctuation_moved[OF 1(1) t]
    have d: "p_depth q = p_depth p" using m by (simp add: moved_def)
    have "steps q 1 (rbind (enter q) (\<lambda>p. rbind (parseNeg fuel p) (\<lambda>(e, p). Inr (EUnOp OP_NEG e, leave p))))"
      by (rule nested_steps[OF moved_good[OF m]], rule Suc.IH(1)) (use 1 d in auto)
    moreover have "steps q 1 (parseAtom (parseExprAt fuel) q)"
      by (rule parseAtom_steps[OF moved_good[OF m]], rule Suc.IH(3)) (use 1 d in auto)
    ultimately show ?case using m by (cases b) (auto simp: t intro: steps_after)
  next
    case 2
    obtain b q where t: "tryKeyword [''NOT''] p = (b, q)" by force
    note m = tryKeyword_moved[OF 2(1) t]
    have d: "p_depth q = p_depth p" using m by (simp add: moved_def)
    have "steps q 1 (rbind (enter q) (\<lambda>p. rbind (parseNot fuel p) (\<lambda>(e, p). Inr (EUnOp OP_NOT e, leave p))))"
      by (rule nested_steps[OF moved_good[OF m]], rule Suc.IH(2)) (use 2 d in auto)
    moreover have "steps q 1 (parseCmp (parseNeg fuel) q)"
      unfolding parseCmp_def parseAdd_def parseMul_def
      by (intro parseBinop_steps Suc.IH(1)) (use m 2 d in \<open>auto simp: moved_def\<close>)
    ultimately show ?case using m by (cases b) (auto simp: t intro: steps_after)
  next
    case 3
    then show ?case unfolding parseExprAt.simps parseOr_def parseAnd_def
      by (intro parseBinop_steps Suc.IH(2)) (auto simp: moved_def)
  }
qed simp_all

lemma parseExpr_step: "moved p 0 p \<Longrightarrow> steps p 1 (parseExpr p)"
  unfolding parseExpr_def by (rule parseExpr_steps) auto

section \<open>Statements\<close>

text \<open>Rules for code that need not consume: each branch starts from a parser inside its buffer.\<close>

lemma steps_tryPunctuation [parse_steps]:
  assumes "moved p 0 p" and "\<And>q. moved q 0 q \<Longrightarrow> steps q 0 (f q)" and "\<And>q. moved q 0 q \<Longrightarrow> steps q 0 (g q)"
  shows "steps p 0 (case tryPunctuation tok p of (True, q) \<Rightarrow> f q | (False, q) \<Rightarrow> g q)"
proof -
  obtain b q where t: "tryPunctuation tok p = (b, q)" by force
  note m = tryPunctuation_moved[OF assms(1) t]
  show ?thesis using steps_after[OF m] assms(2,3)[OF moved_good[OF m]] by (cases b) (auto simp: t)
qed

lemma steps_tryKeyword [parse_steps]:
  assumes "moved p 0 p" and "\<And>q. moved q 0 q \<Longrightarrow> steps q 0 (f q)" and "\<And>q. moved q 0 q \<Longrightarrow> steps q 0 (g q)"
  shows "steps p 0 (case tryKeyword kws p of (True, q) \<Rightarrow> f q | (False, q) \<Rightarrow> g q)"
proof -
  obtain b q where t: "tryKeyword kws p = (b, q)" by force
  note m = tryKeyword_moved[OF assms(1) t]
  show ?thesis using steps_after[OF m] assms(2,3)[OF moved_good[OF m]] by (cases b) (auto simp: t)
qed

lemma steps_tryName [parse_steps]:
  assumes "moved p 0 p" and "\<And>n q. moved q 0 q \<Longrightarrow> steps q 0 (f n q)" and "\<And>q. moved q 0 q \<Longrightarrow> steps q 0 (g q)"
  shows "steps p 0 (case tryName p of (Some n, q) \<Rightarrow> f n q | (None, q) \<Rightarrow> g q)"
proof -
  obtain b q where t: "tryName p = (b, q)" by force
  note m = tryName_moved[OF assms(1) t]
  show ?thesis using steps_after[OF m] assms(2,3)[OF moved_good[OF m]] by (cases b) (auto simp: t)
qed

lemma steps_then [parse_steps]:
  assumes "steps p 0 r" and "\<And>x q. moved q 0 q \<Longrightarrow> steps q 0 (g x q)"
  shows "steps p 0 (rbind r (\<lambda>(x, q). g x q))"
  by (rule steps_rbind[OF assms(1), where i=0]) (use assms(2) in \<open>auto dest: moved_good\<close>)

lemma parseExpr_steps0 [parse_steps]: "moved p 0 p \<Longrightarrow> steps p 0 (parseExpr p)"
  by (rule steps_weaken[OF parseExpr_step]) simp_all

lemma parseValue_steps0 [parse_steps]: "moved p 0 p \<Longrightarrow> steps p 0 (parseValue p)"
  by (rule steps_weaken[OF parseValue_steps]) simp_all

lemma parseCommaList_steps0:
  assumes "moved p 0 p" and "\<And>acc q. moved q 0 q \<Longrightarrow> steps q 1 (item acc q)"
  shows "steps p 0 (parseCommaList item acc p)"
  by (rule steps_weaken[OF parseCommaList_steps]) (use assms moved_good in blast)+

lemma parseEnd_steps [parse_steps]: "moved p 0 p \<Longrightarrow> steps p 0 (parseEnd out p)"
  unfolding parseEnd_def by (intro parse_steps) auto

lemma parseWhere_steps [parse_steps]: "moved p 0 p \<Longrightarrow> steps p 0 (parseWhere p)"
  unfolding parseWhere_def by (intro parse_steps) auto

lemma parseCount_steps [parse_steps]: "moved p 0 p \<Longrightarrow> steps p 0 (parseCount p)"
  unfolding parseCount_def by (intro parse_steps) auto

lemma parseLimit_steps [parse_steps]: "moved p 0 p \<Longrightarrow> steps p 0 (parseLimit out p)"
  unfolding parseLimit_def Let_def by (intro parse_steps) auto

lemma parseNameItem_steps: "moved p 0 p \<Longrightarrow> steps p 1 (parseNameItem out p)"
  using tryName_moved[of p] by (fastforce simp: parseNameItem_def split: prod.splits option.splits)

lemma parseCreateTableItem_steps:
  assumes "moved p 0 p"
  shows "steps p 1 (parseCreateTableItem out p)"
proof -
  obtain b1 q1 where t1: "tryKeyword [''PRIMARY'', ''KEY''] p = (b1, q1)" by force
  note m1 = tryKeyword_moved[OF assms t1]
  obtain b2 q2 where t2: "tryKeyword [''INDEX''] q1 = (b2, q2)" by force
  note m2 = tryKeyword_moved[OF moved_good[OF m1] t2]
  obtain n3 q3 where t3: "tryName q2 = (n3, q3)" by force
  note m3 = tryName_moved[OF moved_good[OF m2] t3]
  obtain n4 q4 where t4: "tryName q3 = (n4, q4)" by force
  note m4 = tryName_moved[OF moved_good[OF m3] t4]
  have names: "steps p 1 (rbind (parseCommaList parseNameItem acc q) (\<lambda>(x, q). Inr (f x, q)))" if m: "moved p 0 q"
    for acc q and f :: "bytes list \<Rightarrow> StmtCreatTable"
  proof -
    have "steps q 1 (parseCommaList parseNameItem acc q)"
      by (rule parseCommaList_steps[OF moved_good[OF m]]) (use parseNameItem_steps moved_good in blast)+
    then show ?thesis by (intro steps_after[OF m steps_return[where k=1]]) simp_all
  qed
  show ?thesis
  proof (cases "b1 \<or> b2")
    case True
    have m12: "moved p 0 q1" "moved p 0 q2" using m1 m2 by (auto simp: moved_def)
    show ?thesis
      using True t1 t2 names[OF m12(1)] names[OF m12(2)]
      by (cases b1; cases b2) (simp_all add: parseCreateTableItem_def)
  next
    case False
    then have "moved p (if n3 = None then 0 else 1) q4" using m1 m2 m3 m4 by (auto simp: moved_def)
    then show ?thesis using False t1 t2 t3 t4 by (auto simp: parseCreateTableItem_def split: option.splits)
  qed
qed

lemma tryStar_moved:
  assumes "moved p 0 p" and "tryStar p = (b, q)"
  shows "moved p (if b then 1 else 0) q"
proof -
  obtain b1 q1 where t1: "tryPunctuation ''*'' p = (b1, q1)" by force
  show ?thesis using assms tryPunctuation_moved[OF assms(1) t1]
    by (auto simp: tryStar_def t1 split: if_splits prod.splits bool.splits)
qed

lemma parseSelect_cols_steps:
  "moved p 0 p \<Longrightarrow> length (p_buf p) - p_pos p < fuel \<Longrightarrow> steps p 0 (parseSelect_cols fuel cols p)"
proof (induction fuel arbitrary: cols p)
  case (Suc fuel)
  obtain b1 q1 where t1: "tryKeyword [''FROM''] p = (b1, q1)" by force
  note m1 = tryKeyword_moved[OF Suc.prems(1) t1]
  obtain b2 q2 where t2: "(if cols \<noteq> [] then tryPunctuation '','' q1 else (True, q1)) = (b2, q2)" by force
  have m2: "moved q1 0 q2"
    using t2 tryPunctuation_moved[OF moved_good[OF m1]] moved_good[OF m1] by (auto split: if_splits intro: moved_weaken)
  obtain b3 q3 where t3: "tryStar q2 = (b3, q3)" by force
  note m3 = tryStar_moved[OF moved_good[OF m2] t3]
  have m: "moved p (if b3 then 1 else 0) q3" using m1 m2 m3 by (auto simp: moved_def)
  have again: "moved p 1 q \<Longrightarrow> steps q 0 (parseSelect_cols fuel cols q)" for cols q
    using Suc.IH[of q] Suc.prems by (auto simp: moved_def)
  have "steps q3 0 (rbind (parseExpr q3) (\<lambda>(e, q). parseSelect_cols fuel (cols @ [e]) q))"
  proof (rule steps_rbind[OF parseExpr_step[OF moved_good[OF m]], where i=0])
    fix e q assume "moved q3 1 q"
    then have "moved p 1 q" using m by (auto simp: moved_def)
    then show "steps q 0 ((\<lambda>(e, q). parseSelect_cols fuel (cols @ [e]) q) (e, q))" using again by simp
  qed simp
  then have "steps p 0 (case b3 of True \<Rightarrow> parseSelect_cols fuel (cols @ [EStar]) q3
      | False \<Rightarrow> rbind (parseExpr q3) (\<lambda>(e, q). parseSelect_cols fuel (cols @ [e]) q))"
    using m again[of q3] by (cases b3) (auto intro: steps_after)
  then show ?case using m1 t2 t3 by (cases b1; cases b2) (auto simp: t1 intro: moved_weaken)
qed simp

lemma parseAssign_steps:
  assumes "moved p 0 p"
  shows "steps p 1 (parseAssign p)"
proof -
  obtain n q where t: "tryName p = (n, q)" by force
  note m = tryName_moved[OF assms t]
  obtain b r where t2: "tryPunctuation ''='' q = (b, r)" by force
  note m2 = tryPunctuation_moved[OF moved_good[OF m] t2]
  have "moved p 0 r" using m m2 by (auto simp: moved_def)
  from steps_after[OF this steps_return[OF parseExpr_step[OF moved_good[OF m2]]], of 1]
  show ?thesis using t t2 by (cases n; cases b) (simp_all add: parseAssign_def del: One_nat_def)
qed

lemma parseUpdate_loop_steps:
  "moved p 0 p \<Longrightarrow> length (p_buf p) - p_pos p < fuel \<Longrightarrow> steps p 0 (parseUpdate_loop fuel out p)"
proof (induction fuel arbitrary: out p)
  case (Suc fuel)
  have "steps q 0 (case tryPunctuation '','' q of (True, p) \<Rightarrow> parseUpdate_loop fuel (out @ [a]) p | (False, p) \<Rightarrow> Inr (out @ [a], p))"
    if m: "moved p 1 q" for a q
  proof -
    obtain b r where t: "tryPunctuation '','' q = (b, r)" by force
    note m2 = tryPunctuation_moved[OF moved_good[OF m] t]
    have "steps r 0 (parseUpdate_loop fuel (out @ [a]) r)"
      using Suc.IH[OF moved_good[OF m2]] m m2 Suc.prems by (auto simp: moved_def)
    then show ?thesis using m2 by (cases b) (auto simp: t intro: steps_after)
  qed
  then show ?case unfolding parseUpdate_loop.simps
    by (intro steps_rbind[OF parseAssign_steps[OF Suc.prems(1)], where i=0]) simp_all
qed simp

lemma parseSelect_steps [parse_steps]: "moved p 0 p \<Longrightarrow> steps p 0 (parseSelect p)"
  unfolding parseSelect_def
proof (rule steps_then)
  fix cols q assume "moved q 0 q"
  then show "steps q 0 (if cols = [] then Inl (Error ''expect column list'')
       else case tryName q of (None, p) \<Rightarrow> Inl (Error ''expect table name'')
       | (Some table, p) \<Rightarrow>
           rbind (parseWhere p) (\<lambda>(cond, p).
             rbind (parseLimit \<lparr>sel_table = table, sel_cols = cols, sel_cond = cond, sel_limit = - 1, sel_offset = 0\<rparr> p)
               (\<lambda>(out, p). parseEnd out p)))"
    by (cases "cols = []") (simp, simp only: if_False, intro parse_steps, auto)
qed (rule parseSelect_cols_steps, auto)

lemma parseCreateTable_steps [parse_steps]: "moved p 0 p \<Longrightarrow> steps p 0 (parseCreateTable p)"
  unfolding parseCreateTable_def by (intro parse_steps parseCommaList_steps0 parseCreateTableItem_steps) auto

lemma parseInsert_steps [parse_steps]: "moved p 0 p \<Longrightarrow> steps p 0 (parseInsert p)"
  unfolding parseInsert_def parseValueItem_def
  by (intro parse_steps parseCommaList_steps0 steps_return parseValue_steps) auto

lemma parseUpdate_steps [parse_steps]: "moved p 0 p \<Longrightarrow> steps p 0 (parseUpdate p)"
  unfolding parseUpdate_def by (intro parse_steps parseUpdate_loop_steps) auto

lemma parseDelete_steps [parse_steps]: "moved p 0 p \<Longrightarrow> steps p 0 (parseDelete p)"
  unfolding parseDelete_def by (intro parse_steps) auto

lemma parseDropTable_steps [parse_steps]: "moved p 0 p \<Longrightarrow> steps p 0 (parseDropTable p)"
  unfolding parseDropTable_def by (intro parse_steps) auto

lemma parseStmt_steps: "moved p 0 p \<Longrightarrow> steps p 0 (parseStmt p)"
  unfolding parseStmt_def by (intro parse_steps) auto

text \<open>
  C25: on every input the parser returns a statement or an error; it never runs out of the
  fuel that bounds its loops and its recursion.
\<close>

theorem ParseStmt_returns: "ParseStmt s \<noteq> Inl out_of_fuel"
proof -
  have "steps (NewParser s) 0 (parseStmt (NewParser s))"
    by (rule parseStmt_steps) (simp add: moved_def NewParser_def)
  then show ?thesis by (auto simp: ParseStmt_def rbind_def steps_def split: sum.splits)
qed

end
