(* ===== verification/SqlPrint.thy ===== *)
theory SqlPrint
  imports SqlTerm
begin

text \<open>
  A printer for statements, and that the parser reads back what it prints.  The rules for \<open>reads\<close> follow
  the parser's control flow on an input known up to leading spaces.
\<close>

section \<open>Printing\<close>

fun commas :: "bytes list \<Rightarrow> bytes" where
  "commas [] = []"
| "commas [x] = x"
| "commas (x # xs) = x @ 44 # commas xs"

definition print_str :: "bytes \<Rightarrow> bytes" where
  "print_str s = 39 # concat (map (\<lambda>c. if c = 34 \<or> c = 39 then [92, c] else [c]) s) @ [39]"

definition print_cell :: "cell \<Rightarrow> bytes" where
  "print_cell c = (if cell_Type c = TypeI64 then FormatInt (sint (cell_I64 c)) else print_str (cell_Str c))"

fun op_text :: "ExprOp \<Rightarrow> string" where
  "op_text OP_ADD = ''+''" | "op_text OP_SUB = ''-''" | "op_text OP_MUL = ''*''" | "op_text OP_DIV = ''/''"
| "op_text OP_EQ = ''=''" | "op_text OP_NE = ''!=''" | "op_text OP_LE = ''<=''" | "op_text OP_GE = ''>=''"
| "op_text OP_LT = ''<''" | "op_text OP_GT = ''>''" | "op_text OP_AND = ''AND''" | "op_text OP_OR = ''OR''"
| "op_text OP_NOT = ''NOT''" | "op_text OP_NEG = ''-''"

fun print_expr :: "expr \<Rightarrow> bytes" where
  "print_expr (EName n) = n"
| "print_expr (ECell c) = print_cell c"
| "print_expr (EUnOp op e) = (if op = OP_NEG then 45 # print_expr e else str_bytes ''(NOT '' @ print_expr e @ [41])"
| "print_expr (EBinOp op l r) = 40 # print_expr l @ 32 # str_bytes (op_text op) @ 32 # print_expr r @ [41]"
| "print_expr (ETuple es) = 40 # commas (map print_expr es) @ [41]"
| "print_expr EStar = [42]"

text \<open>The levels the parser enters to read an expression back.\<close>

fun print_depth :: "expr \<Rightarrow> nat" where
  "print_depth (EUnOp op e) = (if op = OP_NEG then 1 else 2) + print_depth e"
| "print_depth (EBinOp op l r) = 1 + max (print_depth l) (print_depth r)"
| "print_depth (ETuple es) = 1 + Max (insert 0 (set (map print_depth es)))"
| "print_depth _ = 0"

section \<open>What can be printed\<close>

definition name_ok :: "bytes \<Rightarrow> bool" where
  "name_ok n \<longleftrightarrow> n \<noteq> [] \<and> isNameStart (hd n) \<and> list_all isNameContinue (tl n) \<and>
     list_all (\<lambda>kw. \<not> EqualFold n (str_bytes kw)) [''NOT'', ''FROM'', ''PRIMARY'', ''INDEX'']"

text \<open>A cell as the parser makes it.  No escape writes a backslash.\<close>

definition literal_ok :: "cell \<Rightarrow> bool" where
  "literal_ok c \<longleftrightarrow> c = cell_int (cell_I64 c) \<or> c = cell_str (cell_Str c) \<and> 92 \<notin> set (cell_Str c)"

fun expr_printable :: "expr \<Rightarrow> bool" where
  "expr_printable (EName n) = name_ok n"
| "expr_printable (ECell c) = (literal_ok c \<and> 0 \<le> sint (cell_I64 c))"
| "expr_printable (EUnOp op e) = ((op = OP_NEG \<or> op = OP_NOT) \<and> expr_printable e)"
| "expr_printable (EBinOp op l r) = (op \<noteq> OP_NEG \<and> op \<noteq> OP_NOT \<and> expr_printable l \<and> expr_printable r)"
| "expr_printable (ETuple es) = (2 \<le> length es \<and> list_all expr_printable es)"
| "expr_printable EStar = False"

section \<open>Reading known input\<close>

definition trim :: "bytes \<Rightarrow> bytes" where
  "trim s = dropWhile isSpace s"

definition at_input :: "nat \<Rightarrow> bytes \<Rightarrow> Parser \<Rightarrow> bool" where
  "at_input d s q \<longleftrightarrow> p_depth q = d \<and> trim (p_rest q) = trim s"

definition reads :: "nat \<Rightarrow> (Parser \<Rightarrow> ('a \<times> Parser) res) \<Rightarrow> bytes \<Rightarrow> 'a \<Rightarrow> bytes \<Rightarrow> bool" where
  "reads d f s x r \<longleftrightarrow> (\<forall>q. at_input d s q \<longrightarrow> (\<exists>q'. f q = Inr (x, q') \<and> at_input d r q'))"

lemma readsI: "(\<And>q. at_input d s q \<Longrightarrow> \<exists>q'. f q = Inr (x, q') \<and> at_input d r q') \<Longrightarrow> reads d f s x r"
  by (simp add: reads_def)

lemma readsE:
  assumes "reads d f s x r" and "at_input d s q"
  obtains q' where "f q = Inr (x, q')" and "at_input d r q'"
  using assms by (auto simp: reads_def)

lemma p_rest_advance [simp]: "p_rest (advance n p) = drop n (p_rest p)"
  by (simp add: p_rest_def advance_def add.commute)

lemma p_depth_advance [simp]: "p_depth (advance n p) = p_depth p" "p_depth (skipSpaces p) = p_depth p"
  by (simp_all add: advance_def skipSpaces_def)

lemma p_rest_skipSpaces [simp]: "p_rest (skipSpaces p) = trim (p_rest p)"
  by (simp add: skipSpaces_def trim_def dropWhile_eq_drop)

lemma trim_trim [simp]: "trim (trim s) = trim s"
  by (simp add: trim_def dropWhile_idem)

lemma trim_Cons: "trim (c # s) = (if isSpace c then trim s else c # s)"
  by (simp add: trim_def)

lemma at_input_trim: "trim s = trim t \<Longrightarrow> at_input d s q \<longleftrightarrow> at_input d t q"
  by (simp add: at_input_def)

lemma reads_trim: "trim s = trim t \<Longrightarrow> reads d f t x r \<Longrightarrow> reads d f s x r"
  by (simp add: reads_def at_input_def)

named_theorems reading \<open>rules for what the parser reads\<close>

lemma reads_bind [reading]:
  "reads d f s x t \<Longrightarrow> reads d (g x) t y r \<Longrightarrow> reads d (\<lambda>p. rbind (f p) (\<lambda>(x, p). g x p)) s y r"
  by (fastforce simp: reads_def)

lemma reads_return [reading]: "reads d (\<lambda>p. Inr (x, p)) s x s"
  by (simp add: reads_def)

lemma tryPunctuation_yes:
  assumes "at_input d s q" and "trim s = str_bytes tok @ t"
  obtains q' where "tryPunctuation tok q = (True, q')" and "at_input d t q'"
    and "q'\<lparr>p_pos := p_pos q' - length tok\<rparr> = skipSpaces q"
proof
  show "tryPunctuation tok q = (True, advance (length tok) (skipSpaces q))"
    using assms by (simp add: tryPunctuation_def has_prefix_def at_input_def str_bytes_def)
  show "at_input d t (advance (length tok) (skipSpaces q))"
    using assms by (simp add: at_input_def str_bytes_def)
  show "(advance (length tok) (skipSpaces q))\<lparr>p_pos := p_pos (advance (length tok) (skipSpaces q)) - length tok\<rparr> = skipSpaces q"
    by (simp add: advance_def)
qed

lemma tryPunctuation_no:
  assumes "at_input d s q" and "\<not> has_prefix (trim s) (str_bytes tok)"
  obtains q' where "tryPunctuation tok q = (False, q')" and "at_input d s q'"
proof
  show "tryPunctuation tok q = (False, skipSpaces q)" "at_input d s (skipSpaces q)"
    using assms by (simp_all add: tryPunctuation_def at_input_def)
qed

lemma reads_punct:
  assumes "trim s = str_bytes tok @ t" and "reads d f t x r"
  shows "reads d (\<lambda>p. case tryPunctuation tok p of (True, p) \<Rightarrow> f p | (False, p) \<Rightarrow> g p) s x r"
proof (rule readsI)
  fix q assume "at_input d s q"
  then obtain q' where "tryPunctuation tok q = (True, q')" "at_input d t q'" using assms(1) by (rule tryPunctuation_yes)
  then show "\<exists>q'. (case tryPunctuation tok q of (True, p) \<Rightarrow> f p | (False, p) \<Rightarrow> g p) = Inr (x, q') \<and> at_input d r q'"
    using assms(2) by (auto simp: reads_def)
qed

lemma reads_no_punct:
  assumes "\<not> has_prefix (trim s) (str_bytes tok)" and "reads d g s x r"
  shows "reads d (\<lambda>p. case tryPunctuation tok p of (True, p) \<Rightarrow> f p | (False, p) \<Rightarrow> g p) s x r"
proof (rule readsI)
  fix q assume "at_input d s q"
  then obtain q' where "tryPunctuation tok q = (False, q')" "at_input d s q'" using assms(1) by (rule tryPunctuation_no)
  then show "\<exists>q'. (case tryPunctuation tok q of (True, p) \<Rightarrow> f p | (False, p) \<Rightarrow> g p) = Inr (x, q') \<and> at_input d r q'"
    using assms(2) by (auto simp: reads_def)
qed

text \<open>Keywords on the remaining input: what is left after them.\<close>

fun after_keywords :: "bytes list \<Rightarrow> bytes \<Rightarrow> bytes option" where
  "after_keywords [] s = Some s"
| "after_keywords (kw # kws) s =
     (let s = trim s in
      if length s < length kw \<or> \<not> EqualFold (take (length kw) s) kw then None
      else if length kw < length s \<and> \<not> isSeparator (s ! length kw) then None
      else after_keywords kws (drop (length kw) s))"

lemma tryKeyword_loop_at:
  assumes "at_input d s q"
  shows "case after_keywords kws s of None \<Rightarrow> tryKeyword_loop kws q = None
     | Some t \<Rightarrow> \<exists>q'. tryKeyword_loop kws q = Some q' \<and> at_input d t q'"
  using assms
proof (induction kws s arbitrary: q rule: after_keywords.induct)
  case (2 kw kws s)
  have r: "p_rest (skipSpaces q) = trim s" using 2(2) by (simp add: at_input_def)
  have a: "at_input d (drop (length kw) (trim s)) (advance (length kw) (skipSpaces q))"
    using 2(2) by (simp add: at_input_def)
  show ?case
  proof (cases "(length (trim s) < length kw \<or> \<not> EqualFold (take (length kw) (trim s)) kw) \<or>
      length kw < length (trim s) \<and> \<not> isSeparator (trim s ! length kw)")
    case True
    then show ?thesis using r by (auto simp: Let_def)
  next
    case False
    then have k: "tryKeyword_loop (kw # kws) q = tryKeyword_loop kws (advance (length kw) (skipSpaces q))"
      and k': "after_keywords (kw # kws) s = after_keywords kws (drop (length kw) (trim s))"
      using r by (auto simp: Let_def)
    show ?thesis unfolding k k' using False by (intro 2(1)[OF refl _ _ a]) auto
  qed
qed simp

lemma reads_keyword:
  assumes "after_keywords (map str_bytes kws) s = Some t" and "reads d f t x r"
  shows "reads d (\<lambda>p. case tryKeyword kws p of (True, p) \<Rightarrow> f p | (False, p) \<Rightarrow> g p) s x r"
proof (rule readsI)
  fix q assume "at_input d s q"
  from tryKeyword_loop_at[OF this, of "map str_bytes kws"] assms(1)
  obtain q' where "tryKeyword kws q = (True, q')" "at_input d t q'" by (auto simp: tryKeyword_def)
  then show "\<exists>q'. (case tryKeyword kws q of (True, p) \<Rightarrow> f p | (False, p) \<Rightarrow> g p) = Inr (x, q') \<and> at_input d r q'"
    using assms(2) by (auto simp: reads_def)
qed

lemma reads_no_keyword:
  assumes "after_keywords (map str_bytes kws) s = None" and "reads d g s x r"
  shows "reads d (\<lambda>p. case tryKeyword kws p of (True, p) \<Rightarrow> f p | (False, p) \<Rightarrow> g p) s x r"
proof (rule readsI)
  fix q assume at: "at_input d s q"
  from tryKeyword_loop_at[OF this, of "map str_bytes kws"] assms(1)
  have "tryKeyword kws q = (False, q)" by (auto simp: tryKeyword_def)
  then show "\<exists>q'. (case tryKeyword kws q of (True, p) \<Rightarrow> f p | (False, p) \<Rightarrow> g p) = Inr (x, q') \<and> at_input d r q'"
    using assms(2) at by (auto simp: reads_def)
qed

text \<open>Characters that may follow a name or a number, and what follows an expression.\<close>

definition delim :: "bytes \<Rightarrow> bool" where
  "delim r \<longleftrightarrow> r \<noteq> [] \<and> hd r \<in> {32, 40, 41, 44, 59}"

definition closing :: "bytes \<Rightarrow> bool" where
  "closing r \<longleftrightarrow> delim r \<and> trim r \<noteq> [] \<and> hd (trim r) \<in> {41, 44, 59, 70, 76, 87}"

lemma delim_simps:
  assumes "delim r"
  shows "\<not> isNameContinue (hd r)" "\<not> isDigit (hd r)" "isSeparator (hd r)" "r \<noteq> []"
  using assms by (auto simp: delim_def isNameContinue_def isAlpha_def isDigit_def isSeparator_def)

lemma takeWhile_stop: "list_all P xs \<Longrightarrow> r \<noteq> [] \<Longrightarrow> \<not> P (hd r) \<Longrightarrow> takeWhile P (xs @ r) = xs"
  by (induction xs) (auto simp: takeWhile_eq_Nil_iff)

lemma name_start_not_space: "isNameStart c \<Longrightarrow> \<not> isSpace c"
  by (auto simp: isNameStart_def isAlpha_def isSpace_def)

lemma reads_name:
  assumes "trim s = n @ t" and "name_ok n" and "delim t" and "reads d (f n) t x r"
  shows "reads d (\<lambda>p. case tryName p of (Some n, p) \<Rightarrow> f n p | (None, p) \<Rightarrow> g p) s x r"
proof (rule readsI)
  fix q assume at: "at_input d s q"
  obtain c cs where n: "n = c # cs" "isNameStart c" "list_all isNameContinue cs"
    using assms(2) by (cases n) (auto simp: name_ok_def)
  have "takeWhile isNameContinue (cs @ t) = cs" using n(3) delim_simps[OF assms(3)] by (intro takeWhile_stop) auto
  then have "tryName q = (Some n, advance (length n) (skipSpaces q))"
    using at n assms(1) by (simp add: tryName_def at_input_def Let_def)
  moreover have "at_input d t (advance (length n) (skipSpaces q))" using at assms(1) by (simp add: at_input_def)
  ultimately show "\<exists>q'. (case tryName q of (Some n, p) \<Rightarrow> f n p | (None, p) \<Rightarrow> g p) = Inr (x, q') \<and> at_input d r q'"
    using assms(4) by (auto simp: reads_def)
qed

lemma reads_no_name:
  assumes "trim s = [] \<or> \<not> isNameStart (hd (trim s))" and "reads d g s x r"
  shows "reads d (\<lambda>p. case tryName p of (Some n, p) \<Rightarrow> f n p | (None, p) \<Rightarrow> g p) s x r"
proof (rule readsI)
  fix q assume at: "at_input d s q"
  then have "tryName q = (None, skipSpaces q)" "at_input d s (skipSpaces q)"
    using assms(1) by (auto simp: tryName_def at_input_def Let_def split: list.splits)
  then show "\<exists>q'. (case tryName q of (Some n, p) \<Rightarrow> f n p | (None, p) \<Rightarrow> g p) = Inr (x, q') \<and> at_input d r q'"
    using assms(2) by (auto simp: reads_def)
qed

lemma reads_nested:
  assumes "reads (Suc d) f s x r" and "d < maxExprDepth"
  shows "reads d (\<lambda>p. rbind (enter p) (\<lambda>p. rbind (f p) (\<lambda>(e, p). Inr (g e, leave p)))) s (g x) r"
proof (rule readsI)
  fix q assume at: "at_input d s q"
  let ?q = "q\<lparr>p_depth := p_depth q + 1\<rparr>"
  have e: "enter q = Inr ?q" using at assms(2) by (simp add: enter_def at_input_def)
  have "at_input (Suc d) s ?q" using at by (simp add: at_input_def p_rest_def)
  with assms(1) obtain q' where q': "f ?q = Inr (x, q')" "at_input (Suc d) r q'" by (rule readsE)
  have "at_input d r (leave q')" using q'(2) by (simp add: at_input_def leave_def p_rest_def)
  then show "\<exists>q'. rbind (enter q) (\<lambda>p. rbind (f p) (\<lambda>(e, p). Inr (g e, leave p))) = Inr (g x, q') \<and> at_input d r q'"
    using e q'(1) by simp
qed

section \<open>Values\<close>

lemma parseString_loop_print:
  assumes "92 \<notin> set s"
  shows "parseString_loop 39 (concat (map (\<lambda>c. if c = 34 \<or> c = 39 then [92, c] else [c]) s) @ 39 # r) acc n =
    Inr (acc @ s, n + length (concat (map (\<lambda>c. if c = 34 \<or> c = 39 then [92, c] else [c]) s)) + 1)"
  using assms by (induction s arbitrary: acc n) auto

lemma isDigit_is_digit: "isDigit c = is_digit c"
  by (simp add: isDigit_def is_digit_def)

lemma parseInt_print:
  fixes i :: u64
  assumes "p_rest q = FormatInt (sint i) @ t" and "delim t"
  shows "parseInt q = Inr (cell_int i, advance (length (FormatInt (sint i))) q)"
proof -
  let ?sg = "if sint i < 0 then [45] else [] :: bytes" and ?n = "nat \<bar>sint i\<bar>"
  have p: "FormatInt (sint i) = ?sg @ FormatUint ?n" by (simp add: FormatInt_def)
  have digits: "list_all isDigit (FormatUint ?n)"
    using FormatUint_digits[of ?n] by (simp add: isDigit_is_digit list_all_iff)
  have tw: "takeWhile isDigit (FormatUint ?n @ t) = FormatUint ?n"
    using digits delim_simps[OF assms(2)] by (intro takeWhile_stop) auto
  have ok: "ParseInt (FormatInt (sint i)) = Inr (sint i)"
    using sint_ge[of i] sint_lt[of i] by (intro ParseInt_FormatInt) auto
  have hd: "hd (FormatUint ?n @ t) \<noteq> 45" "hd (FormatUint ?n @ t) \<noteq> 43"
    using FormatUint_hd[of ?n] by (auto simp: hd_append)
  show ?thesis
    using ok hd tw assms(1) unfolding p by (cases "sint i < 0") (simp_all add: parseInt_def)
qed

lemma parseString_print:
  assumes "p_rest q = print_str s @ t" and "92 \<notin> set s"
  shows "parseString q = Inr (cell_str s, advance (length (print_str s)) q)"
  using assms parseString_loop_print[OF assms(2), of t "[]" 1]
  by (simp add: parseString_def print_str_def)

lemma reads_value:
  assumes "literal_ok c" and "delim t" and "trim s = print_cell c @ t"
  shows "reads d parseValue s c t"
proof (rule readsI)
  fix q assume at: "at_input d s q"
  let ?q = "advance (length (print_cell c)) (skipSpaces q)"
  have r: "p_rest (skipSpaces q) = print_cell c @ t" using at assms(3) by (simp add: at_input_def)
  have "parseValue q = Inr (c, ?q)"
  proof (cases "c = cell_int (cell_I64 c)")
    case True
    then have pc: "print_cell c = FormatInt (sint (cell_I64 c))"
      by (metis cell.select_convs(1) cell_int_def print_cell_def)
    have "print_cell c \<noteq> [] \<and> (isDigit (hd (print_cell c)) \<or> hd (print_cell c) = 45)"
      using FormatUint_digits[of "nat (sint (cell_I64 c))"] unfolding pc
      by (cases "FormatUint (nat (sint (cell_I64 c)))") (auto simp: FormatInt_def isDigit_is_digit)
    then obtain ch cs where "print_cell c = ch # cs" "isDigit ch \<or> ch = 45" by (cases "print_cell c") auto
    moreover from this have "ch \<noteq> 34" "ch \<noteq> 39" by (auto simp: isDigit_def)
    ultimately show ?thesis
      using parseInt_print[of "skipSpaces q" "cell_I64 c" t] r pc True assms(2) by (auto simp: parseValue_def)
  next
    case False
    then have c: "c = cell_str (cell_Str c)" "92 \<notin> set (cell_Str c)" using assms(1) by (auto simp: literal_ok_def)
    have pc: "print_cell c = print_str (cell_Str c)" by (subst c(1)) (simp add: print_cell_def cell_str_def)
    show ?thesis using parseString_print[of "skipSpaces q" "cell_Str c" t] r pc c
      by (simp add: parseValue_def) (simp add: print_str_def)
  qed
  moreover have "at_input d t ?q" using at assms(3) by (simp add: at_input_def)
  ultimately show "\<exists>q'. parseValue q = Inr (c, q') \<and> at_input d t q'" by blast
qed

section \<open>Comma lists\<close>

lemma commas_Cons: "commas (x # xs) = x @ concat (map ((#) 44) xs)"
  by (induction xs arbitrary: x) simp_all

lemma at_input_length: "at_input d s q \<Longrightarrow> length (trim s) \<le> length (p_buf q)"
  unfolding at_input_def trim_def p_rest_def by (metis length_dropWhile_le length_drop diff_le_self le_trans)

lemma prefix_Cons: "has_prefix s (str_bytes [c]) \<longleftrightarrow> s \<noteq> [] \<and> hd s = of_char c"
  by (cases s) (auto simp: has_prefix_def str_bytes_def)

definition item_end :: "bytes \<Rightarrow> bool" where
  "item_end r \<longleftrightarrow> r \<noteq> [] \<and> hd r \<in> {41, 44}"

lemma length_trim_append: "t \<noteq> [] \<Longrightarrow> \<not> isSpace (hd t) \<Longrightarrow> length t \<le> length (trim (s @ t))"
  by (induction s) (cases t; auto simp: trim_Cons)+

lemma parseCommaList_loop_eqs:
  "parseCommaList_loop (Suc fuel) item False acc =
     (\<lambda>p. case tryPunctuation '')'' p of (True, p) \<Rightarrow> Inr (acc, p)
       | (False, p) \<Rightarrow> rbind (item acc p) (\<lambda>(acc, p). parseCommaList_loop fuel item True acc p))"
  "parseCommaList_loop (Suc fuel) item True acc =
     (\<lambda>p. case tryPunctuation '')'' p of (True, p) \<Rightarrow> Inr (acc, p)
       | (False, p) \<Rightarrow> (case tryPunctuation '','' p of
            (True, p) \<Rightarrow> rbind (item acc p) (\<lambda>(acc, p). parseCommaList_loop fuel item True acc p)
          | (False, p) \<Rightarrow> Inl (Error ''expect ,'')))"
  by (rule ext, simp split: prod.splits bool.splits)+

lemma reads_list_loop:
  assumes "\<forall>x \<in> set xs. \<forall>acc r. item_end r \<longrightarrow> reads d (item acc) (pr x @ r) (upd acc x) r"
  shows "length xs < fuel \<Longrightarrow>
    reads d (parseCommaList_loop fuel item True acc) (concat (map (\<lambda>x. 44 # pr x) xs) @ 41 # r) (foldl upd acc xs) r"
  using assms
proof (induction xs arbitrary: fuel acc)
  case Nil
  then show ?case by (cases fuel) (auto intro!: reads_punct reads_return simp: trim_Cons isSpace_def str_bytes_def)
next
  case (Cons x xs)
  then obtain n where n: "fuel = Suc n" "length xs < n" by (cases fuel) auto
  let ?t = "concat (map (\<lambda>x. 44 # pr x) xs) @ 41 # r"
  have "item_end ?t" by (cases xs) (auto simp: item_end_def)
  then have item: "reads d (item acc) (pr x @ ?t) (upd acc x) ?t" using Cons.prems(2) by simp
  have again: "reads d (parseCommaList_loop n item True (upd acc x)) ?t (foldl upd (upd acc x) xs) r"
    using Cons.IH[OF n(2)] Cons.prems(2) by simp
  show ?case unfolding n(1) parseCommaList_loop_eqs
    by (rule reads_no_punct, simp add: trim_Cons isSpace_def has_prefix_def str_bytes_def, rule reads_punct[OF _ reads_bind])
       (use item again in \<open>simp_all add: trim_Cons isSpace_def str_bytes_def\<close>)
qed

lemma reads_list:
  assumes "\<forall>x \<in> set xs. \<forall>acc r. item_end r \<longrightarrow> reads d (item acc) (pr x @ r) (upd acc x) r"
    and "\<forall>x \<in> set xs. \<forall>r. hd (trim (pr x @ r)) \<noteq> 41"
    and "trim s = 40 # commas (map pr xs) @ 41 # r"
  shows "reads d (parseCommaList item acc) s (foldl upd acc xs) r"
proof (rule readsI)
  fix q assume at: "at_input d s q"
  let ?s = "commas (map pr xs) @ 41 # r"
  obtain q' where t: "tryPunctuation ''('' q = (True, q')" and at': "at_input d ?s q'"
    using tryPunctuation_yes[OF at, of "''(''" ?s] assms(3) by (auto simp: str_bytes_def)
  have len: "length (trim ?s) \<le> length (p_buf q')" using at' by (rule at_input_length)
  have "reads d (parseCommaList_loop (Suc (length (p_buf q'))) item False acc) ?s (foldl upd acc xs) r"
  proof (cases xs)
    case Nil
    then show ?thesis by (auto intro!: reads_punct reads_return simp: parseCommaList_loop_eqs trim_Cons isSpace_def str_bytes_def)
  next
    case (Cons x ys)
    let ?t = "concat (map (\<lambda>x. 44 # pr x) ys) @ 41 # r"
    have s: "?s = pr x @ ?t" by (simp add: Cons commas_Cons comp_def)
    have e: "item_end ?t" by (cases ys) (auto simp: item_end_def)
    have "length ys < length ?t" by (induction ys) auto
    also have "\<dots> \<le> length (trim ?s)" unfolding s using e by (intro length_trim_append) (auto simp: item_end_def isSpace_def)
    finally have fuel: "length ys < length (p_buf q')" using len by simp
    have item: "reads d (item acc) (pr x @ ?t) (upd acc x) ?t" using assms(1) Cons e by simp
    have again: "reads d (parseCommaList_loop (length (p_buf q')) item True (upd acc x)) ?t (foldl upd (upd acc x) ys) r"
      using fuel assms(1) Cons by (intro reads_list_loop) auto
    have "\<not> has_prefix (trim ?s) (str_bytes '')'')"
      using assms(2) Cons unfolding s by (simp add: prefix_Cons)
    then show ?thesis unfolding parseCommaList_loop_eqs s unfolding Cons foldl_Cons
      by (rule reads_no_punct[OF _ reads_bind]) (rule item again)+
  qed
  from readsE[OF this at'] show "\<exists>q'. parseCommaList item acc q = Inr (foldl upd acc xs, q') \<and> at_input d r q'"
    by (auto simp: parseCommaList_def t)
qed

section \<open>Operators\<close>

definition no_token :: "(string \<times> ExprOp) list \<Rightarrow> bytes \<Rightarrow> bool" where
  "no_token toks t \<longleftrightarrow>
     list_all (\<lambda>(tok, _). \<not> has_prefix (trim t) (str_bytes tok) \<and> after_keywords [str_bytes tok] t = None) toks"

lemma tryTokens_none:
  "no_token toks t \<Longrightarrow> at_input d t q \<Longrightarrow> \<exists>q'. tryTokens toks q = (None, q') \<and> at_input d t q'"
proof (induction toks arbitrary: q)
  case (Cons x toks)
  obtain tok op where x: "x = (tok, op)" by force
  obtain q1 where q1: "tryPunctuation tok q = (False, q1)" "at_input d t q1"
    using Cons.prems x by (auto simp: no_token_def intro: tryPunctuation_no)
  have "tryKeyword [tok] q1 = (False, q1)"
    using tryKeyword_loop_at[OF q1(2), of "[str_bytes tok]"] Cons.prems(1) x by (auto simp: no_token_def tryKeyword_def)
  then show ?case using Cons.IH[OF _ q1(2)] Cons.prems(1) q1(1) x by (simp add: no_token_def)
qed simp

fun token_at :: "(string \<times> ExprOp) list \<Rightarrow> bytes \<Rightarrow> ExprOp \<Rightarrow> bytes \<Rightarrow> bool" where
  "token_at [] t op u = False"
| "token_at ((tok, op') # toks) t op u =
     (op' = op \<and> tok \<noteq> [] \<and> trim t = str_bytes tok @ u \<or> no_token [(tok, op')] t \<and> token_at toks t op u)"

lemma tryTokens_some:
  "token_at toks t op u \<Longrightarrow> at_input d t q \<Longrightarrow> \<exists>q'. tryTokens toks q = (Some op, q') \<and> at_input d u q'"
proof (induction toks arbitrary: q)
  case (Cons x toks)
  obtain tok op1 where x: "x = (tok, op1)" by force
  show ?case
  proof (cases "op1 = op \<and> tok \<noteq> [] \<and> trim t = str_bytes tok @ u")
    case True
    then show ?thesis using Cons.prems(2) x by (auto intro: tryPunctuation_yes)
  next
    case False
    then have n: "no_token [(tok, op1)] t" "token_at toks t op u" using Cons.prems(1) x by auto
    obtain q1 where q1: "tryPunctuation tok q = (False, q1)" "at_input d t q1"
      using Cons.prems(2) n(1) by (auto simp: no_token_def intro: tryPunctuation_no)
    have "tryKeyword [tok] q1 = (False, q1)"
      using tryKeyword_loop_at[OF q1(2), of "[str_bytes tok]"] n(1) by (auto simp: no_token_def tryKeyword_def)
    then show ?thesis using Cons.IH[OF n(2) q1(2)] q1(1) x by simp
  qed
qed simp

lemma token_at_trim: "token_at toks t op u \<Longrightarrow> trim t \<noteq> []"
  by (induction toks t op u rule: token_at.induct) (auto simp: str_bytes_def)

lemma reads_operand:
  assumes "reads d inner s e t" and "no_token toks t"
  shows "reads d (parseBinop toks inner) s e t"
proof (rule readsI)
  fix q assume "at_input d s q"
  with assms(1) obtain q1 where q1: "inner q = Inr (e, q1)" "at_input d t q1" by (rule readsE)
  then show "\<exists>q'. parseBinop toks inner q = Inr (e, q') \<and> at_input d t q'"
    using tryTokens_none[OF assms(2) q1(2)] by (auto simp: parseBinop_def)
qed

lemma reads_binop:
  assumes "reads d inner s l t" and "token_at toks t op u" and "reads d inner u r v" and "no_token toks v"
  shows "reads d (parseBinop toks inner) s (EBinOp op l r) v"
proof (rule readsI)
  fix q assume "at_input d s q"
  with assms(1) obtain q1 where q1: "inner q = Inr (l, q1)" "at_input d t q1" by (rule readsE)
  obtain q2 where q2: "tryTokens toks q1 = (Some op, q2)" "at_input d u q2"
    using tryTokens_some[OF assms(2) q1(2)] by blast
  obtain q3 where q3: "inner q2 = Inr (r, q3)" "at_input d v q3" using readsE[OF assms(3) q2(2)] by blast
  obtain n where "length (p_buf q1) = Suc n"
    using at_input_length[OF q1(2)] token_at_trim[OF assms(2)] by (cases "length (p_buf q1)") auto
  then show "\<exists>q'. parseBinop toks inner q = Inr (EBinOp op l r, q') \<and> at_input d v q'"
    using tryTokens_none[OF assms(4) q3(2)] q1 q2 q3 by (auto simp: parseBinop_def)
qed

declare after_keywords.simps(2) [simp del]

section \<open>Expressions\<close>

lemma keyword_first: "kw \<noteq> [] \<Longrightarrow> ascii_lower (hd kw) \<noteq> ascii_lower c \<Longrightarrow> \<not> isSpace c \<Longrightarrow> after_keywords (kw # kws) (c # s) = None"
  by (cases kw) (auto simp: after_keywords.simps(2) Let_def trim_Cons EqualFold_def)

lemma no_token_first:
  assumes "trim t = c # s" and "list_all (\<lambda>(tok, _). tok \<noteq> [] \<and> ascii_lower (of_char (hd tok)) \<noteq> ascii_lower c) toks"
  shows "no_token toks t"
proof -
  have k: "after_keywords (kw # kws) t = after_keywords (kw # kws) (c # s)" for kw kws
    using assms(1) trim_trim[of t] by (simp add: after_keywords.simps(2))
  have sp: "\<not> isSpace c" using assms(1) hd_dropWhile[of isSpace t] by (auto simp: trim_def)
  have "\<not> has_prefix (trim t) (str_bytes tok) \<and> after_keywords [str_bytes tok] t = None"
    if "tok \<noteq> []" and "ascii_lower (of_char (hd tok)) \<noteq> ascii_lower c" for tok
    using that sp keyword_first[of "str_bytes tok" c] assms(1) unfolding k
    by (cases tok) (auto simp: str_bytes_def has_prefix_def)
  then show ?thesis using assms(2) unfolding no_token_def by (auto simp: list_all_iff)
qed

lemma closing_no_token:
  assumes "closing r"
  shows "no_token or_tokens r" "no_token and_tokens r" "no_token cmp_tokens r" "no_token add_tokens r" "no_token mul_tokens r"
proof -
  obtain c s where c: "trim r = c # s" "c \<in> {41, 44, 59, 70, 76, 87}" using assms by (cases "trim r") (auto simp: closing_def)
  show "no_token or_tokens r" "no_token and_tokens r" "no_token cmp_tokens r" "no_token add_tokens r" "no_token mul_tokens r"
    using c(2) by (elim insertE emptyE; simp add: no_token_first[OF c(1)] ascii_lower_def)+
qed

lemma name_not_keyword:
  assumes "name_ok n" and "delim r" and "\<not> EqualFold n kw" and "list_all (\<lambda>k. 97 \<le> ascii_lower k) kw"
  shows "after_keywords (kw # kws) (n @ r) = None"
proof -
  have n: "n \<noteq> []" "list_all isNameContinue n" "\<not> isSpace (hd n)"
    using assms(1) name_start_not_space by (cases n; auto simp: name_ok_def isNameStart_def isNameContinue_def)+
  then have t: "trim (n @ r) = n @ r" by (cases n) (auto simp: trim_Cons)
  consider "length n = length kw" | "length n < length kw" | "length kw < length n" by linarith
  then show ?thesis
  proof cases
    case 1
    then show ?thesis using assms(3) by (simp add: t after_keywords.simps(2) Let_def)
  next
    case 2
    have "\<not> EqualFold (take (length kw) (n @ r)) kw"
    proof
      assume "EqualFold (take (length kw) (n @ r)) kw"
      then have "map ascii_lower (take (length kw) (n @ r)) ! length n = map ascii_lower kw ! length n"
        by (simp add: EqualFold_def)
      then have "ascii_lower (hd r) = ascii_lower (kw ! length n)"
        using 2 assms(2) by (simp add: nth_append hd_conv_nth delim_def)
      moreover have "97 \<le> ascii_lower (kw ! length n)" using 2 assms(4) by (simp add: list_all_length)
      moreover have "ascii_lower (hd r) < 97" using assms(2) by (auto simp: delim_def ascii_lower_def)
      ultimately show False by simp
    qed
    then show ?thesis by (simp add: t after_keywords.simps(2) Let_def)
  next
    case 3
    then have "\<not> isSeparator ((n @ r) ! length kw)" using n(2) by (simp add: nth_append isSeparator_def list_all_length)
    then show ?thesis using 3 by (simp add: t after_keywords.simps(2) Let_def)
  qed
qed

lemma print_expr_first:
  assumes "expr_printable e"
  obtains c s where "print_expr e = c # s" "\<not> isSpace c" "isNameStart c \<and> e = EName (c # s) \<or> isDigit c \<or> c \<in> {39, 40, 45}"
proof (cases e)
  case (EName n)
  then show ?thesis using assms that name_start_not_space by (cases n) (auto simp: name_ok_def)
next
  case (ECell c)
  consider "cell_Type c = TypeI64" | "cell_Type c \<noteq> TypeI64" by blast
  then show ?thesis
  proof cases
    case 1
    let ?u = "FormatUint (nat (sint (cell_I64 c)))"
    have "print_expr e = ?u" using 1 assms ECell by (simp add: print_cell_def FormatInt_def)
    moreover obtain ch ds where "?u = ch # ds" "isDigit ch"
      using FormatUint_digits[of "nat (sint (cell_I64 c))"] by (cases ?u) (auto simp: isDigit_is_digit)
    moreover have "\<not> isSpace ch" using calculation(3) by (auto simp: isDigit_def isSpace_def)
    ultimately show ?thesis using that by simp
  qed (use ECell that in \<open>auto simp: print_cell_def print_str_def isSpace_def\<close>)
qed (use assms that in \<open>auto simp: isSpace_def str_bytes_def split: if_splits\<close>)

lemma print_expr_no_keyword:
  assumes "expr_printable e" and "delim r" and "kw \<in> {''NOT'', ''FROM''}"
  shows "after_keywords [str_bytes kw] (print_expr e @ r) = None"
proof -
  obtain c s where c: "print_expr e = c # s" "\<not> isSpace c" "isNameStart c \<and> e = EName (c # s) \<or> isDigit c \<or> c \<in> {39, 40, 45}"
    using print_expr_first[OF assms(1)] .
  show ?thesis
  proof (cases "e = EName (c # s)")
    case True
    then have "name_ok (c # s)" using assms(1) by simp
    moreover have "\<not> EqualFold (c # s) (str_bytes kw)" using calculation assms(3) by (auto simp: name_ok_def)
    moreover have "list_all (\<lambda>k. 97 \<le> ascii_lower k) (str_bytes kw)"
      using assms(3) by (auto simp: str_bytes_def ascii_lower_def)
    ultimately show ?thesis unfolding c(1) using assms(2) by (intro name_not_keyword)
  next
    case False
    with c(3) have "isDigit c \<or> c \<in> {39, 40, 45}" by blast
    then have "ascii_lower c < 97" by (auto simp: ascii_lower_def isDigit_def word_le_nat_alt word_less_nat_alt)
    moreover have "97 \<le> ascii_lower (hd (str_bytes kw))" "str_bytes kw \<noteq> []"
      using assms(3) by (auto simp: str_bytes_def ascii_lower_def)
    ultimately show ?thesis using c by (auto intro!: keyword_first)
  qed
qed

text \<open>An operand, read at the innermost level, between the operators and at the end of an expression.\<close>

definition reads_atom :: "nat \<Rightarrow> nat \<Rightarrow> expr \<Rightarrow> bool" where
  "reads_atom d fuel e \<longleftrightarrow> (\<forall>r. delim r \<longrightarrow> reads d (parseNeg fuel) (print_expr e @ r) e r)"

lemma reads_cmp:
  assumes "reads_atom d fuel e" and "delim r" and "no_token cmp_tokens r" and "no_token add_tokens r" and "no_token mul_tokens r"
  shows "reads d (parseCmp (parseNeg fuel)) (print_expr e @ r) e r"
  unfolding parseCmp_def parseAdd_def parseMul_def
  using assms by (auto simp: reads_atom_def intro!: reads_operand)

lemma reads_not:
  assumes "expr_printable e" and "delim r" and "reads d (parseCmp (parseNeg fuel)) (print_expr e @ r) x t"
  shows "reads d (parseNot (Suc fuel)) (print_expr e @ r) x t"
  unfolding parseNot.simps using assms print_expr_no_keyword[of e r "''NOT''"] by (intro reads_no_keyword) auto

lemma reads_space: "reads d f s x r \<Longrightarrow> reads d f (32 # s) x r"
  by (rule reads_trim) (simp_all add: trim_Cons isSpace_def)

lemmas token_eval = no_token_def after_keywords.simps(2) Let_def has_prefix_def EqualFold_def ascii_lower_def trim_Cons
  isSpace_def str_bytes_def

lemma op_token:
  fixes w :: bytes
  defines "t op \<equiv> 32 # str_bytes (op_text op) @ 32 # w"
  shows "op \<in> {OP_MUL, OP_DIV} \<Longrightarrow> token_at mul_tokens (t op) op (32 # w)"
    and "op \<in> {OP_ADD, OP_SUB} \<Longrightarrow> token_at add_tokens (t op) op (32 # w)"
    and "op \<in> {OP_EQ, OP_NE, OP_LE, OP_GE, OP_LT, OP_GT} \<Longrightarrow> token_at cmp_tokens (t op) op (32 # w)"
    and "token_at and_tokens (t OP_AND) OP_AND (32 # w)" and "token_at or_tokens (t OP_OR) OP_OR (32 # w)"
    and "op \<in> {OP_ADD, OP_SUB, OP_EQ, OP_NE, OP_LE, OP_GE, OP_LT, OP_GT, OP_AND, OP_OR} \<Longrightarrow> no_token mul_tokens (t op)"
    and "op \<in> {OP_EQ, OP_NE, OP_LE, OP_GE, OP_LT, OP_GT, OP_AND, OP_OR} \<Longrightarrow> no_token add_tokens (t op)"
    and "op \<in> {OP_AND, OP_OR} \<Longrightarrow> no_token cmp_tokens (t op)" and "no_token and_tokens (t OP_OR)"
  by ((elim insertE emptyE)?; simp add: t_def token_eval)+

lemma reads_binary:
  assumes l: "reads_atom d fuel l" "expr_printable l" and r: "reads_atom d fuel r" "expr_printable r"
    and op: "op \<noteq> OP_NOT" "op \<noteq> OP_NEG" and v: "closing v"
  shows "reads d (parseExprAt (Suc (Suc fuel))) (print_expr l @ 32 # str_bytes (op_text op) @ 32 # print_expr r @ v) (EBinOp op l r) v"
proof -
  note nt = closing_no_token[OF v]
  have dv: "delim v" using v by (simp add: closing_def)
  let ?u = "32 # print_expr r @ v" and ?t = "32 # str_bytes (op_text op) @ 32 # print_expr r @ v"
  note tok = op_token(1-3,6-8)[where op = op and w = "print_expr r @ v"] and tok' = op_token(4,5,9)[where w = "print_expr r @ v"]
  have dt: "delim ?t" by (simp add: delim_def)
  have L: "reads d (parseNeg fuel) (print_expr l @ ?t) l ?t" using l(1) dt by (simp add: reads_atom_def)
  have R: "reads d (parseNeg fuel) ?u r v" using r(1) dv by (auto simp: reads_atom_def intro: reads_space)
  have Rn: "reads d (parseNot (Suc fuel)) ?u r v" using reads_not[OF r(2) dv reads_cmp[OF r(1) dv nt(3-5)]] by (rule reads_space)
  have up: ?thesis if "reads d (parseCmp (parseNeg fuel)) (print_expr l @ ?t) (EBinOp op l r) v"
    unfolding parseExprAt.simps parseOr_def parseAnd_def by (intro reads_operand nt reads_not[OF l(2) dt] that)
  have Ln: "op \<in> {OP_AND, OP_OR} \<Longrightarrow> reads d (parseNot (Suc fuel)) (print_expr l @ ?t) l ?t"
    using tok(4-6) by (intro reads_not[OF l(2) dt] reads_cmp[OF l(1) dt]) auto
  consider "op \<in> {OP_MUL, OP_DIV}" | "op \<in> {OP_ADD, OP_SUB}" | "op \<in> {OP_EQ, OP_NE, OP_LE, OP_GE, OP_LT, OP_GT}"
    | "op = OP_AND" | "op = OP_OR" using op by (cases op) auto
  then show ?thesis
  proof cases
    case 1
    then show ?thesis by (intro up, unfold parseCmp_def parseAdd_def parseMul_def)
      (intro reads_operand nt reads_binop[OF L tok(1) R])
  next
    case 2
    then show ?thesis using tok(4) by (intro up, unfold parseCmp_def parseAdd_def parseMul_def)
      (intro reads_operand[OF reads_binop[OF reads_operand[OF L] tok(2) reads_operand[OF R]]] nt, auto)
  next
    case 3
    then show ?thesis using tok(4,5) by (intro up, unfold parseCmp_def parseAdd_def parseMul_def)
      (intro reads_binop[OF reads_operand[OF reads_operand[OF L]] tok(3) reads_operand[OF reads_operand[OF R]]] nt, auto)
  next
    case 4
    then show ?thesis using tok'(1) Ln unfolding parseExprAt.simps parseOr_def parseAnd_def
      by (intro reads_operand reads_binop[OF _ _ Rn] nt) auto
  next
    case 5
    then show ?thesis using tok'(2,3) Ln unfolding parseExprAt.simps parseOr_def parseAnd_def
      by (intro reads_binop[OF reads_operand _ reads_operand[OF Rn]] nt) auto
  qed
qed

lemma reads_expr_at:
  assumes "reads_atom d fuel e" and "expr_printable e" and "closing r"
  shows "reads d (parseExprAt (Suc (Suc fuel))) (print_expr e @ r) e r"
proof -
  note nt = closing_no_token[OF assms(3)]
  have dr: "delim r" using assms(3) by (simp add: closing_def)
  show ?thesis unfolding parseExprAt.simps parseOr_def parseAnd_def
    by (intro reads_operand nt reads_not[OF assms(2) dr] reads_cmp[OF assms(1) dr])
qed

lemma item_end_closing: "item_end r \<Longrightarrow> closing r"
  by (cases r) (auto simp: item_end_def closing_def delim_def trim_Cons isSpace_def)

text \<open>A parenthesised list: the values with the texts they are read from.\<close>

lemma reads_paren:
  fixes xs :: "(expr \<times> bytes) list"
  assumes items: "\<forall>(e, s) \<in> set xs. \<forall>r. item_end r \<longrightarrow> reads (Suc d) (parseExprAt fuel) (s @ r) e r"
    and first: "\<forall>(e, s) \<in> set xs. s \<noteq> [] \<and> \<not> isSpace (hd s) \<and> hd s \<noteq> 41" and "xs \<noteq> []" and d: "d < maxExprDepth"
  shows "reads d (parseNeg (Suc fuel)) (40 # commas (map snd xs) @ 41 # r)
    (case xs of [(e, _)] \<Rightarrow> e | _ \<Rightarrow> ETuple (map fst xs)) r"
proof -
  let ?s = "40 # commas (map snd xs) @ 41 # r" and ?x = "case xs of [(e, _)] \<Rightarrow> e | _ \<Rightarrow> ETuple (map fst xs)"
  let ?item = "\<lambda>kids p. rbind (parseExprAt fuel p) (\<lambda>(e, p). Inr (kids @ [e], p))"
  have one: "\<forall>x \<in> set xs. \<forall>acc r. item_end r \<longrightarrow> reads (Suc d) (?item acc) (snd x @ r) (acc @ [fst x]) r"
    using items by (auto intro!: reads_bind reads_return)
  have hd: "\<forall>x \<in> set xs. \<forall>r. hd (trim (snd x @ r)) \<noteq> 41"
    using first by (auto simp: neq_Nil_conv trim_Cons)
  have fold: "foldl (\<lambda>acc x. acc @ [fst x]) acc ys = acc @ map fst ys" for acc and ys :: "(expr \<times> bytes) list"
    by (induction ys arbitrary: acc) auto
  have "reads (Suc d) (parseCommaList ?item []) ?s (map fst xs) r"
    using reads_list[OF one hd, of ?s r "[]"] by (simp add: fold trim_Cons isSpace_def)
  then have tup: "reads (Suc d) (parseTuple (parseExprAt fuel)) ?s ?x r"
    unfolding parseTuple_def
    by (rule reads_bind) (use \<open>xs \<noteq> []\<close> in \<open>auto split: list.splits intro: reads_return\<close>)
  show ?thesis
  proof (rule readsI)
    fix q assume at: "at_input d ?s q"
    obtain q1 where q1: "tryPunctuation ''-'' q = (False, q1)" "at_input d ?s q1"
      using tryPunctuation_no[OF at, of "''-''"] by (auto simp: prefix_Cons trim_Cons isSpace_def)
    obtain q2 where q2: "tryPunctuation ''('' q1 = (True, q2)" "q2\<lparr>p_pos := p_pos q2 - 1\<rparr> = skipSpaces q1"
      using tryPunctuation_yes[OF q1(2), of "''(''" "tl ?s"] by (auto simp: str_bytes_def trim_Cons isSpace_def)
    have "at_input d ?s (skipSpaces q1)" using q1(2) by (simp add: at_input_def)
    from readsE[OF reads_nested[OF tup d, where g="\<lambda>e. e"] this]
    show "\<exists>q'. parseNeg (Suc fuel) q = Inr (?x, q') \<and> at_input d r q'"
      using q1(1) q2 by (auto simp: parseAtom_def)
  qed
qed

lemma reads_unary:
  assumes "reads_atom (Suc (Suc d)) fuel e" and "expr_printable e" and "Suc d < maxExprDepth" and "closing r"
  shows "reads (Suc d) (parseExprAt (Suc (Suc (Suc fuel)))) (str_bytes ''NOT '' @ print_expr e @ r) (EUnOp OP_NOT e) r"
proof -
  note nt = closing_no_token[OF assms(4)]
  have dr: "delim r" using assms(4) by (simp add: closing_def)
  have "reads (Suc (Suc d)) (parseNot (Suc fuel)) (32 # print_expr e @ r) e r"
    by (intro reads_space reads_not[OF assms(2) dr] reads_cmp[OF assms(1) dr] nt)
  from reads_nested[OF this assms(3), where g="EUnOp OP_NOT"]
  have "reads (Suc d) (parseNot (Suc (Suc fuel))) (str_bytes ''NOT '' @ print_expr e @ r) (EUnOp OP_NOT e) r"
    unfolding parseNot.simps(2)[of "Suc fuel"]
    by (rule reads_keyword[rotated]) (simp add: token_eval isSeparator_def isNameContinue_def isAlpha_def isDigit_def)
  then show ?thesis unfolding parseExprAt.simps parseOr_def parseAnd_def by (intro reads_operand nt)
qed

lemma print_cell_first:
  assumes "0 \<le> sint (cell_I64 c)"
  obtains ch s where "print_cell c = ch # s" "isDigit ch \<or> ch = 39"
proof (cases "cell_Type c = TypeI64")
  case True
  let ?u = "FormatUint (nat (sint (cell_I64 c)))"
  have "print_cell c = ?u" using True assms by (simp add: print_cell_def FormatInt_def)
  then show ?thesis using that FormatUint_digits[of "nat (sint (cell_I64 c))"]
    by (cases ?u) (auto simp: isDigit_is_digit)
qed (use that in \<open>auto simp: print_cell_def print_str_def\<close>)

lemma reads_leaf:
  assumes "trim s = ch # t" and "ch \<noteq> 45" and "ch \<noteq> 40"
    and "reads d (\<lambda>p. case tryName p of (Some name, p) \<Rightarrow> Inr (EName name, p)
           | (None, p) \<Rightarrow> rbind (parseValue p) (\<lambda>(c, p). Inr (ECell c, p))) s e r"
  shows "reads d (parseNeg (Suc fuel)) s e r"
  unfolding parseNeg.simps parseAtom_def
  by (rule reads_no_punct, simp add: assms prefix_Cons, rule reads_no_punct, simp add: assms prefix_Cons) (rule assms(4))

lemma reads_EName:
  assumes "name_ok n"
  shows "reads_atom d (Suc fuel) (EName n)"
  unfolding reads_atom_def
proof (intro allI impI)
  fix r assume r: "delim r"
  obtain ch cs where n: "n = ch # cs" "isNameStart ch" using assms by (cases n) (auto simp: name_ok_def)
  have t: "trim (n @ r) = n @ r" using n name_start_not_space by (simp add: trim_Cons)
  have "ch \<noteq> 45" "ch \<noteq> 40" using n(2) by (auto simp: isNameStart_def isAlpha_def)
  then show "reads d (parseNeg (Suc fuel)) (print_expr (EName n) @ r) (EName n) r"
    unfolding print_expr.simps using n t
    by (intro reads_leaf[of _ ch "cs @ r"] reads_name[OF t assms r] reads_return) auto
qed

lemma isDigit_cases:
  assumes "isDigit ch"
  shows "ch \<in> {48, 49, 50, 51, 52, 53, 54, 55, 56, 57}"
proof -
  have "48 \<le> unat ch" "unat ch \<le> 57" using assms by (auto simp: isDigit_def word_le_nat_alt)
  then have "unat ch \<in> {48, 49, 50, 51, 52, 53, 54, 55, 56, 57}" unfolding insert_iff empty_iff by presburger
  then show ?thesis by (simp add: word_unat_eq_iff)
qed

lemma isDigit_not_name: "isDigit ch \<Longrightarrow> \<not> isNameStart ch"
  using isDigit_cases[of ch] by (auto simp: isNameStart_def isAlpha_def)

lemma reads_ECell:
  assumes "literal_ok c" and "0 \<le> sint (cell_I64 c)"
  shows "reads_atom d (Suc fuel) (ECell c)"
  unfolding reads_atom_def
proof (intro allI impI)
  fix r assume r: "delim r"
  obtain ch cs where c: "print_cell c = ch # cs" "isDigit ch \<or> ch = 39" using print_cell_first[OF assms(2)] .
  have f: "\<not> isSpace ch" "ch \<noteq> 45" "ch \<noteq> 40" "\<not> isNameStart ch"
    using c(2) isDigit_not_name by (auto simp: isDigit_def isSpace_def isNameStart_def isAlpha_def)
  have t: "trim (print_cell c @ r) = print_cell c @ r" using f c by (simp add: trim_Cons)
  show "reads d (parseNeg (Suc fuel)) (print_expr (ECell c) @ r) (ECell c) r"
    unfolding print_expr.simps using c(1) t f
    by (intro reads_leaf[of _ ch "cs @ r"] reads_no_name reads_bind[OF reads_value[OF assms(1) r t]] reads_return) auto
qed

lemma print_expr_not_close:
  assumes "expr_printable e"
  shows "print_expr e \<noteq> []" "\<not> isSpace (hd (print_expr e))" "hd (print_expr e) \<noteq> 41" "hd (print_expr e) \<noteq> 42"
proof -
  obtain c s where c: "print_expr e = c # s" "\<not> isSpace c" "isNameStart c \<and> e = EName (c # s) \<or> isDigit c \<or> c \<in> {39, 40, 45}"
    using print_expr_first[OF assms] .
  then have "c \<noteq> 41" "c \<noteq> 42" by (auto simp: isNameStart_def isAlpha_def isDigit_def)
  with c show "print_expr e \<noteq> []" "\<not> isSpace (hd (print_expr e))" "hd (print_expr e) \<noteq> 41" "hd (print_expr e) \<noteq> 42"
    by auto
qed

lemma reads_print:
  "expr_printable e \<Longrightarrow> d + print_depth e \<le> maxExprDepth \<Longrightarrow> 3 * print_depth e + 1 \<le> fuel \<Longrightarrow> reads_atom d fuel e"
proof (induction e arbitrary: d fuel)
  case (EUnOp op e)
  show ?case
  proof (cases "op = OP_NEG")
    case True
    with EUnOp.prems(3) obtain f where f: "fuel = Suc f" "3 * print_depth e + 1 \<le> f" by (cases fuel) auto
    have d: "d < maxExprDepth" using EUnOp.prems(2) True by simp
    have "reads_atom (Suc d) f e" using EUnOp.IH[of "Suc d" f] EUnOp.prems f(2) True by simp
    then have "delim r \<Longrightarrow> reads (Suc d) (parseNeg f) (print_expr e @ r) e r" for r by (simp add: reads_atom_def)
    then show ?thesis unfolding reads_atom_def f(1) parseNeg.simps print_expr.simps
      by (auto simp: True trim_Cons isSpace_def str_bytes_def intro!: reads_punct reads_nested d)
  next
    case False
    then have op: "op = OP_NOT" using EUnOp.prems(1) by simp
    with EUnOp.prems(3) obtain f where f: "fuel = Suc (Suc (Suc (Suc f)))" "3 * print_depth e + 1 \<le> f"
      by (cases fuel; cases "fuel - 1"; cases "fuel - 2"; cases "fuel - 3") auto
    have d: "Suc d < maxExprDepth" using EUnOp.prems(2) op by simp
    have "reads_atom (Suc (Suc d)) f e" using EUnOp.IH[of "Suc (Suc d)" f] EUnOp.prems f(2) op by simp
    from reads_unary[OF this _ d] EUnOp.prems(1) item_end_closing
    have "\<forall>(x, s) \<in> set [(EUnOp OP_NOT e, str_bytes ''NOT '' @ print_expr e)]. \<forall>r. item_end r \<longrightarrow>
        reads (Suc d) (parseExprAt (Suc (Suc (Suc f)))) (s @ r) x r" by auto
    from reads_paren[OF this] d show ?thesis unfolding reads_atom_def f op
      by (auto simp: str_bytes_def isSpace_def)
  qed
next
  case (EBinOp op l r)
  then obtain f where f: "fuel = Suc (Suc (Suc f))" by (cases fuel; cases "fuel - 1"; cases "fuel - 2") auto
  have d: "d < maxExprDepth" using EBinOp.prems(2) by simp
  have lr: "reads_atom (Suc d) f l" "reads_atom (Suc d) f r"
    using EBinOp.prems unfolding f by (auto intro!: EBinOp.IH)
  let ?s = "print_expr l @ 32 # str_bytes (op_text op) @ 32 # print_expr r"
  have "\<forall>(e, s) \<in> set [(EBinOp op l r, ?s)]. \<forall>t. item_end t \<longrightarrow> reads (Suc d) (parseExprAt (Suc (Suc f))) (s @ t) e t"
    using reads_binary[OF lr(1) _ lr(2)] EBinOp.prems(1) item_end_closing by auto
  moreover have "print_expr l \<noteq> []" "\<not> isSpace (hd (print_expr l))" "hd (print_expr l) \<noteq> 41"
    using print_expr_not_close EBinOp.prems(1) by auto
  ultimately show ?case unfolding reads_atom_def f
    using reads_paren[of "[(EBinOp op l r, ?s)]" d "Suc (Suc f)"] d by auto
next
  case (ETuple es)
  then obtain f where f: "fuel = Suc (Suc (Suc f))" by (cases fuel; cases "fuel - 1"; cases "fuel - 2") auto
  have d: "d < maxExprDepth" using ETuple.prems(2) by simp
  have "reads_atom (Suc d) f e \<and> expr_printable e" if e: "e \<in> set es" for e
  proof -
    define m where "m = Max (insert 0 (set (map print_depth es)))"
    have "print_depth e \<le> m" using e unfolding m_def by (intro Max_ge) auto
    moreover have "d + (1 + m) \<le> maxExprDepth" "3 * (1 + m) + 1 \<le> fuel" using ETuple.prems by (simp_all add: m_def)
    ultimately show ?thesis using ETuple.IH[OF e, of "Suc d" f] ETuple.prems(1) e f by (auto simp: list_all_iff)
  qed
  then have "\<forall>(e, s) \<in> set (map (\<lambda>e. (e, print_expr e)) es). \<forall>r. item_end r \<longrightarrow>
      reads (Suc d) (parseExprAt (Suc (Suc f))) (s @ r) e r"
    using reads_expr_at item_end_closing by auto
  moreover have "\<forall>(e, s) \<in> set (map (\<lambda>e. (e, print_expr e)) es). s \<noteq> [] \<and> \<not> isSpace (hd s) \<and> hd s \<noteq> 41"
    using ETuple.prems(1) print_expr_not_close by (auto simp: list_all_iff)
  moreover obtain a b cs where "es = a # b # cs" using ETuple.prems(1) by (cases es; cases "tl es") auto
  ultimately show ?case unfolding reads_atom_def f
    using reads_paren[of "map (\<lambda>e. (e, print_expr e)) es" d "Suc (Suc f)"] d
    by (simp add: comp_def del: parseNeg.simps parseExprAt.simps)
qed (auto simp: Suc_le_eq gr0_conv_Suc intro: reads_EName reads_ECell)

lemma reads_expr:
  assumes "expr_printable e" and "print_depth e \<le> maxExprDepth" and "closing r" and "trim s = print_expr e @ r"
  shows "reads 0 parseExpr s e r"
proof (rule reads_trim)
  show "trim s = trim (print_expr e @ r)" using assms(4) trim_trim[of s] by simp
  have "3 * maxExprDepth + 3 = Suc (Suc (3 * maxExprDepth + 1))" by simp
  then show "reads 0 parseExpr (print_expr e @ r) e r" unfolding parseExpr_def
    using assms(2) by (simp only:) (intro reads_expr_at reads_print assms, simp_all)
qed

end
