(* ===== verification/SqlRound.thy ===== *)
theory SqlRound
  imports SqlPrint
begin

text \<open>The statements: a printer for them, and that \<open>ParseStmt\<close> reads back what it prints.\<close>

section \<open>Statements\<close>

definition print_where :: "expr option \<Rightarrow> bytes" where
  "print_where c = (case c of None \<Rightarrow> [] | Some e \<Rightarrow> str_bytes '' WHERE '' @ print_expr e)"

definition print_limit :: "StmtSelect \<Rightarrow> bytes" where
  "print_limit s =
     (if sel_limit s < 0 then []
      else str_bytes '' LIMIT '' @ FormatInt (sel_limit s) @ str_bytes '' OFFSET '' @ FormatInt (sel_offset s))"

definition print_column :: "Column \<Rightarrow> bytes" where
  "print_column col = col_Name col @ 32 # str_bytes (if col_Type col = TypeI64 then ''int64'' else ''string'')"

datatype item = ICol Column | IKey "bytes list" | IIndex "bytes list"

fun print_item :: "item \<Rightarrow> bytes" where
  "print_item (ICol col) = print_column col"
| "print_item (IKey names) = str_bytes ''PRIMARY KEY ('' @ commas names @ [41]"
| "print_item (IIndex names) = str_bytes ''INDEX ('' @ commas names @ [41]"

definition table_items :: "StmtCreatTable \<Rightarrow> item list" where
  "table_items s = map ICol (ct_cols s) @ [IKey (ct_pkey s)] @ map IIndex (ct_indices s)"

definition print_assign :: "ExprAssign \<Rightarrow> bytes" where
  "print_assign a = as_column a @ str_bytes '' = '' @ print_expr (as_expr a)"

fun print_stmt :: "stmt \<Rightarrow> bytes" where
  "print_stmt (SSelect s) = str_bytes ''SELECT '' @ commas (map print_expr (sel_cols s)) @ str_bytes '' FROM '' @
     sel_table s @ print_where (sel_cond s) @ print_limit s @ [59]"
| "print_stmt (SCreateTable s) = str_bytes ''CREATE TABLE '' @ ct_table s @ 40 # commas (map print_item (table_items s)) @ [41, 59]"
| "print_stmt (SInsert s) = str_bytes ''INSERT INTO '' @ ins_table s @ str_bytes '' VALUES ('' @
     commas (map print_cell (ins_value s)) @ [41, 59]"
| "print_stmt (SUpdate s) = str_bytes ''UPDATE '' @ upd_table s @ str_bytes '' SET '' @
     commas (map print_assign (upd_value s)) @ print_where (upd_cond s) @ [59]"
| "print_stmt (SDelete s) = str_bytes ''DELETE FROM '' @ del_table s @ print_where (del_cond s) @ [59]"
| "print_stmt (SDropTable s) = str_bytes ''DROP TABLE '' @ drop_table s @ [59]"

definition expr_fits :: "expr \<Rightarrow> bool" where
  "expr_fits e \<longleftrightarrow> expr_printable e \<and> print_depth e \<le> maxExprDepth"

definition limits_ok :: "StmtSelect \<Rightarrow> bool" where
  "limits_ok s \<longleftrightarrow> sel_limit s = - 1 \<and> sel_offset s = 0 \<or>
     0 \<le> sel_limit s \<and> sel_limit s < 2 ^ 63 \<and> 0 \<le> sel_offset s \<and> sel_offset s < 2 ^ 63"

fun stmt_printable :: "stmt \<Rightarrow> bool" where
  "stmt_printable (SSelect s) =
     (sel_cols s \<noteq> [] \<and> list_all (\<lambda>e. e = EStar \<or> expr_fits e) (sel_cols s) \<and> name_ok (sel_table s) \<and>
      pred_option expr_fits (sel_cond s) \<and>
      limits_ok s)"
| "stmt_printable (SCreateTable s) =
     (name_ok (ct_table s) \<and> list_all (\<lambda>col. name_ok (col_Name col) \<and> col_Type col \<in> {TypeI64, TypeStr}) (ct_cols s) \<and>
      list_all name_ok (ct_pkey s) \<and> list_all (list_all name_ok) (ct_indices s))"
| "stmt_printable (SInsert s) = (name_ok (ins_table s) \<and> list_all literal_ok (ins_value s))"
| "stmt_printable (SUpdate s) =
     (name_ok (upd_table s) \<and> upd_value s \<noteq> [] \<and> list_all (\<lambda>a. name_ok (as_column a) \<and> expr_fits (as_expr a)) (upd_value s) \<and>
      pred_option expr_fits (upd_cond s))"
| "stmt_printable (SDelete s) = (name_ok (del_table s) \<and> pred_option expr_fits (del_cond s))"
| "stmt_printable (SDropTable s) = name_ok (drop_table s)"

section \<open>Clauses\<close>

lemmas kw_eval = token_eval isSeparator_def isNameContinue_def isAlpha_def isDigit_def

lemma isSpace_32 [simp]: "isSpace 32" by (simp add: isSpace_def)

lemma closing_delim: "closing r \<Longrightarrow> delim r"
  by (simp add: closing_def)

lemma item_end_delim: "item_end r \<Longrightarrow> delim r"
  by (simp add: item_end_closing closing_delim)

lemma reads_parseEnd [reading]: "trim s = 59 # r \<Longrightarrow> reads d (parseEnd out) s out r"
  unfolding parseEnd_def by (rule reads_punct[OF _ reads_return]) (simp add: str_bytes_def)

lemma trim_name: "name_ok n \<Longrightarrow> trim (n @ r) = n @ r"
  using name_start_not_space by (cases n) (auto simp: name_ok_def trim_Cons)

lemma reads_where:
  assumes "pred_option expr_fits c" and "closing r" and "after_keywords [str_bytes ''WHERE''] r = None"
  shows "reads 0 parseWhere (print_where c @ r) c r"
proof (cases c)
  case None
  then show ?thesis using assms(3) unfolding parseWhere_def
    by (intro reads_no_keyword) (auto simp: print_where_def intro: reads_return)
next
  case (Some e)
  have e: "expr_printable e" "print_depth e \<le> maxExprDepth" using assms(1) Some by (auto simp: expr_fits_def)
  have "trim (32 # print_expr e @ r) = print_expr e @ r"
    using print_expr_not_close[OF e(1)] by (cases "print_expr e") (auto simp: trim_Cons)
  from reads_expr[OF e assms(2) this] show ?thesis unfolding parseWhere_def Some
    by (intro reads_keyword[OF _ reads_bind[OF _ reads_return]]) (simp_all add: print_where_def kw_eval)
qed

lemma closing_where: "closing r \<Longrightarrow> closing (print_where c @ r)"
  by (auto simp: print_where_def closing_def delim_def trim_Cons isSpace_def str_bytes_def split: option.splits)

lemma reads_count:
  assumes "0 \<le> n" and "n < 2 ^ 63" and "delim r" and "trim s = FormatInt n @ r"
  shows "reads d parseCount s n r"
proof -
  let ?c = "cell_int (word_of_int n)"
  have n: "sint (word_of_int n :: u64) = n" using int_word_sint[of n, where 'a = 64] assms(1,2) by simp
  have "reads d parseValue s ?c r"
    using assms(3,4) n by (intro reads_value) (auto simp: literal_ok_def cell_int_def print_cell_def)
  then show ?thesis unfolding parseCount_def
    by (rule reads_bind) (use assms(1) n in \<open>auto simp: cell_int_def intro: reads_return\<close>)
qed

lemma trim_FormatInt: "0 \<le> n \<Longrightarrow> trim (32 # FormatInt n @ r) = FormatInt n @ r"
  using FormatUint_digits[of "nat n"] by (cases "FormatUint (nat n)") (auto simp: FormatInt_def trim_Cons is_digit_def isSpace_def)

lemma reads_limit:
  assumes "limits_ok s"
  shows "reads d (parseLimit (s\<lparr>sel_limit := - 1, sel_offset := 0\<rparr>)) (print_limit s @ [59]) s [59]"
proof (cases "sel_limit s < 0")
  case True
  then have "s\<lparr>sel_limit := - 1, sel_offset := 0\<rparr> = s" using assms by (cases s) (auto simp: limits_ok_def)
  then show ?thesis unfolding parseLimit_def using True
    by (intro reads_no_keyword) (auto simp: print_limit_def kw_eval intro: reads_return)
next
  case False
  then have b: "0 \<le> sel_limit s" "sel_limit s < 2 ^ 63" "0 \<le> sel_offset s" "sel_offset s < 2 ^ 63" and l: "\<not> sel_limit s < 0"
    using assms by (auto simp: limits_ok_def)
  let ?t = "str_bytes '' OFFSET '' @ FormatInt (sel_offset s) @ [59]"
  have 1: "reads d parseCount (32 # FormatInt (sel_limit s) @ ?t) (sel_limit s) ?t"
    using b by (intro reads_count trim_FormatInt) (auto simp: delim_def str_bytes_def)
  have 2: "reads d parseCount (32 # FormatInt (sel_offset s) @ [59]) (sel_offset s) [59]"
    using b by (intro reads_count trim_FormatInt) (auto simp: delim_def)
  have k1: "after_keywords (map str_bytes [''LIMIT'']) (print_limit s @ [59]) = Some (32 # FormatInt (sel_limit s) @ ?t)"
    using l by (simp add: print_limit_def kw_eval)
  have k2: "after_keywords (map str_bytes [''OFFSET'']) ?t = Some (32 # FormatInt (sel_offset s) @ [59])"
    by (simp add: kw_eval)
  show ?thesis unfolding parseLimit_def Let_def
    by (rule reads_keyword[OF k1], rule reads_bind[OF 1], rule reads_keyword[OF k2], rule reads_bind[OF 2])
       (simp add: reads_def)
qed

section \<open>Lists of names, columns and assignments\<close>

lemma foldl_snoc: "foldl (\<lambda>acc x. acc @ [x]) acc xs = acc @ xs"
  by (induction xs arbitrary: acc) auto

lemma reads_parseNameItem:
  assumes "name_ok n" and "delim r"
  shows "reads d (parseNameItem acc) (n @ r) (acc @ [n]) r"
  unfolding parseNameItem_def by (rule reads_name[OF trim_name assms reads_return]) (rule assms)

lemma name_not_close: "name_ok n \<Longrightarrow> hd (trim (n @ r)) \<noteq> 41"
  by (cases n) (auto simp: trim_name name_ok_def isNameStart_def isAlpha_def trim_Cons isSpace_def)

lemma reads_names:
  assumes "list_all name_ok names" and "trim s = 40 # commas names @ 41 # r"
  shows "reads d (parseCommaList parseNameItem acc) s (acc @ names) r"
  using reads_list[of names d parseNameItem "\<lambda>x. x" "\<lambda>acc x. acc @ [x]" s r acc] assms
  by (auto simp: list_all_iff foldl_snoc item_end_delim reads_parseNameItem name_not_close)

fun add_item :: "StmtCreatTable \<Rightarrow> item \<Rightarrow> StmtCreatTable" where
  "add_item out (ICol col) = out\<lparr>ct_cols := ct_cols out @ [col]\<rparr>"
| "add_item out (IKey names) = out\<lparr>ct_pkey := ct_pkey out @ names\<rparr>"
| "add_item out (IIndex names) = out\<lparr>ct_indices := ct_indices out @ [names]\<rparr>"

fun item_ok :: "item \<Rightarrow> bool" where
  "item_ok (ICol col) = (name_ok (col_Name col) \<and> col_Type col \<in> {TypeI64, TypeStr})"
| "item_ok (IKey names) = list_all name_ok names"
| "item_ok (IIndex names) = list_all name_ok names"

lemma add_items: "foldl add_item \<lparr>ct_table = t, ct_cols = [], ct_pkey = [], ct_indices = []\<rparr> (table_items s) = s\<lparr>ct_table := t\<rparr>"
proof -
  have 1: "foldl add_item out (map ICol cols) = out\<lparr>ct_cols := ct_cols out @ cols\<rparr>" for out cols
    by (induction cols arbitrary: out) auto
  have 2: "foldl add_item out (map IIndex ixs) = out\<lparr>ct_indices := ct_indices out @ ixs\<rparr>" for out ixs
    by (induction ixs arbitrary: out) auto
  show ?thesis by (simp add: table_items_def 1 2)
qed

lemma type_names: "name_ok (str_bytes ''int64'')" "name_ok (str_bytes ''string'')"
  by (simp_all add: name_ok_def kw_eval isNameStart_def)

lemma name_no_keyword:
  assumes "name_ok n" and "delim r" and "kw \<in> {''PRIMARY'', ''INDEX''}"
  shows "after_keywords (str_bytes kw # kws) (n @ r) = None"
  using assms by (intro name_not_keyword) (auto simp: name_ok_def str_bytes_def ascii_lower_def)

lemma reads_column:
  assumes "name_ok (col_Name col)" and "col_Type col \<in> {TypeI64, TypeStr}" and "delim r"
  shows "reads d (parseCreateTableItem out) (print_column col @ r) (add_item out (ICol col)) r"
proof -
  let ?kind = "str_bytes (if col_Type col = TypeI64 then ''int64'' else ''string'')"
  have k: "name_ok ?kind" using type_names by simp
  have dl: "delim (32 # ?kind @ r)" by (simp add: delim_def)
  have t: "trim (32 # ?kind @ r) = ?kind @ r" using trim_name[OF k] by (simp add: trim_Cons)
  have no: "after_keywords (map str_bytes [''PRIMARY'', ''KEY'']) (print_column col @ r) = None"
    "after_keywords (map str_bytes [''INDEX'']) (print_column col @ r) = None"
    using name_no_keyword[OF assms(1) dl] by (simp_all add: print_column_def)
  have n: "trim (print_column col @ r) = col_Name col @ 32 # ?kind @ r"
    using trim_name[OF assms(1)] by (simp add: print_column_def)
  show ?thesis unfolding parseCreateTableItem_def
    by (rule reads_no_keyword[OF no(1)], rule reads_no_keyword[OF no(2)], rule reads_name[OF n assms(1) dl],
        rule reads_name[OF t k assms(3)])
       (use assms(2) in \<open>auto simp: reads_def str_bytes_def\<close>)
qed

lemma reads_item:
  assumes "item_ok x" and "item_end r"
  shows "reads d (parseCreateTableItem out) (print_item x @ r) (add_item out x) r"
proof (cases x)
  case (ICol col)
  then show ?thesis using reads_column assms item_end_delim by simp
next
  case (IKey names)
  let ?t = "32 # 40 # commas names @ 41 # r"
  have k: "after_keywords (map str_bytes [''PRIMARY'', ''KEY'']) (print_item x @ r) = Some ?t"
    by (simp add: IKey kw_eval)
  have "reads d (parseCommaList parseNameItem (ct_pkey out)) ?t (ct_pkey out @ names) r"
    using assms IKey by (intro reads_names) (auto simp: trim_Cons isSpace_def)
  note l = reads_bind[OF this, of "\<lambda>pkey p. Inr (out\<lparr>ct_pkey := pkey\<rparr>, p)", OF reads_return]
  show ?thesis unfolding parseCreateTableItem_def IKey add_item.simps
    by (rule reads_keyword[OF k[unfolded IKey]]) (rule l)
next
  case (IIndex names)
  let ?t = "32 # 40 # commas names @ 41 # r"
  have k: "after_keywords (map str_bytes [''PRIMARY'', ''KEY'']) (print_item x @ r) = None"
    "after_keywords (map str_bytes [''INDEX'']) (print_item x @ r) = Some ?t"
    by (simp_all add: IIndex kw_eval)
  have "reads d (parseCommaList parseNameItem []) ?t ([] @ names) r"
    using assms IIndex by (intro reads_names) (auto simp: trim_Cons isSpace_def)
  note l = reads_bind[OF this, of "\<lambda>index p. Inr (out\<lparr>ct_indices := ct_indices out @ [index]\<rparr>, p)", OF reads_return]
  show ?thesis unfolding parseCreateTableItem_def IIndex add_item.simps
    by (rule reads_no_keyword[OF k(1)[unfolded IIndex]], rule reads_keyword[OF k(2)[unfolded IIndex]]) (use l in simp)
qed

lemma item_not_close: "item_ok x \<Longrightarrow> hd (trim (print_item x @ r)) \<noteq> 41"
  using name_not_close by (cases x) (auto simp: print_column_def trim_Cons isSpace_def str_bytes_def)

lemma reads_items:
  assumes "list_all item_ok items" and "trim s = 40 # commas (map print_item items) @ 41 # r"
  shows "reads d (parseCommaList parseCreateTableItem out) s (foldl add_item out items) r"
  using reads_list[of items d parseCreateTableItem print_item add_item s r out] assms
  by (auto simp: list_all_iff reads_item item_not_close)

lemma reads_parseValueItem:
  assumes "literal_ok c" and "delim r"
  shows "reads d (parseValueItem acc) (print_cell c @ r) (acc @ [c]) r"
proof -
  have "trim (print_cell c @ r) = print_cell c @ r"
    using FormatUint_digits[of "nat (sint (cell_I64 c))"]
    by (cases "FormatUint (nat (sint (cell_I64 c)))")
       (auto simp: print_cell_def print_str_def FormatInt_def trim_Cons isSpace_def is_digit_def)
  from reads_value[OF assms this] show ?thesis unfolding parseValueItem_def by (rule reads_bind) (rule reads_return)
qed

lemma cell_not_close: "hd (trim (print_cell c @ r)) \<noteq> 41"
  using FormatUint_digits[of "nat (sint (cell_I64 c))"]
  by (cases "FormatUint (nat (sint (cell_I64 c)))")
     (auto simp: print_cell_def print_str_def FormatInt_def trim_Cons isSpace_def is_digit_def)

lemma reads_values:
  assumes "list_all literal_ok cells" and "trim s = 40 # commas (map print_cell cells) @ 41 # r"
  shows "reads d (parseCommaList parseValueItem []) s cells r"
  using reads_list[of cells d parseValueItem print_cell "\<lambda>acc x. acc @ [x]" s r "[]"] assms
  by (auto simp: list_all_iff foldl_snoc item_end_delim reads_parseValueItem cell_not_close)

section \<open>Columns of a select\<close>

lemma tryStar_no:
  assumes "at_input d s q" and "hd (trim s) \<noteq> 42"
  obtains q' where "tryStar q = (False, q')" and "at_input d s q'"
proof -
  obtain q' where "tryPunctuation ''*'' q = (False, q')" "at_input d s q'"
    using tryPunctuation_no[OF assms(1), of "''*''"] assms(2) by (auto simp: prefix_Cons)
  then show ?thesis using that by (auto simp: tryStar_def)
qed

lemma tryStar_yes:
  assumes "at_input d s q" and "trim s = 42 # t" and "t \<noteq> [] \<and> hd t = 44 \<or> after_keywords [str_bytes ''FROM''] t \<noteq> None"
  obtains q' where "tryStar q = (True, q')" and "at_input d t q'"
proof -
  obtain q1 where q1: "tryPunctuation ''*'' q = (True, q1)" "at_input d t q1"
    using tryPunctuation_yes[OF assms(1), of "''*''" t] assms(2) by (auto simp: str_bytes_def)
  have "\<exists>q2. tryPunctuation '','' q1 = (True, q2) \<or> (\<exists>q3. tryPunctuation '','' q1 = (False, q2) \<and> tryKeyword [''FROM''] q2 = (True, q3))"
  proof (cases "t \<noteq> [] \<and> hd t = 44")
    case True
    then obtain u where "t = 44 # u" by (cases t) auto
    then have "trim t = str_bytes '','' @ u" by (simp add: trim_Cons isSpace_def str_bytes_def)
    then show ?thesis using tryPunctuation_yes[OF q1(2)] by metis
  next
    case False
    then obtain u where u: "after_keywords (map str_bytes [''FROM'']) t = Some u" using assms(3) by (cases "after_keywords (map str_bytes [''FROM'']) t") auto
    obtain b q2 where q2: "tryPunctuation '','' q1 = (b, q2)" by force
    show ?thesis
    proof (cases b)
      case False
      then have "q2 = skipSpaces q1" using q2 by (auto simp: tryPunctuation_def Let_def split: if_splits)
      then have "at_input d t q2" using q1(2) by (simp add: at_input_def)
      from tryKeyword_loop_at[OF this, of "map str_bytes [''FROM'']"] u
      show ?thesis using q2 False by (auto simp: tryKeyword_def)
    qed (use q2 in auto)
  qed
  then have "tryStar q = (True, q1)" using q1(1) by (auto simp: tryStar_def)
  then show ?thesis using that q1(2) by blast
qed

lemma parseSelect_cols_eqs:
  "parseSelect_cols (Suc fuel) [] =
     (\<lambda>p. case tryKeyword [''FROM''] p of (True, p) \<Rightarrow> Inr ([], p)
       | (False, p) \<Rightarrow> (case tryStar p of (True, p) \<Rightarrow> parseSelect_cols fuel [EStar] p
           | (False, p) \<Rightarrow> rbind (parseExpr p) (\<lambda>(e, p). parseSelect_cols fuel [e] p)))"
  "cols \<noteq> [] \<Longrightarrow> parseSelect_cols (Suc fuel) cols =
     (\<lambda>p. case tryKeyword [''FROM''] p of (True, p) \<Rightarrow> Inr (cols, p)
       | (False, p) \<Rightarrow> (case tryPunctuation '','' p of (False, p) \<Rightarrow> Inl (Error ''expect comma'')
         | (True, p) \<Rightarrow> (case tryStar p of (True, p) \<Rightarrow> parseSelect_cols fuel (cols @ [EStar]) p
           | (False, p) \<Rightarrow> rbind (parseExpr p) (\<lambda>(e, p). parseSelect_cols fuel (cols @ [e]) p))))"
  by (rule ext, simp split: prod.splits bool.splits)+

text \<open>What follows a column: a comma, or \<open>FROM\<close>.\<close>

definition col_end :: "bytes \<Rightarrow> bool" where
  "col_end t \<longleftrightarrow> closing t \<and> (t \<noteq> [] \<and> hd t = 44 \<or> after_keywords [str_bytes ''FROM''] t \<noteq> None)"

lemma reads_col:
  assumes "e = EStar \<or> expr_fits e" and "col_end t" and "reads 0 (parseSelect_cols fuel (cols @ [e])) t x r"
  shows "reads 0 (\<lambda>p. case tryStar p of (True, p) \<Rightarrow> parseSelect_cols fuel (cols @ [EStar]) p
           | (False, p) \<Rightarrow> rbind (parseExpr p) (\<lambda>(e, p). parseSelect_cols fuel (cols @ [e]) p)) (print_expr e @ t) x r"
proof (rule readsI)
  fix q assume at: "at_input 0 (print_expr e @ t) q"
  let ?f = "\<lambda>p. rbind (parseExpr p) (\<lambda>(e, p). parseSelect_cols fuel (cols @ [e]) p)"
  let ?g = "\<lambda>q. case tryStar q of (True, p) \<Rightarrow> parseSelect_cols fuel (cols @ [EStar]) p | (False, p) \<Rightarrow> ?f p"
  show "\<exists>q'. ?g q = Inr (x, q') \<and> at_input 0 r q'"
  proof (cases "e = EStar")
    case True
    have "trim (print_expr e @ t) = 42 # t" using True by (simp add: trim_Cons isSpace_def)
    then obtain q1 where "tryStar q = (True, q1)" "at_input 0 t q1"
      using tryStar_yes[OF at] assms(2) unfolding col_end_def by metis
    then show ?thesis using assms(3) True by (auto simp: reads_def)
  next
    case False
    then have e: "expr_printable e" "print_depth e \<le> maxExprDepth" using assms(1) by (auto simp: expr_fits_def)
    have tr: "trim (print_expr e @ t) = print_expr e @ t"
      using print_expr_not_close[OF e(1)] by (cases "print_expr e") (auto simp: trim_Cons)
    then have "hd (trim (print_expr e @ t)) \<noteq> 42" using print_expr_not_close[OF e(1)] by simp
    then obtain q1 where q1: "tryStar q = (False, q1)" "at_input 0 (print_expr e @ t) q1" using tryStar_no[OF at] by metis
    have "reads 0 parseExpr (print_expr e @ t) e t" using assms(2) e tr by (intro reads_expr) (auto simp: col_end_def)
    then have "reads 0 ?f (print_expr e @ t) x r" using assms(3) by (rule reads_bind)
    then show ?thesis using q1 by (auto simp: reads_def)
  qed
qed

abbreviation "from_text t \<equiv> str_bytes '' FROM '' @ t"

lemma from_text: "col_end (from_text t)" "after_keywords (map str_bytes [''FROM'']) (from_text t) = Some (32 # t)"
  by (simp_all add: col_end_def closing_def delim_def kw_eval)

lemma col_end_tail: "col_end (concat (map (\<lambda>e. 44 # print_expr e) es) @ from_text t)"
proof (cases es)
  case (Cons e es)
  then show ?thesis by (simp add: col_end_def closing_def delim_def trim_Cons isSpace_def)
qed (simp add: from_text)

lemma reads_cols_tail:
  "list_all (\<lambda>e. e = EStar \<or> expr_fits e) es \<Longrightarrow> cols \<noteq> [] \<Longrightarrow> length es < fuel \<Longrightarrow>
   reads 0 (parseSelect_cols fuel cols) (concat (map (\<lambda>e. 44 # print_expr e) es) @ from_text t) (cols @ es) (32 # t)"
proof (induction es arbitrary: cols fuel)
  case Nil
  then obtain n where n: "fuel = Suc n" by (cases fuel) auto
  show ?case unfolding n parseSelect_cols_eqs(2)[OF Nil(2)]
    using reads_keyword[OF from_text(2) reads_return, of 0] by simp
next
  case (Cons e es)
  then obtain n where n: "fuel = Suc n" "length es < n" by (cases fuel) auto
  let ?t = "concat (map (\<lambda>e. 44 # print_expr e) es) @ from_text t"
  note ce = col_end_tail[of es t]
  have tail: "reads 0 (parseSelect_cols n (cols @ [e])) ?t ((cols @ [e]) @ es) (32 # t)"
    using Cons.prems n(2) by (intro Cons.IH) auto
  have "after_keywords (map str_bytes [''FROM'']) (concat (map (\<lambda>e. 44 # print_expr e) (e # es)) @ from_text t) = None"
    by (simp add: kw_eval)
  then show ?case unfolding n(1) parseSelect_cols_eqs(2)[OF Cons.prems(2)]
    apply (rule reads_no_keyword)
    apply (rule reads_punct[where t="print_expr e @ ?t"])
     apply (simp add: trim_Cons isSpace_def str_bytes_def)
    using reads_col[OF _ ce tail] Cons.prems(1) by simp
qed

lemma reads_cols:
  assumes "list_all (\<lambda>e. e = EStar \<or> expr_fits e) es" and "es \<noteq> []" and "length es < fuel"
  shows "reads 0 (parseSelect_cols fuel []) (32 # commas (map print_expr es) @ from_text t) es (32 # t)"
proof -
  obtain e es' where es: "es = e # es'" using assms(2) by (cases es) auto
  obtain n where n: "fuel = Suc n" "length es' < n" using assms(3) es by (cases fuel) auto
  let ?t = "concat (map (\<lambda>e. 44 # print_expr e) es') @ from_text t"
  note ce = col_end_tail[of es' t]
  have "reads 0 (parseSelect_cols n ([] @ [e])) ?t ([e] @ es') (32 # t)"
    using reads_cols_tail[of es' "[e]" n t] assms n es by simp
  have "e = EStar \<or> expr_fits e" using assms(1) by (simp add: es)
  from reads_col[OF this ce \<open>reads 0 _ ?t _ _\<close>, unfolded append_Nil] have col: "reads 0 (\<lambda>p. case tryStar p of (True, p) \<Rightarrow> parseSelect_cols n [EStar] p
      | (False, p) \<Rightarrow> rbind (parseExpr p) (\<lambda>(e, p). parseSelect_cols n [e] p)) (print_expr e @ ?t) ([e] @ es') (32 # t)" .
  have "after_keywords (map str_bytes [''FROM'']) (print_expr e @ ?t) = None"
  proof (cases "e = EStar")
    case False
    then show ?thesis using assms(1) ce by (simp add: es expr_fits_def col_end_def closing_delim print_expr_no_keyword)
  qed (simp add: kw_eval)
  from reads_no_keyword[OF this col] show ?thesis
    unfolding n(1) parseSelect_cols_eqs(1) by (intro reads_space) (simp add: es commas_Cons comp_def)
qed

lemma reads_assign:
  assumes "name_ok (as_column a)" and "expr_fits (as_expr a)" and "closing r"
  shows "reads 0 parseAssign (print_assign a @ r) a r"
proof -
  let ?e = "print_expr (as_expr a)"
  have e: "expr_printable (as_expr a)" "print_depth (as_expr a) \<le> maxExprDepth" using assms(2) by (auto simp: expr_fits_def)
  have "trim (32 # ?e @ r) = ?e @ r" using print_expr_not_close[OF e(1)] by (cases ?e) (auto simp: trim_Cons)
  note ex = reads_expr[OF e assms(3) this]
  have n: "trim (print_assign a @ r) = as_column a @ 32 # 61 # 32 # ?e @ r"
    using trim_name[OF assms(1)] by (simp add: print_assign_def str_bytes_def)
  have eq: "trim (32 # 61 # 32 # ?e @ r) = str_bytes ''='' @ 32 # ?e @ r" by (simp add: trim_Cons isSpace_def str_bytes_def)
  show ?thesis unfolding parseAssign_def
    by (rule reads_name[OF n assms(1)], simp add: delim_def, rule reads_punct[OF eq], rule reads_bind[OF ex])
       (simp add: reads_def)
qed

lemma reads_assigns:
  "list_all (\<lambda>a. name_ok (as_column a) \<and> expr_fits (as_expr a)) as \<Longrightarrow> as \<noteq> [] \<Longrightarrow> length as < fuel \<Longrightarrow>
   closing r \<Longrightarrow> hd (trim r) \<noteq> 44 \<Longrightarrow>
   reads 0 (parseUpdate_loop fuel out) (commas (map print_assign as) @ r) (out @ as) r"
proof (induction as arbitrary: out fuel)
  case (Cons a as)
  note IH = Cons.IH and prems = Cons.prems
  obtain n where n: "fuel = Suc n" "length as < n" using prems by (cases fuel) auto
  let ?t = "concat (map (\<lambda>a. 44 # print_assign a) as) @ r"
  have "closing ?t" using Cons.prems(4)
    by (cases as) (auto simp: closing_def delim_def trim_Cons isSpace_def)
  with reads_assign Cons.prems(1) have a: "reads 0 parseAssign (print_assign a @ ?t) a ?t" by simp
  have eq: "parseUpdate_loop (Suc n) out = (\<lambda>p. rbind (parseAssign p) (\<lambda>(a, p).
       case tryPunctuation '','' p of (True, p) \<Rightarrow> parseUpdate_loop n (out @ [a]) p
       | (False, p) \<Rightarrow> Inr (out @ [a], p)))" by (rule ext) simp
  have "reads 0 (\<lambda>p. case tryPunctuation '','' p of (True, p) \<Rightarrow> parseUpdate_loop n (out @ [a]) p
       | (False, p) \<Rightarrow> Inr (out @ [a], p)) ?t (out @ a # as) r"
  proof (cases as)
    case Nil
    then show ?thesis using Cons.prems(5)
      by (intro reads_no_punct) (auto simp: prefix_Cons intro: reads_return)
  next
    case (Cons b bs)
    then have t: "trim ?t = str_bytes '','' @ commas (map print_assign as) @ r"
      by (simp add: trim_Cons isSpace_def str_bytes_def commas_Cons comp_def)
    show ?thesis using IH[of n "out @ [a]"] prems n(2) Cons by (intro reads_punct[OF t]) auto
  qed
  then have "reads 0 (parseUpdate_loop (Suc n) out) (print_assign a @ ?t) (out @ a # as) r"
    unfolding eq by (rule reads_bind[OF a])
  then show ?case by (simp add: n(1) commas_Cons comp_def del: parseUpdate_loop.simps)
qed simp

section \<open>Round trip\<close>

lemma reads_59: "out = s \<Longrightarrow> reads d (parseEnd out) [59] s []"
  by (simp add: reads_parseEnd trim_Cons isSpace_def)

lemma length_commas: "length xs \<le> Suc (length (commas xs))"
  by (induction xs rule: commas.induct) auto

lemma comma_fuel:
  assumes "at_input d (32 # commas xs @ c # r) q" and "xs \<noteq> []" and "hd xs \<noteq> []" and "\<not> isSpace (hd (hd xs))"
  shows "length xs < Suc (length (p_buf q))"
proof -
  obtain y ys where xs: "xs = y # ys" using assms(2) by (cases xs) auto
  obtain ch cs where "y = ch # cs" using assms(3) xs by (cases y) auto
  then have "trim (32 # commas xs @ c # r) = commas xs @ c # r"
    using assms(4) xs by (simp add: trim_Cons commas_Cons)
  then show ?thesis using at_input_length[OF assms(1)] length_commas[of xs] by simp
qed

lemma reads_parseSelect:
  assumes "stmt_printable (SSelect s)"
  shows "reads 0 parseSelect (32 # commas (map print_expr (sel_cols s)) @ from_text (sel_table s @ print_where (sel_cond s) @ print_limit s @ [59])) s []"
proof -
  let ?r = "print_limit s @ [59]" and ?w = "print_where (sel_cond s) @ print_limit s @ [59]"
  have cl: "closing ?r" "after_keywords [str_bytes ''WHERE''] ?r = None"
    by (simp_all add: print_limit_def closing_def delim_def kw_eval)
  have nm: "name_ok (sel_table s)" "trim (32 # sel_table s @ ?w) = sel_table s @ ?w" "delim ?w"
    using assms trim_name[of "sel_table s"] closing_where[OF cl(1)] by (auto simp: trim_Cons closing_delim)
  have w: "reads 0 parseWhere ?w (sel_cond s) ?r" using assms cl by (intro reads_where) auto
  have s: "\<lparr>sel_table = sel_table s, sel_cols = sel_cols s, sel_cond = sel_cond s, sel_limit = - 1, sel_offset = 0\<rparr>
      = s\<lparr>sel_limit := - 1, sel_offset := 0\<rparr>" by simp
  have l: "reads 0 (parseLimit (s\<lparr>sel_limit := - 1, sel_offset := 0\<rparr>)) ?r s [59]" using assms by (intro reads_limit) simp
  have after: "reads 0 (\<lambda>p. case tryName p of (None, p) \<Rightarrow> Inl (Error ''expect table name'')
       | (Some table, p) \<Rightarrow>
           rbind (parseWhere p) (\<lambda>(cond, p).
             rbind (parseLimit \<lparr>sel_table = table, sel_cols = sel_cols s, sel_cond = cond, sel_limit = - 1, sel_offset = 0\<rparr> p)
               (\<lambda>(out, p). parseEnd out p))) (32 # sel_table s @ ?w) s []"
    by (rule reads_name[OF nm(2,1,3)], rule reads_bind[OF w], unfold s, rule reads_bind[OF l])
       (rule reads_parseEnd, simp add: trim_Cons isSpace_def)
  have f: "from_text t = 32 # str_bytes ''FROM '' @ t" for t by (simp add: str_bytes_def)
  have hd: "hd (map print_expr (sel_cols s)) \<noteq> []" "\<not> isSpace (hd (hd (map print_expr (sel_cols s))))"
    using assms print_expr_not_close by (cases "sel_cols s"; auto simp: expr_fits_def isSpace_def)+
  show ?thesis
  proof (rule readsI)
    fix q assume at: "at_input 0 (32 # commas (map print_expr (sel_cols s)) @ from_text (sel_table s @ ?w)) q"
    have "reads 0 (parseSelect_cols (Suc (length (p_buf q))) []) (32 # commas (map print_expr (sel_cols s)) @ from_text (sel_table s @ ?w))
        (sel_cols s) (32 # sel_table s @ ?w)"
      using assms comma_fuel[OF at[unfolded f] _ hd] by (intro reads_cols) auto
    then obtain q1 where q1: "parseSelect_cols (Suc (length (p_buf q))) [] q = Inr (sel_cols s, q1)" "at_input 0 (32 # sel_table s @ ?w) q1"
      using at by (rule readsE)
    have "sel_cols s \<noteq> []" using assms by simp
    with readsE[OF after q1(2)] show "\<exists>q'. parseSelect q = Inr (s, q') \<and> at_input 0 [] q'"
      unfolding parseSelect_def q1(1) by auto
  qed
qed

lemma reads_parseCreateTable:
  assumes "stmt_printable (SCreateTable s)"
  shows "reads 0 parseCreateTable (32 # ct_table s @ 40 # commas (map print_item (table_items s)) @ [41, 59]) s []"
proof -
  let ?t = "40 # commas (map print_item (table_items s)) @ [41, 59]"
  have nm: "trim (32 # ct_table s @ ?t) = ct_table s @ ?t" "name_ok (ct_table s)"
    using assms trim_name by (auto simp: trim_Cons)
  have ok: "list_all item_ok (table_items s)" using assms by (auto simp: table_items_def list_all_iff)
  have "reads 0 (parseCommaList parseCreateTableItem \<lparr>ct_table = ct_table s, ct_cols = [], ct_pkey = [], ct_indices = []\<rparr>) ?t
      (foldl add_item \<lparr>ct_table = ct_table s, ct_cols = [], ct_pkey = [], ct_indices = []\<rparr> (table_items s)) [59]"
    by (rule reads_items[OF ok]) (simp add: trim_Cons isSpace_def)
  then have it: "reads 0 (parseCommaList parseCreateTableItem \<lparr>ct_table = ct_table s, ct_cols = [], ct_pkey = [], ct_indices = []\<rparr>) ?t s [59]"
    by (simp add: add_items)
  show ?thesis unfolding parseCreateTable_def
    by (rule reads_name[OF nm], simp add: delim_def, rule reads_bind[OF it]) (rule reads_59, simp)
qed

lemma reads_parseInsert:
  assumes "stmt_printable (SInsert s)"
  shows "reads 0 parseInsert (32 # ins_table s @ str_bytes '' VALUES ('' @ commas (map print_cell (ins_value s)) @ [41, 59]) s []"
proof -
  let ?t = "32 # 40 # commas (map print_cell (ins_value s)) @ [41, 59]"
  have nm: "trim (32 # ins_table s @ str_bytes '' VALUES'' @ ?t) = ins_table s @ str_bytes '' VALUES'' @ ?t" "name_ok (ins_table s)"
    using assms trim_name by (auto simp: trim_Cons)
  have kw: "after_keywords (map str_bytes [''VALUES'']) (str_bytes '' VALUES'' @ ?t) = Some ?t" by (simp add: kw_eval)
  have v: "reads 0 (parseCommaList parseValueItem []) ?t (ins_value s) [59]"
    using assms by (intro reads_values) (auto simp: trim_Cons isSpace_def)
  have "str_bytes '' VALUES ('' @ r = str_bytes '' VALUES'' @ 32 # 40 # r" for r by (simp add: str_bytes_def)
  then show ?thesis unfolding parseInsert_def
    by (simp only:, intro reads_name[OF nm] reads_keyword[OF kw] reads_bind[OF v] reads_59)
       (simp_all add: delim_def str_bytes_def)
qed

lemma reads_parseUpdate:
  assumes "stmt_printable (SUpdate s)"
  shows "reads 0 parseUpdate (32 # upd_table s @ str_bytes '' SET '' @ commas (map print_assign (upd_value s)) @ print_where (upd_cond s) @ [59]) s []"
proof -
  let ?w = "print_where (upd_cond s) @ [59]" and ?a = "commas (map print_assign (upd_value s))"
  have nm: "trim (32 # upd_table s @ str_bytes '' SET '' @ ?a @ ?w) = upd_table s @ str_bytes '' SET '' @ ?a @ ?w" "name_ok (upd_table s)"
    using assms trim_name by (auto simp: trim_Cons)
  have kw: "after_keywords (map str_bytes [''SET'']) (str_bytes '' SET '' @ ?a @ ?w) = Some (32 # ?a @ ?w)" by (simp add: kw_eval)
  have c59: "closing [59]" "after_keywords [str_bytes ''WHERE''] [59] = None" by (simp_all add: closing_def delim_def kw_eval)
  have w: "reads 0 parseWhere ?w (upd_cond s) [59]" using assms c59 by (intro reads_where) auto
  have hd: "hd (map print_assign (upd_value s)) \<noteq> []" "\<not> isSpace (hd (hd (map print_assign (upd_value s))))"
    using assms name_start_not_space by (cases "upd_value s"; auto simp: print_assign_def name_ok_def)+
  have set: "\<exists>q'. parseUpdate_loop (Suc (length (p_buf q))) [] q = Inr (upd_value s, q') \<and> at_input 0 ?w q'"
    if at: "at_input 0 (32 # ?a @ ?w) q" for q
  proof -
    obtain c r where cr: "?w = c # r" by (cases ?w) auto
    have "hd (trim ?w) \<noteq> 44" by (simp add: print_where_def trim_Cons isSpace_def str_bytes_def split: option.splits)
    then have "reads 0 (parseUpdate_loop (Suc (length (p_buf q))) []) (?a @ ?w) ([] @ upd_value s) ?w"
      using assms comma_fuel[OF at[unfolded cr] _ hd] closing_where[OF c59(1)] by (intro reads_assigns) auto
    from readsE[OF reads_space[OF this] at] show ?thesis by auto
  qed
  have rest: "reads 0 (\<lambda>p. rbind (parseUpdate_loop (Suc (length (p_buf p))) [] p) (\<lambda>(value, p).
      rbind (parseWhere p) (\<lambda>(cond, p). parseEnd \<lparr>upd_table = upd_table s, upd_cond = cond, upd_value = value\<rparr> p)))
      (32 # ?a @ ?w) s []"
  proof (rule reads_bind[where x="upd_value s" and t="?w"])
    show "reads 0 (\<lambda>p. parseUpdate_loop (Suc (length (p_buf p))) [] p) (32 # ?a @ ?w) (upd_value s) ?w"
      using set by (simp add: reads_def)
    show "reads 0 (\<lambda>p. rbind (parseWhere p) (\<lambda>(cond, p). parseEnd \<lparr>upd_table = upd_table s, upd_cond = cond, upd_value = upd_value s\<rparr> p)) ?w s []"
      by (rule reads_bind[OF w]) (rule reads_59, simp)
  qed
  show ?thesis unfolding parseUpdate_def
    by (rule reads_name[OF nm], simp add: delim_def str_bytes_def, rule reads_keyword[OF kw]) (rule rest)
qed

lemma reads_parseDelete:
  assumes "stmt_printable (SDelete s)"
  shows "reads 0 parseDelete (32 # del_table s @ print_where (del_cond s) @ [59]) s []"
proof -
  let ?w = "print_where (del_cond s) @ [59]"
  have c59: "closing [59]" "after_keywords [str_bytes ''WHERE''] [59] = None" by (simp_all add: closing_def delim_def kw_eval)
  have nm: "trim (32 # del_table s @ ?w) = del_table s @ ?w" "name_ok (del_table s)" "delim ?w"
    using assms trim_name closing_where[OF c59(1)] by (auto simp: trim_Cons closing_delim)
  have w: "reads 0 parseWhere ?w (del_cond s) [59]" using assms c59 by (intro reads_where) auto
  show ?thesis unfolding parseDelete_def
    by (rule reads_name[OF nm], rule reads_bind[OF w]) (rule reads_59, simp)
qed

lemma reads_parseDropTable:
  assumes "stmt_printable (SDropTable s)"
  shows "reads 0 parseDropTable (32 # drop_table s @ [59]) s []"
proof -
  have nm: "trim (32 # drop_table s @ [59]) = drop_table s @ [59]" "name_ok (drop_table s)" "delim [59]"
    using assms trim_name by (auto simp: trim_Cons delim_def)
  show ?thesis unfolding parseDropTable_def
    by (rule reads_name[OF nm]) (rule reads_59, simp)
qed

lemma reads_delete:
  assumes "reads 0 parseDelete (32 # r) x []"
  shows "reads 0 parseStmt (str_bytes ''DELETE FROM '' @ r) (SDelete x) []"
proof -
  have k: "after_keywords (map str_bytes [''SELECT'']) (str_bytes ''DELETE FROM '' @ r) = None"
    "after_keywords (map str_bytes [''CREATE'', ''TABLE'']) (str_bytes ''DELETE FROM '' @ r) = None"
    "after_keywords (map str_bytes [''INSERT'', ''INTO'']) (str_bytes ''DELETE FROM '' @ r) = None"
    "after_keywords (map str_bytes [''UPDATE'']) (str_bytes ''DELETE FROM '' @ r) = None"
    "after_keywords (map str_bytes [''DELETE'', ''FROM'']) (str_bytes ''DELETE FROM '' @ r) = Some (32 # r)"
    by (simp_all add: kw_eval)
  show ?thesis unfolding parseStmt_def
    by (rule reads_no_keyword[OF k(1)], rule reads_no_keyword[OF k(2)], rule reads_no_keyword[OF k(3)],
        rule reads_no_keyword[OF k(4)], rule reads_keyword[OF k(5)], rule reads_bind[OF assms]) (rule reads_return)
qed

lemma reads_stmt:
  assumes "stmt_printable s"
  shows "reads 0 parseStmt (print_stmt s) s []"
proof (cases s)
  case (SSelect x)
  have k: "after_keywords (map str_bytes [''SELECT'']) (str_bytes ''SELECT '' @ r) = Some (32 # r)" for r
    by (simp add: kw_eval)
  show ?thesis using reads_parseSelect[of x] assms unfolding SSelect print_stmt.simps parseStmt_def
    by (intro reads_keyword[OF k] reads_bind) (auto intro: reads_return)
next
  case (SCreateTable x)
  have k: "after_keywords (map str_bytes [''SELECT'']) (str_bytes ''CREATE TABLE '' @ r) = None"
    "after_keywords (map str_bytes [''CREATE'', ''TABLE'']) (str_bytes ''CREATE TABLE '' @ r) = Some (32 # r)" for r
    by (simp_all add: kw_eval)
  show ?thesis unfolding SCreateTable print_stmt.simps parseStmt_def
    by (rule reads_no_keyword[OF k(1)], rule reads_keyword[OF k(2)], rule reads_bind, rule reads_parseCreateTable)
       (use assms SCreateTable in \<open>auto intro: reads_return\<close>)
next
  case (SInsert x)
  have k: "after_keywords (map str_bytes [''SELECT'']) (str_bytes ''INSERT INTO '' @ r) = None"
    "after_keywords (map str_bytes [''CREATE'', ''TABLE'']) (str_bytes ''INSERT INTO '' @ r) = None"
    "after_keywords (map str_bytes [''INSERT'', ''INTO'']) (str_bytes ''INSERT INTO '' @ r) = Some (32 # r)" for r
    by (simp_all add: kw_eval)
  show ?thesis unfolding SInsert print_stmt.simps parseStmt_def
    by (rule reads_no_keyword[OF k(1)], rule reads_no_keyword[OF k(2)], rule reads_keyword[OF k(3)], rule reads_bind,
        rule reads_parseInsert)
       (use assms SInsert in \<open>auto intro: reads_return\<close>)
next
  case (SUpdate x)
  have k: "after_keywords (map str_bytes [''SELECT'']) (str_bytes ''UPDATE '' @ r) = None"
    "after_keywords (map str_bytes [''CREATE'', ''TABLE'']) (str_bytes ''UPDATE '' @ r) = None"
    "after_keywords (map str_bytes [''INSERT'', ''INTO'']) (str_bytes ''UPDATE '' @ r) = None"
    "after_keywords (map str_bytes [''UPDATE'']) (str_bytes ''UPDATE '' @ r) = Some (32 # r)" for r
    by (simp_all add: kw_eval)
  show ?thesis unfolding SUpdate print_stmt.simps parseStmt_def
    by (rule reads_no_keyword[OF k(1)], rule reads_no_keyword[OF k(2)], rule reads_no_keyword[OF k(3)], rule reads_keyword[OF k(4)], rule reads_bind,
        rule reads_parseUpdate)
       (use assms SUpdate in \<open>auto intro: reads_return\<close>)
next
  case (SDelete x)
  then show ?thesis using reads_delete[OF reads_parseDelete[of x]] assms by simp
next
  case (SDropTable x)
  have k: "after_keywords (map str_bytes [''SELECT'']) (str_bytes ''DROP TABLE '' @ r) = None"
    "after_keywords (map str_bytes [''CREATE'', ''TABLE'']) (str_bytes ''DROP TABLE '' @ r) = None"
    "after_keywords (map str_bytes [''INSERT'', ''INTO'']) (str_bytes ''DROP TABLE '' @ r) = None"
    "after_keywords (map str_bytes [''UPDATE'']) (str_bytes ''DROP TABLE '' @ r) = None"
    "after_keywords (map str_bytes [''DELETE'', ''FROM'']) (str_bytes ''DROP TABLE '' @ r) = None"
    "after_keywords (map str_bytes [''DROP'', ''TABLE'']) (str_bytes ''DROP TABLE '' @ r) = Some (32 # r)" for r
    by (simp_all add: kw_eval)
  show ?thesis unfolding SDropTable print_stmt.simps parseStmt_def
    by (rule reads_no_keyword[OF k(1)], rule reads_no_keyword[OF k(2)], rule reads_no_keyword[OF k(3)], rule reads_no_keyword[OF k(4)], rule reads_no_keyword[OF k(5)], rule reads_keyword[OF k(6)], rule reads_bind,
        rule reads_parseDropTable)
       (use assms SDropTable in \<open>auto intro: reads_return\<close>)
qed

lemma ParseStmt_reads:
  assumes "reads 0 parseStmt text s []"
  shows "ParseStmt text = Inr s"
proof -
  have "at_input 0 text (NewParser text)" by (simp add: at_input_def NewParser_def p_rest_def)
  with assms obtain q where q: "parseStmt (NewParser text) = Inr (s, q)" "at_input 0 [] q" by (rule readsE)
  have "p_rest (skipSpaces q) = []" using q(2) by (simp add: at_input_def trim_def)
  then have "isEnd q" by (auto simp: isEnd_def p_rest_def skipSpaces_def advance_def)
  then show ?thesis using q(1) by (simp add: ParseStmt_def)
qed

text \<open>
  C24: every statement with plain names, literals the syntax can write and expressions within
  the nesting limit is read back from its text unchanged.
\<close>

theorem ParseStmt_print: "stmt_printable s \<Longrightarrow> ParseStmt (print_stmt s) = Inr s"
  by (intro ParseStmt_reads reads_stmt)

definition demo_update :: stmt where
  "demo_update = SUpdate \<lparr>upd_table = str_bytes ''t'',
     upd_cond = Some (EBinOp OP_AND (EUnOp OP_NOT (EName (str_bytes ''a''))) (EBinOp OP_EQ (EName (str_bytes ''b'')) (ECell (cell_str [39])))),
     upd_value = [\<lparr>as_column = str_bytes ''a'', as_expr = EUnOp OP_NEG (ECell (cell_int 1))\<rparr>]\<rparr>"

theorem ParseStmt_print_witness:
  "stmt_printable demo_update \<and> ParseStmt (print_stmt demo_update) = Inr demo_update"
proof -
  have "stmt_printable demo_update"
    by (simp add: demo_update_def name_ok_def kw_eval isNameStart_def expr_fits_def literal_ok_def cell_int_def cell_str_def maxExprDepth_def)
  then show ?thesis using ParseStmt_print by blast
qed

section \<open>Operators that are words\<close>

lemma glued_token:
  fixes w :: bytes
  defines "t op \<equiv> 32 # str_bytes (op_text op) @ w"
  assumes "op \<in> {OP_AND, OP_OR}"
  shows "op = OP_AND \<Longrightarrow> token_at and_tokens (t op) op w" and "op = OP_OR \<Longrightarrow> token_at or_tokens (t op) op w"
    and "op = OP_OR \<Longrightarrow> no_token and_tokens (t op)"
    and "no_token mul_tokens (t op)" and "no_token add_tokens (t op)" and "no_token cmp_tokens (t op)"
  using assms(2) by ((elim insertE emptyE)?; simp add: t_def token_eval)+

lemma reads_glued:
  assumes "name_ok a" and "name_ok b" and "op \<in> {OP_AND, OP_OR}" and "closing v"
  shows "reads 0 parseExpr (a @ 32 # str_bytes (op_text op) @ b @ v) (EBinOp op (EName a) (EName b)) v"
proof -
  define fuel where "fuel = 3 * maxExprDepth"
  let ?t = "32 # str_bytes (op_text op) @ b @ v"
  note nt = closing_no_token[OF assms(4)] and tok = glued_token[OF assms(3), of "b @ v"]
  have dv: "delim v" and dt: "delim ?t" using assms(4) by (simp_all add: closing_def delim_def)
  have R: "reads 0 (parseNot (Suc (Suc fuel))) (b @ v) (EName b) v"
    using reads_not[OF _ dv reads_cmp[OF reads_EName[OF assms(2)] dv nt(3-5)]] assms(2) by simp
  have L: "reads 0 (parseNot (Suc (Suc fuel))) (a @ ?t) (EName a) ?t"
    using reads_not[OF _ dt reads_cmp[OF reads_EName[OF assms(1)] dt tok(6,5,4)]] assms(1) by simp
  have "reads 0 (parseExprAt (Suc (Suc (Suc fuel)))) (a @ ?t) (EBinOp op (EName a) (EName b)) v"
  proof (cases "op = OP_AND")
    case True
    then show ?thesis using tok(1) L unfolding parseExprAt.simps parseOr_def parseAnd_def
      by (intro reads_operand reads_binop[OF _ _ R] nt) auto
  next
    case False
    then show ?thesis using tok(2,3) L assms(3) unfolding parseExprAt.simps parseOr_def parseAnd_def
      by (intro reads_binop[OF reads_operand _ reads_operand[OF R]] nt) auto
  qed
  moreover have "3 * maxExprDepth + 3 = Suc (Suc (Suc fuel))" by (simp add: fuel_def)
  ultimately show ?thesis unfolding parseExpr_def by (simp only:)
qed

text \<open>
  C28: \<open>AND\<close> and \<open>OR\<close> are first tried as punctuation, without the check that the
  word ends there.  A word after an operand that starts with one of them, such as \<open>ANDb\<close> or \<open>ORDER\<close>,
  is read as the operator followed by the rest of the word as a name, for all names.
\<close>

theorem operator_keyword_glued:
  assumes "name_ok t" and "name_ok a" and "name_ok b" and "op \<in> {OP_AND, OP_OR}"
  shows "ParseStmt (str_bytes ''DELETE FROM '' @ t @ str_bytes '' WHERE '' @ a @ 32 # str_bytes (op_text op) @ b @ [59]) =
     Inr (SDelete \<lparr>del_table = t, del_cond = Some (EBinOp op (EName a) (EName b))\<rparr>)"
proof -
  let ?e = "a @ 32 # str_bytes (op_text op) @ b @ [59]" and ?x = "EBinOp op (EName a) (EName b)"
  let ?w = "str_bytes '' WHERE '' @ ?e"
  have c59: "closing [59]" by (simp add: closing_def delim_def kw_eval)
  have "reads 0 parseExpr (32 # ?e) ?x [59]" by (rule reads_space[OF reads_glued[OF assms(2-4) c59]])
  then have w: "reads 0 parseWhere ?w (Some ?x) [59]" unfolding parseWhere_def
    by (intro reads_keyword[OF _ reads_bind[OF _ reads_return]]) (simp_all add: kw_eval)
  have nm: "trim (32 # t @ ?w) = t @ ?w" "delim ?w" using trim_name[OF assms(1)] by (simp_all add: trim_Cons delim_def str_bytes_def)
  have "reads 0 parseDelete (32 # t @ ?w) \<lparr>del_table = t, del_cond = Some ?x\<rparr> []" unfolding parseDelete_def
    by (rule reads_name[OF nm(1) assms(1) nm(2)], rule reads_bind[OF w]) (rule reads_59, simp)
  from ParseStmt_reads[OF reads_delete[OF this]] show ?thesis by simp
qed

theorem operator_keyword_glued_witness:
  "ParseStmt (str_bytes ''DELETE FROM t WHERE a ORDER;'') =
     Inr (SDelete \<lparr>del_table = str_bytes ''t'',
       del_cond = Some (EBinOp OP_OR (EName (str_bytes ''a'')) (EName (str_bytes ''DER'')))\<rparr>)"
proof -
  have n: "name_ok (str_bytes ''t'')" "name_ok (str_bytes ''a'')" "name_ok (str_bytes ''DER'')"
    by (simp_all add: name_ok_def kw_eval isNameStart_def)
  from operator_keyword_glued[OF n, of OP_OR] show ?thesis by (simp add: str_bytes_def)
qed

end
