(* ===== verification/ExprSem.thy ===== *)
theory ExprSem
  imports Expr
begin

text \<open>
  What an SQL expression means, independently of \<open>src/db/eval.go\<close>: mathematical integers reduced
  to 64 bits, byte strings under the lexicographic order, tuples compared component by component up
  to the first difference.  The relation \<open>gives n\<close> allows at most \<open>n\<close> levels of operators above a
  leaf.  The theorem is that \<open>evalExpr\<close> returns exactly the values of the relation at
  \<open>maxExprDepth\<close> levels.
\<close>

section \<open>Values\<close>

datatype val = VI int | VS bytes

definition cval :: "cell \<Rightarrow> val" where
  "cval c = (if cell_Type c = TypeI64 then VI (sint (cell_I64 c)) else VS (cell_Str c))"

text \<open>Two's complement with 64 bits.\<close>

definition wrap64 :: "int \<Rightarrow> int" where
  "wrap64 i = (i + 2 ^ 63) mod 2 ^ 64 - 2 ^ 63"

text \<open>Division that truncates towards zero.\<close>

definition quotient :: "int \<Rightarrow> int \<Rightarrow> int" where
  "quotient a b = (if (a < 0) = (b < 0) then \<bar>a\<bar> div \<bar>b\<bar> else - (\<bar>a\<bar> div \<bar>b\<bar>))"

definition truth_val :: "bool \<Rightarrow> val" where
  "truth_val b = VI (if b then 1 else 0)"

fun same_kind :: "val \<Rightarrow> val \<Rightarrow> bool" where
  "same_kind (VI a) (VI b) = True"
| "same_kind (VS a) (VS b) = True"
| "same_kind _ _ = False"

fun val_less :: "val \<Rightarrow> val \<Rightarrow> bool" where
  "val_less (VI a) (VI b) = (a < b)"
| "val_less (VS a) (VS b) = ((a, b) \<in> lexord {(x, y). unat x < unat y})"
| "val_less _ _ = False"

text \<open>The first components that differ decide.\<close>

fun vals_less :: "val list \<Rightarrow> val list \<Rightarrow> bool" where
  "vals_less (u # us) (w # ws) = (if u = w then vals_less us ws else val_less u w)"
| "vals_less _ _ = False"

fun comparison :: "ExprOp \<Rightarrow> bool \<Rightarrow> bool \<Rightarrow> bool" where
  "comparison OP_EQ lt gt = (\<not> lt \<and> \<not> gt)"
| "comparison OP_NE lt gt = (lt \<or> gt)"
| "comparison OP_LT lt gt = lt"
| "comparison OP_LE lt gt = (\<not> gt)"
| "comparison OP_GT lt gt = gt"
| "comparison OP_GE lt gt = (\<not> lt)"
| "comparison _ lt gt = False"

section \<open>The relation\<close>

definition comparisons :: "ExprOp set" where
  "comparisons = {OP_EQ, OP_NE, OP_LT, OP_LE, OP_GT, OP_GE}"

inductive gives :: "Schema \<Rightarrow> row \<Rightarrow> nat \<Rightarrow> expr \<Rightarrow> val \<Rightarrow> bool"
  and tuple_gives :: "Schema \<Rightarrow> row \<Rightarrow> nat \<Rightarrow> expr list \<Rightarrow> expr list \<Rightarrow> val list \<Rightarrow> val list \<Rightarrow> bool"
  for s row where
  g_name: "i < length (sc_Cols s) \<Longrightarrow> col_Name (sc_Cols s ! i) = name \<Longrightarrow>
    \<forall>j < i. col_Name (sc_Cols s ! j) \<noteq> name \<Longrightarrow> gives s row n (EName name) (cval (row ! i))"
| g_cell: "gives s row n (ECell c) (cval c)"
| g_neg: "gives s row n e (VI a) \<Longrightarrow> gives s row (Suc n) (EUnOp OP_NEG e) (VI (wrap64 (- a)))"
| g_not: "gives s row n e (VI a) \<Longrightarrow> gives s row (Suc n) (EUnOp OP_NOT e) (truth_val (a = 0))"
| g_add: "gives s row n l (VI a) \<Longrightarrow> gives s row n r (VI b) \<Longrightarrow>
    gives s row (Suc n) (EBinOp OP_ADD l r) (VI (wrap64 (a + b)))"
| g_concat: "gives s row n l (VS a) \<Longrightarrow> gives s row n r (VS b) \<Longrightarrow> length a + length b \<le> MaxEntrySize \<Longrightarrow>
    gives s row (Suc n) (EBinOp OP_ADD l r) (VS (a @ b))"
| g_sub: "gives s row n l (VI a) \<Longrightarrow> gives s row n r (VI b) \<Longrightarrow>
    gives s row (Suc n) (EBinOp OP_SUB l r) (VI (wrap64 (a - b)))"
| g_mul: "gives s row n l (VI a) \<Longrightarrow> gives s row n r (VI b) \<Longrightarrow>
    gives s row (Suc n) (EBinOp OP_MUL l r) (VI (wrap64 (a * b)))"
| g_div: "gives s row n l (VI a) \<Longrightarrow> gives s row n r (VI b) \<Longrightarrow> b \<noteq> 0 \<Longrightarrow>
    gives s row (Suc n) (EBinOp OP_DIV l r) (VI (wrap64 (quotient a b)))"
| g_and: "gives s row n l (VI a) \<Longrightarrow> gives s row n r (VI b) \<Longrightarrow>
    gives s row (Suc n) (EBinOp OP_AND l r) (truth_val (a \<noteq> 0 \<and> b \<noteq> 0))"
| g_or: "gives s row n l (VI a) \<Longrightarrow> gives s row n r (VI b) \<Longrightarrow>
    gives s row (Suc n) (EBinOp OP_OR l r) (truth_val (a \<noteq> 0 \<or> b \<noteq> 0))"
| g_cmp: "op \<in> comparisons \<Longrightarrow> gives s row n l v \<Longrightarrow> gives s row n r w \<Longrightarrow> same_kind v w \<Longrightarrow>
    gives s row (Suc n) (EBinOp op l r) (truth_val (comparison op (val_less v w) (val_less w v)))"
| g_tuple: "op \<in> comparisons \<Longrightarrow> tuple_gives s row n ls rs us ws \<Longrightarrow>
    gives s row n (EBinOp op (ETuple ls) (ETuple rs)) (truth_val (comparison op (vals_less us ws) (vals_less ws us)))"
| t_nil: "tuple_gives s row n [] [] [] []"
| t_differ: "gives s row n l v \<Longrightarrow> gives s row n r w \<Longrightarrow> same_kind v w \<Longrightarrow> v \<noteq> w \<Longrightarrow> length ls = length rs \<Longrightarrow>
    tuple_gives s row (Suc n) (l # ls) (r # rs) [v] [w]"
| t_equal: "gives s row n l v \<Longrightarrow> gives s row n r v \<Longrightarrow> tuple_gives s row (Suc n) ls rs us ws \<Longrightarrow>
    tuple_gives s row (Suc n) (l # ls) (r # rs) (v # us) (v # ws)"

section \<open>Cells and values\<close>

lemma cval_simps [simp]:
  "cval (cell_int w) = VI (sint w)" "cval (cell_str x) = VS x" "cval (boolCell b) = truth_val b"
  by (simp_all add: cval_def cell_int_def cell_str_def boolCell_def truth_val_def)

lemma cval_inject: "cell_wf c \<Longrightarrow> cell_wf c' \<Longrightarrow> cval c = cval c' \<Longrightarrow> c = c'"
  by (erule cell_wf_cases; erule cell_wf_cases) (auto simp: signed_word_eqI)

lemma sint_wrap: "sint (word_of_int i :: 64 word) = wrap64 i"
  by (simp add: wrap64_def sint_sbintrunc' signed_take_bit_eq_take_bit_shift take_bit_eq_mod)

lemma sint_arith:
  fixes a b :: "64 word"
  shows "sint (a + b) = wrap64 (sint a + sint b)" "sint (a - b) = wrap64 (sint a - sint b)"
    "sint (a * b) = wrap64 (sint a * sint b)" "sint (- a) = wrap64 (- sint a)"
  by (simp_all flip: sint_wrap)

lemma sdiv_quotient: "b \<noteq> 0 \<Longrightarrow> a sdiv b = quotient a b"
  by (auto simp: signed_divide_int_def quotient_def sgn_if)

lemma sint_eq_0 [simp]: "sint (w :: 64 word) = 0 \<longleftrightarrow> w = 0"
  by (metis signed_0 signed_word_eqI)


lemma bytes_less_lexord [simp]: "(a, b) \<in> lexord {(x, y). unat x < unat y} \<longleftrightarrow> a < (b :: bytes)"
  by (simp add: list_less_def word_less_nat_alt)

lemma compareCells_less:
  assumes "cell_wf l" and "cell_wf r" and "compareCells l r = Inr k"
  shows "same_kind (cval l) (cval r)" and "k < 0 \<longleftrightarrow> val_less (cval l) (cval r)"
    and "0 < k \<longleftrightarrow> val_less (cval r) (cval l)" and "k = 0 \<longleftrightarrow> cval l = cval r"
  using assms
  by (atomize (full), elim cell_wf_cases)
    (auto simp: compareCells_def cmp_int_def bytes_Compare_def cell_int_def cell_str_def
      cval_def signed_word_eqI split: if_splits)

lemma compareCells_total:
  assumes "cell_wf l" and "cell_wf r" and "same_kind (cval l) (cval r)"
  obtains k where "compareCells l r = Inr k"
  using assms by (elim cell_wf_cases) (auto simp: compareCells_def)

lemma cmpResult_comparison: "op \<in> comparisons \<Longrightarrow> cmpResult op k = comparison op (k < 0) (0 < k)"
  by (auto simp: comparisons_def)

lemma comparisons_iff: "op \<in> comparisons \<longleftrightarrow> isCmpOp op"
  by (auto simp: comparisons_def isCmpOp_def)

text \<open>The rules for two scalar operands, in both directions.\<close>

lemma binop_gives:
  assumes "gives s row n l (cval lc)" and "gives s row n r (cval rc)" and "cell_wf lc" and "cell_wf rc"
    and "binop_cells op lc rc = Inr c"
  shows "cell_wf c \<and> gives s row (Suc n) (EBinOp op l r) (cval c)"
proof (cases "isCmpOp op")
  case True
  then obtain k where k: "compareCells lc rc = Inr k" "c = boolCell (cmpResult op k)"
    using assms(5) by (auto simp: binop_cells_def rbind_Inr_iff split: if_splits)
  note cmp = compareCells_less[OF assms(3,4) k(1)]
  have "cval c = truth_val (comparison op (val_less (cval lc) (cval rc)) (val_less (cval rc) (cval lc)))"
    using True by (simp add: k(2) cmpResult_comparison comparisons_iff flip: cmp(2,3))
  then show ?thesis using g_cmp[OF _ assms(1,2) cmp(1), of op] True k(2) by (simp add: comparisons_iff)
next
  case False
  from assms(3,4) show ?thesis
  proof (elim cell_wf_cases)
    fix a b assume c: "lc = cell_int a" "rc = cell_int b"
    with assms(1,2) have g: "gives s row n l (VI (sint a))" "gives s row n r (VI (sint b))" by simp_all
    show ?thesis using False assms(5)
        g_add[OF g] g_sub[OF g] g_mul[OF g] g_div[OF g] g_and[OF g] g_or[OF g]
      by (cases op) (auto simp: c binop_cells_def isCmpOp_def Let_def sint_arith sint_wrap sdiv_quotient split: if_splits)
  next
    fix a b assume c: "lc = cell_str a" "rc = cell_str b"
    with assms(1,2) have g: "gives s row n l (VS a)" "gives s row n r (VS b)" by simp_all
    show ?thesis using False assms(5) g_concat[OF g]
      by (cases op) (auto simp: c binop_cells_def isCmpOp_def split: if_splits)
  qed (use assms(5) in \<open>auto simp: binop_cells_def\<close>)
qed

lemma unop_gives:
  assumes "gives s row n e (cval k)" and "cell_wf k" and "unop_cell op k = Inr c"
  shows "cell_wf c \<and> gives s row (Suc n) (EUnOp op e) (cval c)"
  using assms(2)
proof (cases rule: cell_wf_cases)
  case (I64 w)
  with assms(1) have g: "gives s row n e (VI (sint w))" by simp
  show ?thesis using assms(3) g_neg[OF g] g_not[OF g] I64 by (auto simp: unop_cell_def sint_arith split: if_splits)
qed (use assms(3) in \<open>auto simp: unop_cell_def\<close>)

section \<open>The evaluator returns only what the relation gives\<close>

lemma IndexFunc_Some_iff:
  "slices_IndexFunc P xs = Some i \<longleftrightarrow> i < length xs \<and> P (xs ! i) \<and> (\<forall>j < i. \<not> P (xs ! j))"
proof
  assume i: "i < length xs \<and> P (xs ! i) \<and> (\<forall>j < i. \<not> P (xs ! j))"
  then obtain k where k: "slices_IndexFunc P xs = Some k"
    using slices_IndexFunc_None_iff[of P xs] by (cases "slices_IndexFunc P xs") auto
  from slices_IndexFunc_SomeD[OF this] i have "\<not> k < i" "\<not> i < k" by auto
  then show "slices_IndexFunc P xs = Some i" using k by simp
qed (rule slices_IndexFunc_SomeD)

lemma column_index_first:
  "column_index s name = Some i \<longleftrightarrow> i < length (sc_Cols s) \<and> col_Name (sc_Cols s ! i) = name \<and>
     (\<forall>j < i. col_Name (sc_Cols s ! j) \<noteq> name)"
  unfolding column_index_def by (rule IndexFunc_Some_iff)


lemma eval_gives:
  assumes "row_ok s row"
  shows "evalExprAt s row e d = Inr c \<Longrightarrow> expr_ok e \<Longrightarrow>
      d \<le> maxExprDepth \<and> cell_wf c \<and> gives s row (maxExprDepth - d) e (cval c)"
    and "evalTuple s row ls rs d = Inr k \<Longrightarrow> length ls = length rs \<Longrightarrow> list_all expr_ok ls \<Longrightarrow> list_all expr_ok rs \<Longrightarrow>
      \<exists>us ws. tuple_gives s row (maxExprDepth - d) ls rs us ws \<and>
        (k < 0 \<longleftrightarrow> vals_less us ws) \<and> (0 < k \<longleftrightarrow> vals_less ws us)"
  using assms
proof (induction s row e d and s row ls rs d arbitrary: c and k rule: evalExprAt_evalTuple.induct)
  case (1 schema row name depth)
  then obtain i where i: "column_index schema name = Some i" "go_index row (int i) = Inr c" "depth \<le> maxExprDepth"
    by (auto split: if_splits option.splits)
  then have "c = row ! i" using column_index_SomeD[OF i(1)] row_ok_length[OF "1.prems"(3)] by simp
  then show ?case using i row_ok_nth[OF "1.prems"(3), of i] g_name[of i schema name row] column_index_first[of schema name i]
    by (simp add: cell_ok_def)
next
  case (2 schema row x depth)
  then show ?case using g_cell by (auto split: if_splits)
next
  case (3 schema row op kid depth)
  then obtain k where k: "evalExprAt schema row kid (depth + 1) = Inr k" "unop_cell op k = Inr c" "depth \<le> maxExprDepth"
    by (auto simp: rbind_Inr_iff split: if_splits)
  from "3.IH"[OF _ k(1)] "3.prems" k(3) have
    "depth + 1 \<le> maxExprDepth" "cell_wf k" "gives schema row (maxExprDepth - (depth + 1)) kid (cval k)" by auto
  with unop_gives[OF _ _ k(2)] k(3) show ?case by (metis Suc_diff_Suc Suc_eq_plus1 Suc_le_lessD)
next
  case (4 schema row op l r depth)
  have d: "depth \<le> maxExprDepth" using "4.prems"(1) by (auto split: if_splits)
  show ?case
  proof (cases "isCmpOp op \<and> (is_tuple l \<or> is_tuple r)")
    case True
    with "4.prems"(1) obtain ls rs k where t: "l = ETuple ls" "r = ETuple rs" "length ls = length rs"
      "evalTuple schema row ls rs depth = Inr k" "c = boolCell (cmpResult op k)"
      by (cases l; cases r) (auto simp: rbind_Inr_iff split: if_splits)
    then obtain us ws where u: "tuple_gives schema row (maxExprDepth - depth) ls rs us ws"
      "k < 0 \<longleftrightarrow> vals_less us ws" "0 < k \<longleftrightarrow> vals_less ws us"
      using "4.IH"(1)[of k] "4.prems"(2,3) True d by auto
    show ?thesis using g_tuple[OF _ u(1), of op] d True t(1,2,5) u(2,3)
      by (simp add: comparisons_iff cmpResult_comparison)
  next
    case False
    with "4.prems"(1) obtain lc rc where e: "evalExprAt schema row l (depth + 1) = Inr lc"
      "evalExprAt schema row r (depth + 1) = Inr rc" "binop_cells op lc rc = Inr c"
      by (auto simp: rbind_Inr_iff split: if_splits)
    have L: "depth + 1 \<le> maxExprDepth" "cell_wf lc" "gives schema row (maxExprDepth - (depth + 1)) l (cval lc)"
      using "4.IH"(2)[OF _ False e(1)] "4.prems"(2,3) d by auto
    have R: "cell_wf rc" "gives schema row (maxExprDepth - (depth + 1)) r (cval rc)"
      using "4.IH"(3)[OF _ False e(2)] "4.prems"(2,3) d by auto
    from binop_gives[OF L(3) R(2) L(2) R(1) e(3)] L(1) d show ?thesis
      by (metis Suc_diff_Suc Suc_eq_plus1 Suc_le_lessD)
  qed
next
  case (7 schema row l ls r rs depth)
  then obtain lc rc n where e: "evalExprAt schema row l (depth + 1) = Inr lc" "evalExprAt schema row r (depth + 1) = Inr rc"
    "compareCells lc rc = Inr n" "if n \<noteq> 0 then k = n else evalTuple schema row ls rs depth = Inr k"
    by (auto simp: rbind_Inr_iff split: if_splits)
  have L: "depth + 1 \<le> maxExprDepth" "cell_wf lc" "gives schema row (maxExprDepth - (depth + 1)) l (cval lc)"
    using "7.IH"(1)[OF e(1)] "7.prems" by auto
  have R: "cell_wf rc" "gives schema row (maxExprDepth - (depth + 1)) r (cval rc)"
    using "7.IH"(2)[OF e(2)] "7.prems" by auto
  have n: "maxExprDepth - depth = Suc (maxExprDepth - (depth + 1))" using L(1) by simp
  note cmp = compareCells_less[OF L(2) R(1) e(3)]
  show ?case
  proof (cases "n = 0")
    case False
    then have "cval lc \<noteq> cval rc" "k = n" using cmp(4) e(4) by auto
    then show ?thesis unfolding n using t_differ[OF L(3) R(2) cmp(1)] "7.prems"(2) cmp(2,3) by fastforce
  next
    case True
    then have eq: "cval lc = cval rc" "evalTuple schema row ls rs depth = Inr k" using cmp(4) e(4) by auto
    from "7.IH"(3)[OF _ eq(2)] True "7.prems" obtain us ws where "tuple_gives schema row (maxExprDepth - depth) ls rs us ws"
      "k < 0 \<longleftrightarrow> vals_less us ws" "0 < k \<longleftrightarrow> vals_less ws us" by auto
    then show ?thesis unfolding n using t_equal[OF L(3), of r ls rs us ws] R(2) eq(1) by fastforce
  qed
qed (auto intro!: t_nil exI[of _ "[]"] split: if_splits)

section \<open>The evaluator returns everything the relation gives\<close>

lemma VI_cell: "cell_wf c \<Longrightarrow> cval c = VI a \<Longrightarrow> \<exists>w. c = cell_int w \<and> sint w = a"
  by (erule cell_wf_cases) auto

lemma VS_cell: "cell_wf c \<Longrightarrow> cval c = VS b \<Longrightarrow> c = cell_str b"
  by (erule cell_wf_cases) auto

text \<open>A result of the evaluator, with its value.\<close>

definition evaluates :: "Schema \<Rightarrow> row \<Rightarrow> nat \<Rightarrow> expr \<Rightarrow> val \<Rightarrow> bool" where
  "evaluates s row d e v \<longleftrightarrow> (\<exists>c. evalExprAt s row e d = Inr c \<and> cell_wf c \<and> cval c = v)"

lemma evaluates_int:
  assumes "evaluates s row d e (VI a)"
  obtains w where "evalExprAt s row e d = Inr (cell_int w)" "sint w = a"
  using assms VI_cell unfolding evaluates_def by blast

lemma evaluates_str: "evaluates s row d e (VS b) \<Longrightarrow> evalExprAt s row e d = Inr (cell_str b)"
  using VS_cell unfolding evaluates_def by blast

lemma not_tuple: "evaluates s row d e v \<Longrightarrow> \<not> is_tuple e"
  by (cases e) (auto simp: evaluates_def split: if_splits)

lemma evaluates_un:
  assumes "evaluates s row (Suc d) e (VI a)" and "d < maxExprDepth"
  shows "evaluates s row d (EUnOp OP_NEG e) (VI (wrap64 (- a)))"
    and "evaluates s row d (EUnOp OP_NOT e) (truth_val (a = 0))"
  by (rule evaluates_int[OF assms(1)]; use assms(2) in \<open>auto simp: evaluates_def unop_cell_def sint_arith\<close>)+

lemma evaluates_bin:
  assumes "evaluates s row (Suc d) l (VI a)" and "evaluates s row (Suc d) r (VI b)" and "d < maxExprDepth"
  shows "evaluates s row d (EBinOp OP_ADD l r) (VI (wrap64 (a + b)))"
    and "evaluates s row d (EBinOp OP_SUB l r) (VI (wrap64 (a - b)))"
    and "evaluates s row d (EBinOp OP_MUL l r) (VI (wrap64 (a * b)))"
    and "b \<noteq> 0 \<Longrightarrow> evaluates s row d (EBinOp OP_DIV l r) (VI (wrap64 (quotient a b)))"
    and "evaluates s row d (EBinOp OP_AND l r) (truth_val (a \<noteq> 0 \<and> b \<noteq> 0))"
    and "evaluates s row d (EBinOp OP_OR l r) (truth_val (a \<noteq> 0 \<or> b \<noteq> 0))"
  by (rule evaluates_int[OF assms(1)], rule evaluates_int[OF assms(2)];
      use assms(3) in \<open>auto simp: evaluates_def binop_cells_def isCmpOp_def sint_arith sint_wrap sdiv_quotient\<close>)+

lemma evaluates_concat:
  assumes "evaluates s row (Suc d) l (VS a)" and "evaluates s row (Suc d) r (VS b)" and "d < maxExprDepth"
    and "length a + length b \<le> MaxEntrySize"
  shows "evaluates s row d (EBinOp OP_ADD l r) (VS (a @ b))"
  using evaluates_str[OF assms(1)] evaluates_str[OF assms(2)] assms(3,4)
  by (simp add: evaluates_def binop_cells_def isCmpOp_def)

lemma evaluates_cmp:
  assumes "op \<in> comparisons" and "evaluates s row (Suc d) l v" and "evaluates s row (Suc d) r w"
    and "same_kind v w" and "d < maxExprDepth"
  shows "evaluates s row d (EBinOp op l r) (truth_val (comparison op (val_less v w) (val_less w v)))"
proof -
  from assms(2,3) obtain lc rc where c: "evalExprAt s row l (Suc d) = Inr lc" "cell_wf lc" "v = cval lc"
    "evalExprAt s row r (Suc d) = Inr rc" "cell_wf rc" "w = cval rc" by (auto simp: evaluates_def)
  from compareCells_total[OF c(2,5)] assms(4) c(3,6) obtain k where k: "compareCells lc rc = Inr k" by auto
  then have "cell_Type lc = cell_Type rc" by (auto simp: compareCells_def split: if_splits)
  moreover have "cmpResult op k = comparison op (val_less v w) (val_less w v)"
    using cmpResult_comparison[OF assms(1)] compareCells_less(2,3)[OF c(2,5) k] c(3,6) by simp
  ultimately show ?thesis
    using c(1,4) k assms(1,5) not_tuple[OF assms(2)] not_tuple[OF assms(3)]
    by (simp add: evaluates_def comparisons_iff binop_cells_def)
qed

text \<open>The loop over two tuples, with the order it finds.\<close>

definition tuple_evaluates :: "Schema \<Rightarrow> row \<Rightarrow> nat \<Rightarrow> expr list \<Rightarrow> expr list \<Rightarrow> val list \<Rightarrow> val list \<Rightarrow> bool" where
  "tuple_evaluates s row d ls rs us ws \<longleftrightarrow> length ls = length rs \<and>
     (\<exists>k. evalTuple s row ls rs d = Inr k \<and> (k < 0 \<longleftrightarrow> vals_less us ws) \<and> (0 < k \<longleftrightarrow> vals_less ws us))"

lemma tuple_evaluates_Cons:
  assumes "evaluates s row (Suc d) l v" and "evaluates s row (Suc d) r w" and "same_kind v w"
    and "if v = w then tuple_evaluates s row d ls rs us ws else length ls = length rs"
  shows "tuple_evaluates s row d (l # ls) (r # rs) (v # us) (w # ws)"
proof -
  from assms(1,2) obtain lc rc where c: "evalExprAt s row l (Suc d) = Inr lc" "cell_wf lc" "v = cval lc"
    "evalExprAt s row r (Suc d) = Inr rc" "cell_wf rc" "w = cval rc" by (auto simp: evaluates_def)
  from compareCells_total[OF c(2,5)] assms(3) c(3,6) obtain k where k: "compareCells lc rc = Inr k" by auto
  note cmp = compareCells_less[OF c(2,5) k]
  show ?thesis using assms(4) c k cmp by (cases "k = 0") (auto simp: tuple_evaluates_def split: if_splits)
qed

lemma same_kind_refl [simp]: "same_kind v v"
  by (cases v) auto

lemma gives_eval:
  assumes "row_ok s row"
  shows "gives s row n e v \<Longrightarrow> expr_ok e \<Longrightarrow> d \<le> maxExprDepth \<Longrightarrow> n = maxExprDepth - d \<Longrightarrow> evaluates s row d e v"
    and "tuple_gives s row n ls rs us ws \<Longrightarrow> list_all expr_ok ls \<Longrightarrow> list_all expr_ok rs \<Longrightarrow> d \<le> maxExprDepth \<Longrightarrow>
      n = maxExprDepth - d \<Longrightarrow> tuple_evaluates s row d ls rs us ws"
proof (induction arbitrary: d and d rule: gives_tuple_gives.inducts)
  case (g_name i name n)
  then have "column_index s name = Some i" by (simp add: column_index_first)
  then show ?case using g_name row_ok_length[OF assms] row_ok_nth[OF assms, of i] by (simp add: evaluates_def cell_ok_def)
next
  case (g_or n l a r b)
  then have "evaluates s row (Suc d) l (VI a)" "evaluates s row (Suc d) r (VI b)" by auto
  then show ?case using evaluates_bin(6) g_or.prems by simp
next
  case (g_tuple op n ls rs us ws)
  then have "tuple_evaluates s row d ls rs us ws" by simp
  then show ?case using g_tuple.hyps(1) g_tuple.prems cmpResult_comparison[OF g_tuple.hyps(1)]
    by (auto simp: tuple_evaluates_def evaluates_def comparisons_iff)
next
  case (t_nil n)
  then show ?case by (simp add: tuple_evaluates_def)
next
  case (t_differ n l v r w ls rs)
  then have "evaluates s row (Suc d) l v" "evaluates s row (Suc d) r w" by auto
  then show ?case using tuple_evaluates_Cons[of s row d l v r w ls rs "[]" "[]"] t_differ by simp
next
  case (t_equal n l v r ls rs us ws)
  then have "evaluates s row (Suc d) l v" "evaluates s row (Suc d) r v" "tuple_evaluates s row d ls rs us ws" by auto
  then show ?case using tuple_evaluates_Cons[of s row d l v r v ls rs us ws] by simp
qed (auto intro!: evaluates_un evaluates_bin evaluates_concat evaluates_cmp simp: evaluates_def[of _ _ _ "ECell _"])

section \<open>Properties\<close>

text \<open>
  C22: on every row of a schema, \<open>evalExpr\<close> returns a well-formed cell exactly when the
  semantics gives its value with at most \<open>maxExprDepth\<close> levels of operators: integer arithmetic
  modulo two's complement, division towards zero by a divisor other than zero, concatenation within
  the entry size, logic on integers, comparison of two integers or two strings, and comparison of two
  tuples of one length by the first pair of components that differ.  Everything else (an unknown
  column, operands of different kinds, a tuple as a value, a deeper tree) is an error.
\<close>

theorem evalExpr_meaning:
  assumes "row_ok s row" and "expr_ok e"
  shows "evalExpr s row e = Inr c \<longleftrightarrow> cell_wf c \<and> gives s row maxExprDepth e (cval c)"
proof
  assume "evalExpr s row e = Inr c"
  then show "cell_wf c \<and> gives s row maxExprDepth e (cval c)"
    using eval_gives(1)[OF assms(1)] assms(2) by (fastforce simp: evalExpr_def)
next
  assume c: "cell_wf c \<and> gives s row maxExprDepth e (cval c)"
  then have "evaluates s row 0 e (cval c)" using gives_eval(1)[OF assms(1) _ assms(2), of maxExprDepth "cval c" 0] by simp
  then show "evalExpr s row e = Inr c" using c cval_inject by (auto simp: evaluates_def evalExpr_def)
qed

definition demo_expr :: expr where
  "demo_expr = EBinOp OP_AND (EBinOp OP_LT (ETuple [EName [98], EName [97]]) (ETuple [ECell (cell_str [121]), ECell (cell_int 0)]))
     (EBinOp OP_EQ (EBinOp OP_MUL (EName [97]) (ECell (cell_int 2))) (ECell (cell_int 10)))"

theorem evalExpr_meaning_witness:
  "evalExpr demo_schema demo_row demo_expr = Inr (cell_int 1) \<and> gives demo_schema demo_row maxExprDepth demo_expr (VI 1)"
proof -
  have e: "evalExpr demo_schema demo_row demo_expr = Inr (cell_int 1)"
    by (simp add: demo_expr_def demo_schema_def demo_row_def isCmpOp_def column_index_def go_index_def compareCells_def
        binop_cells_def bytes_Compare_def cmp_int_def boolCell_def evalExpr_def maxExprDepth_def)
  have "expr_ok demo_expr" by (simp add: demo_expr_def)
  from evalExpr_meaning[OF demo_schema_ok(2) this, of "cell_int 1"] e show ?thesis by simp
qed

end
