(* ===== verification/Command.thy ===== *)
theory Command
  imports StmtOk
begin

text \<open>
  The commands replicated through Raft (cluster/command.go): the binary encoding with its limits, the
  decoder of the JSON form of older releases, and that a decoded command is the one that was encoded.
\<close>

section \<open>Commands\<close>

type_synonym Op = bytes

definition OpPut :: Op where "OpPut = str_bytes ''put''"
definition OpDel :: Op where "OpDel = str_bytes ''del''"
definition OpBatch :: Op where "OpBatch = str_bytes ''batch''"

definition commandMagic :: byte where "commandMagic = 0xC1"
definition CommandVersion :: byte where "CommandVersion = 1"
definition opCodePut :: byte where "opCodePut = 1"
definition opCodeDel :: byte where "opCodeDel = 2"
definition opCodeBatch :: byte where "opCodeBatch = 3"
definition legacyJSONPrefix :: byte where "legacyJSONPrefix = 123"

definition MaxKeyLen :: nat where "MaxKeyLen = 2 ^ 20"
definition MaxValueLen :: nat where "MaxValueLen = 64 * 2 ^ 20"
definition MaxBatchMutations :: nat where "MaxBatchMutations = 2 ^ 20"

datatype cmd_err =
    ErrEmptyCommand
  | ErrUnknownCommandFormat
  | ErrTrailingCommandBytes
  | ErrEmptyBatch
  | ErrUnsupportedCommandVersion
  | ErrUnknownCommandOp
  | CmdError string

record Mutation =
  mu_Op :: Op
  mu_Key :: bytes
  mu_Val :: bytes
  mu_Mode :: int

record Command =
  cm_Op :: Op
  cm_Key :: bytes
  cm_Val :: bytes
  cm_Mode :: int
  cm_Batch :: "Mutation list"

definition NewBatchCommand :: "Mutation list \<Rightarrow> Command" where
  "NewBatchCommand muts = \<lparr>cm_Op = OpBatch, cm_Key = [], cm_Val = [], cm_Mode = 0, cm_Batch = muts\<rparr>"

definition single :: "Command \<Rightarrow> Mutation" where
  "single c = \<lparr>mu_Op = cm_Op c, mu_Key = cm_Key c, mu_Val = cm_Val c, mu_Mode = cm_Mode c\<rparr>"

definition Mutations :: "Command \<Rightarrow> Mutation list" where
  "Mutations c = (if cm_Op c = OpBatch then cm_Batch c else [single c])"

definition opCode :: "Op \<Rightarrow> byte \<times> bool" where
  "opCode op = (if op = OpPut then (opCodePut, True) else if op = OpDel then (opCodeDel, True)
     else if op = OpBatch then (opCodeBatch, True) else (0, False))"

definition opFromCode :: "byte \<Rightarrow> Op \<times> bool" where
  "opFromCode code = (if code = opCodePut then (OpPut, True) else if code = opCodeDel then (OpDel, True)
     else if code = opCodeBatch then (OpBatch, True) else ([], False))"

section \<open>Encoding\<close>

fun uvarintLen :: "nat \<Rightarrow> nat" where
  "uvarintLen v = (if v < 128 then 1 else Suc (uvarintLen (v div 128)))"

declare uvarintLen.simps [simp del]

definition u64_of :: "int \<Rightarrow> u64" where "u64_of i = word_of_int i"

definition mutationSize :: "Mutation \<Rightarrow> nat" where
  "mutationSize m = 1 + uvarintLen (length (mu_Key m)) + length (mu_Key m) +
     (if mu_Op m = OpPut then uvarintLen (length (mu_Val m)) + length (mu_Val m) + uvarintLen (unat (u64_of (mu_Mode m))) else 0)"

definition appendMutation :: "bytes \<Rightarrow> Mutation \<Rightarrow> bytes" where
  "appendMutation buf m =
     (let buf = buf @ [fst (opCode (mu_Op m))];
          buf = AppendUvarint buf (word_of_nat (length (mu_Key m))) @ mu_Key m in
      if mu_Op m = OpPut then AppendUvarint (AppendUvarint buf (word_of_nat (length (mu_Val m))) @ mu_Val m) (u64_of (mu_Mode m)) else buf)"

definition validateMutation :: "Mutation \<Rightarrow> cmd_err + unit" where
  "validateMutation m =
     (if mu_Op m \<noteq> OpPut \<and> mu_Op m \<noteq> OpDel then Inl (CmdError ''unsupported mutation op'')
      else if MaxKeyLen < length (mu_Key m) then Inl (CmdError ''key exceeds limit'')
      else if MaxValueLen < length (mu_Val m) then Inl (CmdError ''value exceeds limit'')
      else if mu_Op m = OpDel \<and> 0 < length (mu_Val m) then Inl (CmdError ''delete mutation carries a value'')
      else if mu_Mode m < 0 then Inl (CmdError ''negative update mode'')
      else Inr ())"

fun validate_all :: "Mutation list \<Rightarrow> cmd_err + unit" where
  "validate_all [] = Inr ()"
| "validate_all (m # ms) = (case validateMutation m of Inl e \<Rightarrow> Inl e | Inr _ \<Rightarrow> validate_all ms)"

definition EncodeCommand :: "Command \<Rightarrow> cmd_err + bytes" where
  "EncodeCommand cmd =
     (case opCode (cm_Op cmd) of (code, ok) \<Rightarrow>
      if \<not> ok then Inl (CmdError ''unsupported command op'')
      else if cm_Op cmd \<noteq> OpBatch then
        (let m = single cmd in
         case validateMutation m of Inl e \<Rightarrow> Inl e | Inr _ \<Rightarrow> Inr (appendMutation [commandMagic, CommandVersion] m))
      else if cm_Batch cmd = [] then Inl ErrEmptyBatch
      else if MaxBatchMutations < length (cm_Batch cmd) then Inl (CmdError ''batch exceeds limit'')
      else (case validate_all (cm_Batch cmd) of Inl e \<Rightarrow> Inl e
        | Inr _ \<Rightarrow> Inr (foldl appendMutation (AppendUvarint [commandMagic, CommandVersion, code] (word_of_nat (length (cm_Batch cmd)))) (cm_Batch cmd))))"

section \<open>Decoding\<close>

definition decodeBytes :: "bytes \<Rightarrow> nat \<Rightarrow> cmd_err + bytes \<times> bytes" where
  "decodeBytes buf limit =
     (case Uvarint buf of (n, read) \<Rightarrow>
      if read \<le> 0 then Inl (CmdError ''bad length'')
      else if limit < unat n then Inl (CmdError ''length exceeds limit'')
      else let buf = drop (nat read) buf in
        if length buf < unat n then Inl (CmdError ''truncated'')
        else Inr (take (unat n) buf, drop (unat n) buf))"

definition decodeMutationBody :: "Op \<Rightarrow> bytes \<Rightarrow> cmd_err + Mutation \<times> bytes" where
  "decodeMutationBody op buf =
     (case decodeBytes buf MaxKeyLen of Inl e \<Rightarrow> Inl e
      | Inr (key, buf) \<Rightarrow>
        let m = \<lparr>mu_Op = op, mu_Key = key, mu_Val = [], mu_Mode = 0\<rparr> in
        if op \<noteq> OpPut then Inr (m, buf)
        else (case decodeBytes buf MaxValueLen of Inl e \<Rightarrow> Inl e
          | Inr (val, buf) \<Rightarrow> (case Uvarint buf of (mode, n) \<Rightarrow>
              if n \<le> 0 then Inl (CmdError ''bad update mode'')
              else if 2 ^ 32 \<le> unat mode then Inl (CmdError ''absurd update mode'')
              else Inr (m\<lparr>mu_Val := val, mu_Mode := uint mode\<rparr>, drop (nat n) buf))))"

fun decode_batch :: "nat \<Rightarrow> bytes \<Rightarrow> Mutation list \<Rightarrow> cmd_err + Mutation list \<times> bytes" where
  "decode_batch 0 rest batch = Inr (batch, rest)"
| "decode_batch (Suc count) rest batch =
     (case rest of [] \<Rightarrow> Inl (CmdError ''truncated batch'')
      | c # rest \<Rightarrow> (case opFromCode c of (mop, ok) \<Rightarrow>
          if \<not> ok \<or> mop = OpBatch then Inl (CmdError ''bad mutation opcode'')
          else (case decodeMutationBody mop rest of Inl e \<Rightarrow> Inl e | Inr (m, rest) \<Rightarrow> decode_batch count rest (batch @ [m]))))"

definition decodeBinary :: "bytes \<Rightarrow> cmd_err + Command" where
  "decodeBinary data =
     (if length data < 3 then Inl (CmdError ''truncated command header'')
      else if data ! 1 \<noteq> CommandVersion then Inl ErrUnsupportedCommandVersion
      else (case opFromCode (data ! 2) of (op, ok) \<Rightarrow>
        if \<not> ok then Inl ErrUnknownCommandOp
        else let rest = drop 3 data in
          if op \<noteq> OpBatch then
            (case decodeMutationBody op rest of Inl e \<Rightarrow> Inl e
             | Inr (m, rest) \<Rightarrow> if rest \<noteq> [] then Inl ErrTrailingCommandBytes
                 else Inr \<lparr>cm_Op = mu_Op m, cm_Key = mu_Key m, cm_Val = mu_Val m, cm_Mode = mu_Mode m, cm_Batch = []\<rparr>)
          else (case Uvarint rest of (count, n) \<Rightarrow>
            if n \<le> 0 then Inl (CmdError ''bad batch count'')
            else if MaxBatchMutations < unat count then Inl (CmdError ''batch count exceeds limit'')
            else (case decode_batch (unat count) (drop (nat n) rest) [] of Inl e \<Rightarrow> Inl e
              | Inr (batch, rest) \<Rightarrow> if rest \<noteq> [] then Inl ErrTrailingCommandBytes else Inr (NewBatchCommand batch)))))"

text \<open>The standard base64 alphabet and decoder, which skips line breaks.\<close>

definition base64_val :: "byte \<Rightarrow> nat option" where
  "base64_val c = (let n = unat c in
     if 65 \<le> n \<and> n \<le> 90 then Some (n - 65) else if 97 \<le> n \<and> n \<le> 122 then Some (n - 71)
     else if 48 \<le> n \<and> n \<le> 57 then Some (n + 4) else if n = 43 then Some 62 else if n = 47 then Some 63 else None)"

fun base64_quads :: "bytes \<Rightarrow> bytes option" where
  "base64_quads [] = Some []"
| "base64_quads (a # b # c # d # rest) =
     Option.bind (base64_val a) (\<lambda>a. Option.bind (base64_val b) (\<lambda>b.
       let x = word_of_nat (a * 4 + b div 16) in
       if c = 61 then (if d = 61 \<and> rest = [] then Some [x] else None)
       else Option.bind (base64_val c) (\<lambda>c.
         let y = word_of_nat (b mod 16 * 16 + c div 4) in
         if d = 61 then (if rest = [] then Some [x, y] else None)
         else Option.bind (base64_val d) (\<lambda>d. map_option (\<lambda>bs. x # y # word_of_nat (c mod 4 * 64 + d) # bs) (base64_quads rest)))))"
| "base64_quads _ = None"

definition decode_bytes :: "bytes \<Rightarrow> json \<Rightarrow> bytes res" where
  "decode_bytes old v = (case v of
     JNull \<Rightarrow> Inr []
   | JStr s \<Rightarrow> (case base64_quads (filter (\<lambda>c. c \<noteq> 10 \<and> c \<noteq> 13) s) of None \<Rightarrow> Inl (Error ''illegal base64 data'') | Some b \<Rightarrow> Inr b)
   | JArr vs \<Rightarrow> rbind (decode_slice decode_uint8 0 (old, length old) v) (\<lambda>sl. Inr (slice_list sl))
   | _ \<Rightarrow> Inl json_type_error)"

definition mutation_fields :: "string list" where "mutation_fields = [''op'', ''key'', ''val'', ''mode'']"
definition command_fields :: "string list" where "command_fields = mutation_fields @ [''batch'']"

definition decode_mutation :: "Mutation \<Rightarrow> json \<Rightarrow> Mutation res" where
  "decode_mutation = decode_struct (\<lambda>m (k, v).
     if field_matches mutation_fields ''op'' k then rbind (decode_string (mu_Op m) v) (\<lambda>x. Inr (m\<lparr>mu_Op := x\<rparr>))
     else if field_matches mutation_fields ''key'' k then rbind (decode_bytes (mu_Key m) v) (\<lambda>x. Inr (m\<lparr>mu_Key := x\<rparr>))
     else if field_matches mutation_fields ''val'' k then rbind (decode_bytes (mu_Val m) v) (\<lambda>x. Inr (m\<lparr>mu_Val := x\<rparr>))
     else if field_matches mutation_fields ''mode'' k then rbind (decode_int (mu_Mode m) v) (\<lambda>x. Inr (m\<lparr>mu_Mode := x\<rparr>))
     else Inr m)"

text \<open>A command under construction: the flat fields as a mutation, and the batch as a slice.\<close>

definition decode_command :: "Mutation \<times> Mutation slice \<Rightarrow> json \<Rightarrow> (Mutation \<times> Mutation slice) res" where
  "decode_command = decode_struct (\<lambda>(m, batch) (k, v).
     if field_matches command_fields ''batch'' k then
       rbind (decode_slice decode_mutation \<lparr>mu_Op = [], mu_Key = [], mu_Val = [], mu_Mode = 0\<rparr> batch v) (\<lambda>x. Inr (m, x))
     else rbind (decode_mutation m (JObj [(k, v)])) (\<lambda>x. Inr (x, batch)))"

definition decodeLegacyJSON :: "bytes \<Rightarrow> cmd_err + Command" where
  "decodeLegacyJSON data =
     (case rbind (json_parse data) (decode_command (\<lparr>mu_Op = [], mu_Key = [], mu_Val = [], mu_Mode = 0\<rparr>, ([], 0))) of
        Inl _ \<Rightarrow> Inl (CmdError ''decode legacy command'')
      | Inr (m, batch) \<Rightarrow>
          if \<not> snd (opCode (mu_Op m)) then Inl ErrUnknownCommandOp
          else Inr \<lparr>cm_Op = mu_Op m, cm_Key = mu_Key m, cm_Val = mu_Val m, cm_Mode = mu_Mode m, cm_Batch = slice_list batch\<rparr>)"

definition DecodeCommand :: "bytes \<Rightarrow> cmd_err + Command" where
  "DecodeCommand data =
     (case data of [] \<Rightarrow> Inl ErrEmptyCommand
      | c # _ \<Rightarrow> if c = legacyJSONPrefix then decodeLegacyJSON data
          else if c = commandMagic then decodeBinary data
          else Inl ErrUnknownCommandFormat)"

section \<open>The decoder inverts the encoder\<close>

lemma op_consts [simp]: "OpPut \<noteq> OpDel" "OpPut \<noteq> OpBatch" "OpDel \<noteq> OpBatch" "OpDel \<noteq> OpPut" "OpBatch \<noteq> OpPut" "OpBatch \<noteq> OpDel"
  by (simp_all add: OpPut_def OpDel_def OpBatch_def str_bytes_def)

lemma op_codes [simp]:
  "opFromCode (fst (opCode OpPut)) = (OpPut, True)" "opFromCode (fst (opCode OpDel)) = (OpDel, True)" "opFromCode opCodeBatch = (OpBatch, True)"
  by (simp_all add: opFromCode_def opCode_def opCodePut_def opCodeDel_def opCodeBatch_def)

lemma uvarintLen_length: "uvarintLen n = length (uvarint n)"
  by (induction n rule: uvarintLen.induct) (subst uvarintLen.simps, subst uvarint.simps, simp)

text \<open>The bytes of a mutation, whatever they are appended to.\<close>

definition mutation_bytes :: "Mutation \<Rightarrow> bytes" where
  "mutation_bytes m = appendMutation [] m"

lemma appendMutation_eq: "appendMutation buf m = buf @ mutation_bytes m"
  by (simp add: mutation_bytes_def appendMutation_def AppendUvarint_def Let_def)

lemma foldl_appendMutation: "foldl appendMutation buf ms = buf @ concat (map mutation_bytes ms)"
  by (induction ms arbitrary: buf) (simp_all add: appendMutation_eq)

lemma unat_of_nat_u64: "n < 2 ^ 64 \<Longrightarrow> unat (word_of_nat n :: u64) = n"
  by (simp add: unat_of_nat take_bit_nat_eq_self)

lemma mutationSize_length:
  assumes "length (mu_Key m) \<le> MaxKeyLen" and "length (mu_Val m) \<le> MaxValueLen"
  shows "length (mutation_bytes m) = mutationSize m"
  using assms by (simp add: mutation_bytes_def appendMutation_def mutationSize_def AppendUvarint_def Let_def uvarintLen_length
      unat_of_nat_u64 MaxKeyLen_def MaxValueLen_def)

lemma decodeBytes_ok:
  "length bs \<le> limit \<Longrightarrow> length bs < 2 ^ 64 \<Longrightarrow>
   decodeBytes (uvarint (unat (word_of_nat (length bs) :: u64)) @ bs @ rest) limit = Inr (bs, rest)"
  by (simp only: decodeBytes_def Uvarint_AppendUvarint prod.case) (simp add: unat_of_nat_u64 Let_def)

text \<open>What the wire keeps of a mutation: the mode of a deletion is not written.\<close>

definition wire_mutation :: "Mutation \<Rightarrow> Mutation" where
  "wire_mutation m = (if mu_Op m = OpPut then m else m\<lparr>mu_Mode := 0\<rparr>)"

definition absurd :: "Mutation \<Rightarrow> bool" where
  "absurd m \<longleftrightarrow> mu_Op m = OpPut \<and> 2 ^ 32 \<le> mu_Mode m"

lemma decodeMutationBody_ok:
  assumes v: "validateMutation m = Inr ()" and mode: "mu_Mode m < 2 ^ 63"
  shows "mu_Op m = OpPut \<or> mu_Op m = OpDel" and "hd (mutation_bytes m) = fst (opCode (mu_Op m))" and "mutation_bytes m \<noteq> []"
    and "decodeMutationBody (mu_Op m) (tl (mutation_bytes m) @ rest) =
      (if absurd m then Inl (CmdError ''absurd update mode'') else Inr (wire_mutation m, rest))"
proof -
  have l: "length (mu_Key m) \<le> MaxKeyLen" "length (mu_Val m) \<le> MaxValueLen" "0 \<le> mu_Mode m" "mu_Op m = OpDel \<Longrightarrow> mu_Val m = []"
    and op: "mu_Op m = OpPut \<or> mu_Op m = OpDel"
    using v by (auto simp: validateMutation_def split: if_splits)
  have lt: "length (mu_Key m) < 2 ^ 64" "length (mu_Val m) < 2 ^ 64" using l by (simp_all add: MaxKeyLen_def MaxValueLen_def)
  show "mu_Op m = OpPut \<or> mu_Op m = OpDel" by (fact op)
  show "hd (mutation_bytes m) = fst (opCode (mu_Op m))" "mutation_bytes m \<noteq> []"
    by (simp_all add: mutation_bytes_def appendMutation_def AppendUvarint_def Let_def)
  have u: "uint (u64_of (mu_Mode m)) = mu_Mode m" using l(3) mode by (simp add: u64_of_def uint_word_of_int)
  then have n: "2 ^ 32 \<le> unat (u64_of (mu_Mode m)) \<longleftrightarrow> 2 ^ 32 \<le> mu_Mode m" using l(3) by (simp add: unat_eq_nat_uint le_nat_iff)
  show "decodeMutationBody (mu_Op m) (tl (mutation_bytes m) @ rest) =
      (if absurd m then Inl (CmdError ''absurd update mode'') else Inr (wire_mutation m, rest))"
    using op l(4) u n by (auto simp: mutation_bytes_def appendMutation_def AppendUvarint_def Let_def decodeMutationBody_def
        decodeBytes_ok[OF l(1) lt(1)] decodeBytes_ok[OF l(2) lt(2)] Uvarint_AppendUvarint absurd_def wire_mutation_def)
qed

lemma decode_batch_ok:
  assumes "validate_all ms = Inr ()" and "\<forall>m\<in>set ms. mu_Mode m < 2 ^ 63"
  shows "decode_batch (length ms) (concat (map mutation_bytes ms)) acc =
    (if \<exists>m\<in>set ms. absurd m then Inl (CmdError ''absurd update mode'') else Inr (acc @ map wire_mutation ms, []))"
  using assms
proof (induction ms arbitrary: acc)
  case (Cons m ms)
  have v: "validateMutation m = Inr ()" "validate_all ms = Inr ()" using Cons.prems(1) by (auto split: sum.splits)
  note b = decodeMutationBody_ok[OF v(1)]
  have mb: "mutation_bytes m = fst (opCode (mu_Op m)) # tl (mutation_bytes m)" using b(2,3) Cons.prems(2) by (metis list.collapse list.set_intros(1))
  show ?case using b(1,4) Cons.IH[OF v(2)] Cons.prems(2) by (subst mb[THEN arg_cong[where f = "\<lambda>x. concat (x # map mutation_bytes ms)"], simplified list.map[symmetric]]) auto
qed simp

definition wire_command :: "Command \<Rightarrow> Command" where
  "wire_command c = (if cm_Op c = OpBatch then NewBatchCommand (map wire_mutation (cm_Batch c))
     else c\<lparr>cm_Mode := (if cm_Op c = OpPut then cm_Mode c else 0), cm_Batch := []\<rparr>)"

lemma decode_encode:
  assumes e: "EncodeCommand cmd = Inr data" and mode: "\<forall>m\<in>set (Mutations cmd). mu_Mode m < 2 ^ 63"
  shows "DecodeCommand data = (if \<exists>m\<in>set (Mutations cmd). absurd m then Inl (CmdError ''absurd update mode'') else Inr (wire_command cmd))"
proof (cases "cm_Op cmd = OpBatch")
  case True
  then have v: "validate_all (cm_Batch cmd) = Inr ()" and l: "length (cm_Batch cmd) \<le> MaxBatchMutations"
    and d: "data = [commandMagic, CommandVersion, opCodeBatch] @ uvarint (unat (word_of_nat (length (cm_Batch cmd)) :: u64)) @ concat (map mutation_bytes (cm_Batch cmd))"
    using e by (auto simp: EncodeCommand_def opCode_def foldl_appendMutation AppendUvarint_def split: if_splits sum.splits)
  have n: "unat (word_of_nat (length (cm_Batch cmd)) :: u64) = length (cm_Batch cmd)" using l by (simp add: unat_of_nat_u64 MaxBatchMutations_def)
  have "DecodeCommand data = decodeBinary data" by (simp add: DecodeCommand_def d commandMagic_def legacyJSONPrefix_def)
  also have "\<dots> = (case decode_batch (length (cm_Batch cmd)) (concat (map mutation_bytes (cm_Batch cmd))) [] of Inl e \<Rightarrow> Inl e
      | Inr (batch, rest) \<Rightarrow> if rest \<noteq> [] then Inl ErrTrailingCommandBytes else Inr (NewBatchCommand batch))"
    using l n Uvarint_AppendUvarint[of "word_of_nat (length (cm_Batch cmd))" "concat (map mutation_bytes (cm_Batch cmd))"]
    by (simp add: decodeBinary_def d Let_def)
  finally show ?thesis using decode_batch_ok[OF v] mode True by (auto simp: Mutations_def wire_command_def)
next
  case False
  then have v: "validateMutation (single cmd) = Inr ()" and d: "data = [commandMagic, CommandVersion] @ mutation_bytes (single cmd)"
    using e by (auto simp: EncodeCommand_def appendMutation_eq Let_def split: if_splits sum.splits prod.splits)
  have m: "mu_Mode (single cmd) < 2 ^ 63" using mode False by (simp add: Mutations_def)
  note b = decodeMutationBody_ok[OF v m]
  have op: "opFromCode (fst (opCode (cm_Op cmd))) = (cm_Op cmd, True)" using b(1) by (auto simp: single_def)
  obtain rest where mb: "mutation_bytes (single cmd) = fst (opCode (cm_Op cmd)) # rest" using b(2,3) by (cases "mutation_bytes (single cmd)") (auto simp: single_def)
  have "rest \<noteq> []" using mb by (auto simp: mutation_bytes_def appendMutation_def AppendUvarint_def Let_def split: if_splits)
  then have len: "\<not> length data < 3" "data ! 1 = CommandVersion" "data ! 2 = fst (opCode (cm_Op cmd))" "drop 3 data = rest" by (auto simp: d mb numeral_3_eq_3)
  have "DecodeCommand data = decodeBinary data" by (simp add: DecodeCommand_def d commandMagic_def legacyJSONPrefix_def)
  also have "\<dots> = (if absurd (single cmd) then Inl (CmdError ''absurd update mode'') else Inr (wire_command cmd))"
    using len op False b(4)[of "[]"] mb by (simp add: decodeBinary_def Let_def) (auto simp: single_def wire_mutation_def wire_command_def)
  finally show ?thesis using False by (simp add: Mutations_def)
qed

text \<open>
  C35: a command that is encoded is decoded by every replica to what the wire keeps of
  it, with the same operations, keys and values.  The one exception is an update mode of \<open>2^32\<close> or
  more, which \<open>EncodeCommand\<close> accepts and \<open>DecodeCommand\<close> refuses.
\<close>

theorem command_roundtrip:
  assumes "EncodeCommand cmd = Inr data" and "\<forall>m\<in>set (Mutations cmd). mu_Mode m < 2 ^ 63"
  shows "DecodeCommand data = (if \<exists>m\<in>set (Mutations cmd). absurd m then Inl (CmdError ''absurd update mode'') else Inr (wire_command cmd))"
  by (rule decode_encode[OF assms])

definition demo_command :: Command where
  "demo_command = NewBatchCommand [\<lparr>mu_Op = OpPut, mu_Key = [107], mu_Val = [1, 2], mu_Mode = 1\<rparr>, \<lparr>mu_Op = OpDel, mu_Key = [108], mu_Val = [], mu_Mode = 2\<rparr>]"

theorem command_roundtrip_witness:
  "\<exists>data. EncodeCommand demo_command = Inr data \<and> DecodeCommand data =
     Inr (NewBatchCommand [\<lparr>mu_Op = OpPut, mu_Key = [107], mu_Val = [1, 2], mu_Mode = 1\<rparr>, \<lparr>mu_Op = OpDel, mu_Key = [108], mu_Val = [], mu_Mode = 0\<rparr>])"
proof -
  have "EncodeCommand demo_command = Inr [0xC1, 1, 3, 2, 1, 1, 107, 2, 1, 2, 1, 2, 1, 108]"
    by (simp add: EncodeCommand_def demo_command_def NewBatchCommand_def opCode_def MaxBatchMutations_def validateMutation_def MaxKeyLen_def MaxValueLen_def
        appendMutation_def AppendUvarint_def uvarint.simps commandMagic_def CommandVersion_def opCodeBatch_def opCodePut_def opCodeDel_def u64_of_def)
  from command_roundtrip[OF this] show ?thesis
    using \<open>EncodeCommand demo_command = _\<close> by (simp add: demo_command_def Mutations_def NewBatchCommand_def absurd_def wire_command_def wire_mutation_def)
qed

end
