(* ===== verification/Fsm.thy ===== *)
theory Fsm
  imports Command
begin

text \<open>
  The replicated state machine (cluster/fsm.go): applying committed commands to the store.  A result is
  a function of the command and the contents, so replicas that apply the same log agree; anything else
  that can happen aborts the process, a panic of the model, with the contents of the last entry.
\<close>

section \<open>Applying a command\<close>

record FSMResult =
  fr_Updated :: bool
  fr_Err :: "string option"

record 'c FSM =
  fsm_store :: "'c KV"
  fsm_closed :: bool
  fsm_applied :: u64

definition fatal :: "string \<Rightarrow> err" where
  "fatal msg = Panic msg"

definition fatalUndecodable :: "cmd_err \<Rightarrow> err" where
  "fatalUndecodable e =
     (if e \<in> {ErrUnsupportedCommandVersion, ErrUnknownCommandOp, ErrUnknownCommandFormat} then fatal ''written by a newer PallasDB''
      else fatal ''decode raft entry'')"

definition updateMode :: "int \<Rightarrow> int option" where
  "updateMode mode = (if mode < ModeUpsert \<or> mode > ModeUpdate then None else Some mode)"

definition invalid_mode :: FSMResult where
  "invalid_mode = \<lparr>fr_Updated = False, fr_Err = Some ''invalid update mode''\<rparr>"

definition updated_result :: "bool \<Rightarrow> FSMResult" where
  "updated_result b = \<lparr>fr_Updated = b, fr_Err = None\<rparr>"

text \<open>A call of the store whose error aborts the process.\<close>

definition or_fatal :: "string \<Rightarrow> 'c KV \<times> bool res \<Rightarrow> 'c KV \<times> FSMResult res" where
  "or_fatal what m = (case m of (kv, Inl e) \<Rightarrow> (kv, Inl (fatal what)) | (kv, Inr b) \<Rightarrow> (kv, Inr (updated_result b)))"

text \<open>The mutations of a batch, in the transaction \<open>i\<close>; \<^const>\<open>None\<close> in the result is the rejected mode.\<close>

fun batch_muts :: "nat \<Rightarrow> Mutation list \<Rightarrow> bool \<Rightarrow> 'c KV \<Rightarrow> 'c KV \<times> bool option res" where
  "batch_muts i [] updated kv = (kv, Inr (Some updated))"
| "batch_muts i (m # ms) updated kv =
     (if mu_Op m = OpPut then
        (case updateMode (mu_Mode m) of
           None \<Rightarrow> sbind (KVTX_Abort i kv) (\<lambda>kv _. (kv, Inr None))
         | Some mode \<Rightarrow> (case KVTX_SetEx i (mu_Key m) (mu_Val m) mode kv of
             (kv, Inl e) \<Rightarrow> sbind (KVTX_Abort i kv) (\<lambda>kv _. (kv, Inl (fatal ''batch mutation: put'')))
           | (kv, Inr u) \<Rightarrow> batch_muts i ms (updated \<or> u) kv))
      else if mu_Op m = OpDel then
        (case KVTX_Del i (mu_Key m) kv of
           (kv, Inl e) \<Rightarrow> sbind (KVTX_Abort i kv) (\<lambda>kv _. (kv, Inl (fatal ''batch mutation: delete'')))
         | (kv, Inr d) \<Rightarrow> batch_muts i ms (updated \<or> d) kv)
      else sbind (KVTX_Abort i kv) (\<lambda>kv _. (kv, Inl (fatal ''batch mutation: unknown op''))))"

definition applyBatch :: "'c cacheLib \<Rightarrow> Mutation list \<Rightarrow> 'c KV \<Rightarrow> 'c KV \<times> FSMResult res" where
  "applyBatch cl muts kv =
     (case KV_NewTX kv of (kv, i) \<Rightarrow>
      sbind (batch_muts i muts False kv) (\<lambda>kv r. case r of
        None \<Rightarrow> (kv, Inr invalid_mode)
      | Some updated \<Rightarrow> (case KVTX_Commit cl i kv of
          (kv, Inl e) \<Rightarrow> (kv, Inl (fatal ''commit batch''))
        | (kv, Inr _) \<Rightarrow> (kv, Inr (updated_result updated)))))"

definition applyCommand :: "'c cacheLib \<Rightarrow> Command \<Rightarrow> 'c FSM \<Rightarrow> 'c FSM \<times> FSMResult res" where
  "applyCommand cl cmd f =
     (if fsm_closed f then (f, Inl (fatal ''applied to a closed FSM''))
      else case
       (if cm_Op cmd = OpPut then
          (case updateMode (cm_Mode cmd) of None \<Rightarrow> (fsm_store f, Inr invalid_mode)
           | Some mode \<Rightarrow> or_fatal ''put'' (KV_SetEx cl (cm_Key cmd) (cm_Val cmd) mode (fsm_store f)))
        else if cm_Op cmd = OpDel then or_fatal ''delete'' (KV_Del cl (cm_Key cmd) (fsm_store f))
        else if cm_Op cmd = OpBatch then applyBatch cl (cm_Batch cmd) (fsm_store f)
        else (fsm_store f, Inl (fatalUndecodable ErrUnknownCommandOp))) of
       (kv, r) \<Rightarrow> (f\<lparr>fsm_store := kv\<rparr>, r))"

text \<open>The index never moves backwards.\<close>

definition advanceApplied :: "u64 \<Rightarrow> 'c FSM \<Rightarrow> 'c FSM" where
  "advanceApplied idx f = (if idx \<le> fsm_applied f then f else f\<lparr>fsm_applied := idx\<rparr>)"

definition ObserveAppliedIndex :: "u64 \<Rightarrow> 'c FSM \<Rightarrow> 'c FSM" where
  "ObserveAppliedIndex = advanceApplied"

definition StoreConfiguration :: "u64 \<Rightarrow> 'c FSM \<Rightarrow> 'c FSM" where
  "StoreConfiguration index f = advanceApplied index f"

record raft_Log =
  rl_Index :: u64
  rl_Data :: bytes

definition FSM_Apply :: "'c cacheLib \<Rightarrow> raft_Log \<Rightarrow> 'c FSM \<Rightarrow> 'c FSM \<times> FSMResult res" where
  "FSM_Apply cl log f =
     (case DecodeCommand (rl_Data log) of Inl e \<Rightarrow> (f, Inl (fatalUndecodable e))
      | Inr cmd \<Rightarrow> sbind (applyCommand cl cmd f) (\<lambda>f res. (advanceApplied (rl_Index log) f, Inr res)))"

text \<open>The entries of a log in order, until one aborts the process.\<close>

fun apply_log :: "'c cacheLib \<Rightarrow> raft_Log list \<Rightarrow> 'c FSM \<Rightarrow> 'c FSM \<times> FSMResult list res" where
  "apply_log cl [] f = (f, Inr [])"
| "apply_log cl (l # ls) f = sbind (FSM_Apply cl l f) (\<lambda>f r. sbind (apply_log cl ls f) (\<lambda>f rs. (f, Inr (r # rs))))"

definition FSM_Get :: "'c cacheLib \<Rightarrow> bytes \<Rightarrow> 'c FSM \<Rightarrow> 'c FSM \<times> bytes option res" where
  "FSM_Get cl key f = (if fsm_closed f then (f, Inl (Error ''FSM is closed''))
     else case KV_Get cl key (fsm_store f) of (kv, r) \<Rightarrow> (f\<lparr>fsm_store := kv\<rparr>, r))"

section \<open>The state machine\<close>

text \<open>What a mutation does to the contents: \<^const>\<open>None\<close> when its mode is rejected.\<close>

definition mut_effect :: "Mutation \<Rightarrow> (bytes \<rightharpoonup> bytes) \<Rightarrow> (bool \<times> (bytes \<rightharpoonup> bytes)) option" where
  "mut_effect m c =
     (if mu_Op m = OpPut then
        (if mu_Mode m \<in> {1, 2, 3} then
           let b = (case c (mu_Key m) of None \<Rightarrow> mu_Mode m \<noteq> 3 | Some old \<Rightarrow> mu_Mode m \<noteq> 2 \<and> old \<noteq> mu_Val m) in
           Some (b, if b then c(mu_Key m \<mapsto> mu_Val m) else c)
         else None)
      else Some (mu_Key m \<in> dom c, c(mu_Key m := None)))"

fun muts_effect :: "Mutation list \<Rightarrow> bool \<Rightarrow> (bytes \<rightharpoonup> bytes) \<Rightarrow> (bool \<times> (bytes \<rightharpoonup> bytes)) option" where
  "muts_effect [] u c = Some (u, c)"
| "muts_effect (m # ms) u c = (case mut_effect m c of None \<Rightarrow> None | Some (b, c) \<Rightarrow> muts_effect ms (u \<or> b) c)"

definition step_of :: "Mutation list \<Rightarrow> (bytes \<rightharpoonup> bytes) \<Rightarrow> FSMResult \<times> (bytes \<rightharpoonup> bytes)" where
  "step_of muts c = (case muts_effect muts False c of None \<Rightarrow> (invalid_mode, c) | Some (b, c) \<Rightarrow> (updated_result b, c))"

text \<open>The results and the contents after the commands of a log, all of which decode.\<close>

fun sm_log :: "raft_Log list \<Rightarrow> (bytes \<rightharpoonup> bytes) \<Rightarrow> FSMResult list \<times> (bytes \<rightharpoonup> bytes)" where
  "sm_log [] c = ([], c)"
| "sm_log (l # ls) c = (case DecodeCommand (rl_Data l) of Inl _ \<Rightarrow> ([], c)
     | Inr cmd \<Rightarrow> (case step_of (Mutations cmd) c of (r, c) \<Rightarrow> (case sm_log ls c of (rs, c) \<Rightarrow> (r # rs, c))))"

text \<open>The sizes the log takes, and the operations a mutation can have.\<close>

definition mut_fits :: "Mutation \<Rightarrow> bool" where
  "mut_fits m \<longleftrightarrow> length (mu_Key m) + length (mu_Val m) \<le> MaxEntrySize"

definition known_op :: "Mutation \<Rightarrow> bool" where
  "known_op m \<longleftrightarrow> mu_Op m = OpPut \<or> mu_Op m = OpDel"

section \<open>Transactions of a command\<close>

text \<open>A transaction that has just begun on an open store and written some of its mutations.\<close>

definition tx_fits :: "'c KV \<Rightarrow> nat \<Rightarrow> bool" where
  "tx_fits kv i \<longleftrightarrow> (\<forall>k v d. arr_map (tx_updates (tx_of kv i)) k = Some (v, d) \<longrightarrow> length k + length v \<le> MaxEntrySize)"

lemma tx_fits_entries:
  assumes "arr_wf (tx_updates (tx_of kv i))" and "tx_fits kv i"
  shows "list_all entry_fits (map entry_of (arr_entries (tx_updates (tx_of kv i))))"
proof -
  have "arr_map (tx_updates (tx_of kv i)) k = Some (v, d)" if "(k, v, d) \<in> set (arr_entries (tx_updates (tx_of kv i)))" for k v d
    using that ssorted_distinct[OF arr_entries_sorted[OF assms(1)]] by (simp add: arr_map_def)
  then show ?thesis using assms(2) by (auto simp: list_all_iff entry_of_def entry_fits_def tx_fits_def)
qed

lemma put_step:
  assumes inv: "store_inv k1 pend" "i \<in> set (kv_ongoing k1)" and w: "wrote k1 i UNIV k c"
  obtains k' where "KVTX_SetEx i key val mode k = (k', case mode_writes mode (c key) val of None \<Rightarrow> Inl (Error ''invalid update mode'') | Some b \<Rightarrow> Inr b)"
    "wrote k1 i UNIV k' (if mode_writes mode (c key) val = Some True then c(key \<mapsto> val) else c)"
    "tx_fits k i \<Longrightarrow> length key + length val \<le> MaxEntrySize \<Longrightarrow> tx_fits k' i"
proof -
  obtain k' where k: "KVTX_SetEx i key val mode k = (k', case mode_writes mode (c key) val of None \<Rightarrow> Inl (Error ''invalid update mode'') | Some b \<Rightarrow> Inr b)"
    "wrote k i {} k' (if mode_writes mode (c key) val = Some True then c(key \<mapsto> val) else c)" using sees_set[OF wrote_sees[OF w]] .
  obtain u where r: "store_inv k pend" "i \<in> set (kv_ongoing k)" using wrote_root[OF inv w] by metis
  have "tx_fits k' i" if f: "tx_fits k i" "length key + length val \<le> MaxEntrySize"
  proof (cases "mode_writes mode (c key) val")
    case None
    then show ?thesis using k(1) SetEx_step[OF sees_get[OF wrote_sees[OF w]], of key val mode] f by simp
  next
    case (Some b)
    from SetEx_cases[OF r, of key val mode k' b] k(1) Some
    have "if b then \<exists>u. arr_wf u \<and> arr_map u = (arr_map (tx_updates (tx_of k i)))(key \<mapsto> (val, False)) \<and> k' = with_updates i u k else k' = k" by simp
    then show ?thesis using f with_updates_inv(4)[OF r] by (auto simp: tx_fits_def split: if_splits)
  qed
  then show thesis using that k wrote_trans[OF w wrote_mono[OF k(2)]] by simp
qed

lemma del_step:
  assumes inv: "store_inv k1 pend" "i \<in> set (kv_ongoing k1)" and w: "wrote k1 i UNIV k c"
  obtains k' where "KVTX_Del i key k = (k', Inr (key \<in> dom c))" "wrote k1 i UNIV k' (c(key := None))"
    "tx_fits k i \<Longrightarrow> length key \<le> MaxEntrySize \<Longrightarrow> tx_fits k' i"
proof -
  obtain k' where k: "KVTX_Del i key k = (k', Inr (c key \<noteq> None))" "wrote k i {key} k' (c(key := None))" using sees_del[OF wrote_sees[OF w]] .
  obtain u where r: "store_inv k pend" "i \<in> set (kv_ongoing k)" using wrote_root[OF inv w] by metis
  have "tx_fits k' i" if f: "tx_fits k i" "length key \<le> MaxEntrySize"
    using Del_cases(2)[OF r k(1)] f with_updates_inv(4)[OF r] by (auto simp: tx_fits_def split: if_splits)
  then show thesis using that k wrote_trans[OF w wrote_mono[OF k(2)]] by (simp add: domIff)
qed

lemma updateMode_writes:
  "updateMode mode = None \<longleftrightarrow> mode \<notin> {1, 2, 3}" "updateMode mode = Some n \<Longrightarrow> n = mode"
  "mode \<in> {1, 2, 3} \<Longrightarrow> mode_writes mode old val = Some (case old of None \<Rightarrow> mode \<noteq> 3 | Some w \<Rightarrow> mode \<noteq> 2 \<and> w \<noteq> val)"
  by (auto simp: updateMode_def ModeUpsert_def ModeInsert_def ModeUpdate_def mode_writes_def split: option.splits if_splits)

text \<open>Where a list of mutations leaves the transaction.\<close>

definition same_store :: "'c KV \<Rightarrow> nat list \<Rightarrow> 'c KV \<Rightarrow> bool" where
  "same_store kv pend kv' \<longleftrightarrow> store_inv kv' pend \<and> kv_view kv' = kv_view kv \<and> kv_closed kv' = kv_closed kv \<and> kv_ongoing kv' = kv_ongoing kv"

lemma batch_muts_ok:
  assumes inv: "store_inv kv pend" and op: "\<not> kv_closed kv" and n: "KV_NewTX kv = (k1, i)" and w: "wrote k1 i UNIV k c"
    and b: "batch_muts i ms upd k = (k', r)"
  shows "case r of
      Inr (Some upd') \<Rightarrow> \<exists>c'. muts_effect ms upd c = Some (upd', c') \<and> wrote k1 i UNIV k' c' \<and> (tx_fits k i \<and> list_all mut_fits ms \<longrightarrow> tx_fits k' i)
    | Inr None \<Rightarrow> muts_effect ms upd c = None \<and> same_store kv pend k'
    | Inl e \<Rightarrow> is_panic e \<and> \<not> list_all known_op ms \<and> same_store kv pend k'"
  using w b
proof (induction ms arbitrary: k c upd)
  case Nil
  then show ?case by auto
next
  case (Cons m ms)
  note N = NewTX_ok[OF inv op n]
  have i1: "i \<in> set (kv_ongoing k1)" using N(9) by simp
  obtain ka where ab: "KVTX_Abort i k = (ka, Inr ())" "same_store kv pend ka" using root_abort[OF inv op n Cons.prems(1)] by (metis same_store_def)
  have step: ?case if "mut_effect m c = Some (b, c2)" "batch_muts i ms (upd \<or> b) k2 = (k', r)" "wrote k1 i UNIV k2 c2"
    "tx_fits k i \<and> mut_fits m \<longrightarrow> tx_fits k2 i" "known_op m" for b c2 k2
    using Cons.IH[OF that(3,2)] that by (auto split: sum.splits option.splits)
  consider (bad) "mu_Op m = OpPut" "mu_Mode m \<notin> {1, 2, 3}" | (put) "mu_Op m = OpPut" "mu_Mode m \<in> {1, 2, 3}" | (del) "mu_Op m = OpDel"
    | (other) "mu_Op m \<noteq> OpPut" "mu_Op m \<noteq> OpDel" by blast
  then show ?case
  proof cases
    case bad
    then have "updateMode (mu_Mode m) = None" using updateMode_writes(1) by blast
    then show ?thesis using Cons.prems(2) bad ab by (auto simp: mut_effect_def)
  next
    case put
    let ?b = "case c (mu_Key m) of None \<Rightarrow> mu_Mode m \<noteq> 3 | Some old \<Rightarrow> mu_Mode m \<noteq> 2 \<and> old \<noteq> mu_Val m"
    obtain k2 where k2: "KVTX_SetEx i (mu_Key m) (mu_Val m) (mu_Mode m) k = (k2, Inr ?b)"
      "wrote k1 i UNIV k2 (if ?b then c(mu_Key m \<mapsto> mu_Val m) else c)"
      "tx_fits k i \<Longrightarrow> length (mu_Key m) + length (mu_Val m) \<le> MaxEntrySize \<Longrightarrow> tx_fits k2 i"
      using put_step[OF N(2) i1 Cons.prems(1), of "mu_Key m" "mu_Val m" "mu_Mode m"] updateMode_writes(3)[OF put(2), of "c (mu_Key m)" "mu_Val m"] by auto
    have um: "updateMode (mu_Mode m) = Some (mu_Mode m)" using put(2) updateMode_writes(1,2) by (cases "updateMode (mu_Mode m)") blast+
    have e: "mut_effect m c = Some (?b, if ?b then c(mu_Key m \<mapsto> mu_Val m) else c)" using put by (simp add: mut_effect_def Let_def)
    have "batch_muts i ms (upd \<or> ?b) k2 = (k', r)" using Cons.prems(2) put(1) um k2(1) by simp
    then show ?thesis by (rule step[OF e _ k2(2)]) (use k2(3) put(1) in \<open>simp_all add: mut_fits_def known_op_def\<close>)
  next
    case del
    obtain k2 where k2: "KVTX_Del i (mu_Key m) k = (k2, Inr (mu_Key m \<in> dom c))" "wrote k1 i UNIV k2 (c(mu_Key m := None))"
      "tx_fits k i \<Longrightarrow> length (mu_Key m) \<le> MaxEntrySize \<Longrightarrow> tx_fits k2 i" using del_step[OF N(2) i1 Cons.prems(1)] by blast
    have e: "mut_effect m c = Some (mu_Key m \<in> dom c, c(mu_Key m := None))" using del by (simp add: mut_effect_def)
    have "batch_muts i ms (upd \<or> mu_Key m \<in> dom c) k2 = (k', r)" using Cons.prems(2) del k2(1) by simp
    then show ?thesis by (rule step[OF e _ k2(2)]) (use k2(3) del in \<open>simp_all add: mut_fits_def known_op_def\<close>)
  next
    case other
    then show ?thesis using Cons.prems(2) ab by (auto simp: fatal_def known_op_def)
  qed
qed

section \<open>One command\<close>

text \<open>What applying \<open>muts\<close> leaves: the result and the contents of the state machine, or a panic with the old contents.\<close>

definition outcome :: "Mutation list \<Rightarrow> 'c KV \<Rightarrow> nat list \<Rightarrow> 'c KV \<Rightarrow> FSMResult res \<Rightarrow> bool" where
  "outcome muts kv pend kv' r \<longleftrightarrow> store_inv kv' pend \<and> kv_closed kv' = kv_closed kv \<and> kv_ongoing kv' = kv_ongoing kv \<and>
     (case r of Inr res \<Rightarrow> (res, kv_view kv') = step_of muts (kv_view kv) | Inl e \<Rightarrow> is_panic e \<and> kv_view kv' = kv_view kv) \<and>
     (\<forall>f. history_ok kv \<and> l_fp (kv_log kv) = Some f \<and> f_faults f = [] \<and> list_all mut_fits muts \<and> list_all known_op muts \<longrightarrow> \<not> isl r)"

lemma commit_outcome:
  assumes inv: "store_inv kv pend" and op: "\<not> kv_closed kv" and n: "KV_NewTX kv = (k1, i)" and w: "wrote k1 i UNIV k c"
    and e: "muts_effect muts False (kv_view kv) = Some (b, c)" and f: "list_all mut_fits muts \<Longrightarrow> tx_fits k i"
    and c: "(case KVTX_Commit cl i k of (kv, Inl e) \<Rightarrow> (kv, Inl (fatal msg)) | (kv, Inr _) \<Rightarrow> (kv, Inr (updated_result b))) = (kv', r)"
  shows "outcome muts kv pend kv' r"
proof -
  obtain kv2 r2 where cm: "KVTX_Commit cl i k = (kv2, r2)" by fastforce
  note C = root_commit_ok[OF inv op n w cm]
  have "r2 = Inr ()" if "history_ok kv" "l_fp (kv_log kv) = Some fp" "f_faults fp = []" "list_all mut_fits muts" for fp
    using C(6)[OF that(1-3) tx_fits_entries[OF C(5) f[OF that(4)]]] .
  then show ?thesis unfolding outcome_def using c cm C(1-4) e by (auto simp: step_of_def fatal_def split: sum.splits)
qed

lemma new_tx_wrote:
  assumes "store_inv kv pend" and "\<not> kv_closed kv" and "KV_NewTX kv = (k1, i)"
  shows "wrote k1 i UNIV k1 (kv_view kv)" and "tx_fits k1 i"
proof -
  obtain tx where n: "DB_NewTX kv = (k1, tx)" "dtx_kv tx = i" using assms(3) by (simp add: DB_NewTX_def)
  show "wrote k1 i UNIV k1 (kv_view kv)" using wrote_refl[OF DB_NewTX_sees(1)[OF assms(1,2) n(1)]] n(2) by simp
  show "tx_fits k1 i" using NewTX_ok(5)[OF assms] by (simp add: tx_fits_def)
qed

lemma applyBatch_ok:
  assumes inv: "store_inv kv pend" and op: "\<not> kv_closed kv" and a: "applyBatch cl muts kv = (kv', r)"
  shows "outcome muts kv pend kv' r"
proof -
  obtain k1 i where n: "KV_NewTX kv = (k1, i)" by fastforce
  obtain k r1 where b: "batch_muts i muts False k1 = (k, r1)" by fastforce
  note w = new_tx_wrote[OF inv op n]
  note B = batch_muts_ok[OF inv op n w(1) b]
  consider (fin) upd where "r1 = Inr (Some upd)" | (rejected) "r1 = Inr None" | (panic) e where "r1 = Inl e" by (cases r1) auto
  then show ?thesis
  proof cases
    case fin
    then obtain c where c: "muts_effect muts False (kv_view kv) = Some (upd, c)" "wrote k1 i UNIV k c" "tx_fits k1 i \<and> list_all mut_fits muts \<longrightarrow> tx_fits k i"
      using B by auto
    show ?thesis by (rule commit_outcome[OF inv op n c(2,1)]) (use c(3) w(2) a n b fin in \<open>auto simp: applyBatch_def\<close>)
  next
    case rejected
    then show ?thesis using B a n b by (auto simp: applyBatch_def outcome_def same_store_def step_of_def)
  next
    case panic
    then show ?thesis using B a n b by (auto simp: applyBatch_def outcome_def same_store_def)
  qed
qed

text \<open>A single mutation runs like a batch of one.\<close>

lemma or_fatal_commit:
  "or_fatal msg (abortOrCommit cl i (k, Inr b)) =
     (case KVTX_Commit cl i k of (kv, Inl e) \<Rightarrow> (kv, Inl (fatal msg)) | (kv, Inr _) \<Rightarrow> (kv, Inr (updated_result b)))"
  by (simp add: or_fatal_def abortOrCommit_def sbind_def split: prod.splits sum.splits)

lemma single_put_ok:
  assumes inv: "store_inv kv pend" and op: "\<not> kv_closed kv" and m: "mu_Op m = OpPut" "mu_Mode m \<in> {1, 2, 3}"
    and a: "or_fatal msg (KV_SetEx cl (mu_Key m) (mu_Val m) (mu_Mode m) kv) = (kv', r)"
  shows "outcome [m] kv pend kv' r"
proof -
  obtain k1 i where n: "KV_NewTX kv = (k1, i)" by fastforce
  note w = new_tx_wrote[OF inv op n] and N = NewTX_ok[OF inv op n]
  have i1: "i \<in> set (kv_ongoing k1)" using N(9) by simp
  let ?c = "kv_view kv"
  define b where "b = (case ?c (mu_Key m) of None \<Rightarrow> mu_Mode m \<noteq> 3 | Some old \<Rightarrow> mu_Mode m \<noteq> 2 \<and> old \<noteq> mu_Val m)"
  have mw: "mode_writes (mu_Mode m) (?c (mu_Key m)) (mu_Val m) = Some b" unfolding b_def by (rule updateMode_writes(3)[OF m(2)])
  obtain k where k: "KVTX_SetEx i (mu_Key m) (mu_Val m) (mu_Mode m) k1 = (k, Inr b)" "wrote k1 i UNIV k (if b then ?c(mu_Key m \<mapsto> mu_Val m) else ?c)"
    "tx_fits k1 i \<Longrightarrow> length (mu_Key m) + length (mu_Val m) \<le> MaxEntrySize \<Longrightarrow> tx_fits k i"
    using put_step[OF N(2) i1 w(1), of "mu_Key m" "mu_Val m" "mu_Mode m"] unfolding mw by auto
  have e: "muts_effect [m] False ?c = Some (b, if b then ?c(mu_Key m \<mapsto> mu_Val m) else ?c)" using m by (simp add: mut_effect_def b_def Let_def)
  have "or_fatal msg (abortOrCommit cl i (k, Inr b)) = (kv', r)" using a n k(1) by (simp add: KV_SetEx_def)
  then show ?thesis by (intro commit_outcome[OF inv op n k(2) e]) (use k(3) w(2) in \<open>simp_all add: mut_fits_def or_fatal_commit\<close>)
qed

lemma single_del_ok:
  assumes inv: "store_inv kv pend" and op: "\<not> kv_closed kv" and m: "mu_Op m = OpDel"
    and a: "or_fatal msg (KV_Del cl (mu_Key m) kv) = (kv', r)"
  shows "outcome [m] kv pend kv' r"
proof -
  obtain k1 i where n: "KV_NewTX kv = (k1, i)" by fastforce
  note w = new_tx_wrote[OF inv op n] and N = NewTX_ok[OF inv op n]
  have i1: "i \<in> set (kv_ongoing k1)" using N(9) by simp
  obtain k where k: "KVTX_Del i (mu_Key m) k1 = (k, Inr (mu_Key m \<in> dom (kv_view kv)))" "wrote k1 i UNIV k ((kv_view kv)(mu_Key m := None))"
    "tx_fits k1 i \<Longrightarrow> length (mu_Key m) \<le> MaxEntrySize \<Longrightarrow> tx_fits k i" using del_step[OF N(2) i1 w(1)] by blast
  have e: "muts_effect [m] False (kv_view kv) = Some (mu_Key m \<in> dom (kv_view kv), (kv_view kv)(mu_Key m := None))" using m by (simp add: mut_effect_def)
  have "or_fatal msg (abortOrCommit cl i (k, Inr (mu_Key m \<in> dom (kv_view kv)))) = (kv', r)" using a n k(1) by (simp add: KV_Del_def)
  then show ?thesis by (intro commit_outcome[OF inv op n k(2) e]) (use k(3) w(2) in \<open>simp_all add: mut_fits_def or_fatal_commit\<close>)
qed

text \<open>A replica that serves: its store is open and whole.\<close>

definition serving :: "'c FSM \<Rightarrow> nat list \<Rightarrow> bool" where
  "serving f pend \<longleftrightarrow> store_inv (fsm_store f) pend \<and> \<not> kv_closed (fsm_store f) \<and> \<not> fsm_closed f"

abbreviation contents :: "'c FSM \<Rightarrow> bytes \<rightharpoonup> bytes" where
  "contents f \<equiv> kv_view (fsm_store f)"

lemma applyCommand_ok:
  assumes s: "serving f pend" and cmd: "snd (opCode (cm_Op cmd))" and a: "applyCommand cl cmd f = (f', r)"
  shows "outcome (Mutations cmd) (fsm_store f) pend (fsm_store f') r" and "fsm_closed f' = fsm_closed f" and "fsm_applied f' = fsm_applied f"
proof -
  have S: "store_inv (fsm_store f) pend" "\<not> kv_closed (fsm_store f)" "\<not> fsm_closed f" using s by (auto simp: serving_def)
  have sg: "mu_Op (single cmd) = cm_Op cmd" "mu_Key (single cmd) = cm_Key cmd" "mu_Val (single cmd) = cm_Val cmd" "mu_Mode (single cmd) = cm_Mode cmd"
    by (simp_all add: single_def)
  show "fsm_closed f' = fsm_closed f" "fsm_applied f' = fsm_applied f" using a S(3) by (auto simp: applyCommand_def split: prod.splits)
  consider (bad) "cm_Op cmd = OpPut" "cm_Mode cmd \<notin> {1, 2, 3}" | (put) "cm_Op cmd = OpPut" "cm_Mode cmd \<in> {1, 2, 3}"
    | (del) "cm_Op cmd = OpDel" | (batch) "cm_Op cmd = OpBatch" using cmd by (auto simp: opCode_def split: if_splits)
  then show "outcome (Mutations cmd) (fsm_store f) pend (fsm_store f') r"
  proof cases
    case bad
    then have "updateMode (cm_Mode cmd) = None" using updateMode_writes(1) by blast
    then have "f' = f" "r = Inr invalid_mode" using a bad(1) S(3) by (auto simp: applyCommand_def)
    then show ?thesis using S(1) bad by (auto simp: outcome_def step_of_def Mutations_def mut_effect_def sg)
  next
    case put
    have um: "updateMode (cm_Mode cmd) = Some (cm_Mode cmd)" using put(2) updateMode_writes(1,2) by (cases "updateMode (cm_Mode cmd)") blast+
    have "or_fatal ''put'' (KV_SetEx cl (mu_Key (single cmd)) (mu_Val (single cmd)) (mu_Mode (single cmd)) (fsm_store f)) = (fsm_store f', r)"
      using a put(1) um S(3) by (auto simp: applyCommand_def sg split: prod.splits)
    from single_put_ok[OF S(1,2) _ _ this] show ?thesis using put by (simp add: Mutations_def sg)
  next
    case del
    have "or_fatal ''delete'' (KV_Del cl (mu_Key (single cmd)) (fsm_store f)) = (fsm_store f', r)"
      using a del S(3) by (auto simp: applyCommand_def sg split: prod.splits)
    from single_del_ok[OF S(1,2) _ this] show ?thesis using del by (simp add: Mutations_def sg)
  next
    case batch
    have "applyBatch cl (cm_Batch cmd) (fsm_store f) = (fsm_store f', r)" using a batch S(3) by (auto simp: applyCommand_def split: prod.splits)
    from applyBatch_ok[OF S(1,2) this] show ?thesis using batch by (simp add: Mutations_def)
  qed
qed

lemma decodeMutationBody_op: "decodeMutationBody op buf = Inr (m, rest) \<Longrightarrow> mu_Op m = op"
  by (auto simp: decodeMutationBody_def Let_def split: sum.splits prod.splits if_splits)

lemma opFromCode_op: "opFromCode c = (op, True) \<Longrightarrow> snd (opCode op)"
  by (auto simp: opFromCode_def opCode_def split: if_splits)

lemma DecodeCommand_op: "DecodeCommand data = Inr cmd \<Longrightarrow> snd (opCode (cm_Op cmd))"
proof -
  assume d: "DecodeCommand data = Inr cmd"
  then consider "decodeLegacyJSON data = Inr cmd" | "decodeBinary data = Inr cmd" by (auto simp: DecodeCommand_def split: list.splits if_splits)
  then show ?thesis
  proof cases
    case 1
    then show ?thesis by (auto simp: decodeLegacyJSON_def split: sum.splits if_splits)
  next
    case 2
    then show ?thesis
      by (auto simp: decodeBinary_def Let_def NewBatchCommand_def opCode_def dest!: decodeMutationBody_op opFromCode_op
          split: if_splits sum.splits prod.splits)
  qed
qed

lemma FSM_Apply_ok:
  assumes s: "serving f pend" and d: "DecodeCommand (rl_Data log) = Inr cmd" and a: "FSM_Apply cl log f = (f', r)"
  shows "serving f' pend \<and>
    (case r of Inr res \<Rightarrow> (res, contents f') = step_of (Mutations cmd) (contents f) \<and> fsm_applied f' = max (fsm_applied f) (rl_Index log)
     | Inl e \<Rightarrow> is_panic e \<and> contents f' = contents f \<and> fsm_applied f' = fsm_applied f) \<and>
    (\<forall>fp. history_ok (fsm_store f) \<and> l_fp (kv_log (fsm_store f)) = Some fp \<and> f_faults fp = [] \<and>
       list_all mut_fits (Mutations cmd) \<and> list_all known_op (Mutations cmd) \<longrightarrow> \<not> isl r)"
proof -
  obtain f1 r1 where c: "applyCommand cl cmd f = (f1, r1)" by fastforce
  note A = applyCommand_ok[OF s DecodeCommand_op[OF d] c]
  have f': "f' = (if isl r1 then f1 else advanceApplied (rl_Index log) f1)" "r = r1"
    using a d c by (auto simp: FSM_Apply_def sbind_def split: sum.splits)
  have adv: "fsm_store (advanceApplied i f1) = fsm_store f1" "fsm_closed (advanceApplied i f1) = fsm_closed f1"
    "fsm_applied (advanceApplied i f1) = max (fsm_applied f1) i" for i by (auto simp: advanceApplied_def max_def)
  show ?thesis using A s unfolding f' by (auto simp: outcome_def serving_def adv split: sum.splits)
qed

text \<open>
  C36: applying a committed entry is a step of the state machine.  On a serving replica an
  entry that decodes yields the result and the contents that the command alone determines from the
  old contents, all mutations of a batch or none, and advances the applied index.  The only
  alternative is that the process aborts, with the old contents; it does not abort when the log file
  takes writes and the mutations are known and within the record size.
\<close>

theorem apply_refines:
  assumes s: "serving f pend" and d: "DecodeCommand (rl_Data log) = Inr cmd" and a: "FSM_Apply cl log f = (f', r)"
  shows "serving f' pend \<and>
    (case r of Inr res \<Rightarrow> (res, contents f') = step_of (Mutations cmd) (contents f) \<and> fsm_applied f' = max (fsm_applied f) (rl_Index log)
     | Inl e \<Rightarrow> is_panic e \<and> contents f' = contents f \<and> fsm_applied f' = fsm_applied f) \<and>
    (\<forall>fp. history_ok (fsm_store f) \<and> l_fp (kv_log (fsm_store f)) = Some fp \<and> f_faults fp = [] \<and>
       list_all mut_fits (Mutations cmd) \<and> list_all known_op (Mutations cmd) \<longrightarrow> \<not> isl r)"
  by (rule FSM_Apply_ok[OF s d a])

definition demo_fsm :: "unit FSM" where
  "demo_fsm = \<lparr>fsm_store = demo_db, fsm_closed = False, fsm_applied = 4\<rparr>"

definition demo_log_entry :: raft_Log where
  "demo_log_entry = \<lparr>rl_Index = 7, rl_Data = [0xC1, 1, 1, 1, 107, 1, 118, 1]\<rparr>"

lemma demo_serving: "serving demo_fsm []"
  by (simp add: serving_def demo_fsm_def demo_store_ok)

theorem apply_refines_witness:
  "\<exists>f'. FSM_Apply no_cache demo_log_entry demo_fsm = (f', Inr (updated_result True)) \<and> contents f' = [[107] \<mapsto> [118]] \<and> fsm_applied f' = 7"
proof -
  let ?cmd = "\<lparr>cm_Op = OpPut, cm_Key = [107], cm_Val = [118], cm_Mode = 1, cm_Batch = []\<rparr>"
  have d: "DecodeCommand (rl_Data demo_log_entry) = Inr ?cmd"
    by (simp add: DecodeCommand_def demo_log_entry_def commandMagic_def legacyJSONPrefix_def decodeBinary_def CommandVersion_def opFromCode_def
        opCodePut_def decodeMutationBody_def decodeBytes_def Uvarint_def MaxKeyLen_def MaxValueLen_def nth_Cons_numeral)
  obtain f' r where a: "FSM_Apply no_cache demo_log_entry demo_fsm = (f', r)" by fastforce
  obtain fp where "l_fp (fst (Log_Open (clean []))) = Some fp" "f_faults fp = []" using Log_Open_demo_sel(2) by blast
  then have c: "history_ok (fsm_store demo_fsm) \<and> l_fp (kv_log (fsm_store demo_fsm)) = Some fp \<and> f_faults fp = [] \<and>
      list_all mut_fits (Mutations ?cmd) \<and> list_all known_op (Mutations ?cmd)"
    by (simp add: demo_fsm_def demo_store_ok Mutations_def single_def mut_fits_def known_op_def MaxEntrySize_def)
  note A = apply_refines[OF demo_serving d a]
  then obtain res where r: "r = Inr res" using c by (cases r) auto
  have "step_of (Mutations ?cmd) (contents demo_fsm) = (updated_result True, [[107] \<mapsto> [118]])"
    by (simp add: step_of_def Mutations_def single_def mut_effect_def demo_fsm_def demo_store_ok)
  then show ?thesis using A a r by (auto simp: demo_fsm_def demo_log_entry_def)
qed

section \<open>A log of commands\<close>

lemma FSM_Apply_decodes: "FSM_Apply cl l f = (f', Inr res) \<Longrightarrow> \<exists>cmd. DecodeCommand (rl_Data l) = Inr cmd"
  by (auto simp: FSM_Apply_def split: sum.splits)

lemma apply_log_run:
  assumes "serving f pend" and "apply_log cl ls f = (f', out)"
  shows "serving f' pend \<and> (case out of
      Inr rs \<Rightarrow> (rs, contents f') = sm_log ls (contents f) \<and> fsm_applied f' = fold max (map rl_Index ls) (fsm_applied f)
    | Inl e \<Rightarrow> is_panic e \<and> (\<exists>n<length ls. contents f' = snd (sm_log (take n ls) (contents f))))"
  using assms
proof (induction ls arbitrary: f out)
  case (Cons l ls)
  obtain f1 r1 where a: "FSM_Apply cl l f = (f1, r1)" by fastforce
  have none: "\<exists>n<length (l # ls). contents f = snd (sm_log (take n (l # ls)) (contents f))" by (intro exI[of _ 0]) simp
  show ?case
  proof (cases "DecodeCommand (rl_Data l)")
    case (Inl e)
    then have "f1 = f" "r1 = Inl (fatalUndecodable e)" using a by (auto simp: FSM_Apply_def)
    then show ?thesis using Cons.prems a none by (auto simp: fatalUndecodable_def fatal_def)
  next
    case (Inr cmd)
    note A = FSM_Apply_ok[OF Cons.prems(1) Inr a]
    show ?thesis
    proof (cases r1)
      case (Inl e)
      then show ?thesis using A Cons.prems(2) a none by auto
    next
      case r1: (Inr res)
      obtain out2 where l: "apply_log cl ls f1 = (f', out2)" using Cons.prems(2) a r1 by (auto simp: sbind_def split: sum.splits prod.splits)
      have step: "step_of (Mutations cmd) (contents f) = (res, contents f1)" "fsm_applied f1 = max (fsm_applied f) (rl_Index l)" using A r1 by auto
      note IH = Cons.IH[OF _ l]
      have "\<exists>n<length (l # ls). contents f' = snd (sm_log (take n (l # ls)) (contents f))" if "n < length ls" "contents f' = snd (sm_log (take n ls) (contents f1))" for n
        using that Inr step(1) by (intro exI[of _ "Suc n"]) (simp split: prod.splits)
      then show ?thesis using IH A r1 a l Cons.prems(2) Inr step by (auto simp: max.commute split: sum.splits prod.splits)
    qed
  qed
qed simp

lemma apply_log_prefix: "apply_log cl (xs @ ys) f = (f', Inr rs) \<Longrightarrow> \<exists>f1 rs1. apply_log cl xs f = (f1, Inr rs1)"
proof (induction xs arbitrary: f rs)
  case (Cons x xs)
  obtain f1 r1 where x: "FSM_Apply cl x f = (f1, Inr r1)" using Cons.prems by (auto simp: sbind_def split: sum.splits prod.splits)
  then obtain rs2 where "apply_log cl (xs @ ys) f1 = (f', Inr rs2)" using Cons.prems by (auto simp: sbind_def split: sum.splits prod.splits)
  then show ?case using Cons.IH x by fastforce
qed simp

text \<open>
  C37: replicas that start with the same contents and apply the same log agree.  If both
  get through it they return the same results and end with the same contents and the same applied
  index, whatever their stores look like inside; one that aborts on the way holds the contents that
  the other had after some prefix of the log.
\<close>

theorem replicas_agree:
  assumes "serving f p" and "serving g q" and "contents f = contents g" and "fsm_applied f = fsm_applied g"
    and "apply_log cl ls f = (f', Inr rs)" and "apply_log cl' ls g = (g', out)"
  shows "case out of
      Inr rs' \<Rightarrow> rs' = rs \<and> contents g' = contents f' \<and> fsm_applied g' = fsm_applied f'
    | Inl e \<Rightarrow> is_panic e \<and> (\<exists>n<length ls. \<exists>f1 rs1. apply_log cl (take n ls) f = (f1, Inr rs1) \<and> contents g' = contents f1)"
proof (cases out)
  case (Inr rs')
  then show ?thesis using apply_log_run[OF assms(1,5)] apply_log_run[OF assms(2,6)] assms(3,4) by (auto simp: prod_eq_iff)
next
  case (Inl e)
  then obtain n where n: "is_panic e" "n < length ls" "contents g' = snd (sm_log (take n ls) (contents g))"
    using apply_log_run[OF assms(2,6)] by auto
  obtain f1 rs1 where f1: "apply_log cl (take n ls) f = (f1, Inr rs1)" using apply_log_prefix[of cl "take n ls" "drop n ls" f f' rs] assms(5) by auto
  have "contents f1 = snd (sm_log (take n ls) (contents f))" using apply_log_run[OF assms(1) f1] by (auto simp: prod_eq_iff)
  then show ?thesis using Inl n f1 assms(3) by auto
qed

text \<open>A replica with another log file.\<close>

definition other_fsm :: "unit FSM" where
  "other_fsm = demo_fsm\<lparr>fsm_store := demo_kv (fst (Log_Open (clean [0, 1]))) empty_array 0 [] [] []\<rparr>"

theorem replicas_agree_witness:
  "\<exists>f' g' rs. apply_log no_cache [demo_log_entry\<lparr>rl_Data := [0xC1, 1, 1, 1, 107, 1, 118, 9]\<rparr>] demo_fsm = (f', Inr rs) \<and> rs = [invalid_mode] \<and>
     apply_log no_cache [demo_log_entry\<lparr>rl_Data := [0xC1, 1, 1, 1, 107, 1, 118, 9]\<rparr>] other_fsm = (g', Inr rs) \<and> contents g' = contents f'"
proof -
  let ?l = "demo_log_entry\<lparr>rl_Data := [0xC1, 1, 1, 1, 107, 1, 118, 9]\<rparr>"
  have "DecodeCommand (rl_Data ?l) = Inr \<lparr>cm_Op = OpPut, cm_Key = [107], cm_Val = [118], cm_Mode = 9, cm_Batch = []\<rparr>"
    by (simp add: DecodeCommand_def demo_log_entry_def commandMagic_def legacyJSONPrefix_def decodeBinary_def CommandVersion_def opFromCode_def
        opCodePut_def decodeMutationBody_def decodeBytes_def Uvarint_def MaxKeyLen_def MaxValueLen_def nth_Cons_numeral)
  then have run: "\<exists>f'. apply_log no_cache [?l] f = (f', Inr [invalid_mode])" if "\<not> fsm_closed f" for f :: "unit FSM"
    using that by (simp add: FSM_Apply_def applyCommand_def updateMode_def ModeUpsert_def ModeUpdate_def)
  have g: "serving other_fsm []" by (simp add: serving_def demo_fsm_def other_fsm_def demo_store_ok)
  obtain f' where f': "apply_log no_cache [?l] demo_fsm = (f', Inr [invalid_mode])" using run[of demo_fsm] demo_serving unfolding serving_def by blast
  obtain g' where g': "apply_log no_cache [?l] other_fsm = (g', Inr [invalid_mode])"
    using run[of other_fsm] g unfolding serving_def by blast
  have "contents g' = contents f'" using replicas_agree[OF demo_serving g _ _ f' g'] by (simp add: demo_fsm_def other_fsm_def demo_store_ok)
  then show ?thesis using f' g' by blast
qed

section \<open>An entry no replica can apply\<close>

lemma Log_tx_too_large: "\<not> entry_fits e \<Longrightarrow> isl (snd (Log_tx log [e]))"
  by (simp add: Log_tx_def Log_Write_def Entry_Encode_eq entry_fits_def Let_def split: prod.splits)

lemma KV_SetEx_too_large:
  assumes inv: "store_inv kv pend" and op: "\<not> kv_closed kv" and w: "mode_writes mode (kv_view kv key) val = Some True"
    and l: "MaxEntrySize < length key + length val"
  shows "isl (snd (KV_SetEx cl key val mode kv))"
proof -
  obtain k1 i where n: "KV_NewTX kv = (k1, i)" by fastforce
  note N = NewTX_ok[OF inv op n]
  have i1: "i \<in> set (kv_ongoing k1)" using N(9) by simp
  have get: "KVTX_Get k1 i key = Inr (kv_view kv key)" using tx_Get[OF N(2) i1, of key] N(4,5) by simp
  obtain k where s: "KVTX_SetEx i key val mode k1 = (k, Inr True)" using SetEx_step[OF get, of val mode] w by simp
  have "\<exists>u. arr_wf u \<and> arr_map u = [key \<mapsto> (val, False)] \<and> k = with_updates i u k1" using SetEx_cases[OF N(2) i1 s] N(5) by simp
  then obtain u where u: "arr_wf u" "arr_map u = [key \<mapsto> (val, False)]" "k = with_updates i u k1" by blast
  have ent: "arr_entries u = [(key, val, False)]" using arr_entries_eq[OF u(1)] u(2) by (simp add: sorted_entries_def)
  have wi: "store_inv k pend" "tx_updates (tx_of k i) = u" "i \<in> set (kv_ongoing k)"
    using with_updates_inv[OF N(2) i1 u(1)] u(3) i1 by (simp_all add: with_updates_def)
  have t: "tx_target (tx_of k i) = TKV" "tx_err (tx_of k i) = None" using store_invE(7)[OF wi(1,3)] by (simp_all add: tx_inv_def)
  have "arr_entries u \<noteq> []" using ent by simp
  then have sz: "Array_Size u \<noteq> 0" by (auto simp: Array_Size_def arr_entries_def)
  have "\<not> entry_fits (entry_of (key, val, False))" using l by (simp add: entry_fits_def entry_of_def)
  then obtain lg e where lg: "Log_tx (kv_log k) (map entry_of (arr_entries (tx_updates (tx_of k i)))) = (lg, Inl e)"
    using Log_tx_too_large[of "entry_of (key, val, False)" "kv_log k"] wi(2) ent
    by (cases "Log_tx (kv_log k) [entry_of (key, val, False)]") (auto simp: isl_def)
  have "\<exists>kl e. KV_commitLog i k = (kl, Inl e) \<and> kv_ongoing kl = kv_ongoing k \<and> store_inv kl pend"
    using wi(1) lg by (cases "KV_checkTXConflict k i") (simp_all add: KV_commitLog_def KV_updateLog_def)
  then obtain kl e where cl1: "KV_commitLog i k = (kl, Inl e)" "kv_ongoing kl = kv_ongoing k" "store_inv kl pend" by blast
  obtain k3 where "KV_untrackTXSync i kl = (k3, Inr ())" using untrack_ok[OF cl1(3)] wi(3) cl1(2) by metis
  then have "KVTX_Commit cl i k = (k3, Inl e)" using t wi(2) sz cl1(1) by (simp add: KVTX_Commit_def KV_applyTXSync_def)
  then show ?thesis using n s by (simp add: KV_SetEx_def abortOrCommit_def)
qed

text \<open>
  C38: the limits of the command encoding admit puts that the storage engine cannot
  log.  A put whose key and value together exceed the record size, though each is within its limit,
  is encoded and replicated, and then aborts every replica that would write it: on each of them
  applying the entry panics and leaves the contents as they were.
\<close>

theorem oversized_put_aborts:
  assumes s: "serving f pend" and e: "EncodeCommand cmd = Inr (rl_Data log)" and c: "cm_Op cmd = OpPut" "cm_Mode cmd \<in> {1, 2, 3}"
    and w: "mut_effect (single cmd) (contents f) = Some (True, c')" and l: "MaxEntrySize < length (cm_Key cmd) + length (cm_Val cmd)"
  shows "\<exists>f' e. FSM_Apply cl log f = (f', Inl e) \<and> is_panic e \<and> contents f' = contents f"
proof -
  have m: "Mutations cmd = [single cmd]" using c(1) by (simp add: Mutations_def)
  have "DecodeCommand (rl_Data log) = Inr (wire_command cmd)"
    using decode_encode[OF e] c m by (auto simp: absurd_def single_def)
  moreover have wc: "wire_command cmd = cmd\<lparr>cm_Batch := []\<rparr>" using c(1) by (simp add: wire_command_def)
  ultimately have d: "DecodeCommand (rl_Data log) = Inr (cmd\<lparr>cm_Batch := []\<rparr>)" by simp
  have S: "store_inv (fsm_store f) pend" "\<not> kv_closed (fsm_store f)" "\<not> fsm_closed f" using s by (auto simp: serving_def)
  have um: "updateMode (cm_Mode cmd) = Some (cm_Mode cmd)" using c(2) updateMode_writes(1,2) by (cases "updateMode (cm_Mode cmd)") blast+
  have "mode_writes (cm_Mode cmd) (contents f (cm_Key cmd)) (cm_Val cmd) = Some True"
    using w c unfolding updateMode_writes(3)[OF c(2)] by (auto simp: mut_effect_def single_def Let_def split: if_splits option.splits)
  then obtain kv e where x: "KV_SetEx cl (cm_Key cmd) (cm_Val cmd) (cm_Mode cmd) (fsm_store f) = (kv, Inl e)"
    using KV_SetEx_too_large[OF S(1,2) _ l, of "cm_Mode cmd" cl]
    by (cases "KV_SetEx cl (cm_Key cmd) (cm_Val cmd) (cm_Mode cmd) (fsm_store f)") (auto simp: isl_def)
  then have a: "FSM_Apply cl log f = (f\<lparr>fsm_store := kv\<rparr>, Inl (fatal ''put''))"
    using d um c(1) S(3) by (simp add: FSM_Apply_def applyCommand_def or_fatal_def)
  show ?thesis using FSM_Apply_ok[OF s d a] a by (auto simp: fatal_def)
qed

definition huge_put :: Command where
  "huge_put = \<lparr>cm_Op = OpPut, cm_Key = [107], cm_Val = replicate MaxValueLen 0, cm_Mode = 1, cm_Batch = []\<rparr>"

theorem oversized_put_aborts_witness:
  "\<exists>data f' e. EncodeCommand huge_put = Inr data \<and> FSM_Apply no_cache (demo_log_entry\<lparr>rl_Data := data\<rparr>) demo_fsm = (f', Inl e) \<and> is_panic e"
proof -
  have len: "length (replicate MaxValueLen (0 :: byte)) \<le> MaxValueLen" by simp
  obtain data where d: "EncodeCommand huge_put = Inr data"
    by (simp add: EncodeCommand_def huge_put_def opCode_def validateMutation_def single_def MaxKeyLen_def Let_def)
  have w: "mut_effect (single huge_put) (contents demo_fsm) = Some (True, [[107] \<mapsto> replicate MaxValueLen 0])"
    by (simp add: mut_effect_def single_def huge_put_def demo_fsm_def demo_store_ok)
  have h: "cm_Op huge_put = OpPut" "cm_Mode huge_put \<in> {1, 2, 3}" "MaxEntrySize < length (cm_Key huge_put) + length (cm_Val huge_put)"
    by (simp_all add: huge_put_def MaxEntrySize_def MaxValueLen_def)
  have e: "EncodeCommand huge_put = Inr (rl_Data (demo_log_entry\<lparr>rl_Data := data\<rparr>))" using d by simp
  show ?thesis using oversized_put_aborts[OF demo_serving e h(1,2) w h(3), of no_cache] d by blast
qed

end
