(* ===== verification/Spec2Isabelle.thy ===== *)
theory Spec2Isabelle
  imports Cell StoreOps StmtOk SqlRound ExprSem Fsm
begin

text \<open>
  PallasDB, a key-value store with transactions, a relational layer with SQL on top of it, and a
  replicated state machine: a verification of the storage engine (\<open>src/db\<close>) and of the commands
  and the state machine of the cluster (\<open>src/cluster/command.go\<close>, \<open>src/cluster/fsm.go\<close>).

  \<^bold>\<open>The program and the theories.\<close>  The parts build on each other as in the source.

  \<^item> \<open>Prelude\<close>: bytes as \<^typ>\<open>8 word\<close>, results as a sum of an error and a value, state passing
    (\<open>rbind\<close>, \<open>sbind\<close>), the slice functions of Go, sorted key lists.  Panics are error values.
  \<^item> \<open>Binary\<close>, \<open>Strconv\<close>, \<open>Json\<close>: what the source uses of \<open>encoding/binary\<close>, \<open>hash/crc32\<close>, \<open>strconv\<close>
    and \<open>encoding/json\<close>, with round trips.
  \<^item> \<open>Cell\<close> (\<open>db/cell.go\<close>): the two encodings of typed cells; the key encoding keeps the order, is
    prefix-free and is inverted by its decoder.
  \<^item> \<open>Files\<close>: a file is its content, its synced content, the operations since the last sync and a
    schedule of I/O faults; a crash keeps the synced content and any part of each later operation,
    with arbitrary bytes in the range of a torn write.
  \<^item> \<open>Entry\<close> (\<open>db/kv_entry.go\<close>) and \<open>WAL\<close> (\<open>db/log.go\<close>): log records and the write-ahead log with its
    sequence floor.  Under any faults and crashes, replay returns the acknowledged transactions in
    order and only committed records of an increasing run; a truncation is not undone; replay ends.
  \<^item> \<open>Cursor\<close>, \<open>SortedArray\<close> (\<open>db/sorted_array.go\<close>), \<open>Merge\<close> and \<open>Scan\<close> (\<open>db/merge.go\<close>),
    \<open>SortedFile\<close> and \<open>Levels\<close> (\<open>db/sorted_file.go\<close>): the iterator contract as locales (\<open>fwd_iter\<close>,
    \<open>kv_iter\<close>, \<open>fwd_source\<close>, \<open>kv_source\<close>), interpreted on the memtable, on tables and on stacks of
    levels; each refines a map, newest level first.
  \<^item> \<open>Meta\<close> (\<open>db/metadata.go\<close>): the two metadata slots and what a crash leaves of an update.
  \<^item> \<open>Store\<close>, \<open>Compact\<close> (\<open>db/kv.go\<close>): the store, its transactions and its compaction, one definition
    for each critical section of the code.  \<open>StoreInv\<close> and \<open>CompactInv\<close> hold the invariant (levels,
    reference counts, snapshots) and its preservation; \<open>StoreRun\<close> the step relation of all
    interleavings and its simulation by an abstract store with snapshot isolation; \<open>StoreOps\<close> the
    contracts of the single operations.
  \<^item> \<open>Row\<close> (\<open>db/row.go\<close>): schemas, rows and their keys; the locale \<open>row_codec\<close>.
  \<^item> \<open>Expr\<close> (\<open>db/eval.go\<close>): evaluation with the depth cap and static types; \<open>ExprSem\<close>: a big-step
    semantics over mathematical values that does not mention the evaluator, and their equivalence.
  \<^item> \<open>Sql\<close>, \<open>SqlTerm\<close>, \<open>SqlPrint\<close>, \<open>SqlRound\<close> (\<open>db/sql_parser.go\<close>): the parser, that it returns on
    every input, a printer, and that printed statements are read back.
  \<^item> \<open>Plan\<close>, \<open>PlanOk\<close> (\<open>db/table.go\<close>): the planner, and that a plan means its condition.
  \<^item> \<open>Catalog\<close>, \<open>Table\<close>, \<open>TxView\<close>, \<open>TableInv\<close>, \<open>TableScan\<close>, \<open>Exec\<close> (\<open>db/table.go\<close>): catalogue, row
    operations, scans and statements.  A table is the set of its rows: the entries of every index
    are exactly those of the rows (\<open>table_holds\<close>), kept by every operation (the locale \<open>row_change\<close>).
    \<open>SelectOk\<close>, \<open>MutateOk\<close> and \<open>StmtOk\<close> show what SELECT, INSERT, UPDATE, DELETE and CREATE TABLE do.
  \<^item> \<open>Command\<close> (\<open>cluster/command.go\<close>) and \<open>Fsm\<close> (\<open>cluster/fsm.go\<close>): the encoding of replicated
    commands, and that applying a log is a run of an abstract state machine on the contents, so that
    replicas agree.

  \<^bold>\<open>Correspondence.\<close>  A Go struct is a record with prefixed fields, a method \<open>T.m\<close> a function \<open>T_m\<close>
  that takes the receiver and returns it updated.  Loops are recursive functions named after their
  method.  Objects that the code shares by pointer (transactions, tables) are positions in lists of
  the store.  Several properties show a defect of the code instead of a virtue; they are marked as
  errors in the manifest and each has a finding.

  \<^bold>\<open>Bounds and fuel.\<close>  The replay loop runs on the size of the file plus one, enough because every
  record takes at least one byte (\<open>openLog_loop_returns\<close>).  The parser runs on three steps for each
  level of the depth limit plus three, and its list loops on the length of the text; \<open>SqlTerm\<close> shows
  that none of it runs out.  Cursors, batches and skips over tombstones are partial functions; the
  theorems about them state that they return.  Sequence numbers of the log and lengths in files are
  words; a run of the log assumes that the sequence numbers are not used up.  The snapshot counter
  of the store, the metadata version and the number of affected rows are unbounded numbers in place
  of \<open>uint64\<close>: they start at zero and grow by one for each commit, flush or row.

  \<^bold>\<open>Parameters.\<close>  The Bloom filter library and the cache library are arguments of the definitions that
  use them; the filter law (a key that was added is reported) is an explicit hypothesis, and the cache
  obeys none.  The float comparison that decides on a merge is a parameter as well.

  \<^bold>\<open>Not modelled.\<close>  Opening a store as one sequence (options, sweep of orphaned tables, start of the
  compaction thread); errors from closing a table file or unlinking a retired one; the memory model
  below the critical sections; the race between filling the read cache in \<open>KV.Get\<close> and the
  invalidation that follows a commit (the model runs both at once, and \<open>KV.Get\<close> is not a step of the
  interleavings); a crash inside a truncation of the log before its header is durable.  Of the cluster:
  snapshots and restores, waiting for an applied index, node wiring, membership, transport and
  discovery, which run inside third-party libraries.  The gRPC server and client, the generated
  protocol code and the command line are I/O around the parts above.
\<close>

end
